(* ===== verification/Prelude.thy ===== *)
theory Prelude
  imports Complex_Main "HOL-Library.AList" "HOL-Library.Word"
    "HOL-Library.List_Lexorder" "HOL-Library.Char_ord"
    "HOL-Library.Multiset"
begin

text \<open>
  Shared vocabulary of the development: Go's \<open>time.Time\<close> and \<open>time.Duration\<close>, Go maps,
  slices used as sets, and \<open>sort.Search\<close>, with the lemmas the components reuse.

  An instant is the number of nanoseconds since the zero \<open>time.Time\<close> (January 1, year 1,
  00:00:00 UTC), so that \<open>IsZero\<close> is \<open>t = 0\<close> and \<open>Before\<close>/\<open>After\<close> are the order on
  integers.  Instants are unbounded integers (Go's range is wider than any input here);
  durations are bounded by 64 bits where the code can notice: \<open>Time.Sub\<close> saturates.
  Wall-clock locations and monotonic readings are not modelled.

  A Go map is an association list with distinct keys.  The order of the list means nothing:
  wherever the code ranges over a map and the order can be seen in the result, the definition
  takes the order of that range as an argument.
\<close>

section \<open>Collections of facts\<close>

named_theorems go_simps \<open>rewrite rules of the standard-library vocabulary\<close>
named_theorems inv_intros \<open>introduction rules of the components' invariants\<close>

section \<open>Time and duration\<close>

type_synonym time = int
type_synonym duration = int

abbreviation Millisecond :: duration where "Millisecond \<equiv> 1000000"
abbreviation Second :: duration where "Second \<equiv> 1000000000"
abbreviation Minute :: duration where "Minute \<equiv> 60000000000"
abbreviation Hour :: duration where "Hour \<equiv> 3600000000000"

abbreviation max_duration :: duration where "max_duration \<equiv> 9223372036854775807"
abbreviation min_duration :: duration where "min_duration \<equiv> - 9223372036854775808"

text \<open>Nanoseconds from the zero time to the Unix epoch.\<close>

abbreviation unix_epoch :: time where "unix_epoch \<equiv> 62135596800000000000"

abbreviation (input) is_zero :: "time \<Rightarrow> bool" where "is_zero t \<equiv> t = 0"

text \<open>\<open>Time.Sub\<close>: the difference, clamped to the range of a duration.\<close>

definition time_sub :: "time \<Rightarrow> time \<Rightarrow> duration" where
  "time_sub t u = max min_duration (min max_duration (t - u))"

text \<open>Two's complement reading of an integer as an \<open>int64\<close>.\<close>

definition int64 :: "int \<Rightarrow> int" where
  "int64 n = sint (word_of_int n :: 64 word)"

definition unix_nano :: "time \<Rightarrow> int" where
  "unix_nano t = int64 (t - unix_epoch)"

definition unix_sec :: "time \<Rightarrow> int" where
  "unix_sec t = (t - unix_epoch) div Second"

definition time_unix :: "int \<Rightarrow> int \<Rightarrow> time" where
  "time_unix sec nsec = unix_epoch + sec * Second + nsec"

lemma time_sub_ge [go_simps]:
  assumes "min_duration < d" and "d \<le> max_duration"
  shows "d \<le> time_sub t u \<longleftrightarrow> d \<le> t - u"
  using assms by (auto simp: time_sub_def)

lemma time_sub_gt [go_simps]:
  assumes "min_duration \<le> d" and "d < max_duration"
  shows "d < time_sub t u \<longleftrightarrow> d < t - u"
  using assms by (auto simp: time_sub_def)

lemma time_sub_mono: "t \<le> t' \<Longrightarrow> time_sub t u \<le> time_sub t' u"
  by (auto simp: time_sub_def)

lemma int64_signed_take_bit: "int64 n = signed_take_bit 63 n"
  by (simp add: int64_def signed_of_int)

lemma int64_id [go_simps]: "min_duration \<le> n \<Longrightarrow> n \<le> max_duration \<Longrightarrow> int64 n = n"
  by (simp add: int64_signed_take_bit signed_take_bit_int_eq_self)

lemma int64_range: "min_duration \<le> int64 n \<and> int64 n \<le> max_duration"
  using signed_take_bit_int_less_exp [of 63 n]
    signed_take_bit_int_greater_eq_minus_exp [of 63 n]
  by (simp add: int64_signed_take_bit)

section \<open>Go maps\<close>

type_synonym ('k, 'v) gomap = "('k \<times> 'v) list"

abbreviation gm_get :: "('k, 'v) gomap \<Rightarrow> 'k \<Rightarrow> 'v option" where
  "gm_get m k \<equiv> map_of m k"

abbreviation gm_set :: "'k \<Rightarrow> 'v \<Rightarrow> ('k, 'v) gomap \<Rightarrow> ('k, 'v) gomap" where
  "gm_set \<equiv> AList.update"

abbreviation gm_del :: "'k \<Rightarrow> ('k, 'v) gomap \<Rightarrow> ('k, 'v) gomap" where
  "gm_del \<equiv> AList.delete"

abbreviation gm_keys :: "('k, 'v) gomap \<Rightarrow> 'k list" where
  "gm_keys m \<equiv> map fst m"

abbreviation gm_wf :: "('k, 'v) gomap \<Rightarrow> bool" where
  "gm_wf m \<equiv> distinct (gm_keys m)"

text \<open>
  A range over a map, in the order the run-time picked: the keys of \<open>ord\<close> that the map holds,
  with their values.
\<close>

definition gm_range :: "'k list \<Rightarrow> ('k, 'v) gomap \<Rightarrow> ('k \<times> 'v) list" where
  "gm_range ord m = List.map_filter (\<lambda>k. map_option (Pair k) (gm_get m k)) ord"

text \<open>An order a range may take: each key of the map once.\<close>

definition gm_order :: "'k list \<Rightarrow> ('k, 'v) gomap \<Rightarrow> bool" where
  "gm_order ord m \<longleftrightarrow> distinct ord \<and> set ord = set (gm_keys m)"

text \<open>
  The order the run-time picks, as an argument that is always good: a list of keys that is not
  an order of the map stands for the order the entries are stored in.
\<close>

definition gm_pick :: "'k list \<Rightarrow> ('k, 'v) gomap \<Rightarrow> ('k, 'v) gomap" where
  "gm_pick ord m = (if gm_order ord m then gm_range ord m else m)"

lemma gm_get_set [simp, go_simps]: "gm_get (gm_set k v m) k' = (if k' = k then Some v else gm_get m k')"
  by (simp add: update_conv')

lemma gm_get_del [simp, go_simps]: "gm_get (gm_del k m) k' = (if k' = k then None else gm_get m k')"
  by (simp add: delete_conv')

lemma gm_wf_set [simp, intro, inv_intros]: "gm_wf m \<Longrightarrow> gm_wf (gm_set k v m)"
  by (rule distinct_update)

lemma gm_wf_del [simp, intro, inv_intros]: "gm_wf m \<Longrightarrow> gm_wf (gm_del k m)"
  by (rule distinct_delete)

lemma gm_wf_filter [simp, intro, inv_intros]: "gm_wf m \<Longrightarrow> gm_wf (filter P m)"
  by (simp add: distinct_map_filter)

lemma gm_in_set: "gm_wf m \<Longrightarrow> (k, v) \<in> set m \<longleftrightarrow> gm_get m k = Some v"
  by simp

lemma gm_get_filter [go_simps]:
  "gm_wf m \<Longrightarrow> gm_get (filter (\<lambda>(k, v). P k v) m) k
     = (case gm_get m k of None \<Rightarrow> None | Some v \<Rightarrow> if P k v then Some v else None)"
proof (induction m)
  case Nil
  then show ?case by simp
next
  case (Cons kv m)
  then have "gm_get m (fst kv) = None" by (simp add: map_of_eq_None_iff)
  with Cons show ?case by (cases kv) (auto split: option.splits)
qed

lemma gm_set_entries: "set (gm_set k v m) \<subseteq> insert (k, v) (set m)"
  by (induction m) auto

lemma gm_set_values: "(k', v') \<in> set (gm_set k v m) \<Longrightarrow> v' = v \<or> (k', v') \<in> set m"
  using gm_set_entries [of k v m] by auto

lemma gm_set_new: "k \<notin> set (gm_keys m) \<Longrightarrow> gm_set k v m = m @ [(k, v)]"
  by (induction m) auto

lemma gm_del_entries: "set (gm_del k m) \<subseteq> set m"
  by (induction m) auto

lemma gm_keys_set [go_simps]: "set (gm_keys (gm_set k v m)) = insert k (set (gm_keys m))"
  by (simp add: dom_update)

lemma gm_keys_del [go_simps]: "set (gm_keys (gm_del k m)) = set (gm_keys m) - {k}"
  by (simp add: delete_keys)

lemma gm_range_set:
  assumes "gm_wf m" and "gm_order ord m"
  shows "set (gm_range ord m) = set m"
proof -
  have "set (gm_range ord m) = {(k, v). k \<in> set ord \<and> gm_get m k = Some v}"
    by (auto simp: gm_range_def List.map_filter_def image_iff split: option.splits) force
  also have "\<dots> = {(k, v). gm_get m k = Some v}"
    using assms(2) by (auto simp: gm_order_def dest: map_of_SomeD intro: rev_image_eqI)
  also have "\<dots> = set m" using assms(1) by auto
  finally show ?thesis .
qed

lemma gm_range_distinct: "distinct ord \<Longrightarrow> gm_wf (gm_range ord m)"
proof (induction ord)
  case Nil
  then show ?case by (simp add: gm_range_def List.map_filter_def)
next
  case (Cons k ord)
  then show ?case
    by (auto simp: gm_range_def List.map_filter_def split: option.splits)
qed

lemma gm_order_keys: "gm_wf m \<Longrightarrow> gm_order (gm_keys m) m"
  by (simp add: gm_order_def)

lemma gm_range_keys: "gm_wf m \<Longrightarrow> gm_range (gm_keys m) m = m"
proof -
  assume "gm_wf m"
  then have "\<forall>(k, v) \<in> set m. gm_get m k = Some v" by auto
  then have "List.map_filter (\<lambda>k. map_option (Pair k) (gm_get m k)) (map fst xs) = xs"
    if "set xs \<subseteq> set m" for xs
    using that by (induction xs) (auto simp: List.map_filter_def)
  from this [of m] show ?thesis by (simp add: gm_range_def)
qed

lemma gm_pick_set [simp]: "gm_wf m \<Longrightarrow> set (gm_pick ord m) = set m"
  by (simp add: gm_pick_def gm_range_set)

lemma gm_wf_pick [simp, intro]: "gm_wf m \<Longrightarrow> gm_wf (gm_pick ord m)"
  by (simp add: gm_pick_def gm_range_distinct gm_order_def)

lemma gm_get_pick [simp]: "gm_wf m \<Longrightarrow> gm_get (gm_pick ord m) k = gm_get m k"
  by (metis gm_in_set gm_pick_set gm_wf_pick not_Some_eq)

lemma gm_pick_mset: "gm_wf m \<Longrightarrow> mset (gm_pick ord m) = mset m"
  by (metis distinct_map gm_pick_set gm_wf_pick set_eq_iff_mset_eq_distinct)

text \<open>A pass over a map that rewrites every value in place.\<close>

lemma gm_get_map [simp, go_simps]:
  "gm_get (map (\<lambda>(k, v). (k, f k v)) m) k = map_option (f k) (gm_get m k)"
  by (induction m) auto

lemma gm_keys_map [simp, go_simps]: "gm_keys (map (\<lambda>(k, v). (k, f k v)) m) = gm_keys m"
  by (induction m) auto

lemma fst_pass [simp]: "fst \<circ> (\<lambda>(k, v). (k, f k v)) = fst"
  by auto

text \<open>What a pass over a map says about one key comes from the entry of that key alone.\<close>

lemma filter_pass:
  assumes "gm_wf m" and "\<And>j v c. (j, v) \<in> set m \<Longrightarrow> c \<in> set (f j v) \<Longrightarrow> P c \<longleftrightarrow> j = k"
  shows "filter P (concat (map (\<lambda>(j, v). f j v) m))
    = (case gm_get m k of None \<Rightarrow> [] | Some v \<Rightarrow> f k v)"
  using assms
proof (induction m)
  case Nil
  then show ?case by simp
next
  case (Cons jv m)
  obtain j v where jv: "jv = (j, v)" by (cases jv)
  have IH: "filter P (concat (map (\<lambda>(j, v). f j v) m))
      = (case gm_get m k of None \<Rightarrow> [] | Some v \<Rightarrow> f k v)"
    using Cons.prems by (intro Cons.IH) auto
  have here: "P c \<longleftrightarrow> j = k" if "c \<in> set (f j v)" for c
    using Cons.prems(2) [of j v c] that by (simp add: jv)
  show ?case
  proof (cases "j = k")
    case True
    then have "gm_get m k = None" using Cons.prems(1) by (auto simp: jv map_of_eq_None_iff)
    with True IH here show ?thesis by (simp add: jv filter_id_conv)
  next
    case False
    with IH here show ?thesis by (simp add: jv filter_empty_conv)
  qed
qed

text \<open>Sums over a map, and its length, under deletion.\<close>

definition gm_sum :: "('v \<Rightarrow> int) \<Rightarrow> ('k, 'v) gomap \<Rightarrow> int" where
  "gm_sum f m = sum_list (map (\<lambda>(k, v). f v) m)"

lemma gm_sum_set:
  "gm_wf m \<Longrightarrow> gm_sum f (gm_set k v m)
    = gm_sum f m + f v - (case gm_get m k of None \<Rightarrow> 0 | Some w \<Rightarrow> f w)"
  by (induction m) (auto simp: gm_sum_def split: option.splits)

lemma gm_del_absent: "gm_get m k = None \<Longrightarrow> gm_del k m = m"
  by (simp add: delete_id map_of_eq_None_iff)

lemma gm_sum_del:
  "gm_wf m \<Longrightarrow> gm_get m k = Some v \<Longrightarrow> gm_sum f (gm_del k m) = gm_sum f m - f v"
proof (induction m)
  case (Cons a m)
  show ?case
  proof (cases "fst a = k")
    case True
    with Cons.prems have "gm_get m k = None" by (auto simp: map_of_eq_None_iff)
    with True Cons.prems show ?thesis by (cases a) (simp add: gm_sum_def gm_del_absent)
  next
    case False
    with Cons show ?thesis by (cases a) (simp add: gm_sum_def)
  qed
qed simp

lemma gm_length_del: "gm_wf m \<Longrightarrow> gm_get m k = Some v \<Longrightarrow> length m = Suc (length (gm_del k m))"
proof (induction m)
  case (Cons a m)
  show ?case
  proof (cases "fst a = k")
    case True
    with Cons.prems have "gm_get m k = None" by (auto simp: map_of_eq_None_iff)
    with True show ?thesis by (cases a) (simp add: gm_del_absent)
  next
    case False
    with Cons show ?thesis by (cases a) simp
  qed
qed simp

lemma gm_sum_nonneg: "(\<And>k v. (k, v) \<in> set m \<Longrightarrow> 0 \<le> f v) \<Longrightarrow> 0 \<le> gm_sum f m"
  unfolding gm_sum_def by (rule sum_list_nonneg) auto

section \<open>Slices used as sets\<close>

text \<open>\<open>if !slices.Contains(xs, x) { xs = append(xs, x) }\<close>.\<close>

definition add_new :: "'a \<Rightarrow> 'a list \<Rightarrow> 'a list" where
  "add_new x xs = (if x \<in> set xs then xs else xs @ [x])"

lemma set_add_new [simp, go_simps]: "set (add_new x xs) = insert x (set xs)"
  by (auto simp: add_new_def)

lemma distinct_add_new [simp, go_simps]: "distinct (add_new x xs) = distinct xs"
  by (auto simp: add_new_def)

lemma add_new_nonempty [simp]: "add_new x xs \<noteq> []"
  by (auto simp: add_new_def)

lemma add_new_prefix: "\<exists>ys. add_new x xs = xs @ ys"
  by (auto simp: add_new_def)

lemma fold_add_new_set [go_simps]: "set (fold add_new zs xs) = set zs \<union> set xs"
  by (induction zs arbitrary: xs) auto

lemma fold_add_new_distinct [go_simps]: "distinct (fold add_new zs xs) = distinct xs"
  by (induction zs arbitrary: xs) auto

lemma fold_add_new_prefix: "\<exists>ys. fold add_new zs xs = xs @ ys"
proof (induction zs arbitrary: xs)
  case Nil
  then show ?case by simp
next
  case (Cons z zs)
  from Cons [of "add_new z xs"] add_new_prefix [of z xs] show ?case by fastforce
qed

lemma fold_add_new_idle [go_simps]: "set zs \<subseteq> set xs \<Longrightarrow> fold add_new zs xs = xs"
  by (induction zs) (auto simp: add_new_def)

section \<open>The first match of a loop\<close>

text \<open>\<open>for i, x := range xs { if P(x) { ...; break } }\<close>: the index of the first match.\<close>

fun find_index :: "('a \<Rightarrow> bool) \<Rightarrow> 'a list \<Rightarrow> nat option" where
  "find_index P [] = None"
| "find_index P (x # xs) = (if P x then Some 0 else map_option Suc (find_index P xs))"

lemma find_index_Some:
  "find_index P xs = Some i \<Longrightarrow> i < length xs \<and> P (xs ! i) \<and> (\<forall>j < i. \<not> P (xs ! j))"
proof (induction xs arbitrary: i)
  case (Cons x xs)
  show ?case
  proof (cases "P x")
    case False
    with Cons.prems obtain j where "find_index P xs = Some j" "i = Suc j" by auto
    with Cons.IH False show ?thesis by (auto simp: less_Suc_eq_0_disj)
  qed (use Cons.prems in auto)
qed simp

lemma find_index_None: "find_index P xs = None \<longleftrightarrow> (\<forall>x \<in> set xs. \<not> P x)"
  by (induction xs) auto

section \<open>Lists that share nothing\<close>

lemma distinct_concat_disjoint:
  assumes "distinct (concat xss)" and "i < length xss" and "j < length xss" and "i \<noteq> j"
  shows "set (xss ! i) \<inter> set (xss ! j) = {}"
  using assms
proof (induction xss arbitrary: i j)
  case (Cons xs xss)
  have apart: "set xs \<inter> set (xss ! n) = {}" if "n < length xss" for n
    using Cons.prems(1) that nth_mem by fastforce
  show ?case
  proof (cases i)
    case 0
    with Cons.prems apart show ?thesis by (cases j) simp_all
  next
    case (Suc i')
    show ?thesis
    proof (cases j)
      case 0
      with Suc Cons.prems apart [of i'] show ?thesis by (simp add: Int_commute)
    next
      case (Suc j')
      with \<open>i = Suc i'\<close> Cons.prems Cons.IH [of i' j'] show ?thesis by simp
    qed
  qed
qed simp

lemma distinct_concat_nth:
  assumes "\<And>i. i < length xss \<Longrightarrow> distinct (xss ! i)"
    and "\<And>i j. i < length xss \<Longrightarrow> j < length xss \<Longrightarrow> i \<noteq> j \<Longrightarrow> set (xss ! i) \<inter> set (xss ! j) = {}"
  shows "distinct (concat xss)"
  using assms
proof (induction xss)
  case (Cons xs xss)
  have "distinct (concat xss)"
  proof (rule Cons.IH)
    show "distinct (xss ! i)" if "i < length xss" for i using Cons.prems(1) [of "Suc i"] that by simp
    show "set (xss ! i) \<inter> set (xss ! j) = {}" if "i < length xss" "j < length xss" "i \<noteq> j" for i j
      using Cons.prems(2) [of "Suc i" "Suc j"] that by simp
  qed
  moreover have "set xs \<inter> set ys = {}" if ys: "ys \<in> set xss" for ys
  proof -
    from ys obtain j where "j < length xss" "xss ! j = ys" by (auto simp: in_set_conv_nth)
    with Cons.prems(2) [of 0 "Suc j"] show ?thesis by simp
  qed
  ultimately show ?case using Cons.prems(1) [of 0] by auto
qed simp

lemma distinct_concat_update:
  assumes "distinct (concat xss)" and "i < length xss" and "distinct ys"
    and "\<And>j. j < length xss \<Longrightarrow> j \<noteq> i \<Longrightarrow> set ys \<inter> set (xss ! j) = {}"
  shows "distinct (concat (xss[i := ys]))"
proof (rule distinct_concat_nth)
  have parts: "distinct (xss ! j)" if "j < length xss" for j
    using assms(1) that by (auto simp: distinct_concat_iff)
  show "distinct (xss[i := ys] ! j)" if "j < length (xss[i := ys])" for j
    using that assms(2,3) parts by (cases "j = i") simp_all
  show "set (xss[i := ys] ! j) \<inter> set (xss[i := ys] ! k) = {}"
    if "j < length (xss[i := ys])" "k < length (xss[i := ys])" "j \<noteq> k" for j k
    using that assms(2,4) distinct_concat_disjoint [OF assms(1), of j k]
    by (auto simp: nth_list_update Int_commute)
qed

section \<open>sort.Search\<close>

text \<open>
  The binary search of the standard library, over the half-open interval \<open>[i, j)\<close>; the code
  calls it as \<open>sort.Search(len(xs), f)\<close>.
\<close>

function search_from :: "(nat \<Rightarrow> bool) \<Rightarrow> nat \<Rightarrow> nat \<Rightarrow> nat" where
  "search_from f i j =
     (if i < j
      then let h = (i + j) div 2 in
           if \<not> f h then search_from f (h + 1) j else search_from f i h
      else i)"
  by pat_completeness auto
termination
  by (relation "measure (\<lambda>(f, i, j). j - i)") auto

declare search_from.simps [simp del]

definition sort_search :: "nat \<Rightarrow> (nat \<Rightarrow> bool) \<Rightarrow> nat" where
  "sort_search n f = search_from f 0 n"

text \<open>
  For a predicate that is false below a threshold and true from it on, the search returns the
  threshold.
\<close>

lemma search_from_threshold:
  assumes "i \<le> t" and "t \<le> j" and "\<And>k. i \<le> k \<Longrightarrow> k < j \<Longrightarrow> f k \<longleftrightarrow> t \<le> k"
  shows "search_from f i j = t"
  using assms
proof (induction f i j rule: search_from.induct)
  case (1 f i j)
  show ?case
  proof (cases "i < j")
    case False
    with "1.prems"(1,2) show ?thesis by (subst search_from.simps) simp
  next
    case True
    define h where "h = (i + j) div 2"
    from True have h: "i \<le> h" "h < j" by (auto simp: h_def)
    show ?thesis
    proof (cases "t \<le> h")
      case True
      with h "1.prems"(3) have "f h" by simp
      then have "search_from f i j = search_from f i h"
        using \<open>i < j\<close> by (subst search_from.simps) (simp add: h_def Let_def)
      with "1.IH"(2) [OF \<open>i < j\<close> h_def] True \<open>f h\<close> h "1.prems" show ?thesis by simp
    next
      case False
      with h "1.prems"(3) have "\<not> f h" by simp
      then have "search_from f i j = search_from f (h + 1) j"
        using \<open>i < j\<close> by (subst search_from.simps) (simp add: h_def Let_def)
      with "1.IH"(1) [OF \<open>i < j\<close> h_def] False \<open>\<not> f h\<close> h "1.prems" show ?thesis by simp
    qed
  qed
qed

text \<open>Over a list: the search splits it at the first element that satisfies the predicate.\<close>

lemma sort_search_list:
  assumes "\<And>a b. a \<le> b \<Longrightarrow> b < length xs \<Longrightarrow> P (xs ! a) \<Longrightarrow> P (xs ! b)"
  shows "sort_search (length xs) (\<lambda>i. P (xs ! i)) = length (takeWhile (\<lambda>x. \<not> P x) xs)"
    (is "_ = ?t")
  unfolding sort_search_def
proof (rule search_from_threshold)
  show "?t \<le> length xs" by (rule length_takeWhile_le)
  fix k
  assume k: "k < length xs"
  show "P (xs ! k) \<longleftrightarrow> ?t \<le> k"
  proof
    assume "P (xs ! k)"
    then show "?t \<le> k"
      by (metis (no_types, lifting) linorder_not_le nth_mem set_takeWhileD takeWhile_nth)
  next
    assume "?t \<le> k"
    with k have "P (xs ! ?t)" using nth_length_takeWhile [of "\<lambda>x. \<not> P x" xs] by simp
    with assms [OF \<open>?t \<le> k\<close> k] show "P (xs ! k)" by blast
  qed
qed simp

lemma take_takeWhile_length: "take (length (takeWhile P xs)) xs = takeWhile P xs"
  by (metis takeWhile_eq_take)

lemma drop_takeWhile_length: "drop (length (takeWhile P xs)) xs = dropWhile P xs"
  by (rule dropWhile_eq_drop [symmetric])

end
