(* ===== verification/Go_Strings.thy ===== *)
theory Go_Strings
  imports Prelude
begin

text \<open>
  What the program uses of Go's \<open>strings\<close>, \<open>strconv\<close>, \<open>encoding/base64\<close>,
  \<open>encoding/base32\<close> and \<open>encoding/hex\<close>.  A Go string and a byte slice are both a list of
  \<open>char\<close>, one per byte.  The encodings are defined over bit lists, so that base 32 and base 64
  share one definition and one round trip.
\<close>

type_synonym bytes = string

section \<open>strings\<close>

text \<open>\<open>strings.Split(s, sep)\<close> for a separator of one byte: never empty.\<close>

fun split_on :: "char \<Rightarrow> string \<Rightarrow> string list" where
  "split_on c [] = [[]]"
| "split_on c (x # xs) =
     (if x = c then [] # split_on c xs
      else case split_on c xs of [] \<Rightarrow> [[x]] | p # ps \<Rightarrow> (x # p) # ps)"

text \<open>\<open>strings.Join\<close>.\<close>

fun join :: "string \<Rightarrow> string list \<Rightarrow> string" where
  "join sep [] = []"
| "join sep [x] = x"
| "join sep (x # y # ys) = x @ sep @ join sep (y # ys)"

fun has_prefix :: "string \<Rightarrow> string \<Rightarrow> bool" where
  "has_prefix s [] = True"
| "has_prefix [] (p # ps) = False"
| "has_prefix (x # xs) (p # ps) = (x = p \<and> has_prefix xs ps)"

definition has_suffix :: "string \<Rightarrow> string \<Rightarrow> bool" where
  "has_suffix s p = has_prefix (rev s) (rev p)"

definition trim_prefix :: "string \<Rightarrow> string \<Rightarrow> string" where
  "trim_prefix s p = (if has_prefix s p then drop (length p) s else s)"

definition trim_suffix :: "string \<Rightarrow> string \<Rightarrow> string" where
  "trim_suffix s p = (if has_suffix s p then take (length s - length p) s else s)"

text \<open>\<open>strings.CutPrefix\<close>: the rest, or None when the prefix is not there.\<close>

definition cut_prefix :: "string \<Rightarrow> string \<Rightarrow> string option" where
  "cut_prefix s p = (if has_prefix s p then Some (drop (length p) s) else None)"

text \<open>\<open>strings.Cut\<close> at a separator of one byte: what is before and after its first occurrence.\<close>

definition cut :: "char \<Rightarrow> string \<Rightarrow> (string \<times> string) option" where
  "cut c s = (case dropWhile (\<lambda>x. x \<noteq> c) s of
      [] \<Rightarrow> None
    | _ # r \<Rightarrow> Some (takeWhile (\<lambda>x. x \<noteq> c) s, r))"

text \<open>\<open>strings.Contains\<close>.\<close>

fun contains :: "string \<Rightarrow> string \<Rightarrow> bool" where
  "contains [] p = (p = [])"
| "contains (x # xs) p = (has_prefix (x # xs) p \<or> contains xs p)"

text \<open>\<open>strings.Trim(s, cutset)\<close> for a cutset of single bytes.\<close>

definition trim :: "char list \<Rightarrow> string \<Rightarrow> string" where
  "trim cutset s =
     rev (dropWhile (\<lambda>c. c \<in> set cutset) (rev (dropWhile (\<lambda>c. c \<in> set cutset) s)))"

text \<open>\<open>strings.ReplaceAll(s, "a", "b")\<close> for single bytes.\<close>

definition replace_all :: "char \<Rightarrow> char \<Rightarrow> string \<Rightarrow> string" where
  "replace_all a b s = map (\<lambda>c. if c = a then b else c) s"

text \<open>
  \<open>strings.TrimSpace\<close>: the white space of Unicode, as the byte sequences of its UTF-8 encoding.
\<close>

definition white_space :: "string list" where
  "white_space =
     [[CHR 0x09], [CHR 0x0A], [CHR 0x0B], [CHR 0x0C], [CHR 0x0D], [CHR 0x20],
      [CHR 0xC2, CHR 0x85], [CHR 0xC2, CHR 0xA0], [CHR 0xE1, CHR 0x9A, CHR 0x80]]
     @ map (\<lambda>c. [CHR 0xE2, CHR 0x80, c])
         [CHR 0x80, CHR 0x81, CHR 0x82, CHR 0x83, CHR 0x84, CHR 0x85, CHR 0x86, CHR 0x87,
          CHR 0x88, CHR 0x89, CHR 0x8A, CHR 0xA8, CHR 0xA9, CHR 0xAF]
     @ [[CHR 0xE2, CHR 0x81, CHR 0x9F], [CHR 0xE3, CHR 0x80, CHR 0x80]]"

text \<open>Drops leading members of a list of non-empty sequences; the fuel is the length of the string.\<close>

fun drop_any :: "nat \<Rightarrow> string list \<Rightarrow> string \<Rightarrow> string" where
  "drop_any 0 ps s = s"
| "drop_any (Suc n) ps s =
     (case List.find (has_prefix s) ps of None \<Rightarrow> s | Some p \<Rightarrow> drop_any n ps (drop (length p) s))"

definition trim_space :: "string \<Rightarrow> string" where
  "trim_space s =
     (let l = drop_any (length s) white_space s
      in rev (drop_any (length l) (map rev white_space) (rev l)))"

text \<open>
  \<open>strings.ToUpper\<close> of a string of one byte: a letter of ASCII in upper case; a byte that is not
  ASCII is not a rune by itself and becomes the encoding of U+FFFD.
\<close>

definition to_upper_byte :: "char \<Rightarrow> string" where
  "to_upper_byte c =
     (let n = of_char c :: int in
      if 97 \<le> n \<and> n \<le> 122 then [char_of (n - 32)]
      else if n < 128 then [c]
      else [CHR 0xEF, CHR 0xBF, CHR 0xBD])"

section \<open>strconv\<close>

definition digit_char :: "int \<Rightarrow> char" where
  "digit_char d = char_of (48 + d)"

definition char_digit :: "char \<Rightarrow> int option" where
  "char_digit c = (let n = of_char c :: int in if 48 \<le> n \<and> n \<le> 57 then Some (n - 48) else None)"

text \<open>The decimal digits of a number that is not negative.\<close>

function dec :: "int \<Rightarrow> string" where
  "dec n = (if n < 10 then [digit_char n] else dec (n div 10) @ [digit_char (n mod 10)])"
  by pat_completeness auto
termination
  by (relation "measure nat") auto

declare dec.simps [simp del]

text \<open>\<open>strconv.FormatInt(n, 10)\<close>, \<open>%d\<close>.\<close>

definition itoa :: "int \<Rightarrow> string" where
  "itoa n = (if n < 0 then CHR ''-'' # dec (- n) else dec n)"

fun dec_digits :: "string \<Rightarrow> int \<Rightarrow> int option" where
  "dec_digits [] acc = Some acc"
| "dec_digits (c # cs) acc =
     (case char_digit c of None \<Rightarrow> None | Some d \<Rightarrow> dec_digits cs (10 * acc + d))"

definition dec_value :: "string \<Rightarrow> int option" where
  "dec_value s = (if s = [] then None else dec_digits s 0)"

text \<open>\<open>strconv.ParseInt(s, 10, 64)\<close> and, with a 64-bit \<open>int\<close>, \<open>strconv.Atoi\<close>.\<close>

definition parse_int :: "string \<Rightarrow> int option" where
  "parse_int s =
     (case s of
        [] \<Rightarrow> None
      | c # cs \<Rightarrow>
          (let neg = (c = CHR ''-'');
               body = (if neg \<or> c = CHR ''+'' then cs else s)
           in case dec_value body of
                None \<Rightarrow> None
              | Some n \<Rightarrow>
                  (let v = (if neg then - n else n)
                   in if min_duration \<le> v \<and> v \<le> max_duration then Some v else None)))"

section \<open>Bits\<close>

text \<open>The \<open>w\<close> low bits of a number, most significant first.\<close>

fun to_bits :: "nat \<Rightarrow> int \<Rightarrow> bool list" where
  "to_bits 0 n = []"
| "to_bits (Suc w) n = to_bits w (n div 2) @ [odd n]"

definition from_bits :: "bool list \<Rightarrow> int" where
  "from_bits bs = foldl (\<lambda>a b. 2 * a + of_bool b) 0 bs"

definition byte_bits :: "bytes \<Rightarrow> bool list" where
  "byte_bits s = concat (map (\<lambda>c. to_bits 8 (of_char c)) s)"

text \<open>Whole groups of \<open>n\<close> elements; what is left over is dropped.\<close>

fun groups :: "nat \<Rightarrow> 'a list \<Rightarrow> 'a list list" where
  "groups n xs = (if n = 0 \<or> length xs < n then [] else take n xs # groups n (drop n xs))"

declare groups.simps [simp del]

definition bits_bytes :: "bool list \<Rightarrow> bytes" where
  "bits_bytes bs = map (\<lambda>g. char_of (from_bits g)) (groups 8 bs)"

text \<open>The bits with zeros appended up to a multiple of \<open>w\<close>.\<close>

definition pad_bits :: "nat \<Rightarrow> bool list \<Rightarrow> bool list" where
  "pad_bits w bs = bs @ replicate ((w - length bs mod w) mod w) False"

section \<open>encoding/base64, encoding/base32, encoding/hex\<close>

abbreviation upper_letters :: string where "upper_letters \<equiv> ''ABCDEFGHIJKLMNOPQRSTUVWXYZ''"
abbreviation lower_letters :: string where "lower_letters \<equiv> ''abcdefghijklmnopqrstuvwxyz''"

definition alphabet64url :: string where
  "alphabet64url = upper_letters @ lower_letters @ ''0123456789-_''"

definition alphabet64std :: string where
  "alphabet64std = upper_letters @ lower_letters @ ''0123456789+/''"

definition alphabet32 :: string where
  "alphabet32 = upper_letters @ ''234567''"

definition encode_bits :: "nat \<Rightarrow> string \<Rightarrow> bytes \<Rightarrow> string" where
  "encode_bits w alpha s = map (\<lambda>g. alpha ! nat (from_bits g)) (groups w (pad_bits w (byte_bits s)))"

fun index_of :: "'a \<Rightarrow> 'a list \<Rightarrow> nat option" where
  "index_of x [] = None"
| "index_of x (y # ys) = (if x = y then Some 0 else map_option Suc (index_of x ys))"

text \<open>All results, or None when one is missing.\<close>

fun sequence :: "'a option list \<Rightarrow> 'a list option" where
  "sequence [] = Some []"
| "sequence (x # xs) =
     (case x of None \<Rightarrow> None | Some y \<Rightarrow> map_option ((#) y) (sequence xs))"

definition decode_bits :: "nat \<Rightarrow> string \<Rightarrow> string \<Rightarrow> bytes option" where
  "decode_bits w alpha s =
     map_option (\<lambda>ds. bits_bytes (concat (map (\<lambda>d. to_bits w (int d)) ds))) (sequence (map (\<lambda>c. index_of c alpha) s))"

definition hex_encode :: "bytes \<Rightarrow> string" where
  "hex_encode = encode_bits 4 ''0123456789abcdef''"

definition base32_encode :: "bytes \<Rightarrow> string" where
  "base32_encode = encode_bits 5 alphabet32"

definition base64url_encode :: "bytes \<Rightarrow> string" where
  "base64url_encode = encode_bits 6 alphabet64url"

text \<open>
  \<open>base64.RawURLEncoding.DecodeString\<close>: carriage returns and line feeds are skipped, one digit
  left over is an error, the unused bits of the last digit are ignored.
\<close>

definition not_newline :: "char \<Rightarrow> bool" where
  "not_newline c \<longleftrightarrow> c \<noteq> CHR 0x0A \<and> c \<noteq> CHR 0x0D"

definition base64url_decode :: "string \<Rightarrow> bytes option" where
  "base64url_decode s =
     (let t = filter not_newline s
      in if length t mod 4 = 1 then None else decode_bits 6 alphabet64url t)"

text \<open>
  \<open>base64.StdEncoding.DecodeString\<close>: groups of four digits, the last one padded with one or two
  equal signs.
\<close>

definition base64std_decode :: "string \<Rightarrow> bytes option" where
  "base64std_decode s =
     (let t = filter not_newline s;
          d = (if has_suffix t ''=='' then take (length t - 2) t
               else if has_suffix t ''='' then take (length t - 1) t else t)
      in if length t mod 4 \<noteq> 0 then None else decode_bits 6 alphabet64std d)"

section \<open>Lemmas: strings\<close>

lemma split_on_nonempty [simp]: "split_on c s \<noteq> []"
  by (induction s) (auto split: list.splits)

lemma split_on_sep [simp]: "split_on c (c # s) = [] # split_on c s"
  by simp

lemma split_on_idle [go_simps]: "c \<notin> set s \<Longrightarrow> split_on c s = [s]"
  by (induction s) auto

lemma split_on_append [go_simps]:
  "c \<notin> set s \<Longrightarrow> split_on c (s @ c # t) = s # split_on c t"
  by (induction s) auto

lemma split_on_join:
  assumes "ps \<noteq> []" and "\<forall>p \<in> set ps. c \<notin> set p"
  shows "split_on c (join [c] ps) = ps"
  using assms by (induction "[c]" ps rule: join.induct) (auto simp: go_simps)

lemma join_split_on: "join [c] (split_on c s) = s"
proof (induction s)
  case (Cons x s)
  then show ?case
    by (cases "split_on c s"; cases "tl (split_on c s)") auto
qed simp

lemma has_prefix_iff [go_simps]: "has_prefix s p \<longleftrightarrow> (\<exists>r. s = p @ r)"
  by (induction s p rule: has_prefix.induct) auto

lemma has_prefix_append [simp]: "has_prefix (p @ s) p"
  by (simp add: has_prefix_iff)

lemma cut_prefix_append [simp]: "cut_prefix (p @ s) p = Some s"
  by (simp add: cut_prefix_def)

lemma cut_append [go_simps]: "c \<notin> set a \<Longrightarrow> cut c (a @ c # b) = Some (a, b)"
  by (simp add: cut_def dropWhile_append takeWhile_append dropWhile_eq_self_iff
      takeWhile_eq_all_conv)

lemma cut_Some: "cut c s = Some (a, b) \<Longrightarrow> s = a @ c # b \<and> c \<notin> set a"
  unfolding cut_def
  by (auto split: list.splits dest: set_takeWhileD)
    (metis (mono_tags, lifting) hd_dropWhile list.sel(1) list.simps(3) takeWhile_dropWhile_id)

section \<open>Lemmas: decimal numbers\<close>

lemma char_digit_digit_char [simp, go_simps]:
  "0 \<le> d \<Longrightarrow> d < 10 \<Longrightarrow> char_digit (digit_char d) = Some d"
  by (simp add: char_digit_def digit_char_def)

lemma dec_digits_append [go_simps]:
  "dec_digits (s @ t) acc = (case dec_digits s acc of None \<Rightarrow> None | Some n \<Rightarrow> dec_digits t n)"
  by (induction s arbitrary: acc) (auto split: option.splits)

lemma dec_nonempty [simp]: "dec n \<noteq> []"
  by (subst dec.simps) simp

lemma dec_digits_dec: "0 \<le> n \<Longrightarrow> dec_digits (dec n) 0 = Some n"
proof (induction n rule: dec.induct)
  case (1 n)
  then show ?case by (subst dec.simps) (auto simp: dec_digits_append)
qed

definition digit_chars :: "char set" where
  "digit_chars = digit_char ` {0..<10}"

lemma set_dec: "0 \<le> n \<Longrightarrow> set (dec n) \<subseteq> digit_chars"
proof (induction n rule: dec.induct)
  case (1 n)
  show ?case
  proof (cases "n < 10")
    case True
    with "1.prems" show ?thesis by (subst dec.simps) (simp add: digit_chars_def)
  next
    case False
    have "digit_char (n mod 10) \<in> digit_chars" by (simp add: digit_chars_def)
    with False 1 show ?thesis by (subst dec.simps) simp
  qed
qed

lemma digit_chars_neq [simp]:
  "CHR ''-'' \<notin> digit_chars" "CHR ''+'' \<notin> digit_chars" "CHR ''|'' \<notin> digit_chars" "CHR ''/'' \<notin> digit_chars"
  by (auto simp: digit_chars_def digit_char_def dest!: arg_cong [where f = "of_char :: char \<Rightarrow> int"])

text \<open>What \<open>FormatInt\<close> prints, \<open>ParseInt\<close> reads back.\<close>

lemma parse_int_itoa:
  assumes "min_duration \<le> n" and "n \<le> max_duration"
  shows "parse_int (itoa n) = Some n"
proof (cases "n < 0")
  case True
  with assms show ?thesis
    by (simp add: parse_int_def itoa_def dec_value_def dec_digits_dec)
next
  case False
  obtain c cs where s: "dec n = c # cs" by (cases "dec n") auto
  with False set_dec [of n] have "c \<in> digit_chars" by simp
  then have "c \<noteq> CHR ''-''" "c \<noteq> CHR ''+''" by auto
  moreover have "dec_value (c # cs) = Some n"
    using False dec_digits_dec [of n] by (simp add: dec_value_def s)
  ultimately show ?thesis
    using False assms by (simp add: parse_int_def itoa_def s)
qed

lemma bar_notin_itoa [simp]: "CHR ''|'' \<notin> set (itoa n)"
  using set_dec [of n] set_dec [of "- n"] digit_chars_neq(3) by (auto simp: itoa_def simp del: digit_chars_neq)

section \<open>Lemmas: bits\<close>

lemma length_to_bits [simp]: "length (to_bits w n) = w"
  by (induction w arbitrary: n) auto

lemma from_bits_snoc: "from_bits (bs @ [b]) = 2 * from_bits bs + of_bool b"
  by (simp add: from_bits_def)

lemma from_bits_to_bits: "from_bits (to_bits w n) = n mod 2 ^ w"
proof (induction w arbitrary: n)
  case 0
  then show ?case by (simp add: from_bits_def)
next
  case (Suc w)
  have "n mod 2 ^ Suc w = 2 * ((n div 2) mod 2 ^ w) + n mod 2"
    using mod_mult2_eq' [of n 2 "2 ^ w"] by simp
  with Suc show ?case by (simp add: from_bits_snoc mod_2_eq_odd)
qed

lemma from_bits_less: "from_bits bs < 2 ^ length bs"
  by (induction bs rule: rev_induct) (auto simp: from_bits_snoc, simp add: from_bits_def)

lemma from_bits_nonneg [simp]: "0 \<le> from_bits bs"
  by (induction bs rule: rev_induct) (auto simp: from_bits_snoc, simp add: from_bits_def)

lemma to_bits_from_bits: "to_bits (length bs) (from_bits bs) = bs"
  by (induction bs rule: rev_induct) (auto simp: from_bits_snoc)

lemma groups_nil: "length xs < n \<Longrightarrow> groups n xs = []"
  by (subst groups.simps) simp

lemma groups_cons: "0 < n \<Longrightarrow> length x = n \<Longrightarrow> groups n (x @ xs) = x # groups n xs"
  by (subst groups.simps) simp

lemma groups_concat:
  "0 < n \<Longrightarrow> \<forall>x \<in> set xs. length x = n \<Longrightarrow> length r < n \<Longrightarrow> groups n (concat xs @ r) = xs"
  by (induction xs) (auto simp: groups_nil groups_cons)

lemma groups_length: "g \<in> set (groups n xs) \<Longrightarrow> length g = n"
proof (induction n xs rule: groups.induct)
  case (1 n xs)
  show ?case
  proof (cases "n = 0 \<or> length xs < n")
    case True
    with "1.prems" show ?thesis by (simp add: groups.simps [of n xs])
  next
    case False
    with "1.prems" have "g = take n xs \<or> g \<in> set (groups n (drop n xs))"
      by (simp add: groups.simps [of n xs])
    with "1.IH" False show ?thesis by auto
  qed
qed

lemma concat_groups: "0 < n \<Longrightarrow> n dvd length xs \<Longrightarrow> concat (groups n xs) = xs"
proof (induction n xs rule: groups.induct)
  case (1 n xs)
  show ?case
  proof (cases "length xs < n")
    case True
    with "1.prems" have "xs = []" by (auto dest: dvd_imp_le)
    with \<open>0 < n\<close> show ?thesis by (simp add: groups_nil)
  next
    case False
    with "1.prems" have "n dvd length (drop n xs)" by (simp add: dvd_minus_self)
    with 1 False have "concat (groups n (drop n xs)) = drop n xs" by simp
    with False "1.prems" show ?thesis by (subst groups.simps) simp
  qed
qed

lemma length_byte_bits [simp]: "length (byte_bits s) = 8 * length s"
  by (induction s) (auto simp: byte_bits_def)

lemma bits_bytes_byte_bits: "length r < 8 \<Longrightarrow> bits_bytes (byte_bits s @ r) = s"
  unfolding bits_bytes_def byte_bits_def
  by (subst groups_concat)
    (auto simp: from_bits_to_bits o_def intro!: map_idI)

lemma dvd_pad_bits: "0 < w \<Longrightarrow> w dvd length (pad_bits w bs)"
proof -
  assume "0 < w"
  let ?a = "length bs"
  have "(?a + (w - ?a mod w) mod w) mod w = (?a + (w - ?a mod w)) mod w"
    by (rule mod_add_right_eq)
  also have "\<dots> = (?a mod w + (w - ?a mod w)) mod w"
    by (rule mod_add_left_eq [symmetric])
  also have "?a mod w + (w - ?a mod w) = w"
    using mod_less_divisor [OF \<open>0 < w\<close>, of ?a] by linarith
  also have "w mod w = 0" by (rule mod_self)
  finally show ?thesis
    by (simp only: pad_bits_def length_append length_replicate dvd_eq_mod_eq_0)
qed

section \<open>Lemmas: encodings\<close>

lemma index_of_nth: "distinct xs \<Longrightarrow> i < length xs \<Longrightarrow> index_of (xs ! i) xs = Some i"
proof (induction xs arbitrary: i)
  case (Cons x xs)
  then show ?case by (cases i) auto
qed simp

lemma sequence_map_Some: "(\<And>x. x \<in> set xs \<Longrightarrow> f x = Some (g x)) \<Longrightarrow> sequence (map f xs) = Some (map g xs)"
  by (induction xs) auto

text \<open>
  Decoding inverts encoding, for any alphabet with a distinct digit for every group of \<open>w\<close>
  bits; at most seven padding bits are dropped.
\<close>

lemma decode_encode_bits:
  assumes "0 < w" and "w \<le> 8" and alpha: "distinct alpha" "length alpha = 2 ^ w"
  shows "decode_bits w alpha (encode_bits w alpha s) = Some s"
proof -
  let ?gs = "groups w (pad_bits w (byte_bits s))"
  have idx: "index_of (alpha ! nat (from_bits g)) alpha = Some (nat (from_bits g))" if "g \<in> set ?gs" for g
  proof -
    from that have "length g = w" by (rule groups_length)
    with from_bits_less [of g] alpha show ?thesis by (simp add: index_of_nth nat_less_iff)
  qed
  then have "sequence (map (\<lambda>c. index_of c alpha) (encode_bits w alpha s)) = Some (map (\<lambda>g. nat (from_bits g)) ?gs)"
    unfolding encode_bits_def map_map by (intro sequence_map_Some) simp
  moreover have "map (\<lambda>d. to_bits w (int d)) (map (\<lambda>g. nat (from_bits g)) ?gs) = ?gs"
    unfolding map_map
    by (intro map_idI) (simp, metis groups_length to_bits_from_bits)
  ultimately have "decode_bits w alpha (encode_bits w alpha s) = Some (bits_bytes (pad_bits w (byte_bits s)))"
    using assms(1) by (simp add: decode_bits_def concat_groups dvd_pad_bits del: map_map)
  moreover have "(w - x mod w) mod w < 8" for x
    using assms(1,2) by (meson less_le_trans mod_less_divisor)
  ultimately show ?thesis by (simp add: pad_bits_def bits_bytes_byte_bits)
qed

lemma length_encode_bits:
  assumes "0 < w"
  shows "length (encode_bits w alpha s) * w = length (pad_bits w (byte_bits s))"
proof -
  let ?gs = "groups w (pad_bits w (byte_bits s))"
  have "length (concat ?gs) = sum_list (map length ?gs)" by (simp add: length_concat)
  also have "\<dots> = sum_list (map (\<lambda>_. w) ?gs)"
    using groups_length by (metis (no_types, lifting) map_cong)
  finally have "length (concat ?gs) = length ?gs * w" by (simp add: sum_list_triv)
  then show ?thesis using assms by (simp add: encode_bits_def concat_groups dvd_pad_bits)
qed

lemma distinct_alphabets [simp]:
  "distinct alphabet64url" "distinct alphabet64std" "distinct alphabet32"
  by (simp_all add: alphabet64url_def alphabet64std_def alphabet32_def)

lemma length_alphabets [simp]:
  "length alphabet64url = 64" "length alphabet64std = 64" "length alphabet32 = 32"
  by (simp_all add: alphabet64url_def alphabet64std_def alphabet32_def)

lemma set_encode_bits:
  assumes "length alpha = 2 ^ w"
  shows "set (encode_bits w alpha s) \<subseteq> set alpha"
proof -
  have "nat (from_bits g) < length alpha" if "g \<in> set (groups w xs)" for g xs
    using groups_length [OF that] from_bits_less [of g] assms by (simp add: nat_less_iff)
  then show ?thesis by (auto simp: encode_bits_def)
qed

lemma base64_length:
  assumes "l * 6 = 8 * n + (6 - 8 * n mod 6) mod (6 :: nat)"
  shows "l mod 4 \<noteq> 1"
proof -
  obtain k r where n: "n = 3 * k + r" and "r < 3"
    by (metis mod_less_divisor mult_div_mod_eq zero_less_numeral)
  then consider "r = 0" | "r = 1" | "r = 2" by linarith
  then show ?thesis
  proof cases
    case 1
    with assms n have "l = 4 * k" by simp
    then show ?thesis by simp
  next
    case 2
    have "8 * (3 * k + 1) mod 6 = (2 :: nat)" by presburger
    with assms n 2 have "l = 4 * k + 2" by simp
    then show ?thesis by presburger
  next
    case 3
    have "8 * (3 * k + 2) mod 6 = (4 :: nat)" by presburger
    with assms n 3 have "l = 4 * k + 3" by simp
    then show ?thesis by presburger
  qed
qed

text \<open>\<open>RawURLEncoding\<close>: decoding inverts encoding.\<close>

lemma base64url_decode_encode: "base64url_decode (base64url_encode s) = Some s"
proof -
  have "set (base64url_encode s) \<subseteq> set alphabet64url"
    unfolding base64url_encode_def by (rule set_encode_bits) simp
  moreover have "\<forall>c \<in> set alphabet64url. not_newline c"
    by (simp add: alphabet64url_def not_newline_def)
  ultimately have f: "filter not_newline (base64url_encode s) = base64url_encode s"
    by (auto simp: filter_id_conv)
  have "length (base64url_encode s) * 6 = 8 * length s + (6 - 8 * length s mod 6) mod 6"
    using length_encode_bits [of 6 alphabet64url s]
    by (simp add: base64url_encode_def pad_bits_def)
  then have "length (base64url_encode s) mod 4 \<noteq> 1"
    by (rule base64_length)
  with f show ?thesis
    by (simp add: base64url_decode_def base64url_encode_def decode_encode_bits)
qed

end
