(* ===== verification/Go_Crypto.thy ===== *)
theory Go_Crypto
  imports Go_Strings
begin

text \<open>
  The hash functions of Go's standard library that the program relies on: SHA-256
  (\<open>crypto/sha256\<close>, FIPS 180-4) and HMAC over it (\<open>crypto/hmac\<close>, FIPS 198-1), as executable
  functions on byte strings.  The components never unfold them: what they use is the length of
  a digest and that equal inputs have equal digests.
\<close>

unbundle bit_operations_syntax

section \<open>Big-endian integers\<close>

definition be_bytes :: "nat \<Rightarrow> int \<Rightarrow> bytes" where
  "be_bytes w n = bits_bytes (to_bits (8 * w) n)"

definition be_int :: "bytes \<Rightarrow> int" where
  "be_int s = from_bits (byte_bits s)"

lemma length_groups: "0 < n \<Longrightarrow> length (groups n xs) = length xs div n"
proof (induction n xs rule: groups.induct)
  case (1 n xs)
  show ?case
  proof (cases "length xs < n")
    case True
    with \<open>0 < n\<close> show ?thesis by (simp add: groups_nil)
  next
    case False
    with 1 have "length (groups n (drop n xs)) = (length xs - n) div n" by simp
    with False \<open>0 < n\<close> show ?thesis
      by (subst groups.simps) (simp add: le_div_geq)
  qed
qed

lemma length_bits_bytes: "length (bits_bytes bs) = length bs div 8"
  by (simp add: bits_bytes_def length_groups)

lemma length_be_bytes [simp]: "length (be_bytes w n) = w"
  by (simp add: be_bytes_def length_bits_bytes)

lemma byte_bits_bits_bytes: "8 dvd length bs \<Longrightarrow> byte_bits (bits_bytes bs) = bs"
proof -
  assume "8 dvd length bs"
  have "to_bits 8 (of_char (char_of (from_bits g) :: char)) = g" if "g \<in> set (groups 8 bs)" for g
  proof -
    from that have g: "length g = 8" by (rule groups_length)
    with from_bits_less [of g] have "from_bits g < 256" by simp
    with to_bits_from_bits [of g] g show ?thesis by simp
  qed
  then have "map (\<lambda>g. to_bits 8 (of_char (char_of (from_bits g) :: char))) (groups 8 bs) = groups 8 bs"
    by (intro map_idI)
  then have "byte_bits (bits_bytes bs) = concat (groups 8 bs)"
    by (simp add: byte_bits_def bits_bytes_def o_def)
  also have "\<dots> = bs" using \<open>8 dvd length bs\<close> by (simp add: concat_groups)
  finally show ?thesis .
qed

lemma be_int_be_bytes: "be_int (be_bytes w n) = n mod 2 ^ (8 * w)"
  by (simp add: be_int_def be_bytes_def byte_bits_bits_bytes from_bits_to_bits)

lemma to_bits_mod: "to_bits w (n mod 2 ^ w) = to_bits w n"
  using to_bits_from_bits [of "to_bits w n"] by (simp add: from_bits_to_bits)

lemma be_bytes_mod: "m mod 2 ^ (8 * w) = n mod 2 ^ (8 * w) \<Longrightarrow> be_bytes w m = be_bytes w n"
  unfolding be_bytes_def using to_bits_mod [of "8 * w" m] to_bits_mod [of "8 * w" n] by simp

lemma be_bytes_be_int: "be_bytes (length s) (be_int s) = s"
proof -
  have "to_bits (8 * length s) (from_bits (byte_bits s)) = byte_bits s"
    using to_bits_from_bits [of "byte_bits s"] by simp
  then show ?thesis
    using bits_bytes_byte_bits [of "[]" s] by (simp add: be_bytes_def be_int_def)
qed

lemma int64_mod: "int64 n mod 2 ^ 64 = n mod 2 ^ 64"
proof -
  let ?w = "word_of_int n :: 64 word"
  have "int64 n mod 2 ^ 64 = uint ?w"
    using uint_sint [of ?w] by (simp add: int64_def take_bit_eq_mod)
  then show ?thesis by (simp add: uint_word_of_int take_bit_eq_mod)
qed

lemma int64_of_mod: "int64 (n mod 2 ^ 64) = int64 n"
proof -
  have "(word_of_int (take_bit 64 n) :: 64 word) = word_of_int n"
    by (simp add: word_of_int_eq_iff)
  then show ?thesis by (simp only: int64_def take_bit_eq_mod)
qed

section \<open>SHA-256\<close>

type_synonym w32 = "32 word"

text \<open>
  The standard defines its constants by the primes: a round constant is the first 32 bits of the
  fraction of a prime's cube root, a start value the same of a square root.  \<open>int_root n x k r\<close>
  finds the \<open>n\<close>-th root of \<open>x\<close>, rounded down, bit by bit from bit \<open>k\<close>.
\<close>

fun int_root :: "nat \<Rightarrow> int \<Rightarrow> nat \<Rightarrow> int \<Rightarrow> int" where
  "int_root n x 0 r = r"
| "int_root n x (Suc k) r = int_root n x k (if (r + 2 ^ k) ^ n \<le> x then r + 2 ^ k else r)"

definition sha_primes :: "int list" where
  "sha_primes = filter (\<lambda>p. \<forall>d \<in> set [2..18]. d < p \<longrightarrow> p mod d \<noteq> 0) [2..311]"

definition sha_k :: "w32 list" where
  "sha_k = map (\<lambda>p. word_of_int (int_root 3 (p * 2 ^ 96) 36 0)) sha_primes"

definition sha_init :: "w32 list" where
  "sha_init = map (\<lambda>p. word_of_int (int_root 2 (p * 2 ^ 64) 36 0)) (take 8 sha_primes)"

lemma length_sha_init: "length sha_init = 8"
proof -
  let ?prime = "\<lambda>p::int. \<forall>d \<in> set [2..18]. d < p \<longrightarrow> p mod d \<noteq> 0"
  have "[2..311::int] = [2..20 - 1] @ [20..311]"
    by (rule upto_split1) linarith+
  then have "sha_primes = filter ?prime [2..20 - 1] @ filter ?prime [20..311]"
    unfolding sha_primes_def filter_append [symmetric] by (rule arg_cong)
  then have "length sha_primes
      = length (filter ?prime [2..20 - 1]) + length (filter ?prime [20..311])"
    by (rule trans [OF arg_cong [where f = length] length_append])
  moreover have "length (filter ?prime [2..20 - 1]) = 8" by simp
  ultimately have "8 \<le> length sha_primes" by linarith
  then show ?thesis by (simp add: sha_init_def)
qed

definition small_sigma0 :: "w32 \<Rightarrow> w32" where
  "small_sigma0 x = word_rotr 7 x XOR word_rotr 18 x XOR drop_bit 3 x"

definition small_sigma1 :: "w32 \<Rightarrow> w32" where
  "small_sigma1 x = word_rotr 17 x XOR word_rotr 19 x XOR drop_bit 10 x"

definition big_sigma0 :: "w32 \<Rightarrow> w32" where
  "big_sigma0 x = word_rotr 2 x XOR word_rotr 13 x XOR word_rotr 22 x"

definition big_sigma1 :: "w32 \<Rightarrow> w32" where
  "big_sigma1 x = word_rotr 6 x XOR word_rotr 11 x XOR word_rotr 25 x"

text \<open>The message schedule, kept newest word first while it grows.\<close>

fun sha_schedule :: "nat \<Rightarrow> w32 list \<Rightarrow> w32 list" where
  "sha_schedule 0 ws = rev ws"
| "sha_schedule (Suc n) ws =
     sha_schedule n ((small_sigma1 (ws ! 1) + ws ! 6 + small_sigma0 (ws ! 14) + ws ! 15) # ws)"

fun sha_round :: "w32 \<times> w32 \<Rightarrow> w32 list \<Rightarrow> w32 list" where
  "sha_round (k, w) [a, b, c, d, e, f, g, h] =
     (let t1 = h + big_sigma1 e + ((e AND f) XOR (NOT e AND g)) + k + w;
          t2 = big_sigma0 a + ((a AND b) XOR (a AND c) XOR (b AND c))
      in [t1 + t2, a, b, c, d + t1, e, f, g])"
| "sha_round kw s = s"

definition sha_block :: "w32 list \<Rightarrow> w32 list \<Rightarrow> w32 list" where
  "sha_block ws s = map2 (+) s (fold sha_round (zip sha_k (sha_schedule 48 (rev ws))) s)"

definition sha_pad :: "bytes \<Rightarrow> bytes" where
  "sha_pad m = m @ [CHR 0x80] @ replicate ((119 - length m mod 64) mod 64) CHR 0x00
     @ be_bytes 8 (8 * int (length m))"

definition sha_words :: "bytes \<Rightarrow> w32 list" where
  "sha_words s = map (foldl (\<lambda>a c. push_bit 8 a OR word_of_int (of_char c)) 0) (groups 4 s)"

definition word_bytes :: "w32 \<Rightarrow> bytes" where
  "word_bytes w = map (\<lambda>n. char_of (uint (drop_bit n w))) [24, 16, 8, 0]"

definition sha256 :: "bytes \<Rightarrow> bytes" where
  "sha256 m =
     concat (map word_bytes (fold sha_block (groups 16 (sha_words (sha_pad m))) sha_init))"

lemma length_sha_round: "length (sha_round kw s) = length s"
  by (induction kw s rule: sha_round.induct) (simp_all add: Let_def)

lemma length_fold_sha_round: "length (fold sha_round kws s) = length s"
  by (induction kws arbitrary: s) (simp_all add: length_sha_round)

lemma length_fold_sha_block: "length (fold sha_block bs s) = length s"
  by (induction bs arbitrary: s) (simp_all add: sha_block_def length_fold_sha_round)

lemma length_sha256 [simp]: "length (sha256 m) = 32"
proof -
  have "length (fold sha_block bs sha_init) = 8" for bs
    by (simp add: length_fold_sha_block length_sha_init)
  then show ?thesis by (simp add: sha256_def length_concat o_def sum_list_triv word_bytes_def)
qed

section \<open>HMAC\<close>

definition hmac_key :: "bytes \<Rightarrow> bytes" where
  "hmac_key k = (let k' = (if 64 < length k then sha256 k else k)
                 in k' @ replicate (64 - length k') CHR 0x00)"

definition xor_byte :: "int \<Rightarrow> char \<Rightarrow> char" where
  "xor_byte n c = char_of ((of_char c :: int) XOR n)"

definition hmac_sha256 :: "bytes \<Rightarrow> bytes \<Rightarrow> bytes" where
  "hmac_sha256 k m =
     sha256 (map (xor_byte 0x5C) (hmac_key k) @ sha256 (map (xor_byte 0x36) (hmac_key k) @ m))"

lemma length_hmac_sha256 [simp]: "length (hmac_sha256 k m) = 32"
  by (simp add: hmac_sha256_def)

end
