(* ===== verification/Go_Json.thy ===== *)
theory Go_Json
  imports Go_Strings
begin

text \<open>
  What the program uses of \<open>encoding/json\<close>: the grammar of RFC 8259 as Go's scanner accepts it
  (nesting at most 10000 deep), string literals unquoted to UTF-8, numbers as exact decimals
  rounded to \<open>float64\<close> when a field asks for one, and the matching of keys to struct fields.
  A \<open>float64\<close> is the rational it stands for; the infinities and not-a-number do not occur in JSON.
\<close>

section \<open>Floating point\<close>

type_synonym f64 = rat

function bit_length :: "int \<Rightarrow> int" where
  "bit_length n = (if n \<le> 0 then 0 else 1 + bit_length (n div 2))"
  by pat_completeness auto
termination
  by (relation "measure nat") auto

declare bit_length.simps [simp del]

definition pow2 :: "int \<Rightarrow> rat" where
  "pow2 k = (if 0 \<le> k then 2 ^ nat k else 1 / 2 ^ nat (- k))"

text \<open>The binary exponent of a positive rational: the greatest \<open>k\<close> with \<open>pow2 k \<le> x\<close>.\<close>

definition rat_exponent :: "rat \<Rightarrow> int" where
  "rat_exponent x =
     (let (a, b) = quotient_of x; k = bit_length a - bit_length b
      in if pow2 k \<le> x then k else k - 1)"

definition round_half_even :: "rat \<Rightarrow> int" where
  "round_half_even x =
     (let n = \<lfloor>x\<rfloor>; f = x - of_int n
      in if f < 1 / 2 then n else if 1 / 2 < f then n + 1 else if even n then n else n + 1)"

text \<open>Nearest value with \<open>p\<close> significant bits and a quantum of at least \<open>2 ^ q\<close>, ties to even.\<close>

definition round_float :: "int \<Rightarrow> int \<Rightarrow> rat \<Rightarrow> rat" where
  "round_float p q x =
     (if x = 0 then 0
      else let e = pow2 (max (rat_exponent \<bar>x\<bar> - (p - 1)) q)
           in sgn x * of_int (round_half_even (\<bar>x\<bar> / e)) * e)"

definition fl64 :: "rat \<Rightarrow> f64" where "fl64 = round_float 53 (- 1074)"
definition fl32 :: "rat \<Rightarrow> rat" where "fl32 = round_float 24 (- 149)"

abbreviation max_f64 :: f64 where "max_f64 \<equiv> (2 ^ 53 - 1) * 2 ^ 971"

text \<open>\<open>strconv.ParseFloat\<close> of a decimal: out of range is an error.\<close>

definition parse_f64 :: "rat \<Rightarrow> f64 option" where
  "parse_f64 x = (let y = fl64 x in if \<bar>y\<bar> \<le> max_f64 then Some y else None)"

lemma fl64_0 [simp]: "fl64 0 = 0"
  by (simp add: fl64_def round_float_def)

lemma pow2_pos [simp]: "0 < pow2 k"
  by (simp add: pow2_def)

lemma round_half_even_nonneg: "0 \<le> x \<Longrightarrow> 0 \<le> round_half_even x"
  by (simp add: round_half_even_def Let_def)

lemma round_float_nonneg: "0 \<le> x \<Longrightarrow> 0 \<le> round_float p q x"
  by (auto simp: round_float_def Let_def sgn_if less_le_not_le intro!: mult_nonneg_nonneg
      round_half_even_nonneg divide_nonneg_nonneg less_imp_le [OF pow2_pos])

lemma round_float_minus: "round_float p q (- x) = - round_float p q x"
  by (simp add: round_float_def Let_def sgn_minus)

lemma fl64_nonneg: "0 \<le> x \<Longrightarrow> 0 \<le> fl64 x"
  by (simp add: fl64_def round_float_nonneg)

lemma fl64_nonpos: "x \<le> 0 \<Longrightarrow> fl64 x \<le> 0"
  using fl64_nonneg [of "- x"] by (simp add: fl64_def round_float_minus)

section \<open>UTF-8\<close>

text \<open>The length of the well-formed sequence a string starts with, 0 when there is none.\<close>

definition in_range :: "int \<Rightarrow> int \<Rightarrow> char \<Rightarrow> bool" where
  "in_range a b c = (let n = of_char c :: int in a \<le> n \<and> n \<le> b)"

abbreviation cont_byte :: "char \<Rightarrow> bool" where
  "cont_byte \<equiv> in_range 0x80 0xBF"

fun all_cont :: "nat \<Rightarrow> string \<Rightarrow> bool" where
  "all_cont 0 s = True"
| "all_cont (Suc n) s = (case s of [] \<Rightarrow> False | c # r \<Rightarrow> cont_byte c \<and> all_cont n r)"

definition utf8_len :: "string \<Rightarrow> nat" where
  "utf8_len s =
     (case s of
        [] \<Rightarrow> 0
      | a # r \<Rightarrow>
          if in_range 0 0x7F a then 1
          else if in_range 0xC2 0xDF a \<and> all_cont 1 r then 2
          else if in_range 0xE0 0xEF a \<and> all_cont 2 r
               \<and> (a = CHR 0xE0 \<longrightarrow> in_range 0xA0 0xBF (hd r))
               \<and> (a = CHR 0xED \<longrightarrow> in_range 0x80 0x9F (hd r)) then 3
          else if in_range 0xF0 0xF4 a \<and> all_cont 3 r
               \<and> (a = CHR 0xF0 \<longrightarrow> in_range 0x90 0xBF (hd r))
               \<and> (a = CHR 0xF4 \<longrightarrow> in_range 0x80 0x8F (hd r)) then 4
          else 0)"

text \<open>\<open>utf8.EncodeRune\<close> (a surrogate or a number out of range encodes U+FFFD).\<close>

definition encode_rune :: "int \<Rightarrow> string" where
  "encode_rune r =
     (let n = (if 0x10FFFF < r \<or> (0xD800 \<le> r \<and> r \<le> 0xDFFF) then 0xFFFD else r)
      in if n < 0x80 then [char_of n]
         else if n < 0x800 then [char_of (0xC0 + n div 64), char_of (0x80 + n mod 64)]
         else if n < 0x10000 then
           [char_of (0xE0 + n div 4096), char_of (0x80 + n div 64 mod 64), char_of (0x80 + n mod 64)]
         else
           [char_of (0xF0 + n div 262144), char_of (0x80 + n div 4096 mod 64),
            char_of (0x80 + n div 64 mod 64), char_of (0x80 + n mod 64)])"

section \<open>The grammar\<close>

datatype json =
    JNull
  | JBool bool
  | JNum rat
  | JStr string
  | JArr "json list"
  | JObj "(string \<times> json) list"

definition skip_ws :: "string \<Rightarrow> string" where
  "skip_ws = dropWhile (\<lambda>c. c \<in> {CHR 0x20, CHR 0x09, CHR 0x0A, CHR 0x0D})"

definition hex_digit :: "char \<Rightarrow> int option" where
  "hex_digit c =
     (let n = of_char c :: int in
      if 48 \<le> n \<and> n \<le> 57 then Some (n - 48)
      else if 97 \<le> n \<and> n \<le> 102 then Some (n - 87)
      else if 65 \<le> n \<and> n \<le> 70 then Some (n - 55) else None)"

fun hex4 :: "string \<Rightarrow> (int \<times> string) option" where
  "hex4 (a # b # c # d # r) =
     (case sequence [hex_digit a, hex_digit b, hex_digit c, hex_digit d] of
        Some [p, q, u, v] \<Rightarrow> Some (((p * 16 + q) * 16 + u) * 16 + v, r)
      | _ \<Rightarrow> None)"
| "hex4 _ = None"

definition simple_escape :: "char \<Rightarrow> char option" where
  "simple_escape c =
     map_of [(CHR 0x22, CHR 0x22), (CHR 0x5C, CHR 0x5C), (CHR ''/'', CHR ''/''),
             (CHR ''b'', CHR 0x08), (CHR ''f'', CHR 0x0C), (CHR ''n'', CHR 0x0A),
             (CHR ''r'', CHR 0x0D), (CHR ''t'', CHR 0x09)] c"

text \<open>
  One \<open>\u\<close> escape after its four digits: a high surrogate followed by the escape of a low one
  is one rune, a lone surrogate is U+FFFD.
\<close>

definition unicode_escape :: "int \<Rightarrow> string \<Rightarrow> string \<times> string" where
  "unicode_escape u r =
     (case r of
        a # b # r' \<Rightarrow>
          (if a = CHR 0x5C \<and> b = CHR ''u'' \<and> 0xD800 \<le> u \<and> u < 0xDC00 then
             (case hex4 r' of
                Some (v, r'') \<Rightarrow>
                  if 0xDC00 \<le> v \<and> v < 0xE000
                  then (encode_rune (0x10000 + (u - 0xD800) * 1024 + (v - 0xDC00)), r'')
                  else (encode_rune u, r)
              | None \<Rightarrow> (encode_rune u, r))
           else (encode_rune u, r))
      | _ \<Rightarrow> (encode_rune u, r))"

text \<open>A string literal after its opening quote; the fuel is the length of the input.\<close>

fun json_string :: "nat \<Rightarrow> string \<Rightarrow> (string \<times> string) option" where
  "json_string 0 s = None"
| "json_string (Suc n) [] = None"
| "json_string (Suc n) (c # r) =
     (if c = CHR 0x22 then Some ([], r)
      else if c = CHR 0x5C then
        (case r of
           [] \<Rightarrow> None
         | e # r' \<Rightarrow>
             if e = CHR ''u'' then
               (case hex4 r' of
                  None \<Rightarrow> None
                | Some (u, r'') \<Rightarrow>
                    (let (x, t) = unicode_escape u r''
                     in map_option (apfst ((@) x)) (json_string n t)))
             else
               (case simple_escape e of
                  None \<Rightarrow> None
                | Some x \<Rightarrow> map_option (apfst ((#) x)) (json_string n r')))
      else if in_range 0 0x1F c then None
      else
        (case utf8_len (c # r) of
           0 \<Rightarrow> map_option (apfst ((@) [CHR 0xEF, CHR 0xBF, CHR 0xBD])) (json_string n r)
         | Suc k \<Rightarrow>
             map_option (apfst ((@) (take (Suc k) (c # r)))) (json_string n (drop k r))))"

text \<open>Numbers.\<close>

definition is_digit :: "char \<Rightarrow> bool" where
  "is_digit c = (char_digit c \<noteq> None)"

definition digits_of :: "string \<Rightarrow> string \<times> string" where
  "digits_of s = (takeWhile is_digit s, dropWhile is_digit s)"

definition digits_value :: "string \<Rightarrow> int" where
  "digits_value ds = (case dec_value ds of None \<Rightarrow> 0 | Some n \<Rightarrow> n)"

definition pow10 :: "int \<Rightarrow> rat" where
  "pow10 k = (if 0 \<le> k then 10 ^ nat k else 1 / 10 ^ nat (- k))"

definition json_fraction :: "string \<Rightarrow> (string \<times> string) option" where
  "json_fraction s =
     (case s of
        c # r \<Rightarrow>
          (if c = CHR ''.'' then
             (let (ds, t) = digits_of r in if ds = [] then None else Some (ds, t))
           else Some ([], s))
      | [] \<Rightarrow> Some ([], s))"

definition json_exponent :: "string \<Rightarrow> (int \<times> string) option" where
  "json_exponent s =
     (case s of
        c # r \<Rightarrow>
          (if c = CHR ''e'' \<or> c = CHR ''E'' then
             (let neg = (case r of x # _ \<Rightarrow> x = CHR ''-'' | [] \<Rightarrow> False);
                  body = (case r of x # r' \<Rightarrow> if x = CHR ''-'' \<or> x = CHR ''+'' then r' else r | [] \<Rightarrow> r);
                  (ds, t) = digits_of body
              in if ds = [] then None
                 else Some (if neg then - digits_value ds else digits_value ds, t))
           else Some (0, s))
      | [] \<Rightarrow> Some (0, s))"

definition json_number :: "string \<Rightarrow> (rat \<times> string) option" where
  "json_number s =
     (let neg = (case s of c # _ \<Rightarrow> c = CHR ''-'' | [] \<Rightarrow> False);
          (ip, r) = digits_of (if neg then tl s else s)
      in if ip = [] \<or> (hd ip = CHR ''0'' \<and> length ip \<noteq> 1) then None
         else case json_fraction r of
           None \<Rightarrow> None
         | Some (fp, r') \<Rightarrow>
             (case json_exponent r' of
                None \<Rightarrow> None
              | Some (e, t) \<Rightarrow>
                  (let v = of_int (digits_value (ip @ fp)) * pow10 (e - int (length fp))
                   in Some (if neg then - v else v, t))))"

text \<open>
  Values, the elements of an array and the members of an object (after the opening bracket);
  \<open>d\<close> counts the open brackets.
\<close>

fun json_value :: "nat \<Rightarrow> nat \<Rightarrow> string \<Rightarrow> (json \<times> string) option"
  and json_elems :: "nat \<Rightarrow> nat \<Rightarrow> string \<Rightarrow> (json list \<times> string) option"
  and json_members :: "nat \<Rightarrow> nat \<Rightarrow> string \<Rightarrow> ((string \<times> json) list \<times> string) option"
where
  "json_value 0 d s = None"
| "json_value (Suc n) d s =
     (case skip_ws s of
        [] \<Rightarrow> None
      | c # r \<Rightarrow>
          if c = CHR ''{'' then
            if 10000 \<le> d then None
            else (case skip_ws r of
                [] \<Rightarrow> None
              | x # t \<Rightarrow> if x = CHR ''}'' then Some (JObj [], t)
                         else map_option (apfst JObj) (json_members n (Suc d) r))
          else if c = CHR ''['' then
            if 10000 \<le> d then None
            else (case skip_ws r of
                [] \<Rightarrow> None
              | x # t \<Rightarrow> if x = CHR '']'' then Some (JArr [], t)
                         else map_option (apfst JArr) (json_elems n (Suc d) r))
          else if c = CHR 0x22 then map_option (apfst JStr) (json_string (length r) r)
          else if has_prefix (c # r) ''true'' then Some (JBool True, drop 3 r)
          else if has_prefix (c # r) ''false'' then Some (JBool False, drop 4 r)
          else if has_prefix (c # r) ''null'' then Some (JNull, drop 3 r)
          else map_option (apfst JNum) (json_number (c # r)))"
| "json_elems 0 d s = None"
| "json_elems (Suc n) d s =
     (case json_value n d s of
        None \<Rightarrow> None
      | Some (v, r) \<Rightarrow>
          (case skip_ws r of
             [] \<Rightarrow> None
           | c # t \<Rightarrow>
               if c = CHR '']'' then Some ([v], t)
               else if c = CHR '','' then map_option (apfst ((#) v)) (json_elems n d t)
               else None))"
| "json_members 0 d s = None"
| "json_members (Suc n) d s =
     (case skip_ws s of
        [] \<Rightarrow> None
      | q # r0 \<Rightarrow>
          if q \<noteq> CHR 0x22 then None
          else case json_string (length r0) r0 of
            None \<Rightarrow> None
          | Some (k, r1) \<Rightarrow>
              (case skip_ws r1 of
                 [] \<Rightarrow> None
               | col # r2 \<Rightarrow>
                   if col \<noteq> CHR '':'' then None
                   else case json_value n d r2 of
                     None \<Rightarrow> None
                   | Some (v, r3) \<Rightarrow>
                       (case skip_ws r3 of
                          [] \<Rightarrow> None
                        | c # t \<Rightarrow>
                            if c = CHR ''}'' then Some ([(k, v)], t)
                            else if c = CHR '','' then map_option (apfst ((#) (k, v))) (json_members n d t)
                            else None)))"

text \<open>A whole document: every call of the three functions consumes a byte or ends the input.\<close>

definition json_parse :: "bytes \<Rightarrow> json option" where
  "json_parse s =
     (case json_value (2 * length s + 2) 0 s of
        Some (v, r) \<Rightarrow> if skip_ws r = [] then Some v else None
      | None \<Rightarrow> None)"

section \<open>Struct fields\<close>

text \<open>
  The case folding of field names: letters of ASCII to upper case, and the Kelvin sign and the
  long s, which fold to letters of ASCII.
\<close>

fun fold_name :: "string \<Rightarrow> string" where
  "fold_name [] = []"
| "fold_name (a # r) =
     (if has_prefix (a # r) [CHR 0xE2, CHR 0x84, CHR 0xAA] then CHR ''K'' # fold_name (drop 2 r)
      else if has_prefix (a # r) [CHR 0xC5, CHR 0xBF] then CHR ''S'' # fold_name (drop 1 r)
      else (if in_range 97 122 a then char_of (of_char a - 32 :: int) else a) # fold_name r)"

text \<open>The field a key names: the one spelt exactly so, else the first that folds to the same name.\<close>

definition field_of :: "string list \<Rightarrow> string \<Rightarrow> string option" where
  "field_of names k =
     (if k \<in> set names then Some k
      else List.find (\<lambda>n. fold_name n = fold_name k) names)"

text \<open>
  Decoding one value into a field that already holds \<open>old\<close>: null leaves it as it is, a value of
  another type is an error (None).
\<close>

fun into_string :: "string \<Rightarrow> json \<Rightarrow> string option" where
  "into_string old (JStr s) = Some s"
| "into_string old JNull = Some old"
| "into_string old _ = None"

fun into_bool :: "bool \<Rightarrow> json \<Rightarrow> bool option" where
  "into_bool old (JBool b) = Some b"
| "into_bool old JNull = Some old"
| "into_bool old _ = None"

fun into_f64 :: "f64 \<Rightarrow> json \<Rightarrow> f64 option" where
  "into_f64 old (JNum x) = parse_f64 x"
| "into_f64 old JNull = Some old"
| "into_f64 old _ = None"

text \<open>A slice: elements decode over the old ones, null empties it.\<close>

definition into_slice :: "'a \<Rightarrow> ('a \<Rightarrow> json \<Rightarrow> 'a option) \<Rightarrow> 'a list \<Rightarrow> json \<Rightarrow> 'a list option" where
  "into_slice zero into old v =
     (case v of
        JArr es \<Rightarrow> sequence (map (\<lambda>(i, e). into (if i < length old then old ! i else zero) e) (enumerate 0 es))
      | JNull \<Rightarrow> Some []
      | _ \<Rightarrow> None)"

text \<open>The members of an object, decoded in order.\<close>

fun into_struct :: "(string \<Rightarrow> json \<Rightarrow> 's \<Rightarrow> 's option) \<Rightarrow> (string \<times> json) list \<Rightarrow> 's \<Rightarrow> 's option" where
  "into_struct f [] s = Some s"
| "into_struct f ((k, v) # ms) s = (case f k v s of None \<Rightarrow> None | Some s' \<Rightarrow> into_struct f ms s')"

end
