(* ===== verification/Frigate.thy ===== *)
theory Frigate
  imports Go_Json
begin

text \<open>
  Package frigate (\<open>internal/frigate/frigate.go\<close>, \<open>client.go\<close>): the classification of MQTT
  topics, the decoding of event messages and of the payloads of count and classification topics,
  and the request paths the HTTP client builds.  The HTTP transport itself is not modelled.
\<close>

section \<open>Topics\<close>

datatype topic_kind =
    KindOther
  | KindEvents
  | KindReviews
  | KindCount
  | KindAvailable
  | KindClassification

record topic =
  top_kind :: topic_kind
  top_camera :: string
  top_zone :: string
  top_label :: string
  top_model :: string

definition zero_topic :: topic where
  "zero_topic = \<lparr>top_kind = KindOther, top_camera = [], top_zone = [], top_label = [], top_model = []\<rparr>"

definition not_counts :: "string list" where
  "not_counts =
     [''motion'', ''audio'', ''status'', ''snapshot'', ''active'', ''ptz_autotracker'', ''recordings'',
      ''detect'', ''record'', ''enabled'', ''birdseye'', ''improve_contrast'', ''motion_threshold'',
      ''motion_contour_area'', ''review_alerts'', ''review_detections'', ''classification'',
      ''review_status'']"

text \<open>\<open>ParseTopic\<close>: the parts of the topic decide, first case first.\<close>

definition topic_of_parts :: "string list \<Rightarrow> topic" where
  "topic_of_parts parts =
     (if length parts < 2 \<or> parts ! 0 \<noteq> ''frigate'' then zero_topic
      else if length parts = 2 \<and> parts ! 1 = ''events'' then zero_topic\<lparr>top_kind := KindEvents\<rparr>
      else if length parts = 2 \<and> parts ! 1 = ''reviews'' then zero_topic\<lparr>top_kind := KindReviews\<rparr>
      else if length parts = 2 \<and> parts ! 1 = ''available'' then zero_topic\<lparr>top_kind := KindAvailable\<rparr>
      else if length parts = 4 \<and> parts ! 2 = ''classification'' then
        zero_topic\<lparr>top_kind := KindClassification, top_camera := parts ! 1, top_model := parts ! 3\<rparr>
      else if length parts = 3 \<and> parts ! 2 \<notin> set not_counts then
        zero_topic\<lparr>top_kind := KindCount, top_camera := parts ! 1, top_label := parts ! 2\<rparr>
      else if length parts = 4 \<and> parts ! 2 \<notin> set not_counts \<and> parts ! 3 \<notin> set not_counts then
        zero_topic\<lparr>top_kind := KindCount, top_camera := parts ! 1, top_zone := parts ! 2,
          top_label := parts ! 3\<rparr>
      else zero_topic)"

definition parse_topic :: "string \<Rightarrow> topic" where
  "parse_topic t = topic_of_parts (split_on (CHR ''/'') t)"

section \<open>Timestamps\<close>

text \<open>Conversion of a floating-point number to an integer: towards zero.\<close>

definition trunc :: "rat \<Rightarrow> int" where
  "trunc x = (if x < 0 then \<lceil>x\<rceil> else \<lfloor>x\<rfloor>)"

text \<open>
  \<open>Seconds.Time\<close>: Unix seconds with a fraction; zero (null) is the zero time.  The product with
  \<open>1e9\<close> is a floating-point product.
\<close>

definition seconds_time :: "f64 \<Rightarrow> time" where
  "seconds_time s =
     (if s = 0 then 0
      else time_unix (trunc s) (trunc (fl64 ((s - of_int (trunc s)) * 1000000000))))"

section \<open>Event messages\<close>

record object =
  obj_ID :: string
  obj_Camera :: string
  obj_Label :: string
  obj_SubLabel :: string
  obj_Score :: f64
  obj_TopScore :: f64
  obj_FalsePositive :: bool
  obj_StartTime :: f64
  obj_EndTime :: f64
  obj_Active :: bool
  obj_Stationary :: bool
  obj_CurrentZones :: "string list"
  obj_EnteredZones :: "string list"
  obj_Box :: "f64 list"
  obj_HasClip :: bool
  obj_HasSnapshot :: bool
  obj_MaxSeverity :: string
  obj_Plate :: string

definition zero_object :: object where
  "zero_object =
     \<lparr>obj_ID = [], obj_Camera = [], obj_Label = [], obj_SubLabel = [], obj_Score = 0, obj_TopScore = 0,
      obj_FalsePositive = False, obj_StartTime = 0, obj_EndTime = 0, obj_Active = False,
      obj_Stationary = False, obj_CurrentZones = [], obj_EnteredZones = [], obj_Box = [],
      obj_HasClip = False, obj_HasSnapshot = False, obj_MaxSeverity = [], obj_Plate = []\<rparr>"

datatype msg_type = New | Update | End

record event_msg =
  msg_type :: msg_type
  msg_before :: "object option"
  msg_after :: object

datatype frigate_error = ErrJSON | ErrShape

text \<open>\<open>SubLabel.UnmarshalJSON\<close>: null, a name, or a name with a score; None is its error.\<close>

fun sub_label_of :: "json \<Rightarrow> string option" where
  "sub_label_of JNull = Some []"
| "sub_label_of (JStr s) = Some s"
| "sub_label_of (JArr (JStr s # _)) = Some s"
| "sub_label_of (JArr (JNull # _)) = Some []"
| "sub_label_of _ = None"

definition object_fields :: "string list" where
  "object_fields =
     [''id'', ''camera'', ''label'', ''sub_label'', ''score'', ''top_score'', ''false_positive'',
      ''start_time'', ''end_time'', ''active'', ''stationary'', ''current_zones'', ''entered_zones'',
      ''box'', ''has_clip'', ''has_snapshot'', ''max_severity'', ''recognized_license_plate'']"

text \<open>One member of the JSON object decoded into the struct; unknown keys are ignored.\<close>

definition object_field :: "string \<Rightarrow> json \<Rightarrow> object \<Rightarrow> object option" where
  "object_field k v ob =
     (case field_of object_fields k of
        None \<Rightarrow> Some ob
      | Some f \<Rightarrow>
          if f = ''id'' then map_option (\<lambda>x. ob\<lparr>obj_ID := x\<rparr>) (into_string (obj_ID ob) v)
          else if f = ''camera'' then map_option (\<lambda>x. ob\<lparr>obj_Camera := x\<rparr>) (into_string (obj_Camera ob) v)
          else if f = ''label'' then map_option (\<lambda>x. ob\<lparr>obj_Label := x\<rparr>) (into_string (obj_Label ob) v)
          else if f = ''sub_label'' then map_option (\<lambda>x. ob\<lparr>obj_SubLabel := x\<rparr>) (sub_label_of v)
          else if f = ''score'' then map_option (\<lambda>x. ob\<lparr>obj_Score := x\<rparr>) (into_f64 (obj_Score ob) v)
          else if f = ''top_score'' then map_option (\<lambda>x. ob\<lparr>obj_TopScore := x\<rparr>) (into_f64 (obj_TopScore ob) v)
          else if f = ''false_positive'' then
            map_option (\<lambda>x. ob\<lparr>obj_FalsePositive := x\<rparr>) (into_bool (obj_FalsePositive ob) v)
          else if f = ''start_time'' then map_option (\<lambda>x. ob\<lparr>obj_StartTime := x\<rparr>) (into_f64 (obj_StartTime ob) v)
          else if f = ''end_time'' then map_option (\<lambda>x. ob\<lparr>obj_EndTime := x\<rparr>) (into_f64 (obj_EndTime ob) v)
          else if f = ''active'' then map_option (\<lambda>x. ob\<lparr>obj_Active := x\<rparr>) (into_bool (obj_Active ob) v)
          else if f = ''stationary'' then
            map_option (\<lambda>x. ob\<lparr>obj_Stationary := x\<rparr>) (into_bool (obj_Stationary ob) v)
          else if f = ''current_zones'' then
            map_option (\<lambda>x. ob\<lparr>obj_CurrentZones := x\<rparr>) (into_slice [] into_string (obj_CurrentZones ob) v)
          else if f = ''entered_zones'' then
            map_option (\<lambda>x. ob\<lparr>obj_EnteredZones := x\<rparr>) (into_slice [] into_string (obj_EnteredZones ob) v)
          else if f = ''box'' then map_option (\<lambda>x. ob\<lparr>obj_Box := x\<rparr>) (into_slice 0 into_f64 (obj_Box ob) v)
          else if f = ''has_clip'' then map_option (\<lambda>x. ob\<lparr>obj_HasClip := x\<rparr>) (into_bool (obj_HasClip ob) v)
          else if f = ''has_snapshot'' then
            map_option (\<lambda>x. ob\<lparr>obj_HasSnapshot := x\<rparr>) (into_bool (obj_HasSnapshot ob) v)
          else if f = ''max_severity'' then
            map_option (\<lambda>x. ob\<lparr>obj_MaxSeverity := x\<rparr>) (into_string (obj_MaxSeverity ob) v)
          else map_option (\<lambda>x. ob\<lparr>obj_Plate := x\<rparr>) (sub_label_of v))"

text \<open>Decoding into a pointer: null sets it to nil, an object decodes over what it points to.\<close>

definition into_object :: "object option \<Rightarrow> json \<Rightarrow> object option option" where
  "into_object old v =
     (case v of
        JNull \<Rightarrow> Some None
      | JObj ms \<Rightarrow>
          map_option Some
            (into_struct object_field ms (case old of None \<Rightarrow> zero_object | Some ob \<Rightarrow> ob))
      | _ \<Rightarrow> None)"

text \<open>The \<open>Event\<close> struct while it is decoded: the type is still a string.\<close>

record raw_event =
  raw_type :: string
  raw_before :: "object option"
  raw_after :: "object option"

definition raw_event_field :: "string \<Rightarrow> json \<Rightarrow> raw_event \<Rightarrow> raw_event option" where
  "raw_event_field k v e =
     (case field_of [''type'', ''before'', ''after''] k of
        None \<Rightarrow> Some e
      | Some f \<Rightarrow>
          if f = ''type'' then map_option (\<lambda>x. e\<lparr>raw_type := x\<rparr>) (into_string (raw_type e) v)
          else if f = ''before'' then map_option (\<lambda>x. e\<lparr>raw_before := x\<rparr>) (into_object (raw_before e) v)
          else map_option (\<lambda>x. e\<lparr>raw_after := x\<rparr>) (into_object (raw_after e) v))"

definition unmarshal_event :: "json \<Rightarrow> raw_event option" where
  "unmarshal_event v =
     (let zero = \<lparr>raw_type = [], raw_before = None, raw_after = None\<rparr> in
      case v of
        JNull \<Rightarrow> Some zero
      | JObj ms \<Rightarrow> into_struct raw_event_field ms zero
      | _ \<Rightarrow> None)"

definition change_of :: "string \<Rightarrow> msg_type option" where
  "change_of s = map_of [(''new'', New), (''update'', Update), (''end'', End)] s"

text \<open>\<open>ParseEvent\<close> after \<open>json.Unmarshal\<close>: the checks on the decoded message.\<close>

definition check_event :: "raw_event \<Rightarrow> frigate_error + event_msg" where
  "check_event e =
     (case change_of (raw_type e) of
        None \<Rightarrow> Inl ErrShape
      | Some ty \<Rightarrow>
          (case raw_after e of
             None \<Rightarrow> Inl ErrShape
           | Some ob \<Rightarrow>
               if obj_ID ob = [] \<or> obj_Camera ob = [] then Inl ErrShape
               else Inr \<lparr>msg_type = ty, msg_before = raw_before e, msg_after = ob\<rparr>))"

definition parse_event :: "bytes \<Rightarrow> frigate_error + event_msg" where
  "parse_event payload =
     (case Option.bind (json_parse payload) unmarshal_event of
        None \<Rightarrow> Inl ErrJSON
      | Some e \<Rightarrow> check_event e)"

section \<open>Review messages\<close>

record review_data =
  rd_Detections :: "string list"
  rd_Objects :: "string list"
  rd_SubLabels :: "string list"
  rd_Zones :: "string list"

record review_item =
  ri_ID :: string
  ri_Camera :: string
  ri_StartTime :: f64
  ri_EndTime :: f64
  ri_Severity :: string
  ri_ThumbPath :: string
  ri_Data :: review_data

record review =
  rw_type :: string
  rw_before :: "review_item option"
  rw_after :: "review_item option"

definition review_data_field :: "string \<Rightarrow> json \<Rightarrow> review_data \<Rightarrow> review_data option" where
  "review_data_field k v d =
     (case field_of [''detections'', ''objects'', ''sub_labels'', ''zones''] k of
        None \<Rightarrow> Some d
      | Some f \<Rightarrow>
          if f = ''detections'' then
            map_option (\<lambda>x. d\<lparr>rd_Detections := x\<rparr>) (into_slice [] into_string (rd_Detections d) v)
          else if f = ''objects'' then
            map_option (\<lambda>x. d\<lparr>rd_Objects := x\<rparr>) (into_slice [] into_string (rd_Objects d) v)
          else if f = ''sub_labels'' then
            map_option (\<lambda>x. d\<lparr>rd_SubLabels := x\<rparr>) (into_slice [] into_string (rd_SubLabels d) v)
          else map_option (\<lambda>x. d\<lparr>rd_Zones := x\<rparr>) (into_slice [] into_string (rd_Zones d) v))"

definition review_item_field :: "string \<Rightarrow> json \<Rightarrow> review_item \<Rightarrow> review_item option" where
  "review_item_field k v r =
     (case field_of [''id'', ''camera'', ''start_time'', ''end_time'', ''severity'', ''thumb_path'', ''data''] k of
        None \<Rightarrow> Some r
      | Some f \<Rightarrow>
          if f = ''id'' then map_option (\<lambda>x. r\<lparr>ri_ID := x\<rparr>) (into_string (ri_ID r) v)
          else if f = ''camera'' then map_option (\<lambda>x. r\<lparr>ri_Camera := x\<rparr>) (into_string (ri_Camera r) v)
          else if f = ''start_time'' then map_option (\<lambda>x. r\<lparr>ri_StartTime := x\<rparr>) (into_f64 (ri_StartTime r) v)
          else if f = ''end_time'' then map_option (\<lambda>x. r\<lparr>ri_EndTime := x\<rparr>) (into_f64 (ri_EndTime r) v)
          else if f = ''severity'' then map_option (\<lambda>x. r\<lparr>ri_Severity := x\<rparr>) (into_string (ri_Severity r) v)
          else if f = ''thumb_path'' then
            map_option (\<lambda>x. r\<lparr>ri_ThumbPath := x\<rparr>) (into_string (ri_ThumbPath r) v)
          else (case v of
                  JNull \<Rightarrow> Some r
                | JObj ms \<Rightarrow> map_option (\<lambda>x. r\<lparr>ri_Data := x\<rparr>) (into_struct review_data_field ms (ri_Data r))
                | _ \<Rightarrow> None))"

definition into_review_item :: "review_item option \<Rightarrow> json \<Rightarrow> review_item option option" where
  "into_review_item old v =
     (case v of
        JNull \<Rightarrow> Some None
      | JObj ms \<Rightarrow>
          map_option Some
            (into_struct review_item_field ms
              (case old of
                 None \<Rightarrow> \<lparr>ri_ID = [], ri_Camera = [], ri_StartTime = 0, ri_EndTime = 0, ri_Severity = [],
                         ri_ThumbPath = [], ri_Data = \<lparr>rd_Detections = [], rd_Objects = [],
                         rd_SubLabels = [], rd_Zones = []\<rparr>\<rparr>
               | Some r \<Rightarrow> r))
      | _ \<Rightarrow> None)"

definition review_field :: "string \<Rightarrow> json \<Rightarrow> review \<Rightarrow> review option" where
  "review_field k v e =
     (case field_of [''type'', ''before'', ''after''] k of
        None \<Rightarrow> Some e
      | Some f \<Rightarrow>
          if f = ''type'' then map_option (\<lambda>x. e\<lparr>rw_type := x\<rparr>) (into_string (rw_type e) v)
          else if f = ''before'' then map_option (\<lambda>x. e\<lparr>rw_before := x\<rparr>) (into_review_item (rw_before e) v)
          else map_option (\<lambda>x. e\<lparr>rw_after := x\<rparr>) (into_review_item (rw_after e) v))"

definition unmarshal_review :: "json \<Rightarrow> review option" where
  "unmarshal_review v =
     (let zero = \<lparr>rw_type = [], rw_before = None, rw_after = None\<rparr> in
      case v of
        JNull \<Rightarrow> Some zero
      | JObj ms \<Rightarrow> into_struct review_field ms zero
      | _ \<Rightarrow> None)"

definition check_review :: "review \<Rightarrow> frigate_error + review" where
  "check_review r =
     (case change_of (rw_type r) of
        None \<Rightarrow> Inl ErrShape
      | Some _ \<Rightarrow>
          (case rw_after r of
             None \<Rightarrow> Inl ErrShape
           | Some item \<Rightarrow> if ri_ID item = [] then Inl ErrShape else Inr r))"

definition parse_review :: "bytes \<Rightarrow> frigate_error + review" where
  "parse_review payload =
     (case Option.bind (json_parse payload) unmarshal_review of
        None \<Rightarrow> Inl ErrJSON
      | Some r \<Rightarrow> check_review r)"

section \<open>Class names and counts\<close>

definition class_char :: "char \<Rightarrow> bool" where
  "class_char c \<longleftrightarrow> in_range 97 122 c \<or> in_range 65 90 c \<or> in_range 48 57 c
     \<or> c = CHR ''_'' \<or> c = CHR ''-'' \<or> c = CHR '' ''"

definition parse_class :: "bytes \<Rightarrow> frigate_error + string" where
  "parse_class payload =
     (let s = trim_space payload
      in if s = [] \<or> 128 < length s then Inl ErrShape
         else if list_all class_char s then Inr s else Inl ErrShape)"

definition parse_count :: "bytes \<Rightarrow> frigate_error + int" where
  "parse_count payload =
     (case parse_int (trim_space payload) of
        None \<Rightarrow> Inl ErrShape
      | Some n \<Rightarrow> if n < 0 then Inl ErrShape else Inr n)"

section \<open>Requests to Frigate\<close>

definition id_char :: "char \<Rightarrow> bool" where
  "id_char c \<longleftrightarrow> in_range 48 57 c \<or> in_range 97 122 c \<or> in_range 65 90 c
     \<or> c = CHR ''.'' \<or> c = CHR ''-'' \<or> c = CHR ''_''"

definition valid_id :: "string \<Rightarrow> bool" where
  "valid_id i \<longleftrightarrow> 3 \<le> length i \<and> length i \<le> 64 \<and> list_all id_char i"

text \<open>\<open>url.PathEscape\<close>: a byte that may stand in a path segment, else a percent and two digits.\<close>

definition path_char :: "char \<Rightarrow> bool" where
  "path_char c \<longleftrightarrow> in_range 48 57 c \<or> in_range 97 122 c \<or> in_range 65 90 c \<or> c \<in> set ''-_.~$&+:=@''"

definition path_escape :: "string \<Rightarrow> string" where
  "path_escape s =
     concat (map (\<lambda>c. if path_char c then [c]
                      else CHR ''%'' # encode_bits 4 ''0123456789ABCDEF'' [c]) s)"

datatype client_error = ErrNotFound | ErrStatus int | ErrContentType string

text \<open>\<open>Client.Snapshot\<close> and \<open>Client.Clip\<close> up to the request: the path, or \<open>ErrNotFound\<close>.\<close>

definition snapshot_request :: "string \<Rightarrow> client_error + string" where
  "snapshot_request event_id =
     (if \<not> valid_id event_id then Inl ErrNotFound
      else Inr (''/api/events/'' @ path_escape event_id @ ''/snapshot.jpg''))"

definition clip_request :: "string \<Rightarrow> time \<Rightarrow> time \<Rightarrow> client_error + string" where
  "clip_request camera start till =
     (if \<not> valid_id camera \<or> \<not> start < till then Inl ErrNotFound
      else Inr (''/api/'' @ path_escape camera @ ''/start/'' @ itoa (unix_sec start) @ ''/end/''
             @ itoa (unix_sec till) @ ''/clip.mp4''))"

text \<open>
  \<open>Client.get\<close> after the round trip, and \<open>Client.DetectDims\<close> after decoding: what is made of the
  answer.  An answer is its status, its \<open>Content-Type\<close> and its length.
\<close>

record response =
  resp_status :: int
  resp_content_type :: string
  resp_length :: int

record media =
  media_type :: string
  media_size :: int

definition get_media :: "response \<Rightarrow> string \<Rightarrow> client_error + media" where
  "get_media r want =
     (let ct = resp_content_type r;
          mt = (case cut (CHR '';'') ct of None \<Rightarrow> ct | Some (a, _) \<Rightarrow> a)
      in if resp_status r = 404 then Inl ErrNotFound
         else if resp_status r \<noteq> 200 then Inl (ErrStatus (resp_status r))
         else if trim_space mt \<noteq> want then Inl (ErrContentType ct)
         else Inr \<lparr>media_type = want, media_size = resp_length r\<rparr>)"

definition camera_dims :: "(string, int \<times> int) gomap \<Rightarrow> (string, int \<times> int) gomap" where
  "camera_dims cams = filter (\<lambda>(_, w, h). 0 < w \<and> 0 < h) cams"

section \<open>Facts about topics\<close>

lemma split_on_eq_iff:
  "split_on c s = ps \<longleftrightarrow> ps \<noteq> [] \<and> (\<forall>p \<in> set ps. c \<notin> set p) \<and> s = join [c] ps"
proof -
  have "c \<notin> set p" if "p \<in> set (split_on c s)" for p
    using that by (induction s arbitrary: p) (auto split: list.splits if_splits)
  then show ?thesis using split_on_join [of ps c] join_split_on [of c s] by auto
qed

lemma zero_topic_simps [simp]:
  "top_kind zero_topic = KindOther" "top_camera zero_topic = []" "top_zone zero_topic = []"
  "top_label zero_topic = []" "top_model zero_topic = []"
  by (simp_all add: zero_topic_def)

lemma length_eq_lists:
  "length xs = 2 \<longleftrightarrow> (\<exists>a b. xs = [a, b])"
  "length xs = 3 \<longleftrightarrow> (\<exists>a b c. xs = [a, b, c])"
  "length xs = 4 \<longleftrightarrow> (\<exists>a b c d. xs = [a, b, c, d])"
  by (auto simp: numeral_eq_Suc length_Suc_conv)

lemma topic_of_parts_kind:
  "top_kind (topic_of_parts ps) =
     (if length ps < 2 \<or> ps ! 0 \<noteq> ''frigate'' then KindOther
      else if length ps = 2 then
        if ps ! 1 = ''events'' then KindEvents else if ps ! 1 = ''reviews'' then KindReviews
        else if ps ! 1 = ''available'' then KindAvailable else KindOther
      else if length ps = 4 \<and> ps ! 2 = ''classification'' then KindClassification
      else if length ps = 3 \<and> ps ! 2 \<notin> set not_counts then KindCount
      else if length ps = 4 \<and> ps ! 2 \<notin> set not_counts \<and> ps ! 3 \<notin> set not_counts then KindCount
      else KindOther)"
  by (simp add: topic_of_parts_def)

lemma kind_ladder:
  fixes a b c d e f g h :: bool
  defines "k \<equiv> (if a then KindOther
      else if b then
        if c then KindEvents else if d then KindReviews else if e then KindAvailable else KindOther
      else if f then KindClassification else if g then KindCount else if h then KindCount else KindOther)"
  shows "k = KindEvents \<longleftrightarrow> \<not> a \<and> b \<and> c" and "k = KindClassification \<longleftrightarrow> \<not> a \<and> \<not> b \<and> f"
  by (simp_all add: k_def)

lemma topic_events:
  "top_kind (topic_of_parts ps) = KindEvents \<longleftrightarrow> ps = [''frigate'', ''events'']"
  (is "?l \<longleftrightarrow> _")
proof
  assume ?l
  then have "length ps = 2" "ps ! 0 = ''frigate''" "ps ! 1 = ''events''"
    unfolding topic_of_parts_kind kind_ladder by simp_all
  then show "ps = [''frigate'', ''events'']" unfolding length_eq_lists by auto
qed (simp add: topic_of_parts_kind)

lemma topic_classification:
  "top_kind (topic_of_parts ps) = KindClassification
    \<longleftrightarrow> (\<exists>cam m. ps = [''frigate'', cam, ''classification'', m])"
  (is "?l \<longleftrightarrow> _")
proof
  assume ?l
  then have "length ps = 4" "ps ! 0 = ''frigate''" "ps ! 2 = ''classification''"
    unfolding topic_of_parts_kind kind_ladder by simp_all
  then show "\<exists>cam m. ps = [''frigate'', cam, ''classification'', m]"
    unfolding length_eq_lists by auto
qed (auto simp: topic_of_parts_kind)

text \<open>
  Further. Only the topic \<open>frigate/events\<close> carries events, and a classification topic is exactly
  \<open>frigate/<camera>/classification/<model>\<close>, from which the camera and the model are read back;
  every count topic names a non-reserved label.
\<close>

theorem parse_topic_kinds:
  "(top_kind (parse_topic t) = KindEvents \<longleftrightarrow> t = ''frigate/events'')
   \<and> (top_kind (parse_topic t) = KindClassification \<longleftrightarrow>
        (\<exists>cam m. CHR ''/'' \<notin> set cam \<and> CHR ''/'' \<notin> set m
          \<and> t = ''frigate/'' @ cam @ ''/classification/'' @ m
          \<and> top_camera (parse_topic t) = cam \<and> top_model (parse_topic t) = m))
   \<and> \<not> (top_kind (parse_topic t) = KindCount \<and> top_label (parse_topic t) \<in> set not_counts)"
proof (intro conjI)
  show "top_kind (parse_topic t) = KindEvents \<longleftrightarrow> t = ''frigate/events''"
    by (simp add: parse_topic_def topic_events split_on_eq_iff)
  show "top_kind (parse_topic t) = KindClassification \<longleftrightarrow>
        (\<exists>cam m. CHR ''/'' \<notin> set cam \<and> CHR ''/'' \<notin> set m
          \<and> t = ''frigate/'' @ cam @ ''/classification/'' @ m
          \<and> top_camera (parse_topic t) = cam \<and> top_model (parse_topic t) = m)"
    (is "?l \<longleftrightarrow> ?r")
  proof
    assume ?l
    then obtain cam m where parts: "split_on (CHR ''/'') t = [''frigate'', cam, ''classification'', m]"
      by (auto simp: parse_topic_def topic_classification)
    then have "top_camera (parse_topic t) = cam \<and> top_model (parse_topic t) = m"
      by (simp add: parse_topic_def topic_of_parts_def)
    with parts show ?r by (auto simp: split_on_eq_iff)
  next
    assume ?r
    then obtain cam m where "CHR ''/'' \<notin> set cam" "CHR ''/'' \<notin> set m"
      "t = ''frigate/'' @ cam @ ''/classification/'' @ m" by blast
    then have "split_on (CHR ''/'') t = [''frigate'', cam, ''classification'', m]"
      by (simp add: split_on_eq_iff)
    then show ?l by (simp add: parse_topic_def topic_classification)
  qed
  show "\<not> (top_kind (parse_topic t) = KindCount \<and> top_label (parse_topic t) \<in> set not_counts)"
    by (auto simp: parse_topic_def topic_of_parts_def)
qed

section \<open>Facts about messages\<close>

lemma parse_event_ok:
  "parse_event payload = Inr msg \<Longrightarrow> obj_ID (msg_after msg) \<noteq> [] \<and> obj_Camera (msg_after msg) \<noteq> []"
  by (auto simp: parse_event_def check_event_def split: option.splits if_splits)

lemma change_of_simps [simp]:
  "change_of ''new'' = Some New" "change_of ''update'' = Some Update" "change_of ''end'' = Some End"
  by (simp_all add: change_of_def)

text \<open>
  Further. What decodes is usable: a decoded event message names an object and a camera, a decoded review
  an item; a class is a trimmed token of 1 to 128 printable characters, a count a number from 0.
\<close>

theorem decoded_shape:
  "(case parse_event payload of
      Inl _ \<Rightarrow> True
    | Inr msg \<Rightarrow> obj_ID (msg_after msg) \<noteq> [] \<and> obj_Camera (msg_after msg) \<noteq> [])
   \<and> (case parse_review payload of
        Inl _ \<Rightarrow> True
      | Inr r \<Rightarrow> (\<exists>item. rw_after r = Some item \<and> ri_ID item \<noteq> []) \<and> change_of (rw_type r) \<noteq> None)
   \<and> (case parse_class payload of
        Inl _ \<Rightarrow> True
      | Inr s \<Rightarrow> s = trim_space payload \<and> 0 < length s \<and> length s \<le> 128 \<and> list_all class_char s)
   \<and> (case parse_count payload of Inl _ \<Rightarrow> True | Inr n \<Rightarrow> 0 \<le> n)"
  by (auto simp: parse_event_def check_event_def parse_review_def check_review_def parse_class_def
      parse_count_def Let_def split: sum.split option.split)

lemma parse_class_ok:
  assumes "parse_class payload = Inr s"
  shows "s = trim_space payload \<and> s \<noteq> [] \<and> length s \<le> 128 \<and> list_all class_char s"
  using assms by (auto simp: parse_class_def Let_def split: if_splits)

lemma parse_count_nonneg: "parse_count payload = Inr n \<Longrightarrow> 0 \<le> n"
  by (auto simp: parse_count_def split: option.splits if_splits)

text \<open>A minimal message, for the witnesses of the engines: a dog \<open>a\<close> seen by camera \<open>c\<close>.\<close>

definition json_text :: "string \<Rightarrow> bytes" where
  "json_text s = CHR 0x22 # s @ [CHR 0x22]"

definition demo_payload :: bytes where
  "demo_payload =
     ''{'' @ json_text ''type'' @ '':'' @ json_text ''new'' @ '','' @ json_text ''after'' @ '':{''
     @ json_text ''id'' @ '':'' @ json_text ''a'' @ '','' @ json_text ''camera'' @ '':'' @ json_text ''c'' @ '',''
     @ json_text ''label'' @ '':'' @ json_text ''dog'' @ ''}}''"

definition demo_msg :: event_msg where
  "demo_msg = \<lparr>msg_type = New, msg_before = None,
     msg_after = zero_object\<lparr>obj_ID := ''a'', obj_Camera := ''c'', obj_Label := ''dog''\<rparr>\<rparr>"

lemma demo_event: "parse_event demo_payload = Inr demo_msg"
  by code_simp

lemma events_topic: "top_kind (parse_topic ''frigate/events'') = KindEvents"
  by code_simp

section \<open>Facts about requests\<close>

lemma id_char_path_char: "id_char c \<Longrightarrow> path_char c"
  by (auto simp: id_char_def path_char_def)

lemma path_escape_valid: "list_all id_char s \<Longrightarrow> path_escape s = s"
  by (induction s) (auto simp: path_escape_def id_char_path_char)

lemma slash_not_id_char [simp]: "\<not> id_char (CHR ''/'')"
  by (simp add: id_char_def in_range_def)

lemma valid_id_no_slash: "valid_id i \<Longrightarrow> CHR ''/'' \<notin> set i"
  by (auto simp: valid_id_def list_all_iff)

lemma slash_notin_itoa [simp]: "CHR ''/'' \<notin> set (itoa n)"
  using set_dec [of n] set_dec [of "- n"] digit_chars_neq(4)
  by (auto simp: itoa_def simp del: digit_chars_neq)

text \<open>
  Further. An id never shapes a URL: a snapshot request that passes the check has exactly the five
  path segments of the API with the id itself as the fourth, and a clip request exactly eight with
  the camera as the third; everything else is refused as not found.
\<close>

theorem request_shape:
  "(case snapshot_request i of
      Inl e \<Rightarrow> e = ErrNotFound \<and> \<not> valid_id i
    | Inr path \<Rightarrow> split_on (CHR ''/'') path = [[], ''api'', ''events'', i, ''snapshot.jpg'']
        \<and> 3 \<le> length i)
   \<and> (case clip_request cam start till of
      Inl e \<Rightarrow> e = ErrNotFound \<and> \<not> (valid_id cam \<and> start < till)
    | Inr path \<Rightarrow> split_on (CHR ''/'') path =
        [[], ''api'', cam, ''start'', itoa (unix_sec start), ''end'', itoa (unix_sec till), ''clip.mp4'']
        \<and> unix_sec start \<le> unix_sec till)"
proof (intro conjI)
  show "case snapshot_request i of
      Inl e \<Rightarrow> e = ErrNotFound \<and> \<not> valid_id i
    | Inr path \<Rightarrow> split_on (CHR ''/'') path = [[], ''api'', ''events'', i, ''snapshot.jpg'']
        \<and> 3 \<le> length i"
    using valid_id_no_slash [of i]
    by (auto simp: snapshot_request_def split_on_eq_iff valid_id_def path_escape_valid)
  show "case clip_request cam start till of
      Inl e \<Rightarrow> e = ErrNotFound \<and> \<not> (valid_id cam \<and> start < till)
    | Inr path \<Rightarrow> split_on (CHR ''/'') path =
        [[], ''api'', cam, ''start'', itoa (unix_sec start), ''end'', itoa (unix_sec till), ''clip.mp4'']
        \<and> unix_sec start \<le> unix_sec till"
    using valid_id_no_slash [of cam]
    by (auto simp: clip_request_def split_on_eq_iff valid_id_def path_escape_valid unix_sec_def
        intro!: zdiv_mono1)
qed

end
