(* ===== verification/Policy.thy ===== *)
theory Policy
  imports Frigate Go_Crypto
begin

text \<open>
  Package policy, the parts every engine shares (\<open>internal/policy/policy.go\<close>): events and
  changes, the verdicts on kinds, the minting of ids, the contract of the \<open>Engine\<close> interface
  as locales, the passthrough engine and the fan-out \<open>Multi\<close>.

  An engine is a state and a function \<open>observe\<close> that returns None where the Go code would
  panic (a nil dereference or an index out of range) and otherwise the next state with the
  changes in the order they are emitted.
\<close>

section \<open>Events and changes\<close>

datatype kind =
    KindUnknown
  | KindArrival
  | KindDeparture
  | KindPackage
  | KindDetection
  | KindActivity
  | KindState
  | KindSighting

datatype clip_state = ClipUnknown | ClipNone | ClipGrowing | ClipFinal

record box_sample =
  bs_Camera :: string
  bs_At :: time
  bs_Box :: "f64 list"

record span =
  sp_Camera :: string
  sp_Label :: string
  sp_Start :: time
  sp_End :: time

record event =
  ev_ID :: string
  ev_Camera :: string
  ev_Label :: string
  ev_SubLabel :: string
  ev_Plate :: string
  ev_Quiet :: bool
  ev_Zones :: "string list"
  ev_Kind :: kind
  ev_StartedAt :: time
  ev_EndedAt :: time
  ev_HasSnapshot :: bool
  ev_Clip :: clip_state
  ev_SourceID :: string
  ev_Objects :: "(string, int) gomap"
  ev_Path :: "string list"
  ev_Cameras :: "string list"
  ev_SourceIDs :: "string list"
  ev_Spans :: "span list"
  ev_Boxes :: "box_sample list"

definition zero_event :: event where
  "zero_event =
     \<lparr>ev_ID = [], ev_Camera = [], ev_Label = [], ev_SubLabel = [], ev_Plate = [], ev_Quiet = False,
      ev_Zones = [], ev_Kind = KindUnknown, ev_StartedAt = 0, ev_EndedAt = 0, ev_HasSnapshot = False,
      ev_Clip = ClipUnknown, ev_SourceID = [], ev_Objects = [], ev_Path = [], ev_Cameras = [],
      ev_SourceIDs = [], ev_Spans = [], ev_Boxes = []\<rparr>"

definition running :: "event \<Rightarrow> bool" where
  "running e \<longleftrightarrow> is_zero (ev_EndedAt e)"

datatype op = OpUnknown | OpStarted | OpUpdated | OpEnded

record change =
  chg_op :: op
  chg_event :: event

abbreviation Change :: "op \<Rightarrow> event \<Rightarrow> change" where
  "Change oper e \<equiv> \<lparr>chg_op = oper, chg_event = e\<rparr>"

section \<open>Verdicts\<close>

fun kind_audience :: "kind \<Rightarrow> string" where
  "kind_audience KindUnknown = ''nobody''"
| "kind_audience KindDetection = ''nobody (list only)''"
| "kind_audience _ = ''household''"

definition event_audience :: "event \<Rightarrow> string" where
  "event_audience e = (if ev_Quiet e then ''nobody (list only)'' else kind_audience (ev_Kind e))"

fun kind_sent :: "kind \<Rightarrow> bool" where
  "kind_sent KindUnknown = False"
| "kind_sent KindDetection = False"
| "kind_sent _ = True"

definition event_sent :: "event \<Rightarrow> bool" where
  "event_sent e \<longleftrightarrow> kind_sent (ev_Kind e) \<and> \<not> ev_Quiet e"

fun kind_string :: "kind \<Rightarrow> string" where
  "kind_string KindArrival = ''arrival''"
| "kind_string KindDeparture = ''departure''"
| "kind_string KindPackage = ''package''"
| "kind_string KindDetection = ''detection''"
| "kind_string KindActivity = ''activity''"
| "kind_string KindState = ''state''"
| "kind_string KindSighting = ''sighting''"
| "kind_string KindUnknown = ''unknown''"

fun clip_string :: "clip_state \<Rightarrow> string" where
  "clip_string ClipNone = ''none''"
| "clip_string ClipGrowing = ''growing''"
| "clip_string ClipFinal = ''final''"
| "clip_string ClipUnknown = ''unknown''"

section \<open>Ids\<close>

text \<open>The slice \<open>[:20]\<close> would panic on a shorter string; the lemma \<open>length_mint_id\<close> shows it cannot.\<close>

definition mint_id :: "string \<Rightarrow> string" where
  "mint_id src = take 20 (base32_encode (sha256 (''curtilage/event/'' @ src)))"

section \<open>The passthrough engine\<close>

record passthrough =
  pt_live :: "(string, event) gomap"
  pt_notable :: "string list"
  pt_undecodable :: "64 word"

definition new_passthrough :: passthrough where
  "new_passthrough = \<lparr>pt_live = [], pt_notable = [], pt_undecodable = 0\<rparr>"

text \<open>\<open>Passthrough.Live\<close>: the running events, in the order of the range.\<close>

definition passthrough_live :: "passthrough \<Rightarrow> event list" where
  "passthrough_live p = map snd (pt_live p)"

definition clip_state_of :: "object \<Rightarrow> bool \<Rightarrow> clip_state" where
  "clip_state_of ob run =
     (if \<not> obj_HasClip ob then ClipNone else if run then ClipGrowing else ClipFinal)"

definition from_object :: "object \<Rightarrow> time \<Rightarrow> event" where
  "from_object ob now =
     (let started = (let s = seconds_time (obj_StartTime ob) in if is_zero s then now else s);
          zones = (if obj_EnteredZones ob = [] then obj_CurrentZones ob else obj_EnteredZones ob);
          e = zero_event\<lparr>
            ev_ID := mint_id (obj_ID ob),
            ev_Camera := obj_Camera ob,
            ev_Label := obj_Label ob,
            ev_SubLabel := obj_SubLabel ob,
            ev_Plate := obj_Plate ob,
            ev_Zones := zones,
            ev_Kind := KindDetection,
            ev_StartedAt := started,
            ev_EndedAt := seconds_time (obj_EndTime ob),
            ev_HasSnapshot := obj_HasSnapshot ob,
            ev_SourceID := obj_ID ob\<rparr>
      in e\<lparr>ev_Clip := clip_state_of ob (running e)\<rparr>)"

text \<open>\<open>same\<close>: nothing a viewer would notice changed.\<close>

definition same_event :: "event \<Rightarrow> event \<Rightarrow> bool" where
  "same_event a b \<longleftrightarrow>
     ev_SubLabel a = ev_SubLabel b \<and> ev_Plate a = ev_Plate b \<and> ev_HasSnapshot a = ev_HasSnapshot b
     \<and> ev_Clip a = ev_Clip b \<and> ev_Kind a = ev_Kind b \<and> ev_Zones a = ev_Zones b"

text \<open>\<open>Passthrough.Observe\<close> from a decoded message on.\<close>

definition passthrough_message ::
  "passthrough \<Rightarrow> time \<Rightarrow> event_msg \<Rightarrow> passthrough \<times> change list" where
  "passthrough_message p now msg =
     (let ob = msg_after msg in
      if obj_FalsePositive ob then (p, [])
      else
        let next = (let e = from_object ob now in
                    if obj_Label ob \<in> set (pt_notable p) then e\<lparr>ev_Kind := KindSighting\<rparr> else e);
            prev = gm_get (pt_live p) (obj_ID ob);
            keep = p\<lparr>pt_live := gm_set (obj_ID ob) next (pt_live p)\<rparr>
        in case msg_type msg of
             New \<Rightarrow>
               (case prev of
                  Some _ \<Rightarrow> (p, [])
                | None \<Rightarrow> (keep, [Change OpStarted next]))
           | Update \<Rightarrow>
               (case prev of
                  None \<Rightarrow> (keep, [Change OpStarted next])
                | Some was \<Rightarrow> if same_event was next then (p, []) else (keep, [Change OpUpdated next]))
           | End \<Rightarrow>
               (let before =
                      (case prev of
                         None \<Rightarrow> [Change OpStarted
                                   (next\<lparr>ev_EndedAt := 0, ev_Clip := clip_state_of ob True\<rparr>)]
                       | Some _ \<Rightarrow> []);
                    ended = (if is_zero (ev_EndedAt next) then next\<lparr>ev_EndedAt := now\<rparr> else next)
                in (p\<lparr>pt_live := gm_del (obj_ID ob) (pt_live p)\<rparr>,
                    before @ [Change OpEnded (ended\<lparr>ev_Clip := clip_state_of ob False\<rparr>)])))"

definition passthrough_observe ::
  "passthrough \<Rightarrow> time \<Rightarrow> string \<Rightarrow> bytes \<Rightarrow> passthrough \<times> change list" where
  "passthrough_observe p now topic payload =
     (if top_kind (parse_topic topic) \<noteq> KindEvents then (p, [])
      else case parse_event payload of
             Inl _ \<Rightarrow> (p\<lparr>pt_undecodable := pt_undecodable p + 1\<rparr>, [])
           | Inr msg \<Rightarrow> passthrough_message p now msg)"

section \<open>The contract of an engine\<close>

type_synonym 's observer = "'s \<Rightarrow> time \<Rightarrow> string \<Rightarrow> bytes \<Rightarrow> ('s \<times> change list) option"

type_synonym broker_message = "time \<times> string \<times> bytes"

text \<open>A stream of broker messages fed to an engine, with everything it emitted.\<close>

fun run_engine :: "'s observer \<Rightarrow> 's \<Rightarrow> broker_message list \<Rightarrow> ('s \<times> change list) option" where
  "run_engine observe s [] = Some (s, [])"
| "run_engine observe s ((now, topic, payload) # ms) =
     (case observe s now topic payload of
        None \<Rightarrow> None
      | Some (s1, cs) \<Rightarrow>
          (case run_engine observe s1 ms of
             None \<Rightarrow> None
           | Some (s2, cs') \<Rightarrow> Some (s2, cs @ cs')))"

lemma run_engine_append:
  "run_engine observe s (xs @ ys) =
     (case run_engine observe s xs of
        None \<Rightarrow> None
      | Some (s1, cs) \<Rightarrow>
          (case run_engine observe s1 ys of
             None \<Rightarrow> None
           | Some (s2, cs') \<Rightarrow> Some (s2, cs @ cs')))"
  by (induction xs arbitrary: s) (auto split: option.splits)

text \<open>What any reader of the API may rely on in a change.\<close>

definition change_ok :: "change \<Rightarrow> bool" where
  "change_ok c \<longleftrightarrow>
     chg_op c \<noteq> OpUnknown \<and> length (ev_ID (chg_event c)) = 20
     \<and> \<not> is_zero (ev_StartedAt (chg_event c)) \<and> ev_Kind (chg_event c) \<noteq> KindUnknown
     \<and> ev_Clip (chg_event c) \<noteq> ClipUnknown"

definition message_ok :: "broker_message \<Rightarrow> bool" where
  "message_ok m \<longleftrightarrow> 0 < fst m"

text \<open>The life of one event: it starts, changes while it runs, ends; it may start again.\<close>

fun life_step :: "bool \<Rightarrow> op \<Rightarrow> bool option" where
  "life_step False OpStarted = Some True"
| "life_step True OpUpdated = Some True"
| "life_step True OpEnded = Some False"
| "life_step _ _ = None"

fun life :: "bool \<Rightarrow> op list \<Rightarrow> bool option" where
  "life b [] = Some b"
| "life b (x # xs) = (case life_step b x of None \<Rightarrow> None | Some b' \<Rightarrow> life b' xs)"

definition ops_of :: "(event \<Rightarrow> 'k) \<Rightarrow> 'k \<Rightarrow> change list \<Rightarrow> op list" where
  "ops_of key k cs = map chg_op (filter (\<lambda>c. key (chg_event c) = k) cs)"

lemma life_append: "life b (xs @ ys) = Option.bind (life b xs) (\<lambda>b'. life b' ys)"
  by (induction b xs rule: life.induct) (auto split: option.splits)

lemma ops_of_simps [simp]:
  "ops_of key k [] = []"
  "ops_of key k (cs @ cs') = ops_of key k cs @ ops_of key k cs'"
  "ops_of key k (c # cs) = (if key (chg_event c) = k then [chg_op c] else []) @ ops_of key k cs"
  by (simp_all add: ops_of_def)

locale engine =
  fixes observe :: "'s observer"
    and inv :: "'s \<Rightarrow> bool"
  assumes step_ok: "inv s \<Longrightarrow> 0 < now \<Longrightarrow>
      \<exists>s' cs. observe s now topic payload = Some (s', cs) \<and> inv s' \<and> list_all change_ok cs"
begin

text \<open>A stream never panics, keeps the invariant and emits well-formed changes only.\<close>

lemma run_ok:
  assumes "inv s" and "list_all message_ok ms"
  shows "\<exists>s' cs. run_engine observe s ms = Some (s', cs) \<and> inv s' \<and> list_all change_ok cs"
  using assms
proof (induction ms arbitrary: s)
  case Nil
  then show ?case by simp
next
  case (Cons m ms)
  obtain now topic payload where m: "m = (now, topic, payload)" by (cases m) auto
  with Cons.prems have "0 < now" by (simp add: message_ok_def)
  with step_ok [OF Cons.prems(1)] obtain s1 cs where 1:
    "observe s now topic payload = Some (s1, cs)" "inv s1" "list_all change_ok cs" by blast
  from Cons.IH [OF 1(2)] Cons.prems(2) obtain s2 cs' where
    "run_engine observe s1 ms = Some (s2, cs')" "inv s2" "list_all change_ok cs'" by auto
  with 1 show ?case by (simp add: m)
qed

end

text \<open>An engine whose events live: each has a key, and the state knows which keys are running.\<close>

locale tracker = engine observe inv for observe :: "'s observer" and inv +
  fixes key :: "event \<Rightarrow> 'k"
    and live :: "'s \<Rightarrow> 'k \<Rightarrow> bool"
  assumes step_life: "inv s \<Longrightarrow> 0 < now \<Longrightarrow> observe s now topic payload = Some (s', cs) \<Longrightarrow>
      life (live s k) (ops_of key k cs) = Some (live s' k)"
begin

lemma run_life:
  assumes "inv s" and "list_all message_ok ms" and "run_engine observe s ms = Some (s', cs)"
  shows "life (live s k) (ops_of key k cs) = Some (live s' k)"
  using assms
proof (induction ms arbitrary: s cs)
  case Nil
  then show ?case by simp
next
  case (Cons m ms)
  obtain now topic payload where m: "m = (now, topic, payload)" by (cases m) auto
  with Cons.prems have "0 < now" by (simp add: message_ok_def)
  with step_ok [OF Cons.prems(1)] obtain s1 cs1 where 1:
    "observe s now topic payload = Some (s1, cs1)" "inv s1" by blast
  with Cons.prems(3) obtain cs2 where 2: "run_engine observe s1 ms = Some (s', cs2)" "cs = cs1 @ cs2"
    by (auto simp: m split: option.splits)
  from step_life [OF Cons.prems(1) \<open>0 < now\<close> 1(1), of k] Cons.IH [OF 1(2) _ 2(1)] Cons.prems(2)
  show ?case by (simp add: 2(2) life_append)
qed

end

section \<open>Fan-out\<close>

text \<open>
  \<open>Multi.Observe\<close>: the engines of the slice are of different types, so the slice is a tuple,
  built by \<open>multi_cons\<close> and ended by \<open>multi_nil\<close>; the loop feeds each one in order.
\<close>

definition multi_nil :: "unit observer" where
  "multi_nil s now topic payload = Some (s, [])"

definition multi_cons :: "'a observer \<Rightarrow> 'b observer \<Rightarrow> ('a \<times> 'b) observer" where
  "multi_cons e rest s now topic payload =
     (case e (fst s) now topic payload of
        None \<Rightarrow> None
      | Some (a, cs) \<Rightarrow>
          (case rest (snd s) now topic payload of
             None \<Rightarrow> None
           | Some (b, cs') \<Rightarrow> Some ((a, b), cs @ cs')))"

locale engine_pair = a: engine obs_a inv_a + b: engine obs_b inv_b
  for obs_a :: "'a observer" and inv_a and obs_b :: "'b observer" and inv_b
begin

lemma pair_step:
  assumes "inv_a (fst s) \<and> inv_b (snd s)" and "0 < now"
  shows "\<exists>s' cs. multi_cons obs_a obs_b s now topic payload = Some (s', cs)
    \<and> (inv_a (fst s') \<and> inv_b (snd s')) \<and> list_all change_ok cs"
  using assms a.step_ok [of "fst s" now topic payload] b.step_ok [of "snd s" now topic payload]
  by (fastforce simp: multi_cons_def)

end

sublocale engine_pair \<subseteq> pair: engine "multi_cons obs_a obs_b" "\<lambda>s. inv_a (fst s) \<and> inv_b (snd s)"
  by unfold_locales (rule pair_step)

interpretation nil: engine multi_nil "\<lambda>_. True"
  by unfold_locales (simp add: multi_nil_def)

section \<open>Facts about ids and the passthrough engine\<close>

lemma length_mint_id [simp]: "length (mint_id src) = 20"
proof -
  have "length (base32_encode (sha256 s)) * 5 = length (pad_bits 5 (byte_bits (sha256 s)))" for s
    by (simp add: base32_encode_def length_encode_bits)
  then show ?thesis by (simp add: mint_id_def pad_bits_def)
qed

text \<open>Ids are made of base32 digits: they pass any URL or file name unescaped.\<close>

lemma set_mint_id: "set (mint_id src) \<subseteq> set alphabet32"
  using set_encode_bits [of alphabet32 5] set_take_subset
  by (fastforce simp: mint_id_def base32_encode_def)

definition passthrough_inv :: "passthrough \<Rightarrow> bool" where
  "passthrough_inv p \<longleftrightarrow> gm_wf (pt_live p)
     \<and> (\<forall>(k, e) \<in> set (pt_live p). ev_SourceID e = k \<and> ev_ID e = mint_id k
          \<and> ev_Kind e \<in> {KindDetection, KindSighting})"

lemma passthrough_inv_new: "passthrough_inv new_passthrough"
  by (simp add: passthrough_inv_def new_passthrough_def)

lemma from_object_simps [simp]:
  "ev_ID (from_object ob now) = mint_id (obj_ID ob)"
  "ev_SourceID (from_object ob now) = obj_ID ob"
  "ev_Kind (from_object ob now) = KindDetection"
  "ev_Quiet (from_object ob now) = False"
  "ev_StartedAt (from_object ob now) =
     (if seconds_time (obj_StartTime ob) = 0 then now else seconds_time (obj_StartTime ob))"
  "ev_EndedAt (from_object ob now) = seconds_time (obj_EndTime ob)"
  by (simp_all add: from_object_def zero_event_def Let_def)

lemma clip_state_of_known [simp]: "clip_state_of ob run \<noteq> ClipUnknown"
  by (simp add: clip_state_of_def)

lemma from_object_clip [simp]: "ev_Clip (from_object ob now) \<noteq> ClipUnknown"
  by (simp add: from_object_def Let_def)

lemma passthrough_inv_set [inv_intros]:
  assumes "passthrough_inv p" and "ev_SourceID e = k" and "ev_ID e = mint_id k"
    and "ev_Kind e \<in> {KindDetection, KindSighting}"
  shows "passthrough_inv (p\<lparr>pt_live := gm_set k e (pt_live p)\<rparr>)"
proof -
  have "set (gm_set k e (pt_live p)) \<subseteq> insert (k, e) (set (pt_live p))" by (rule gm_set_entries)
  with assms show ?thesis unfolding passthrough_inv_def by fastforce
qed

lemma passthrough_inv_del [inv_intros]:
  assumes "passthrough_inv p"
  shows "passthrough_inv (p\<lparr>pt_live := gm_del k (pt_live p)\<rparr>)"
proof -
  have "set (gm_del k (pt_live p)) \<subseteq> set (pt_live p)" by (rule gm_del_entries)
  with assms show ?thesis unfolding passthrough_inv_def by fastforce
qed

lemma passthrough_message_inv:
  assumes "passthrough_inv p" and "passthrough_message p now msg = (p', cs)"
  shows "passthrough_inv p'"
  using assms unfolding passthrough_message_def Let_def
  by (auto split: if_splits msg_type.splits option.splits intro!: passthrough_inv_set passthrough_inv_del)

lemma passthrough_message_ok:
  assumes "0 < now" and "passthrough_message p now msg = (p', cs)"
  shows "list_all change_ok cs"
  using assms
  by (auto simp: passthrough_message_def change_ok_def Let_def
      split: if_splits msg_type.splits option.splits)

text \<open>Everything it says about a message is about that message's object, and by kind.\<close>

lemma passthrough_message_about:
  assumes "passthrough_message p now msg = (p', cs)" and "c \<in> set cs"
  shows "ev_SourceID (chg_event c) = obj_ID (msg_after msg)"
    and "ev_Kind (chg_event c) =
      (if obj_Label (msg_after msg) \<in> set (pt_notable p) then KindSighting else KindDetection)"
  using assms
  by (auto simp: passthrough_message_def Let_def split: if_splits msg_type.splits option.splits)

lemma passthrough_message_life:
  assumes "passthrough_message p now msg = (p', cs)"
  shows "life (gm_get (pt_live p) k \<noteq> None) (ops_of ev_SourceID k cs)
    = Some (gm_get (pt_live p') k \<noteq> None)"
  using assms
  by (auto simp: passthrough_message_def Let_def split: if_splits msg_type.splits option.splits)

definition passthrough_observer :: "passthrough observer" where
  "passthrough_observer p now topic payload = Some (passthrough_observe p now topic payload)"

interpretation pt: tracker passthrough_observer passthrough_inv ev_SourceID
  "\<lambda>p k. gm_get (pt_live p) k \<noteq> None"
proof unfold_locales
  fix p now topic payload
  assume p: "passthrough_inv p" and "(0 :: int) < now"
  then show "\<exists>p' cs. passthrough_observer p now topic payload = Some (p', cs)
      \<and> passthrough_inv p' \<and> list_all change_ok cs"
    using passthrough_message_inv [OF p] passthrough_message_ok
    by (cases "passthrough_observe p now topic payload")
      (auto simp: passthrough_observer_def passthrough_observe_def passthrough_inv_def
        split: if_splits sum.splits)
next
  fix p now topic payload p' cs k
  assume "passthrough_observer p now topic payload = Some (p', cs)"
  then show "life (gm_get (pt_live p) k \<noteq> None) (ops_of ev_SourceID k cs)
      = Some (gm_get (pt_live p') k \<noteq> None)"
    using passthrough_message_life [of p now _ p' cs k]
    by (auto simp: passthrough_observer_def passthrough_observe_def
        split: if_splits sum.splits)
qed

section \<open>Properties\<close>

text \<open>
  Further. The passthrough engine reports the life of every tracked object: over any stream from a new
  engine, the changes about one source id are Started, then any Updated, then Ended, possibly over
  again, whichever messages were lost or repeated; and the object is in the live table at the end
  exactly when its last word was not Ended.
\<close>

theorem passthrough_life:
  assumes "list_all message_ok ms"
  shows "\<exists>p cs. run_engine passthrough_observer new_passthrough ms = Some (p, cs)
    \<and> list_all change_ok cs
    \<and> life False (ops_of ev_SourceID k cs) = Some (gm_get (pt_live p) k \<noteq> None)"
proof -
  from pt.run_ok [OF passthrough_inv_new assms] obtain p cs where
    run: "run_engine passthrough_observer new_passthrough ms = Some (p, cs)" "list_all change_ok cs" by blast
  with pt.run_life [OF passthrough_inv_new assms run(1), of k] show ?thesis
    by (simp add: new_passthrough_def)
qed

lemma passthrough_life_witness:
  "\<exists>p cs. run_engine passthrough_observer new_passthrough [(10, ''frigate/events'', demo_payload)] = Some (p, cs)
    \<and> life False (ops_of ev_SourceID ''a'' cs) = Some (gm_get (pt_live p) ''a'' \<noteq> None)"
  using passthrough_life [of "[(10, ''frigate/events'', demo_payload)]" "''a''"]
  by (auto simp: message_ok_def)

text \<open>
  Further. What the passthrough engine ignores and what it must say: a message of another topic or about
  a false positive changes nothing; one that does not decode is counted and nothing else; an end is
  always announced with an end time and a clip that no longer grows.
\<close>

theorem passthrough_cases:
  assumes "0 < now"
  shows "(case passthrough_observe p now topic payload of (p', cs) \<Rightarrow>
     if top_kind (parse_topic topic) \<noteq> KindEvents then p' = p \<and> cs = []
     else case parse_event payload of
            Inl _ \<Rightarrow> p' = p\<lparr>pt_undecodable := pt_undecodable p + 1\<rparr> \<and> cs = []
          | Inr msg \<Rightarrow>
              if obj_FalsePositive (msg_after msg) then p' = p \<and> cs = []
              else if msg_type msg = End then
                gm_get (pt_live p') (obj_ID (msg_after msg)) = None \<and> cs \<noteq> []
                \<and> chg_op (last cs) = OpEnded \<and> \<not> running (chg_event (last cs))
                \<and> ev_Clip (chg_event (last cs)) \<noteq> ClipGrowing
              else gm_get (pt_live p') (obj_ID (msg_after msg)) \<noteq> None)"
  using assms
  by (auto simp: passthrough_observe_def passthrough_message_def running_def clip_state_of_def Let_def
      split: sum.split msg_type.split option.split)

lemma passthrough_cases_witness:
  "case passthrough_observe new_passthrough 10 ''frigate/events'' demo_payload of (p', cs) \<Rightarrow>
     gm_get (pt_live p') ''a'' \<noteq> None"
  using passthrough_cases [where now = 10 and p = new_passthrough and topic = "''frigate/events''"
      and payload = demo_payload]
  by (simp add: events_topic demo_event demo_msg_def zero_object_def split: prod.splits)

end
