(* ===== verification/States.thy ===== *)
theory States
  imports Policy
begin

text \<open>
  The \<open>States\<close> engine (\<open>internal/policy/states.go\<close>): classifier verdicts are shown at once
  and believed only after they have held; believed changes and long-enduring states are news.
  The range over the models in \<open>tick\<close> takes its order from the argument \<open>ord\<close>.
\<close>

section \<open>State\<close>

record state_config =
  sc_Model :: string
  sc_Hold :: duration
  sc_News :: bool
  sc_AlarmClass :: string
  sc_AlarmAfter :: duration

record state_model =
  sm_cfg :: state_config
  sm_camera :: string
  sm_raw :: string
  sm_rawAt :: time
  sm_held :: string
  sm_heldAt :: time
  sm_alarmed :: bool

type_synonym states = "(string, state_model) gomap"

record model_state =
  ms_Model :: string
  ms_Camera :: string
  ms_Held :: string
  ms_HeldSince :: time
  ms_Raw :: string
  ms_RawSince :: time

definition new_state_model :: "state_config \<Rightarrow> state_model" where
  "new_state_model c =
     \<lparr>sm_cfg = (if sc_Hold c \<le> 0 then c\<lparr>sc_Hold := 10 * Minute\<rparr> else c), sm_camera = [], sm_raw = [],
      sm_rawAt = 0, sm_held = [], sm_heldAt = 0, sm_alarmed = False\<rparr>"

definition new_states :: "state_config list \<Rightarrow> states" where
  "new_states cs = fold (\<lambda>c s. gm_set (sc_Model c) (new_state_model c) s) cs []"

text \<open>\<open>Snapshot\<close>: sorted by model name.\<close>

definition states_snapshot :: "states \<Rightarrow> model_state list" where
  "states_snapshot s =
     sort_key ms_Model
       (map (\<lambda>(_, m). \<lparr>ms_Model = sc_Model (sm_cfg m), ms_Camera = sm_camera m, ms_Held = sm_held m,
                        ms_HeldSince = sm_heldAt m, ms_Raw = sm_raw m, ms_RawSince = sm_rawAt m\<rparr>) s)"

section \<open>Operations\<close>

definition state_event :: "state_model \<Rightarrow> time \<Rightarrow> time \<Rightarrow> event" where
  "state_event m started now =
     zero_event\<lparr>
       ev_ID := mint_id (''state/'' @ sc_Model (sm_cfg m) @ ''/'' @ sm_held m @ ''/'' @ itoa (unix_nano now)),
       ev_Kind := KindState,
       ev_Camera := sm_camera m,
       ev_Cameras := [sm_camera m],
       ev_Label := sc_Model (sm_cfg m),
       ev_SubLabel := sm_held m,
       ev_StartedAt := started,
       ev_EndedAt := now,
       ev_Clip := ClipFinal\<rparr>"

text \<open>One classifier verdict: the raw value at once, the belief only at a cold start.\<close>

definition absorb_class :: "time \<Rightarrow> string \<Rightarrow> string \<Rightarrow> state_model \<Rightarrow> state_model" where
  "absorb_class now camera cls m =
     (let m1 = m\<lparr>sm_camera := camera\<rparr>;
          m2 = (if cls \<noteq> sm_raw m1 then m1\<lparr>sm_raw := cls, sm_rawAt := now\<rparr> else m1)
      in if sm_held m2 = [] then m2\<lparr>sm_held := cls, sm_heldAt := now\<rparr> else m2)"

text \<open>The body of the loop of \<open>tick\<close>: the two conditions, in order.\<close>

definition believe :: "time \<Rightarrow> state_model \<Rightarrow> state_model \<times> change list" where
  "believe now m =
     (if sm_raw m \<noteq> [] \<and> sm_raw m \<noteq> sm_held m \<and> sc_Hold (sm_cfg m) \<le> time_sub now (sm_rawAt m) then
        let m' = m\<lparr>sm_held := sm_raw m, sm_heldAt := sm_rawAt m, sm_alarmed := False\<rparr>
        in (m', if sc_News (sm_cfg m') then [Change OpStarted (state_event m' (sm_rawAt m') (sm_rawAt m'))]
                else [])
      else (m, []))"

definition alarm :: "time \<Rightarrow> state_model \<Rightarrow> state_model \<times> change list" where
  "alarm now m =
     (if \<not> sm_alarmed m \<and> sc_AlarmClass (sm_cfg m) \<noteq> [] \<and> sm_held m = sc_AlarmClass (sm_cfg m)
         \<and> sc_AlarmAfter (sm_cfg m) \<le> time_sub now (sm_heldAt m) then
        (m\<lparr>sm_alarmed := True\<rparr>, [Change OpStarted (state_event m (sm_heldAt m) now)])
      else (m, []))"

definition model_tick :: "time \<Rightarrow> state_model \<Rightarrow> state_model \<times> change list" where
  "model_tick now m =
     (let (m1, cs1) = believe now m; (m2, cs2) = alarm now m1 in (m2, cs1 @ cs2))"

definition states_tick :: "string list \<Rightarrow> time \<Rightarrow> states \<Rightarrow> states \<times> change list" where
  "states_tick ord now s =
     (let r = gm_pick ord s
      in (map (\<lambda>(k, m). (k, fst (model_tick now m))) r,
          concat (map (\<lambda>(k, m). snd (model_tick now m)) r)))"

text \<open>What \<open>Observe\<close> takes from a message: the model, the camera and the class.\<close>

definition verdict :: "string \<Rightarrow> bytes \<Rightarrow> (string \<times> string \<times> string) option" where
  "verdict topic payload =
     (let top = parse_topic topic in
      if top_kind top = KindClassification then
        (case parse_class payload of
           Inl _ \<Rightarrow> None
         | Inr cls \<Rightarrow> Some (top_model top, top_camera top, cls))
      else None)"

definition states_observe ::
  "string list \<Rightarrow> states \<Rightarrow> time \<Rightarrow> string \<Rightarrow> bytes \<Rightarrow> states \<times> change list" where
  "states_observe ord s now topic payload =
     (let s1 = (case verdict topic payload of
                  None \<Rightarrow> s
                | Some (model, camera, cls) \<Rightarrow>
                    (case gm_get s model of
                       None \<Rightarrow> s
                     | Some m \<Rightarrow> gm_set model (absorb_class now camera cls m) s))
      in states_tick ord now s1)"

section \<open>Invariant\<close>

definition state_model_inv :: "string \<Rightarrow> state_model \<Rightarrow> bool" where
  "state_model_inv k m \<longleftrightarrow> sc_Model (sm_cfg m) = k \<and> 0 < sc_Hold (sm_cfg m)
     \<and> (sm_raw m = [] \<longleftrightarrow> sm_rawAt m = 0) \<and> (sm_held m = [] \<longleftrightarrow> sm_heldAt m = 0)
     \<and> (sm_raw m = [] \<longleftrightarrow> sm_held m = [])
     \<and> (sm_raw m = sm_held m \<or> sm_held m \<noteq> []) \<and> 0 \<le> sm_heldAt m \<and> 0 \<le> sm_rawAt m"

definition states_inv :: "states \<Rightarrow> bool" where
  "states_inv s \<longleftrightarrow> gm_wf s \<and> (\<forall>(k, m) \<in> set s. state_model_inv k m)"

lemma states_inv_get: "states_inv s \<Longrightarrow> gm_get s k = Some m \<Longrightarrow> state_model_inv k m"
  by (auto simp: states_inv_def dest: map_of_SomeD)

lemma states_inv_set:
  assumes "states_inv s" and "state_model_inv k m"
  shows "states_inv (gm_set k m s)"
  using assms gm_set_entries [of k m s] unfolding states_inv_def by fastforce

lemma new_state_model_inv: "state_model_inv (sc_Model c) (new_state_model c)"
  by (simp add: new_state_model_def state_model_inv_def)

lemma states_inv_new: "states_inv (new_states cs)"
proof -
  have "states_inv s \<Longrightarrow> states_inv (fold (\<lambda>c s. gm_set (sc_Model c) (new_state_model c) s) cs s)" for s
    by (induction cs arbitrary: s) (simp_all add: states_inv_set new_state_model_inv)
  moreover have "states_inv []" by (simp add: states_inv_def)
  ultimately show ?thesis unfolding new_states_def by blast
qed

lemma absorb_class_inv:
  assumes "state_model_inv k m" and "cls \<noteq> []" and "0 < now"
  shows "state_model_inv k (absorb_class now camera cls m)"
  using assms by (auto simp: state_model_inv_def absorb_class_def Let_def)

lemma model_tick_inv:
  assumes "state_model_inv k m"
  shows "state_model_inv k (fst (model_tick now m))"
  using assms by (auto simp: state_model_inv_def model_tick_def believe_def alarm_def Let_def)

lemma state_event_simps [simp]:
  "ev_Kind (state_event m st now) = KindState" "ev_Label (state_event m st now) = sc_Model (sm_cfg m)"
  "ev_SubLabel (state_event m st now) = sm_held m" "ev_StartedAt (state_event m st now) = st"
  "ev_EndedAt (state_event m st now) = now" "ev_Clip (state_event m st now) = ClipFinal"
  "length (ev_ID (state_event m st now)) = 20" "ev_Quiet (state_event m st now) = False"
  by (simp_all add: state_event_def zero_event_def)

lemma model_tick_ok:
  assumes "state_model_inv k m" and "0 < now"
  shows "\<forall>c \<in> set (snd (model_tick now m)). change_ok c \<and> ev_Label (chg_event c) = k
    \<and> chg_op c = OpStarted \<and> ev_Kind (chg_event c) = KindState"
  using assms
  by (auto simp: state_model_inv_def model_tick_def believe_def alarm_def change_ok_def Let_def
      split: if_splits)

lemma verdict_class: "verdict topic payload = Some (model, camera, cls) \<Longrightarrow> cls \<noteq> []"
  by (auto simp: verdict_def Let_def split: if_splits sum.splits dest: parse_class_ok)

text \<open>The model a message leaves to the tick.\<close>

definition absorb_verdict :: "string \<Rightarrow> time \<Rightarrow> string \<Rightarrow> bytes \<Rightarrow> state_model \<Rightarrow> state_model" where
  "absorb_verdict k now topic payload m =
     (case verdict topic payload of
        None \<Rightarrow> m
      | Some (model, camera, cls) \<Rightarrow> if model = k then absorb_class now camera cls m else m)"

lemma absorb_verdict_inv:
  assumes "state_model_inv k m" and "0 < now"
  shows "state_model_inv k (absorb_verdict k now topic payload m)"
  using assms
  by (auto simp: absorb_verdict_def split: option.splits intro!: absorb_class_inv dest: verdict_class)

text \<open>What \<open>Observe\<close> does to one model and says about it depends on that model alone.\<close>

lemma states_observe_model:
  assumes inv: "states_inv s" and "0 < now" and step: "states_observe ord s now topic payload = (s', cs)"
  shows "states_inv s'"
    and "gm_get s' k = map_option (\<lambda>m. fst (model_tick now (absorb_verdict k now topic payload m))) (gm_get s k)"
    and "filter (\<lambda>c. ev_Label (chg_event c) = k) cs = (case gm_get s k of None \<Rightarrow> []
          | Some m \<Rightarrow> snd (model_tick now (absorb_verdict k now topic payload m)))"
    and "list_all change_ok cs"
proof -
  define s1 where "s1 = (case verdict topic payload of None \<Rightarrow> s
     | Some (model, camera, cls) \<Rightarrow> (case gm_get s model of None \<Rightarrow> s
         | Some m \<Rightarrow> gm_set model (absorb_class now camera cls m) s))"
  have inv1: "states_inv s1"
    using inv \<open>0 < now\<close> verdict_class [of topic payload]
    by (auto simp: s1_def split: option.splits intro!: states_inv_set absorb_class_inv
        dest: states_inv_get)
  have get1: "gm_get s1 j = map_option (absorb_verdict j now topic payload) (gm_get s j)" for j
    by (cases "gm_get s j") (auto simp: s1_def absorb_verdict_def split: option.splits)
  from step have s': "s' = map (\<lambda>(k, m). (k, fst (model_tick now m))) (gm_pick ord s1)"
    and cs: "cs = concat (map (\<lambda>(k, m). snd (model_tick now m)) (gm_pick ord s1))"
    by (simp_all add: states_observe_def states_tick_def s1_def Let_def)
  from inv1 have wf: "gm_wf s1" "gm_wf (gm_pick ord s1)" by (simp_all add: states_inv_def)
  from inv1 have all: "\<forall>(k, m) \<in> set (gm_pick ord s1). state_model_inv k m"
    using wf by (simp add: states_inv_def)
  show "states_inv s'"
    using all wf by (auto simp: s' states_inv_def model_tick_inv fst_pass)
  show "gm_get s' k = map_option (\<lambda>m. fst (model_tick now (absorb_verdict k now topic payload m))) (gm_get s k)"
    using wf get1 [of k] by (simp add: s' option.map_comp comp_def)
  show "filter (\<lambda>c. ev_Label (chg_event c) = k) cs = (case gm_get s k of None \<Rightarrow> []
          | Some m \<Rightarrow> snd (model_tick now (absorb_verdict k now topic payload m)))"
    unfolding cs
  proof (subst filter_pass [where k = k])
    show "gm_wf (gm_pick ord s1)" by fact
    show "ev_Label (chg_event c) = k \<longleftrightarrow> j = k"
      if "(j, v) \<in> set (gm_pick ord s1)" "c \<in> set (snd (model_tick now v))" for j v c
      using that all model_tick_ok [OF _ \<open>0 < now\<close>, of j v] by auto
  qed (use wf get1 [of k] in \<open>auto split: option.splits\<close>)
  show "list_all change_ok cs"
    using all model_tick_ok [OF _ \<open>0 < now\<close>] by (fastforce simp: cs list_all_iff)
qed

definition states_observer :: "(states \<Rightarrow> string list) \<Rightarrow> states observer" where
  "states_observer pick s now topic payload = Some (states_observe (pick s) s now topic payload)"

interpretation st: engine "states_observer pick" states_inv for pick
proof unfold_locales
  fix s now topic payload
  assume "states_inv s" and "(0 :: int) < now"
  then show "\<exists>s' cs. states_observer pick s now topic payload = Some (s', cs)
      \<and> states_inv s' \<and> list_all change_ok cs"
    using states_observe_model(1,4) [of s now "pick s" topic payload]
    by (cases "states_observe (pick s) s now topic payload") (simp add: states_observer_def)
qed

section \<open>One model over a stream\<close>

definition model_observe ::
  "string \<Rightarrow> state_model \<Rightarrow> broker_message \<Rightarrow> state_model \<times> change list" where
  "model_observe k m = (\<lambda>(now, topic, payload). model_tick now (absorb_verdict k now topic payload m))"

fun model_run :: "string \<Rightarrow> state_model \<Rightarrow> broker_message list \<Rightarrow> state_model \<times> change list" where
  "model_run k m [] = (m, [])"
| "model_run k m (x # xs) =
     (let (m1, cs) = model_observe k m x; (m2, cs') = model_run k m1 xs in (m2, cs @ cs'))"

lemma model_observe_inv:
  "state_model_inv k m \<Longrightarrow> message_ok x \<Longrightarrow> state_model_inv k (fst (model_observe k m x))"
  by (cases x) (simp add: model_observe_def model_tick_inv absorb_verdict_inv message_ok_def)

lemma run_states_model:
  assumes "states_inv s" and "list_all message_ok ms"
    and "run_engine (states_observer pick) s ms = Some (s', cs)" and "gm_get s k = Some m"
  shows "gm_get s' k = Some (fst (model_run k m ms))"
    and "filter (\<lambda>c. ev_Label (chg_event c) = k) cs = snd (model_run k m ms)"
proof -
  have "gm_get s' k = Some (fst (model_run k m ms))
      \<and> filter (\<lambda>c. ev_Label (chg_event c) = k) cs = snd (model_run k m ms)"
    using assms
  proof (induction ms arbitrary: s m cs)
    case Nil
    then show ?case by simp
  next
    case (Cons x ms)
    obtain now topic payload where x: "x = (now, topic, payload)" by (cases x) auto
    with Cons.prems(2) have "0 < now" by (simp add: message_ok_def)
    obtain s1 cs1 where 1: "states_observe (pick s) s now topic payload = (s1, cs1)" by fastforce
    then have "states_observer pick s now topic payload = Some (s1, cs1)"
      by (simp add: states_observer_def)
    with Cons.prems(3) obtain cs2 where
      2: "run_engine (states_observer pick) s1 ms = Some (s', cs2)" "cs = cs1 @ cs2"
      by (auto simp: x split: option.splits)
    note step = states_observe_model [OF Cons.prems(1) \<open>0 < now\<close> 1]
    have m1: "gm_get s1 k = Some (fst (model_observe k m x))"
      using step(2) [of k] Cons.prems(4) by (simp add: x model_observe_def)
    have c1: "filter (\<lambda>c. ev_Label (chg_event c) = k) cs1 = snd (model_observe k m x)"
      using step(3) [of k] Cons.prems(4) by (simp add: x model_observe_def)
    from Cons.IH [OF step(1) _ 2(1) m1] Cons.prems(2) c1 2(2) show ?case
      by (simp add: Let_def split: prod.splits)
  qed
  then show "gm_get s' k = Some (fst (model_run k m ms))"
    and "filter (\<lambda>c. ev_Label (chg_event c) = k) cs = snd (model_run k m ms)" by simp_all
qed

lemma model_run_append:
  "fst (model_run k m (xs @ ys)) = fst (model_run k (fst (model_run k m xs)) ys)"
  by (induction xs arbitrary: m) (simp_all add: Let_def split_beta)

text \<open>The verdicts about one model in a stream, in order.\<close>

definition verdicts_of :: "string \<Rightarrow> broker_message list \<Rightarrow> (time \<times> string) list" where
  "verdicts_of k ms = List.map_filter (\<lambda>(now, topic, payload).
     case verdict topic payload of
       None \<Rightarrow> None
     | Some (model, camera, cls) \<Rightarrow> if model = k then Some (now, cls) else None) ms"

definition steady :: "string \<Rightarrow> time \<Rightarrow> (time \<times> string) list \<Rightarrow> bool" where
  "steady cls since vs \<longleftrightarrow>
     (\<exists>pre suf. vs = pre @ suf \<and> suf \<noteq> [] \<and> fst (hd suf) = since \<and> (\<forall>v \<in> set suf. snd v = cls))"

lemma steady_new: "steady cls t (vs @ [(t, cls)])"
  unfolding steady_def by (intro exI [of _ vs] exI [of _ "[(t, cls)]"]) simp

lemma steady_more: "steady cls t vs \<Longrightarrow> steady cls t (vs @ [(u, cls)])"
  unfolding steady_def
proof (elim exE conjE)
  fix pre suf
  assume "vs = pre @ suf" "suf \<noteq> []" "fst (hd suf) = t" "\<forall>v \<in> set suf. snd v = cls"
  then show "\<exists>pre suf'. vs @ [(u, cls)] = pre @ suf' \<and> suf' \<noteq> [] \<and> fst (hd suf') = t
      \<and> (\<forall>v \<in> set suf'. snd v = cls)"
    by (intro exI [of _ pre] exI [of _ "suf @ [(u, cls)]"]) simp
qed

lemma verdicts_of_snoc:
  "verdicts_of k (ms @ [(now, topic, payload)]) =
     verdicts_of k ms @ (case verdict topic payload of
       None \<Rightarrow> []
     | Some (model, camera, cls) \<Rightarrow> if model = k then [(now, cls)] else [])"
  by (auto simp: verdicts_of_def List.map_filter_def split: option.splits)

lemma model_tick_raw [simp]:
  "sm_raw (fst (model_tick now m)) = sm_raw m" "sm_rawAt (fst (model_tick now m)) = sm_rawAt m"
  "sm_cfg (fst (model_tick now m)) = sm_cfg m"
  by (simp_all add: model_tick_def believe_def alarm_def Let_def)

text \<open>The raw value is the class of the last verdicts, since the first of them.\<close>

lemma absorb_verdict_steady:
  assumes "sm_raw m = [] \<or> steady (sm_raw m) (sm_rawAt m) (verdicts_of k ms)"
    and "m' = absorb_verdict k now topic payload m"
  shows "sm_raw m' = [] \<or> steady (sm_raw m') (sm_rawAt m') (verdicts_of k (ms @ [(now, topic, payload)]))"
  using assms verdict_class [of topic payload]
  by (auto simp: absorb_verdict_def absorb_class_def Let_def verdicts_of_snoc steady_new
      split: option.splits if_splits intro: steady_more)

lemma model_run_steady:
  assumes "m = fst (model_run k (new_state_model c) ms)"
  shows "sm_raw m = [] \<or> steady (sm_raw m) (sm_rawAt m) (verdicts_of k ms)"
  using assms
proof (induction ms arbitrary: m rule: rev_induct)
  case Nil
  then show ?case by (simp add: new_state_model_def)
next
  case (snoc x ms)
  obtain now topic payload where x: "x = (now, topic, payload)" by (cases x) auto
  from snoc(2) have "m = fst (model_tick now (absorb_verdict k now topic payload
      (fst (model_run k (new_state_model c) ms))))"
    by (simp add: model_run_append x model_observe_def Let_def split: prod.splits)
  with absorb_verdict_steady [OF snoc(1) [OF refl] refl] show ?case by (simp add: x)
qed

lemma new_states_get:
  assumes "gm_get (new_states cs) k = Some m"
  shows "\<exists>c. m = new_state_model c \<and> sc_Model c = k"
proof -
  have "gm_get (fold (\<lambda>c s. gm_set (sc_Model c) (new_state_model c) s) cs s) k = Some m \<Longrightarrow>
      gm_get s k = Some m \<or> (\<exists>c. m = new_state_model c \<and> sc_Model c = k)" for s
  proof (induction cs arbitrary: s)
    case (Cons c cs)
    from Cons.IH [of "gm_set (sc_Model c) (new_state_model c) s"] Cons.prems show ?case
      by (auto split: if_splits)
  qed simp
  from this [of "[]"] assms show ?thesis by (simp add: new_states_def)
qed

text \<open>
  C7. A belief changes only on endurance: whenever a message makes a model give up the class it
  believed for another, the verdicts about that model have all been the new class, without
  interruption, from one that is at least the model's hold older than the message.
\<close>

theorem belief_endures:
  assumes "list_all message_ok (ms @ [(now, topic, payload)])"
    and "run_engine (states_observer pick) (new_states cs) ms = Some (s, chs)"
    and "gm_get (new_states cs) k = Some m0" and "gm_get s k = Some m"
    and "states_observe ord s now topic payload = (s', chs')" and "gm_get s' k = Some m'"
    and "sm_held m \<noteq> []" and "sm_held m' \<noteq> sm_held m"
  shows "\<exists>since. steady (sm_held m') since (verdicts_of k (ms @ [(now, topic, payload)]))
    \<and> sc_Hold (sm_cfg m') \<le> time_sub now since \<and> 0 < sc_Hold (sm_cfg m')"
proof -
  from new_states_get [OF assms(3)] obtain c where m0: "m0 = new_state_model c" by blast
  have ms: "list_all message_ok ms" and now: "0 < now" using assms(1) by (simp_all add: message_ok_def)
  from st.run_ok [OF states_inv_new [of cs] ms, of pick] assms(2) have inv: "states_inv s" by auto
  from run_states_model(1) [OF states_inv_new ms assms(2,3)] assms(4) m0
  have m: "m = fst (model_run k (new_state_model c) ms)" by simp
  define m1 where "m1 = absorb_verdict k now topic payload m"
  from absorb_verdict_steady [OF model_run_steady [OF m] m1_def]
  have raw: "sm_raw m1 = [] \<or> steady (sm_raw m1) (sm_rawAt m1) (verdicts_of k (ms @ [(now, topic, payload)]))" .
  from states_observe_model(2) [OF inv now assms(5), of k] assms(4,6)
  have m': "m' = fst (model_tick now m1)" by (simp add: m1_def)
  have "sm_held m1 = sm_held m" using assms(7)
    by (simp add: m1_def absorb_verdict_def absorb_class_def Let_def split: option.splits)
  with assms(8) m' have "sm_raw m1 \<noteq> []" "sc_Hold (sm_cfg m1) \<le> time_sub now (sm_rawAt m1)"
    "sm_held m' = sm_raw m1" "sm_cfg m' = sm_cfg m1"
    by (auto simp: model_tick_def believe_def alarm_def Let_def split: if_splits)
  moreover have "0 < sc_Hold (sm_cfg m')"
    using states_observe_model(1) [OF inv now assms(5)] assms(6)
    by (auto dest!: states_inv_get simp: state_model_inv_def)
  ultimately show ?thesis using raw by auto
qed

text \<open>The message at which a belief is old enough, and a model that believes its alarm class.\<close>

definition alarm_due :: "state_model \<Rightarrow> broker_message \<Rightarrow> bool" where
  "alarm_due m = (\<lambda>(now, topic, payload). sc_AlarmAfter (sm_cfg m) \<le> time_sub now (sm_heldAt m))"

definition in_alarm_class :: "state_model \<Rightarrow> bool" where
  "in_alarm_class m \<longleftrightarrow> sm_held m = sc_AlarmClass (sm_cfg m) \<and> sm_held m \<noteq> []"

lemma absorb_verdict_held:
  "sm_held m \<noteq> [] \<Longrightarrow> sm_held (absorb_verdict k now topic payload m) = sm_held m"
  "sm_held m \<noteq> [] \<Longrightarrow> sm_heldAt (absorb_verdict k now topic payload m) = sm_heldAt m"
  "sm_cfg (absorb_verdict k now topic payload m) = sm_cfg m"
  "sm_alarmed (absorb_verdict k now topic payload m) = sm_alarmed m"
  by (auto simp: absorb_verdict_def absorb_class_def Let_def split: option.splits)

text \<open>A message that leaves the belief what it is, whatever verdict it brings.\<close>

lemma model_observe_holding:
  assumes "in_alarm_class m" and "model_observe k m (now, topic, payload) = (m', cs)" and "sm_held m' = sm_held m"
  shows "in_alarm_class m'" and "sm_cfg m' = sm_cfg m" and "sm_heldAt m' = sm_heldAt m"
    and "sm_alarmed m' \<longleftrightarrow> sm_alarmed m \<or> alarm_due m (now, topic, payload)"
    and "map (\<lambda>c. (ev_SubLabel (chg_event c), ev_StartedAt (chg_event c), ev_EndedAt (chg_event c))) cs
      = (if sm_alarmed m \<or> \<not> alarm_due m (now, topic, payload) then []
         else [(sm_held m, sm_heldAt m, now)])"
proof -
  define m1 where "m1 = absorb_verdict k now topic payload m"
  have "sm_held m \<noteq> []" using assms(1) unfolding in_alarm_class_def by (rule conjunct2)
  note kept = absorb_verdict_held(1,2) [OF this]
  have m1: "sm_held m1 = sm_held m" "sm_heldAt m1 = sm_heldAt m" "sm_cfg m1 = sm_cfg m" "sm_alarmed m1 = sm_alarmed m"
    by (simp_all only: m1_def kept absorb_verdict_held(3,4))
  have tick: "(case believe now m1 of (m2, cs1) \<Rightarrow> case alarm now m2 of (m3, cs2) \<Rightarrow> (m3, cs1 @ cs2)) = (m', cs)"
    using assms(2) by (simp add: model_observe_def model_tick_def m1_def Let_def)
  have "believe now m1 = (m1, [])"
    using tick assms(3) m1(1) by (auto simp: believe_def alarm_def Let_def split: if_splits)
  with tick have "alarm now m1 = (m', cs)" by (simp add: split_beta)
  with assms(1) m1 show "in_alarm_class m'" and "sm_cfg m' = sm_cfg m" and "sm_heldAt m' = sm_heldAt m"
    and "sm_alarmed m' \<longleftrightarrow> sm_alarmed m \<or> alarm_due m (now, topic, payload)"
    and "map (\<lambda>c. (ev_SubLabel (chg_event c), ev_StartedAt (chg_event c), ev_EndedAt (chg_event c))) cs
      = (if sm_alarmed m \<or> \<not> alarm_due m (now, topic, payload) then []
         else [(sm_held m, sm_heldAt m, now)])"
    by (auto simp: alarm_def in_alarm_class_def alarm_due_def state_event_def split: if_splits)
qed

lemma model_run_holding:
  assumes "in_alarm_class m" and "\<And>n. sm_held (fst (model_run k m (take n ms))) = sm_held m"
  shows "map (\<lambda>c. (ev_SubLabel (chg_event c), ev_StartedAt (chg_event c), ev_EndedAt (chg_event c)))
      (snd (model_run k m ms))
    = (if sm_alarmed m then []
       else case List.find (alarm_due m) ms of
              None \<Rightarrow> []
            | Some (now, topic, payload) \<Rightarrow> [(sm_held m, sm_heldAt m, now)])"
  using assms
proof (induction ms arbitrary: m)
  case Nil
  then show ?case by simp
next
  case (Cons x ms)
  obtain now topic payload where x: "x = (now, topic, payload)" by (cases x) auto
  obtain m1 cs where step: "model_observe k m (now, topic, payload) = (m1, cs)" by fastforce
  have held: "sm_held m1 = sm_held m"
    using Cons.prems(2) [of 1] step by (simp add: x Let_def split_beta)
  note one = model_observe_holding [OF Cons.prems(1) step held]
  have due: "alarm_due m1 = alarm_due m" by (simp add: alarm_due_def one)
  have "sm_held (fst (model_run k m1 (take n ms))) = sm_held m1" for n
    using Cons.prems(2) [of "Suc n"] step held by (simp add: x Let_def split_beta)
  from Cons.IH [OF one(1) this] one(5) show ?case
    by (simp add: x step Let_def split_beta one(2-4) held due split: option.split)
qed

text \<open>
  C8. One alarm per episode. Take any stream during which a model goes on believing its alarm class,
  whatever contrary verdicts flap in between: the events about the model in it are none if the
  episode has been alarmed about already; otherwise exactly one, at the first message at which the
  belief is \<open>AlarmAfter\<close> old, spanning from the beginning of the belief to that message, and none
  when there is no such message.
\<close>

theorem one_alarm_per_episode:
  assumes "states_inv s" and "list_all message_ok ms"
    and "run_engine (states_observer pick) s ms = Some (s', cs)"
    and "gm_get s k = Some m" and "in_alarm_class m"
    and "\<And>n sn csn mn. run_engine (states_observer pick) s (take n ms) = Some (sn, csn) \<Longrightarrow> gm_get sn k = Some mn
      \<Longrightarrow> sm_held mn = sm_held m"
  shows "map (\<lambda>c. (ev_SubLabel (chg_event c), ev_StartedAt (chg_event c), ev_EndedAt (chg_event c)))
      (filter (\<lambda>c. ev_Label (chg_event c) = k) cs)
    = (if sm_alarmed m then []
       else case List.find (alarm_due m) ms of
         None \<Rightarrow> []
       | Some (now, topic, payload) \<Rightarrow> [(sm_held m, sm_heldAt m, now)])"
proof -
  have "sm_held (fst (model_run k m (take n ms))) = sm_held m" for n
  proof -
    have ok: "list_all message_ok (take n ms)" using assms(2) by (auto simp: list_all_iff dest: in_set_takeD)
    from st.run_ok [OF assms(1) this, of pick] obtain sn csn
      where run: "run_engine (states_observer pick) s (take n ms) = Some (sn, csn)" by blast
    from assms(6) [OF run run_states_model(1) [OF assms(1) ok run assms(4)]] show ?thesis .
  qed
  from model_run_holding [OF assms(5) this] show ?thesis
    using run_states_model(2) [OF assms(1-4)] by simp
qed

section \<open>Witnesses\<close>

definition door_config :: state_config where
  "door_config = \<lparr>sc_Model = ''d'', sc_Hold = 3, sc_News = False, sc_AlarmClass = ''up'', sc_AlarmAfter = 5\<rparr>"

definition door_messages :: "broker_message list" where
  "door_messages =
     [(10, ''frigate/c/classification/d'', ''dn''), (20, ''frigate/c/classification/d'', ''up'')]"

lemma belief_endures_witness:
  "\<exists>since. steady ''up'' since
      (verdicts_of ''d'' (door_messages @ [(24, ''frigate/c/classification/d'', ''up'')]))
    \<and> 3 \<le> time_sub 24 since \<and> (0 :: int) < 3"
proof -
  define m where "m = \<lparr>sm_cfg = door_config, sm_camera = ''c'', sm_raw = ''up'', sm_rawAt = 20,
      sm_held = ''dn'', sm_heldAt = 10, sm_alarmed = False\<rparr>"
  define m' where "m' = m\<lparr>sm_held := ''up'', sm_heldAt := 20\<rparr>"
  have ok: "list_all message_ok (door_messages @ [(24, ''frigate/c/classification/d'', ''up'')])"
    by (simp add: door_messages_def message_ok_def)
  have run: "run_engine (states_observer (\<lambda>_. [])) (new_states [door_config]) door_messages
      = Some ([(''d'', m)], [])"
    unfolding m_def by code_simp
  have get0: "gm_get (new_states [door_config]) ''d'' = Some (new_state_model door_config)"
    by (simp add: new_states_def door_config_def)
  have step: "states_observe [] [(''d'', m)] 24 ''frigate/c/classification/d'' ''up'' = ([(''d'', m')], [])"
    unfolding m'_def m_def by code_simp
  from belief_endures [OF ok run get0 _ step, of m m']
  show ?thesis by (simp add: m'_def m_def door_config_def)
qed

lemma one_alarm_per_episode_witness:
  "\<exists>cs :: change list. map (\<lambda>c. (ev_SubLabel (chg_event c), ev_StartedAt (chg_event c), ev_EndedAt (chg_event c)))
      (filter (\<lambda>c. ev_Label (chg_event c) = ''d'') cs) = [(''up'', 20, 26)]"
proof -
  define m where "m = \<lparr>sm_cfg = door_config, sm_camera = ''c'', sm_raw = ''up'', sm_rawAt = 20,
      sm_held = ''up'', sm_heldAt = 20, sm_alarmed = False\<rparr>"
  define ms where "ms = [(22 :: int, ''frigate/c/classification/d'', ''dn''), (26, ''frigate/c/classification/d'', ''up''),
      (28, ''frigate/c/classification/d'', ''dn'')]"
  have inv: "states_inv [(''d'', m)]"
    by (simp add: states_inv_def state_model_inv_def m_def door_config_def)
  have ok: "list_all message_ok ms" by (simp add: ms_def message_ok_def)
  from st.run_ok [OF inv ok, of "\<lambda>_. []"] obtain s' cs
    where run: "run_engine (states_observer (\<lambda>_. [])) [(''d'', m)] ms = Some (s', cs)" by blast
  have alarm: "in_alarm_class m" by (simp add: in_alarm_class_def m_def door_config_def)
  have get: "gm_get [(''d'', m)] ''d'' = Some m" by simp
  have verdicts: "verdict ''frigate/c/classification/d'' ''dn'' = Some (''d'', ''c'', ''dn'')"
    "verdict ''frigate/c/classification/d'' ''up'' = Some (''d'', ''c'', ''up'')" by code_simp+
  have flaps: "sm_held (fst (model_run ''d'' m (take n ms))) = sm_held m" if "n \<in> set [0, 1, 2, 3]" for n
    using that by (auto simp: ms_def m_def door_config_def model_observe_def model_tick_def absorb_verdict_def absorb_class_def
        verdicts believe_def alarm_def time_sub_def)
  have held: "sm_held mn = sm_held m"
    if prefix: "run_engine (states_observer (\<lambda>_. [])) [(''d'', m)] (take n ms) = Some (sn, csn)" and mn: "gm_get sn ''d'' = Some mn" for n sn csn mn
  proof -
    have "list_all message_ok (take n ms)" using ok by (auto simp: list_all_iff dest: in_set_takeD)
    from run_states_model(1) [OF inv this prefix get] mn have "mn = fst (model_run ''d'' m (take n ms))" by simp
    moreover have "take n ms = take (min n 3) ms" by (simp add: ms_def min_def)
    moreover have "min n 3 \<in> set [0, 1, 2, 3]" by (simp add: min_def) linarith
    ultimately show ?thesis using flaps by metis
  qed
  have find: "List.find (alarm_due m) ms = Some (26, ''frigate/c/classification/d'', ''up'')" and fresh: "\<not> sm_alarmed m"
    unfolding m_def ms_def by code_simp+
  show ?thesis
    using one_alarm_per_episode [OF inv ok run get alarm held] fresh unfolding find
    by (intro exI [of _ cs]) (simp add: m_def)
qed

end
