(* ===== verification/Occupancy.thy ===== *)
theory Occupancy
  imports Policy "HOL-Library.Product_Lexorder"
begin

text \<open>
  The \<open>Occupancy\<close> engine (\<open>internal/policy/occupancy.go\<close>): a table of tracks, and one ledger
  per zone and label that believes arrivals after a dwell and departures after a grace.
  Every range over a map whose order can be seen takes its order from an \<open>occ_orders\<close>; a nil
  dereference of \<open>covering\<close> is the value None.  Box arithmetic is rounded to \<open>float64\<close> at every
  operation; overflow to an infinity is not modelled.
\<close>

section \<open>State\<close>

record watch =
  w_Zone :: string
  w_Labels :: "string list"
  w_ArriveAfter :: duration
  w_DepartAfter :: duration
  w_Quiet :: bool

record occ_track =
  tr_source :: string
  tr_camera :: string
  tr_label :: string
  tr_plate :: string
  tr_subLabel :: string
  tr_snapshot :: bool
  tr_entered :: "(string, time) gomap"
  tr_box :: "f64 list"

text \<open>A watch is never written after the engine is built, so a ledger holds it by value.\<close>

record ledger =
  lg_watch :: watch
  lg_label :: string
  lg_present :: int
  lg_since :: time
  lg_lastSeen :: time
  lg_belowSince :: time
  lg_seenCamera :: string
  lg_seenSource :: string
  lg_seenSnapshot :: bool

record occupancy =
  oc_watches :: "(string, watch) gomap"
  oc_ledgers :: "(string, ledger) gomap"
  oc_tracks :: "(string, occ_track) gomap"

record zone_state =
  zs_Zone :: string
  zs_Label :: string
  zs_Count :: int
  zs_Since :: time
  zs_LastSeen :: time

definition default_watch :: "watch \<Rightarrow> watch" where
  "default_watch w =
     (let w1 = (if w_Labels w = [] then w\<lparr>w_Labels := [''car'']\<rparr> else w);
          w2 = (if w_ArriveAfter w1 \<le> 0 then w1\<lparr>w_ArriveAfter := Minute\<rparr> else w1)
      in if w_DepartAfter w2 \<le> 0 then w2\<lparr>w_DepartAfter := 5 * Minute\<rparr> else w2)"

definition new_ledger :: "watch \<Rightarrow> string \<Rightarrow> ledger" where
  "new_ledger w l =
     \<lparr>lg_watch = w, lg_label = l, lg_present = 0, lg_since = 0, lg_lastSeen = 0, lg_belowSince = 0,
      lg_seenCamera = [], lg_seenSource = [], lg_seenSnapshot = False\<rparr>"

definition add_watch :: "watch \<Rightarrow> occupancy \<Rightarrow> occupancy" where
  "add_watch w0 oc =
     (let w = default_watch w0
      in oc\<lparr>oc_watches := gm_set (w_Zone w) w (oc_watches oc),
            oc_ledgers := fold (\<lambda>l. gm_set (w_Zone w @ ''|'' @ l) (new_ledger w l)) (w_Labels w)
              (oc_ledgers oc)\<rparr>)"

definition new_occupancy :: "watch list \<Rightarrow> occupancy" where
  "new_occupancy ws = fold add_watch ws \<lparr>oc_watches = [], oc_ledgers = [], oc_tracks = []\<rparr>"

text \<open>\<open>Presence\<close>: every ledger, by zone then label.\<close>

definition presence :: "occupancy \<Rightarrow> zone_state list" where
  "presence oc =
     sort_key (\<lambda>z. (zs_Zone z, zs_Label z))
       (map (\<lambda>(_, l). \<lparr>zs_Zone = w_Zone (lg_watch l), zs_Label = lg_label l, zs_Count = lg_present l,
                        zs_Since = lg_since l, zs_LastSeen = lg_lastSeen l\<rparr>) (oc_ledgers oc))"

section \<open>Boxes\<close>

definition supersede_iou :: f64 where
  "supersede_iou = fl64 (7 / 10)"

definition iou :: "f64 list \<Rightarrow> f64 list \<Rightarrow> f64" where
  "iou a b =
     (if length a \<noteq> 4 \<or> length b \<noteq> 4 then 0
      else
        let ix = fl64 (min (a ! 2) (b ! 2) - max (a ! 0) (b ! 0));
            iy = fl64 (min (a ! 3) (b ! 3) - max (a ! 1) (b ! 1))
        in if ix \<le> 0 \<or> iy \<le> 0 then 0
           else
             let inter = fl64 (ix * iy);
                 area = (\<lambda>c. fl64 (fl64 (c ! 2 - c ! 0) * fl64 (c ! 3 - c ! 1)));
                 union = fl64 (fl64 (area a + area b) - inter)
             in if union \<le> 0 then 0 else fl64 (inter / union))"

section \<open>The track table\<close>

text \<open>The closure \<open>claim\<close> over the set \<open>in\<close> and the track's \<open>entered\<close>.\<close>

definition claim ::
  "(string, watch) gomap \<Rightarrow> time \<Rightarrow> string \<Rightarrow> string list \<times> (string, time) gomap
    \<Rightarrow> string list \<times> (string, time) gomap" where
  "claim watches now z = (\<lambda>(inside, entered).
     if gm_get watches z \<noteq> None then
       (z # inside, if gm_get entered z = None then gm_set z now entered else entered)
     else (inside, entered))"

text \<open>\<open>absorb\<close> up to the supersession: the track of the object after this message.\<close>

definition update_track :: "(string, watch) gomap \<Rightarrow> time \<Rightarrow> object \<Rightarrow> occ_track \<Rightarrow> occ_track" where
  "update_track watches now ob tr0 =
     (let tr1 = tr0\<lparr>tr_snapshot := tr_snapshot tr0 \<or> obj_HasSnapshot ob\<rparr>;
          tr2 = (if obj_Plate ob \<noteq> [] then tr1\<lparr>tr_plate := obj_Plate ob\<rparr> else tr1);
          tr3 = (if obj_SubLabel ob \<noteq> [] then tr2\<lparr>tr_subLabel := obj_SubLabel ob\<rparr> else tr2);
          acc1 = fold (claim watches now) (obj_CurrentZones ob) ([], tr_entered tr3);
          (inside, entered) =
            (if obj_Stationary ob \<and> obj_EnteredZones ob \<noteq> [] then
               claim watches now (last (obj_EnteredZones ob)) acc1
             else acc1);
          tr4 = tr3\<lparr>tr_entered := filter (\<lambda>(z, _). z \<in> set inside) entered\<rparr>
      in if length (obj_Box ob) = 4 then tr4\<lparr>tr_box := obj_Box ob\<rparr> else tr4)"

definition watched_label :: "occupancy \<Rightarrow> string \<Rightarrow> bool" where
  "watched_label oc l \<longleftrightarrow> list_ex (\<lambda>(_, w). l \<in> set (w_Labels w)) (oc_watches oc)"

definition superseded :: "object \<Rightarrow> occ_track \<Rightarrow> string \<Rightarrow> occ_track \<Rightarrow> bool" where
  "superseded ob tr i other \<longleftrightarrow>
     \<not> (i = obj_ID ob \<or> tr_camera other \<noteq> tr_camera tr \<or> tr_label other \<noteq> tr_label tr)
     \<and> supersede_iou \<le> iou (tr_box tr) (tr_box other)"

definition absorb :: "time \<Rightarrow> event_msg \<Rightarrow> occupancy \<Rightarrow> occupancy" where
  "absorb now msg oc =
     (let ob = msg_after msg in
      if \<not> watched_label oc (obj_Label ob) then oc
      else if msg_type msg = End then oc\<lparr>oc_tracks := gm_del (obj_ID ob) (oc_tracks oc)\<rparr>
      else
        let tr0 = (case gm_get (oc_tracks oc) (obj_ID ob) of
                     Some tr \<Rightarrow> tr
                   | None \<Rightarrow> \<lparr>tr_source = obj_ID ob, tr_camera = obj_Camera ob, tr_label = obj_Label ob,
                              tr_plate = [], tr_subLabel = [], tr_snapshot = False, tr_entered = [],
                              tr_box = []\<rparr>);
            tr = update_track (oc_watches oc) now ob tr0;
            tracks = gm_set (obj_ID ob) tr (oc_tracks oc)
        in if obj_Stationary ob \<and> length (tr_box tr) = 4 then
             oc\<lparr>oc_tracks := filter (\<lambda>(i, other). \<not> superseded ob tr i other) tracks\<rparr>
           else oc\<lparr>oc_tracks := tracks\<rparr>)"

section \<open>Counts\<close>

definition bump :: "string \<Rightarrow> (string, int) gomap \<Rightarrow> (string, int) gomap" where
  "bump c m = gm_set c ((case gm_get m c of None \<Rightarrow> 0 | Some n \<Rightarrow> n) + 1) m"

definition count_track ::
  "ledger \<Rightarrow> time \<Rightarrow> string \<times> occ_track
    \<Rightarrow> (string, int) gomap \<times> (string, int) gomap \<times> occ_track option
    \<Rightarrow> (string, int) gomap \<times> (string, int) gomap \<times> occ_track option" where
  "count_track l now = (\<lambda>(_, tr) (per_q, per_r, covering).
     if tr_label tr \<noteq> lg_label l then (per_q, per_r, covering)
     else case gm_get (tr_entered tr) (w_Zone (lg_watch l)) of
            None \<Rightarrow> (per_q, per_r, covering)
          | Some ent \<Rightarrow>
              (if w_ArriveAfter (lg_watch l) \<le> time_sub now ent then bump (tr_camera tr) per_q else per_q,
               bump (tr_camera tr) per_r, Some tr))"

definition max_value :: "(string, int) gomap \<Rightarrow> int" where
  "max_value m = fold (\<lambda>(_, n) acc. max acc n) m 0"

text \<open>\<open>counts\<close>, over the tracks in the order of the range.\<close>

definition counts :: "(string, occ_track) gomap \<Rightarrow> ledger \<Rightarrow> time \<Rightarrow> int \<times> int \<times> occ_track option" where
  "counts tracks l now =
     (let (per_q, per_r, covering) = fold (count_track l now) tracks ([], [], None)
      in (max_value per_q, max_value per_r, covering))"

section \<open>Ledgers\<close>

definition occ_event_track :: "ledger \<Rightarrow> string \<times> occ_track \<Rightarrow> event \<Rightarrow> event" where
  "occ_event_track l = (\<lambda>(_, tr) ev.
     if tr_label tr \<noteq> lg_label l \<or> gm_get (tr_entered tr) (w_Zone (lg_watch l)) = None then ev
     else
       let ev1 = (if ev_Camera ev = [] then
                    ev\<lparr>ev_Camera := tr_camera tr, ev_SourceID := tr_source tr,
                       ev_HasSnapshot := tr_snapshot tr\<rparr>
                  else ev);
           ev2 = (if ev_Plate ev1 = [] then ev1\<lparr>ev_Plate := tr_plate tr\<rparr> else ev1);
           ev3 = (if ev_SubLabel ev2 = [] then ev2\<lparr>ev_SubLabel := tr_subLabel tr\<rparr> else ev2)
       in ev3\<lparr>ev_Cameras := add_new (tr_camera tr) (ev_Cameras ev3),
              ev_SourceIDs := ev_SourceIDs ev3 @ [tr_source tr]\<rparr>)"

definition occ_event :: "(string, occ_track) gomap \<Rightarrow> ledger \<Rightarrow> time \<Rightarrow> kind \<Rightarrow> event" where
  "occ_event tracks l now knd =
     (let zone = w_Zone (lg_watch l);
          ev0 = zero_event\<lparr>
            ev_ID := mint_id (''occupancy/'' @ zone @ ''/'' @ lg_label l @ ''/'' @ itoa (unix_nano now)),
            ev_Kind := knd,
            ev_Quiet := w_Quiet (lg_watch l),
            ev_Label := lg_label l,
            ev_Zones := [zone],
            ev_Path := [zone],
            ev_Objects := [(lg_label l, lg_present l)],
            ev_StartedAt := now,
            ev_EndedAt := now,
            ev_Clip := ClipFinal\<rparr>;
          ev1 = (if knd = KindDeparture \<and> lg_lastSeen l \<noteq> 0 then
                   let e = ev0\<lparr>ev_StartedAt := lg_lastSeen l, ev_EndedAt := lg_lastSeen l\<rparr>
                   in if lg_seenCamera l \<noteq> [] then
                        e\<lparr>ev_Camera := lg_seenCamera l, ev_SourceID := lg_seenSource l,
                          ev_HasSnapshot := lg_seenSnapshot l, ev_Cameras := [lg_seenCamera l],
                          ev_SourceIDs := [lg_seenSource l]\<rparr>
                      else e
                 else ev0)
      in fold (occ_event_track l) tracks ev1)"

text \<open>The first statement of the loop body of \<open>tick\<close>: raw sightings cover the ledger or do not.\<close>

definition cover :: "int \<Rightarrow> occ_track option \<Rightarrow> time \<Rightarrow> ledger \<Rightarrow> ledger option" where
  "cover raw covering now l =
     (if lg_present l \<le> raw then
        let l1 = l\<lparr>lg_belowSince := 0\<rparr>
        in if 0 < raw then
             (case covering of
                None \<Rightarrow> None
              | Some tr \<Rightarrow> Some (l1\<lparr>lg_lastSeen := now, lg_seenCamera := tr_camera tr,
                                    lg_seenSource := tr_source tr, lg_seenSnapshot := tr_snapshot tr\<rparr>))
           else Some l1
      else if is_zero (lg_belowSince l) then Some (l\<lparr>lg_belowSince := now\<rparr>)
      else Some l)"

text \<open>The rest of it: an arrival, a departure, or neither.\<close>

definition settle ::
  "(string, occ_track) gomap \<Rightarrow> int \<Rightarrow> int \<Rightarrow> time \<Rightarrow> ledger \<Rightarrow> ledger \<times> change list" where
  "settle tracks q raw now l =
     (if lg_present l < q then
        let l1 = l\<lparr>lg_present := q, lg_since := now, lg_belowSince := 0\<rparr>
        in (l1, [Change OpStarted (occ_event tracks l1 now KindArrival)])
      else if 0 < lg_present l \<and> \<not> is_zero (lg_belowSince l)
           \<and> w_DepartAfter (lg_watch l) \<le> time_sub now (lg_belowSince l) then
        let l1 = l\<lparr>lg_present := max q raw, lg_belowSince := 0\<rparr>
        in (l1, [Change OpStarted (occ_event tracks l1 now KindDeparture)])
      else (l, []))"

text \<open>The two ranges over the tracks, in \<open>counts\<close> and in \<open>event\<close>, may take different orders.\<close>

record occ_orders =
  ord_ledgers :: "string list"
  ord_counts :: "string \<Rightarrow> string list"
  ord_event :: "string \<Rightarrow> string list"

definition tick_ledger ::
  "occ_orders \<Rightarrow> (string, occ_track) gomap \<Rightarrow> time \<Rightarrow> string \<Rightarrow> ledger \<Rightarrow> (ledger \<times> change list) option"
where
  "tick_ledger ords tracks now k l =
     (let (q, raw, covering) = counts (gm_pick (ord_counts ords k) tracks) l now
      in case cover raw covering now l of
           None \<Rightarrow> None
         | Some l1 \<Rightarrow> Some (settle (gm_pick (ord_event ords k) tracks) q raw now l1))"

fun tick_ledgers ::
  "occ_orders \<Rightarrow> (string, occ_track) gomap \<Rightarrow> time \<Rightarrow> (string, ledger) gomap
    \<Rightarrow> ((string, ledger) gomap \<times> change list) option" where
  "tick_ledgers ords tracks now [] = Some ([], [])"
| "tick_ledgers ords tracks now ((k, l) # ls) =
     (case tick_ledger ords tracks now k l of
        None \<Rightarrow> None
      | Some (l', cs) \<Rightarrow>
          (case tick_ledgers ords tracks now ls of
             None \<Rightarrow> None
           | Some (ls', cs') \<Rightarrow> Some ((k, l') # ls', cs @ cs')))"

definition occ_tick :: "occ_orders \<Rightarrow> time \<Rightarrow> occupancy \<Rightarrow> (occupancy \<times> change list) option" where
  "occ_tick ords now oc =
     (case tick_ledgers ords (oc_tracks oc) now (gm_pick (ord_ledgers ords) (oc_ledgers oc)) of
        None \<Rightarrow> None
      | Some (ls, cs) \<Rightarrow> Some (oc\<lparr>oc_ledgers := ls\<rparr>, cs))"

text \<open>What \<open>Observe\<close> does before the tick.\<close>

definition occ_take :: "time \<Rightarrow> string \<Rightarrow> bytes \<Rightarrow> occupancy \<Rightarrow> occupancy" where
  "occ_take now topic payload oc =
     (if top_kind (parse_topic topic) = KindEvents then
        (case parse_event payload of
           Inl _ \<Rightarrow> oc
         | Inr msg \<Rightarrow> if obj_FalsePositive (msg_after msg) then oc else absorb now msg oc)
      else oc)"

definition occ_observe ::
  "occ_orders \<Rightarrow> occupancy \<Rightarrow> time \<Rightarrow> string \<Rightarrow> bytes \<Rightarrow> (occupancy \<times> change list) option" where
  "occ_observe ords oc now topic payload = occ_tick ords now (occ_take now topic payload oc)"

section \<open>What counts counts\<close>

definition holds :: "ledger \<Rightarrow> occ_track \<Rightarrow> bool" where
  "holds l tr \<longleftrightarrow> tr_label tr = lg_label l \<and> gm_get (tr_entered tr) (w_Zone (lg_watch l)) \<noteq> None"

definition dwells :: "ledger \<Rightarrow> time \<Rightarrow> occ_track \<Rightarrow> bool" where
  "dwells l now tr \<longleftrightarrow> tr_label tr = lg_label l \<and>
     (case gm_get (tr_entered tr) (w_Zone (lg_watch l)) of
        None \<Rightarrow> False
      | Some ent \<Rightarrow> w_ArriveAfter (lg_watch l) \<le> time_sub now ent)"

text \<open>The reference: the greatest, over the cameras, of one camera's tracks with the property.\<close>

definition cam_count :: "(occ_track \<Rightarrow> bool) \<Rightarrow> (string, occ_track) gomap \<Rightarrow> string \<Rightarrow> int" where
  "cam_count P tracks c = int (length (filter (\<lambda>(_, tr). P tr \<and> tr_camera tr = c) tracks))"

definition camera_max :: "(occ_track \<Rightarrow> bool) \<Rightarrow> (string, occ_track) gomap \<Rightarrow> int" where
  "camera_max P tracks = Max (insert 0 (cam_count P tracks ` (\<lambda>(_, tr). tr_camera tr) ` set tracks))"

abbreviation lookup0 :: "(string, int) gomap \<Rightarrow> string \<Rightarrow> int" where
  "lookup0 m c \<equiv> (case gm_get m c of None \<Rightarrow> 0 | Some n \<Rightarrow> n)"

lemma lookup0_bump: "lookup0 (bump c m) c' = lookup0 m c' + of_bool (c = c')"
  by (simp add: bump_def)

lemma gm_wf_bump [simp]: "gm_wf m \<Longrightarrow> gm_wf (bump c m)"
  by (simp add: bump_def)

lemma max_value_bounds:
  assumes "gm_wf m"
  shows "0 \<le> max_value m" and "lookup0 m c \<le> max_value m"
    and "max_value m = 0 \<or> (\<exists>c. max_value m = lookup0 m c)"
proof -
  have "acc \<le> fold (\<lambda>(_, n) acc. max acc n) m acc
      \<and> (\<forall>(c, n) \<in> set m. n \<le> fold (\<lambda>(_, n) acc. max acc n) m acc)
      \<and> (fold (\<lambda>(_, n) acc. max acc n) m acc = acc
         \<or> (\<exists>(c, n) \<in> set m. fold (\<lambda>(_, n) acc. max acc n) m acc = n))" for acc :: int
  proof (induction m arbitrary: acc)
    case (Cons x m)
    obtain c n where x: "x = (c, n)" by (cases x)
    from Cons.IH [of "max acc n"] show ?case by (auto simp: x max_def split: if_splits)
  qed simp
  from this [of 0] have *: "0 \<le> max_value m" "\<forall>(c, n) \<in> set m. n \<le> max_value m"
    "max_value m = 0 \<or> (\<exists>(c, n) \<in> set m. max_value m = n)"
    by (simp_all add: max_value_def)
  show "0 \<le> max_value m" by fact
  show "lookup0 m c \<le> max_value m" using * by (auto split: option.split dest: map_of_SomeD)
  from *(3) show "max_value m = 0 \<or> (\<exists>c. max_value m = lookup0 m c)"
  proof (elim disjE bexE)
    fix x assume x: "x \<in> set m" "case x of (c, n) \<Rightarrow> max_value m = n"
    then obtain c n where "(c, n) \<in> set m" "max_value m = n" by (cases x) auto
    with assms have "max_value m = lookup0 m c" by simp
    then show ?thesis by blast
  qed simp
qed

lemma count_track_step:
  "count_track l now (k, tr) (q, r, cov) =
     (if dwells l now tr then bump (tr_camera tr) q else q,
      if holds l tr then bump (tr_camera tr) r else r,
      if holds l tr then Some tr else cov)"
  by (auto simp: count_track_def holds_def dwells_def split: option.splits)

lemma counts_fold:
  assumes "gm_wf q" and "gm_wf r" and "fold (count_track l now) tracks (q, r, cov) = (q', r', cov')"
  shows "gm_wf q' \<and> gm_wf r'
    \<and> (\<forall>c. lookup0 q' c = lookup0 q c + cam_count (dwells l now) tracks c)
    \<and> (\<forall>c. lookup0 r' c = lookup0 r c + cam_count (holds l) tracks c)
    \<and> (cov' = None \<longleftrightarrow> cov = None \<and> (\<forall>(_, tr) \<in> set tracks. \<not> holds l tr))
    \<and> (\<forall>tr. cov' = Some tr \<longrightarrow> cov = Some tr \<or> (\<exists>k. (k, tr) \<in> set tracks \<and> holds l tr))"
  using assms
proof (induction tracks arbitrary: q r cov)
  case Nil
  then show ?case by (simp add: cam_count_def)
next
  case (Cons x tracks)
  obtain k tr where x: "x = (k, tr)" by (cases x)
  let ?q = "if dwells l now tr then bump (tr_camera tr) q else q"
  let ?r = "if holds l tr then bump (tr_camera tr) r else r"
  let ?c = "if holds l tr then Some tr else cov"
  have "fold (count_track l now) tracks (?q, ?r, ?c) = (q', r', cov')"
    using Cons.prems(3) by (simp add: x count_track_step)
  from Cons.IH [OF _ _ this] Cons.prems(1,2)
  have IH: "gm_wf q' \<and> gm_wf r'"
    "\<And>c. lookup0 q' c = lookup0 ?q c + cam_count (dwells l now) tracks c"
    "\<And>c. lookup0 r' c = lookup0 ?r c + cam_count (holds l) tracks c"
    "cov' = None \<longleftrightarrow> ?c = None \<and> (\<forall>(_, tr) \<in> set tracks. \<not> holds l tr)"
    "\<And>tr'. cov' = Some tr' \<Longrightarrow> ?c = Some tr' \<or> (\<exists>k. (k, tr') \<in> set tracks \<and> holds l tr')"
    by auto
  have "lookup0 ?q c = lookup0 q c + of_bool (dwells l now tr \<and> tr_camera tr = c)" for c
    using lookup0_bump [of "tr_camera tr" q c] by auto
  moreover have "lookup0 ?r c = lookup0 r c + of_bool (holds l tr \<and> tr_camera tr = c)" for c
    using lookup0_bump [of "tr_camera tr" r c] by auto
  moreover have "cam_count P (x # tracks) c = of_bool (P tr \<and> tr_camera tr = c) + cam_count P tracks c" for P c
    by (simp add: x cam_count_def)
  ultimately show ?case
    using IH(1) IH(2,3) IH(4,5) by (auto simp: x split: if_splits)
qed

lemma cam_count_zero: "c \<notin> (\<lambda>(_, tr). tr_camera tr) ` set tracks \<Longrightarrow> cam_count P tracks c = 0"
  by (auto simp: cam_count_def filter_empty_conv)

lemma max_value_camera_max:
  assumes "gm_wf m" and "\<forall>c. lookup0 m c = cam_count P tracks c"
  shows "max_value m = camera_max P tracks"
  unfolding camera_max_def
proof (rule Max_eqI [symmetric])
  show "max_value m \<in> insert 0 (cam_count P tracks ` (\<lambda>(_, tr). tr_camera tr) ` set tracks)"
    using max_value_bounds(3) [OF assms(1)] assms(2) cam_count_zero
    by (metis (no_types, lifting) image_eqI insert_iff)
  show "y \<le> max_value m" if "y \<in> insert 0 (cam_count P tracks ` (\<lambda>(_, tr). tr_camera tr) ` set tracks)" for y
    using that max_value_bounds(1,2) [OF assms(1)] assms(2) by (metis image_iff insert_iff)
qed simp

lemma camera_max_mset:
  assumes "mset tracks = mset tracks'"
  shows "camera_max P tracks = camera_max P tracks'"
proof -
  have "cam_count P tracks c = cam_count P tracks' c" for c
    using assms by (simp add: cam_count_def flip: size_mset)
  with assms show ?thesis using mset_eq_setD [OF assms] by (simp add: camera_max_def)
qed

lemma camera_max_nonneg [simp]: "0 \<le> camera_max P tracks"
  by (simp add: camera_max_def)

lemma camera_max_mono:
  assumes "\<And>tr. P tr \<Longrightarrow> Q tr"
  shows "camera_max P tracks \<le> camera_max Q tracks"
proof -
  have "cam_count P tracks c \<le> cam_count Q tracks c" for c
    unfolding cam_count_def of_nat_le_iff using assms
    by (induction tracks) auto
  moreover have "cam_count Q tracks c \<le> camera_max Q tracks"
    if "c \<in> (\<lambda>(_, tr). tr_camera tr) ` set tracks" for c
    unfolding camera_max_def using that by (intro Max_ge) auto
  ultimately have "y \<le> camera_max Q tracks"
    if "y \<in> insert 0 (cam_count P tracks ` (\<lambda>(_, tr). tr_camera tr) ` set tracks)" for y
    using that by (metis (no_types, lifting) camera_max_nonneg image_iff insert_iff order_trans)
  then show ?thesis unfolding camera_max_def [of P] by (subst Max_le_iff) auto
qed

lemma dwells_holds: "dwells l now tr \<Longrightarrow> holds l tr"
  by (auto simp: dwells_def holds_def split: option.splits)

lemma counts_spec:
  assumes "gm_wf tracks" and "counts (gm_pick ord tracks) l now = (q, raw, cov)"
  shows "q = camera_max (dwells l now) tracks" and "raw = camera_max (holds l) tracks"
    and "0 < raw \<Longrightarrow> \<exists>k tr. cov = Some tr \<and> (k, tr) \<in> set tracks \<and> holds l tr"
proof -
  obtain pq pr where f: "fold (count_track l now) (gm_pick ord tracks) ([], [], None) = (pq, pr, cov)"
    and q: "q = max_value pq" and r: "raw = max_value pr"
    using assms(2) by (auto simp: counts_def split: prod.splits)
  from counts_fold [OF _ _ f] have 1: "gm_wf pq" "gm_wf pr"
    "\<forall>c. lookup0 pq c = cam_count (dwells l now) (gm_pick ord tracks) c"
    "\<forall>c. lookup0 pr c = cam_count (holds l) (gm_pick ord tracks) c"
    "cov = None \<longleftrightarrow> (\<forall>(_, tr) \<in> set (gm_pick ord tracks). \<not> holds l tr)"
    "\<forall>tr. cov = Some tr \<longrightarrow> (\<exists>k. (k, tr) \<in> set (gm_pick ord tracks) \<and> holds l tr)"
    by simp_all
  show "q = camera_max (dwells l now) tracks"
    unfolding q max_value_camera_max [OF 1(1,3)] by (rule camera_max_mset) (rule gm_pick_mset [OF assms(1)])
  show raw: "raw = camera_max (holds l) tracks"
    unfolding r max_value_camera_max [OF 1(2,4)] by (rule camera_max_mset) (rule gm_pick_mset [OF assms(1)])
  assume "0 < raw"
  have "\<exists>(_, tr) \<in> set tracks. holds l tr"
  proof (rule ccontr)
    assume "\<not> ?thesis"
    then have "cam_count (holds l) tracks c = 0" for c by (auto simp: cam_count_def filter_empty_conv)
    then have "camera_max (holds l) tracks = 0" by (auto simp: camera_max_def image_constant_conv)
    with \<open>0 < raw\<close> raw show False by simp
  qed
  with 1(5,6) assms(1) show "\<exists>k tr. cov = Some tr \<and> (k, tr) \<in> set tracks \<and> holds l tr"
    by (cases cov) auto
qed

section \<open>Invariant\<close>

definition ledger_inv :: "ledger \<Rightarrow> bool" where
  "ledger_inv l \<longleftrightarrow> 0 \<le> lg_present l \<and> 0 < w_DepartAfter (lg_watch l) \<and> 0 < w_ArriveAfter (lg_watch l)"

definition occ_inv :: "occupancy \<Rightarrow> bool" where
  "occ_inv oc \<longleftrightarrow> gm_wf (oc_ledgers oc) \<and> gm_wf (oc_tracks oc) \<and> (\<forall>(_, l) \<in> set (oc_ledgers oc). ledger_inv l)"

lemma occ_inv_ledger: "occ_inv oc \<Longrightarrow> gm_get (oc_ledgers oc) k = Some l \<Longrightarrow> ledger_inv l"
  by (auto simp: occ_inv_def dest: map_of_SomeD)

lemma add_watch_inv:
  assumes "occ_inv oc"
  shows "occ_inv (add_watch w oc)"
proof -
  have pos: "ledger_inv (new_ledger (default_watch w) l)" for l
    by (simp add: ledger_inv_def new_ledger_def default_watch_def Let_def)
  have "gm_wf m \<and> (\<forall>(_, l) \<in> set m. ledger_inv l) \<Longrightarrow>
      gm_wf (fold (\<lambda>l. gm_set (z @ ''|'' @ l) (new_ledger (default_watch w) l)) ls m)
      \<and> (\<forall>(_, l) \<in> set (fold (\<lambda>l. gm_set (z @ ''|'' @ l) (new_ledger (default_watch w) l)) ls m). ledger_inv l)"
    for z ls and m :: "(string, ledger) gomap"
  proof (induction ls arbitrary: m)
    case (Cons l ls)
    have "set (gm_set (z @ ''|'' @ l) (new_ledger (default_watch w) l) m)
        \<subseteq> insert (z @ ''|'' @ l, new_ledger (default_watch w) l) (set m)" by (rule gm_set_entries)
    with Cons.prems pos have "\<forall>(_, l) \<in> set (gm_set (z @ ''|'' @ l) (new_ledger (default_watch w) l) m). ledger_inv l"
      by blast
    moreover have "gm_wf (gm_set (z @ ''|'' @ l) (new_ledger (default_watch w) l) m)"
      using Cons.prems by blast
    ultimately show ?case unfolding fold_Cons comp_apply by (intro Cons.IH conjI)
  qed simp
  from this [of "oc_ledgers oc" "w_Zone (default_watch w)" "w_Labels (default_watch w)"] assms
  show ?thesis unfolding occ_inv_def add_watch_def Let_def by auto
qed

lemma occ_inv_new: "occ_inv (new_occupancy ws)"
proof -
  have "occ_inv oc \<Longrightarrow> occ_inv (fold add_watch ws oc)" for oc
    by (induction ws arbitrary: oc) (simp_all add: add_watch_inv)
  moreover have "occ_inv \<lparr>oc_watches = [], oc_ledgers = [], oc_tracks = []\<rparr>" by (simp add: occ_inv_def)
  ultimately show ?thesis unfolding new_occupancy_def by blast
qed

lemma absorb_frame:
  "oc_ledgers (absorb now msg oc) = oc_ledgers oc" "oc_watches (absorb now msg oc) = oc_watches oc"
  by (simp_all add: absorb_def Let_def)

lemma occ_take_frame [simp]:
  "oc_ledgers (occ_take now topic payload oc) = oc_ledgers oc"
  "oc_watches (occ_take now topic payload oc) = oc_watches oc"
  by (simp_all add: occ_take_def absorb_frame split: sum.split)

lemma absorb_wf: "gm_wf (oc_tracks oc) \<Longrightarrow> gm_wf (oc_tracks (absorb now msg oc))"
  by (simp add: absorb_def Let_def)

lemma occ_take_inv: "occ_inv oc \<Longrightarrow> occ_inv (occ_take now topic payload oc)"
  by (simp add: occ_inv_def) (simp add: occ_take_def absorb_wf split: sum.split)

section \<open>One ledger in one tick\<close>

lemma occ_event_frame:
  "ev_ID (fold (occ_event_track l) ts e) = ev_ID e" "ev_Kind (fold (occ_event_track l) ts e) = ev_Kind e"
  "ev_StartedAt (fold (occ_event_track l) ts e) = ev_StartedAt e"
  "ev_EndedAt (fold (occ_event_track l) ts e) = ev_EndedAt e"
  "ev_Clip (fold (occ_event_track l) ts e) = ev_Clip e"
  "ev_Objects (fold (occ_event_track l) ts e) = ev_Objects e"
  by (induction ts arbitrary: e) (simp_all add: occ_event_track_def Let_def split: prod.split)

lemma occ_event_simps [simp]:
  "length (ev_ID (occ_event ts l now knd)) = 20" "ev_Kind (occ_event ts l now knd) = knd"
  "ev_StartedAt (occ_event ts l now knd) =
     (if knd = KindDeparture \<and> lg_lastSeen l \<noteq> 0 then lg_lastSeen l else now)"
  "ev_EndedAt (occ_event ts l now knd) = ev_StartedAt (occ_event ts l now knd)"
  "ev_Clip (occ_event ts l now knd) = ClipFinal"
  "ev_Objects (occ_event ts l now knd) = [(lg_label l, lg_present l)]"
  by (simp_all add: occ_event_def occ_event_frame Let_def zero_event_def)

text \<open>The part of a ledger that no choice of order reaches.\<close>

definition ledger_core :: "ledger \<Rightarrow> watch \<times> string \<times> int \<times> time \<times> time \<times> time" where
  "ledger_core l = (lg_watch l, lg_label l, lg_present l, lg_since l, lg_lastSeen l, lg_belowSince l)"

text \<open>
  The reference: what one tick makes of that part, from the two counts; with the kind of the event
  it announces.
\<close>

definition core_tick ::
  "int \<Rightarrow> int \<Rightarrow> time \<Rightarrow> ledger \<Rightarrow> (watch \<times> string \<times> int \<times> time \<times> time \<times> time) \<times> kind list" where
  "core_tick q raw now l =
     (let below = (if lg_present l \<le> raw then 0 else if lg_belowSince l = 0 then now else lg_belowSince l);
          seen = (if lg_present l \<le> raw \<and> 0 < raw then now else lg_lastSeen l)
      in if lg_present l < q then
           ((lg_watch l, lg_label l, q, now, seen, 0), [KindArrival])
         else if 0 < lg_present l \<and> below \<noteq> 0 \<and> w_DepartAfter (lg_watch l) \<le> time_sub now below then
           ((lg_watch l, lg_label l, max q raw, lg_since l, seen, 0), [KindDeparture])
         else ((lg_watch l, lg_label l, lg_present l, lg_since l, seen, below), []))"

lemma cover_core:
  assumes "cover raw cov now l = Some l1"
  shows "lg_watch l1 = lg_watch l" "lg_label l1 = lg_label l" "lg_present l1 = lg_present l"
    "lg_since l1 = lg_since l"
    "lg_belowSince l1 = (if lg_present l \<le> raw then 0 else if lg_belowSince l = 0 then now else lg_belowSince l)"
    "lg_lastSeen l1 = (if lg_present l \<le> raw \<and> 0 < raw then now else lg_lastSeen l)"
  using assms by (auto simp: cover_def Let_def split: if_splits option.splits)

lemma settle_core:
  "(ledger_core (fst (settle ts q raw now l)), map (\<lambda>c. ev_Kind (chg_event c)) (snd (settle ts q raw now l))) =
     (if lg_present l < q then ((lg_watch l, lg_label l, q, now, lg_lastSeen l, 0), [KindArrival])
      else if 0 < lg_present l \<and> lg_belowSince l \<noteq> 0
        \<and> w_DepartAfter (lg_watch l) \<le> time_sub now (lg_belowSince l) then
        ((lg_watch l, lg_label l, max q raw, lg_since l, lg_lastSeen l, 0), [KindDeparture])
      else (ledger_core l, []))"
  by (simp add: settle_def ledger_core_def Let_def)

lemma settle_ok:
  assumes "0 < now"
  shows "list_all change_ok (snd (settle ts q raw now l))"
  using assms by (simp add: settle_def change_ok_def Let_def)

lemma tick_ledger_spec:
  assumes "gm_wf tracks" and "0 < now"
  shows "\<exists>l' cs. tick_ledger ords tracks now k l = Some (l', cs) \<and> list_all change_ok cs
    \<and> (ledger_core l', map (\<lambda>c. ev_Kind (chg_event c)) cs)
        = core_tick (camera_max (dwells l now) tracks) (camera_max (holds l) tracks) now l"
proof -
  obtain q raw cov where c: "counts (gm_pick (ord_counts ords k) tracks) l now = (q, raw, cov)"
    using prod_cases3 by blast
  note spec = counts_spec [OF assms(1) c]
  have "cover raw cov now l \<noteq> None" using spec(3) by (auto simp: cover_def Let_def split: option.splits)
  then obtain l1 where l1: "cover raw cov now l = Some l1" by blast
  let ?s = "settle (gm_pick (ord_event ords k) tracks) q raw now l1"
  have "tick_ledger ords tracks now k l = Some ?s" by (simp add: tick_ledger_def c l1)
  moreover have "list_all change_ok (snd ?s)" using assms(2) by (rule settle_ok)
  moreover have "(ledger_core (fst ?s), map (\<lambda>c. ev_Kind (chg_event c)) (snd ?s)) = core_tick q raw now l"
    by (subst settle_core) (simp add: core_tick_def cover_core [OF l1] ledger_core_def Let_def)
  ultimately show ?thesis unfolding spec(1,2) [symmetric]
    by (intro exI [of _ "fst ?s"] exI [of _ "snd ?s"]) simp
qed

lemma tick_ledgers_spec:
  assumes "gm_wf tracks" and "0 < now" and "gm_wf ls"
  shows "\<exists>ls' cs. tick_ledgers ords tracks now ls = Some (ls', cs) \<and> list_all change_ok cs
    \<and> gm_keys ls' = gm_keys ls
    \<and> (\<forall>k l. gm_get ls k = Some l \<longrightarrow> (\<exists>l'. gm_get ls' k = Some l' \<and> ledger_core l' =
        fst (core_tick (camera_max (dwells l now) tracks) (camera_max (holds l) tracks) now l)))"
  using assms(3)
proof (induction ls)
  case Nil
  then show ?case by simp
next
  case (Cons x ls)
  obtain k l where x: "x = (k, l)" by (cases x)
  from Cons obtain ls' cs' where 1: "tick_ledgers ords tracks now ls = Some (ls', cs')"
    "list_all change_ok cs'" "gm_keys ls' = gm_keys ls"
    "\<And>k l. gm_get ls k = Some l \<Longrightarrow> \<exists>l'. gm_get ls' k = Some l' \<and> ledger_core l' =
        fst (core_tick (camera_max (dwells l now) tracks) (camera_max (holds l) tracks) now l)"
    by auto
  from tick_ledger_spec [OF assms(1,2), of ords k l] obtain l' cs where
    2: "tick_ledger ords tracks now k l = Some (l', cs)" "list_all change_ok cs"
    "ledger_core l' = fst (core_tick (camera_max (dwells l now) tracks) (camera_max (holds l) tracks) now l)"
    by (metis fst_conv)
  from 1 2 show ?case by (auto simp: x)
qed

text \<open>One observation: never a panic, and every ledger ticks by the reference.\<close>

lemma occ_observe_spec:
  fixes topic payload
  assumes "occ_inv oc" and "0 < now"
  defines "tracks \<equiv> oc_tracks (occ_take now topic payload oc)"
  shows "\<exists>oc' cs. occ_observe ords oc now topic payload = Some (oc', cs) \<and> occ_inv oc'
    \<and> list_all change_ok cs \<and> oc_tracks oc' = tracks \<and> oc_watches oc' = oc_watches oc
    \<and> set (gm_keys (oc_ledgers oc')) = set (gm_keys (oc_ledgers oc))
    \<and> (\<forall>k l. gm_get (oc_ledgers oc) k = Some l \<longrightarrow> (\<exists>l'. gm_get (oc_ledgers oc') k = Some l' \<and> ledger_core l' =
        fst (core_tick (camera_max (dwells l now) tracks) (camera_max (holds l) tracks) now l)))"
proof -
  have inv: "occ_inv (occ_take now topic payload oc)" using assms(1) by (rule occ_take_inv)
  then have wf: "gm_wf tracks" "gm_wf (oc_ledgers oc)" by (simp_all add: occ_inv_def tracks_def)
  let ?ls = "gm_pick (ord_ledgers ords) (oc_ledgers oc)"
  from tick_ledgers_spec [OF wf(1) assms(2) gm_wf_pick [OF wf(2)]] obtain ls' cs where
    1: "tick_ledgers ords tracks now ?ls = Some (ls', cs)" "list_all change_ok cs"
    "gm_keys ls' = gm_keys ?ls"
    "\<And>k l. gm_get (oc_ledgers oc) k = Some l \<Longrightarrow> \<exists>l'. gm_get ls' k = Some l' \<and> ledger_core l' =
        fst (core_tick (camera_max (dwells l now) tracks) (camera_max (holds l) tracks) now l)"
    using wf(2) by fastforce
  have keys: "set (gm_keys ls') = set (gm_keys (oc_ledgers oc))"
    using 1(3) gm_pick_set [OF wf(2)] by (metis list.set_map)
  have wf': "gm_wf ls'" using 1(3) gm_wf_pick [OF wf(2)] by metis
  have "ledger_inv l'" if "(k, l') \<in> set ls'" for k l'
  proof -
    from that wf' have l': "gm_get ls' k = Some l'" by simp
    from that keys have "k \<in> set (gm_keys (oc_ledgers oc))" by force
    then obtain l where l: "gm_get (oc_ledgers oc) k = Some l" by (auto dest: weak_map_of_SomeI)
    from 1(4) [OF l] l' occ_inv_ledger [OF assms(1) l] show ?thesis
      by (auto simp: core_tick_def ledger_core_def ledger_inv_def Let_def max_def split: if_splits)
  qed
  then have "occ_inv (occ_take now topic payload oc\<lparr>oc_ledgers := ls'\<rparr>)"
    using inv wf' by (auto simp: occ_inv_def)
  moreover have "occ_observe ords oc now topic payload
      = Some (occ_take now topic payload oc\<lparr>oc_ledgers := ls'\<rparr>, cs)"
    using 1(1) by (simp add: occ_observe_def occ_tick_def tracks_def)
  ultimately show ?thesis using 1(2,4) keys
    by (intro exI [of _ "occ_take now topic payload oc\<lparr>oc_ledgers := ls'\<rparr>"] exI [of _ cs])
      (simp add: tracks_def)
qed

lemma occ_observe_ledger:
  assumes "occ_inv oc" and "0 < now" and "gm_get (oc_ledgers oc) k = Some l"
    and "oc_tracks (occ_take now topic payload oc) = tracks"
  obtains oc' cs l' where "occ_observe ords oc now topic payload = Some (oc', cs)" and "occ_inv oc'"
    and "oc_tracks oc' = tracks" and "gm_get (oc_ledgers oc') k = Some l'"
    and "ledger_core l' = fst (core_tick (camera_max (dwells l now) tracks) (camera_max (holds l) tracks) now l)"
  using occ_observe_spec [OF assms(1,2), of ords topic payload] assms(3,4) by metis

definition occ_observer :: "(occupancy \<Rightarrow> occ_orders) \<Rightarrow> occupancy observer" where
  "occ_observer pick oc = occ_observe (pick oc) oc"

interpretation oc: engine "occ_observer pick" occ_inv for pick
proof unfold_locales
  fix oc now topic payload
  assume "occ_inv oc" and "(0 :: int) < now"
  from occ_observe_spec [OF this, of "pick oc" topic payload]
  show "\<exists>s' cs. occ_observer pick oc now topic payload = Some (s', cs) \<and> occ_inv s' \<and> list_all change_ok cs"
    by (auto simp: occ_observer_def)
qed

section \<open>Counting and believing\<close>

text \<open>
  Further. The two counts are what the package promises, whatever order the track table is visited in:
  the most tracks of the label that hold the zone (for the raw count) or have held it for the dwell
  (for the qualified one) on any single camera, never a sum over cameras; the qualified count never
  exceeds the raw one, and a positive raw count always comes with a covering track, so the ledger's
  bookkeeping never dereferences nil.
\<close>

theorem counts_max_over_cameras:
  assumes "gm_wf tracks" and "counts (gm_pick ord tracks) l now = (q, raw, cov)"
  shows "q = camera_max (dwells l now) tracks \<and> raw = camera_max (holds l) tracks \<and> q \<le> raw
    \<and> (raw \<le> 0 \<or> (\<exists>k tr. cov = Some tr \<and> (k, tr) \<in> set tracks \<and> holds l tr))"
  using counts_spec [OF assms] camera_max_mono [of "dwells l now" "holds l" tracks] dwells_holds
  by fastforce

lemma counts_max_over_cameras_witness:
  defines "w \<equiv> \<lparr>w_Zone = ''z'', w_Labels = [''car''], w_ArriveAfter = 5, w_DepartAfter = 9, w_Quiet = False\<rparr>"
  defines "tr \<equiv> \<lambda>i cam t. \<lparr>tr_source = i, tr_camera = cam, tr_label = ''car'', tr_plate = [],
    tr_subLabel = [], tr_snapshot = False, tr_entered = [(''z'', t)], tr_box = []\<rparr>"
  shows "counts [(''a'', tr ''a'' ''c1'' 10), (''b'', tr ''b'' ''c1'' 12), (''c'', tr ''c'' ''c2'' 19)]
      (new_ledger w ''car'') 20 = (2, 2, Some (tr ''c'' ''c2'' 19))
    \<and> camera_max (holds (new_ledger w ''car''))
        [(''a'', tr ''a'' ''c1'' 10), (''b'', tr ''b'' ''c1'' 12), (''c'', tr ''c'' ''c2'' 19)] = 2"
proof -
  let ?ts = "[(''a'', tr ''a'' ''c1'' 10), (''b'', tr ''b'' ''c1'' 12), (''c'', tr ''c'' ''c2'' 19)]"
  have "counts ?ts (new_ledger w ''car'') 20 = (2, 2, Some (tr ''c'' ''c2'' 19))"
    unfolding w_def tr_def by code_simp
  moreover have "gm_pick [] ?ts = ?ts" by (simp add: gm_pick_def gm_order_def)
  moreover have "gm_wf ?ts" by simp
  ultimately show ?thesis
    using counts_max_over_cameras [of ?ts "[]" "new_ledger w ''car''" 20] by auto
qed

section \<open>What no order reaches\<close>

text \<open>The tracks and the watches of a message do not depend on the ledgers.\<close>

lemma occ_take_cong:
  assumes "oc_tracks a = oc_tracks b" and "oc_watches a = oc_watches b"
  shows "oc_tracks (occ_take now topic payload a) = oc_tracks (occ_take now topic payload b)"
  using assms
  by (simp add: occ_take_def absorb_def watched_label_def Let_def split: sum.split)

lemma holds_core: "ledger_core l = ledger_core l' \<Longrightarrow> holds l = holds l'"
  by (simp add: ledger_core_def holds_def fun_eq_iff)

lemma dwells_core: "ledger_core l = ledger_core l' \<Longrightarrow> dwells l now = dwells l' now"
  unfolding ledger_core_def dwells_def prod.inject by (elim conjE) (simp only: )

lemma core_tick_core: "ledger_core l = ledger_core l' \<Longrightarrow> core_tick q raw now l = core_tick q raw now l'"
  by (simp add: ledger_core_def core_tick_def Let_def)

text \<open>
  What of a change no order reaches: everything but the camera in front with its source and snapshot,
  the plate and the sub-label, and the two lists, of which an arrival still names the same cameras and
  the same tracks, however often.
\<close>

definition erased :: "event \<Rightarrow> event" where
  "erased e = e\<lparr>ev_Camera := [], ev_SourceID := [], ev_HasSnapshot := False, ev_Plate := [], ev_SubLabel := [],
     ev_Cameras := [], ev_SourceIDs := []\<rparr>"

definition announcement :: "change \<Rightarrow> op \<times> event \<times> string set \<times> string multiset" where
  "announcement c =
     (let e = chg_event c; arrival = (ev_Kind e = KindArrival)
      in (chg_op c, erased e, if arrival then set (ev_Cameras e) else {}, if arrival then mset (ev_SourceIDs e) else {#}))"

lemma erased_track: "erased (occ_event_track l x e) = erased e"
  by (cases x) (simp add: occ_event_track_def erased_def Let_def)

lemma erased_fold: "erased (fold (occ_event_track l) ts e) = erased e"
  by (induction ts arbitrary: e) (simp_all add: erased_track)

lemma erased_occ_event:
  assumes "ledger_core l = ledger_core l'"
  shows "erased (occ_event ts l now knd) = erased (occ_event ts' l' now knd)"
  using assms by (simp add: occ_event_def Let_def erased_fold ledger_core_def) (simp add: erased_def)

lemma event_names:
  "set (ev_Cameras (fold (occ_event_track l) ts e)) = set (ev_Cameras e) \<union> (tr_camera \<circ> snd) ` {x \<in> set ts. holds l (snd x)}"
  "mset (ev_SourceIDs (fold (occ_event_track l) ts e))
    = mset (ev_SourceIDs e) + image_mset (tr_source \<circ> snd) (filter_mset (\<lambda>x. holds l (snd x)) (mset ts))"
proof -
  have cams: "set (ev_Cameras (occ_event_track l x e)) = set (ev_Cameras e) \<union> (if holds l (snd x) then {tr_camera (snd x)} else {})" for x e
    by (cases x) (simp add: occ_event_track_def holds_def Let_def)
  have ids: "mset (ev_SourceIDs (occ_event_track l x e)) = mset (ev_SourceIDs e) + (if holds l (snd x) then {#tr_source (snd x)#} else {#})" for x e
    by (cases x) (simp add: occ_event_track_def holds_def Let_def)
  show "set (ev_Cameras (fold (occ_event_track l) ts e)) = set (ev_Cameras e) \<union> (tr_camera \<circ> snd) ` {x \<in> set ts. holds l (snd x)}"
    by (induction ts arbitrary: e) (auto simp: cams split: if_splits)
  show "mset (ev_SourceIDs (fold (occ_event_track l) ts e))
    = mset (ev_SourceIDs e) + image_mset (tr_source \<circ> snd) (filter_mset (\<lambda>x. holds l (snd x)) (mset ts))"
    by (induction ts arbitrary: e) (simp_all add: ids)
qed

lemma announcement_occ_event:
  assumes "ledger_core l = ledger_core l'" and "mset ts = mset ts'"
  shows "announcement (Change OpStarted (occ_event ts l now knd)) = announcement (Change OpStarted (occ_event ts' l' now knd))"
proof (cases "knd = KindArrival")
  case True
  have "set (ev_Cameras (occ_event ts l now KindArrival)) = set (ev_Cameras (occ_event ts' l' now KindArrival))"
    using mset_eq_setD [OF assms(2)] holds_core [OF assms(1)] by (simp add: occ_event_def event_names Let_def zero_event_def)
  moreover have "mset (ev_SourceIDs (occ_event ts l now KindArrival)) = mset (ev_SourceIDs (occ_event ts' l' now KindArrival))"
    using assms(2) holds_core [OF assms(1)] by (simp add: occ_event_def event_names Let_def zero_event_def)
  ultimately show ?thesis
    using erased_occ_event [OF assms(1), of ts now KindArrival ts'] by (simp add: announcement_def True Let_def)
next
  case False
  then show ?thesis using erased_occ_event [OF assms(1), of ts now knd ts'] by (simp add: announcement_def Let_def)
qed

lemma settle_announces:
  assumes "ledger_core l = ledger_core l'" and "mset ts = mset ts'"
  shows "map announcement (snd (settle ts q raw now l)) = map announcement (snd (settle ts' q raw now l'))"
proof -
  have core: "lg_present l = lg_present l'" "lg_belowSince l = lg_belowSince l'" "lg_watch l = lg_watch l'"
    using assms(1) by (simp_all add: ledger_core_def)
  have "ledger_core (l\<lparr>lg_present := q, lg_since := now, lg_belowSince := 0\<rparr>) = ledger_core (l'\<lparr>lg_present := q, lg_since := now, lg_belowSince := 0\<rparr>)"
    "ledger_core (l\<lparr>lg_present := max q raw, lg_belowSince := 0\<rparr>) = ledger_core (l'\<lparr>lg_present := max q raw, lg_belowSince := 0\<rparr>)"
    using assms(1) by (simp_all add: ledger_core_def)
  from this [THEN announcement_occ_event, OF assms(2)] show ?thesis
    by (simp add: settle_def core Let_def)
qed

text \<open>What one ledger announces in one tick, as a function of its part that no order reaches.\<close>

definition core_ledger :: "watch \<times> string \<times> int \<times> time \<times> time \<times> time \<Rightarrow> ledger" where
  "core_ledger = (\<lambda>(w, l, present, since, seen, below).
     (new_ledger w l)\<lparr>lg_present := present, lg_since := since, lg_lastSeen := seen, lg_belowSince := below\<rparr>)"

lemma ledger_core_ledger: "ledger_core (core_ledger c) = c"
  by (cases c) (simp add: core_ledger_def ledger_core_def new_ledger_def)

definition any_orders :: occ_orders where
  "any_orders = \<lparr>ord_ledgers = [], ord_counts = \<lambda>_. [], ord_event = \<lambda>_. []\<rparr>"

definition announces :: "(string, occ_track) gomap \<Rightarrow> time
    \<Rightarrow> watch \<times> string \<times> int \<times> time \<times> time \<times> time \<Rightarrow> (op \<times> event \<times> string set \<times> string multiset) list" where
  "announces tracks now c = map announcement (snd (the (tick_ledger any_orders tracks now [] (core_ledger c))))"

lemma tick_ledger_core:
  assumes "gm_wf tracks" and "ledger_core l = ledger_core l'"
    and "tick_ledger ords tracks now k l = Some (l1, cs)" and "tick_ledger ords' tracks now k' l' = Some (l1', cs')"
  shows "map announcement cs = map announcement cs'"
proof -
  obtain q raw cov where c: "counts (gm_pick (ord_counts ords k) tracks) l now = (q, raw, cov)" using prod_cases3 by blast
  obtain q' raw' cov' where c': "counts (gm_pick (ord_counts ords' k') tracks) l' now = (q', raw', cov')" using prod_cases3 by blast
  have "dwells l now = dwells l' now" using assms(2) by (rule dwells_core)
  with counts_spec(1,2) [OF assms(1) c] counts_spec(1,2) [OF assms(1) c'] holds_core [OF assms(2)]
  have same: "q' = q" "raw' = raw" by simp_all
  obtain m where m: "cover raw cov now l = Some m" "settle (gm_pick (ord_event ords k) tracks) q raw now m = (l1, cs)"
    using assms(3) by (auto simp: tick_ledger_def c split: option.splits)
  obtain m' where m': "cover raw cov' now l' = Some m'" "settle (gm_pick (ord_event ords' k') tracks) q raw now m' = (l1', cs')"
    using assms(4) by (auto simp: tick_ledger_def c' same split: option.splits)
  have "ledger_core m = ledger_core m'"
    using assms(2) by (simp add: ledger_core_def cover_core [OF m(1)] cover_core [OF m'(1)])
  from settle_announces [OF this] gm_pick_mset [OF assms(1)] m(2) m'(2) show ?thesis by (metis snd_conv)
qed

lemma tick_ledger_announces:
  assumes "gm_wf tracks" and "0 < now" and "tick_ledger ords tracks now k l = Some (l', cs)"
  shows "map announcement cs = announces tracks now (ledger_core l)"
proof -
  let ?l = "core_ledger (ledger_core l)"
  obtain l1 cs1 where t: "tick_ledger any_orders tracks now [] ?l = Some (l1, cs1)"
    using tick_ledger_spec [OF assms(1,2)] by blast
  from tick_ledger_core [OF assms(1) ledger_core_ledger [symmetric] assms(3) t] show ?thesis
    by (simp add: announces_def t)
qed

lemma tick_ledgers_announce:
  assumes "gm_wf tracks" and "0 < now"
  shows "tick_ledgers ords tracks now ls = Some (ls', cs) \<Longrightarrow>
    mset (map announcement cs) = (\<Sum>x\<in>#mset (map (\<lambda>(k, l). (k, ledger_core l)) ls). mset (announces tracks now (snd x)))"
proof (induction ls arbitrary: ls' cs)
  case (Cons x ls)
  obtain k l where x: "x = (k, l)" by (cases x)
  with Cons.prems obtain l' cs1 ls1 cs2 where t: "tick_ledger ords tracks now k l = Some (l', cs1)"
    "tick_ledgers ords tracks now ls = Some (ls1, cs2)" "cs = cs1 @ cs2"
    by (auto split: option.splits prod.splits)
  from tick_ledger_announces [OF assms t(1)] Cons.IH [OF t(2)] show ?case by (simp add: x t(3))
qed simp

text \<open>Two states that agree on everything no order reaches.\<close>

definition same_core :: "occupancy \<Rightarrow> occupancy \<Rightarrow> bool" where
  "same_core a b \<longleftrightarrow> oc_tracks a = oc_tracks b \<and> oc_watches a = oc_watches b
     \<and> (\<forall>k. map_option ledger_core (gm_get (oc_ledgers a) k) = map_option ledger_core (gm_get (oc_ledgers b) k))"

lemma cores_mset:
  fixes m m' :: "(string, ledger) gomap"
  assumes "gm_wf m" and "gm_wf m'" and "\<forall>k. map_option ledger_core (gm_get m k) = map_option ledger_core (gm_get m' k)"
  shows "mset (map (\<lambda>(k, l). (k, ledger_core l)) m) = mset (map (\<lambda>(k, l). (k, ledger_core l)) m')"
proof -
  have set: "set (map (\<lambda>(k, l). (k, ledger_core l)) m) = {(k, c). map_option ledger_core (gm_get m k) = Some c}" if "gm_wf m" for m :: "(string, ledger) gomap"
  proof -
    have "set m = {(k, l). gm_get m k = Some l}" using that by auto
    then show ?thesis by (auto simp: image_iff)
  qed
  have dist: "distinct (map (\<lambda>(k, l). (k, ledger_core l)) m)" if "gm_wf m" for m :: "(string, ledger) gomap"
  proof -
    have "map fst (map (\<lambda>(k, l). (k, ledger_core l)) m) = gm_keys m" by (simp add: comp_def case_prod_unfold)
    with that show ?thesis by (metis distinct_map)
  qed
  have "set (map (\<lambda>(k, l). (k, ledger_core l)) m) = set (map (\<lambda>(k, l). (k, ledger_core l)) m')"
    unfolding set [OF assms(1)] set [OF assms(2)] using assms(3) by simp
  with dist [OF assms(1)] dist [OF assms(2)] show ?thesis by (simp only: set_eq_iff_mset_eq_distinct)
qed

lemma same_core_step:
  assumes "same_core a b" and "occ_inv a" and "occ_inv b" and "0 < now"
  obtains a' cs b' cs' where "occ_observe oa a now topic payload = Some (a', cs)" and "occ_observe ob b now topic payload = Some (b', cs')"
    and "same_core a' b'" and "occ_inv a'" and "occ_inv b'"
    and "mset (map announcement cs) = mset (map announcement cs')"
proof -
  let ?ts = "oc_tracks (occ_take now topic payload a)"
  have ts: "oc_tracks (occ_take now topic payload b) = ?ts"
    using assms(1) by (intro occ_take_cong) (simp_all add: same_core_def)
  obtain a' cs where 1: "occ_observe oa a now topic payload = Some (a', cs)" "occ_inv a'" "oc_tracks a' = ?ts"
    "oc_watches a' = oc_watches a" "set (gm_keys (oc_ledgers a')) = set (gm_keys (oc_ledgers a))"
    "\<And>k l. gm_get (oc_ledgers a) k = Some l \<Longrightarrow> \<exists>l'. gm_get (oc_ledgers a') k = Some l' \<and> ledger_core l' =
        fst (core_tick (camera_max (dwells l now) ?ts) (camera_max (holds l) ?ts) now l)"
    using occ_observe_spec [OF assms(2,4), of oa topic payload] by blast
  obtain b' cs' where 2: "occ_observe ob b now topic payload = Some (b', cs')" "occ_inv b'" "oc_tracks b' = ?ts"
    "oc_watches b' = oc_watches b" "set (gm_keys (oc_ledgers b')) = set (gm_keys (oc_ledgers b))"
    "\<And>k l. gm_get (oc_ledgers b) k = Some l \<Longrightarrow> \<exists>l'. gm_get (oc_ledgers b') k = Some l' \<and> ledger_core l' =
        fst (core_tick (camera_max (dwells l now) ?ts) (camera_max (holds l) ?ts) now l)"
    using occ_observe_spec [OF assms(3,4), of ob topic payload] unfolding ts by blast
  have "map_option ledger_core (gm_get (oc_ledgers a') k) = map_option ledger_core (gm_get (oc_ledgers b') k)" for k
  proof (cases "gm_get (oc_ledgers a) k")
    case None
    moreover from None assms(1) have "gm_get (oc_ledgers b) k = None" by (metis map_option_is_None same_core_def)
    ultimately have "gm_get (oc_ledgers a') k = None" "gm_get (oc_ledgers b') k = None"
      using 1(5) 2(5) by (simp_all add: map_of_eq_None_iff)
    then show ?thesis by simp
  next
    case (Some l)
    with assms(1) obtain l2 where l2: "gm_get (oc_ledgers b) k = Some l2" "ledger_core l2 = ledger_core l"
      unfolding same_core_def by (metis map_option_eq_Some)
    then have "dwells l2 now = dwells l now" "holds l2 = holds l" "core_tick q raw now l2 = core_tick q raw now l" for q raw
      using dwells_core holds_core core_tick_core by blast+
    with 1(6) [OF Some] 2(6) [OF l2(1)] show ?thesis by auto
  qed
  with 1(3,4) 2(3,4) assms(1) have "same_core a' b'" by (simp add: same_core_def)
  moreover have "mset (map announcement cs) = mset (map announcement cs')"
  proof -
    have wf: "gm_wf (oc_ledgers a)" "gm_wf (oc_ledgers b)" "gm_wf ?ts"
      using assms(2,3) occ_take_inv [OF assms(2), of now topic payload] by (simp_all add: occ_inv_def)
    obtain la where "tick_ledgers oa ?ts now (gm_pick (ord_ledgers oa) (oc_ledgers a)) = Some (la, cs)"
      using 1(1) by (auto simp: occ_observe_def occ_tick_def split: option.splits)
    moreover obtain lb where "tick_ledgers ob ?ts now (gm_pick (ord_ledgers ob) (oc_ledgers b)) = Some (lb, cs')"
      using 2(1) ts by (auto simp: occ_observe_def occ_tick_def split: option.splits)
    moreover have "\<forall>k. map_option ledger_core (gm_get (oc_ledgers a) k) = map_option ledger_core (gm_get (oc_ledgers b) k)"
      using assms(1) by (simp add: same_core_def)
    then have "mset (map (\<lambda>(k, l). (k, ledger_core l)) (gm_pick (ord_ledgers oa) (oc_ledgers a)))
        = mset (map (\<lambda>(k, l). (k, ledger_core l)) (gm_pick (ord_ledgers ob) (oc_ledgers b)))"
      using wf(1,2) by (intro cores_mset) auto
    ultimately show ?thesis using tick_ledgers_announce [OF wf(3) assms(4)] by metis
  qed
  ultimately show ?thesis using that 1(1,2) 2(1,2) by blast
qed

lemma same_core_run:
  assumes "same_core a b" and "occ_inv a" and "occ_inv b" and "list_all message_ok ms"
  shows "\<exists>a' cs b' cs'. run_engine (occ_observer pa) a ms = Some (a', cs) \<and> run_engine (occ_observer pb) b ms = Some (b', cs')
    \<and> same_core a' b' \<and> occ_inv a' \<and> occ_inv b' \<and> mset (map announcement cs) = mset (map announcement cs')"
  using assms
proof (induction ms arbitrary: a b)
  case (Cons x ms)
  obtain now topic payload where x: "x = (now, topic, payload)" by (cases x) auto
  with Cons.prems(4) have "0 < now" by (simp add: message_ok_def)
  obtain a1 cs b1 cs' where 1: "occ_observe (pa a) a now topic payload = Some (a1, cs)"
    "occ_observe (pb b) b now topic payload = Some (b1, cs')" "same_core a1 b1" "occ_inv a1" "occ_inv b1"
    "mset (map announcement cs) = mset (map announcement cs')"
    by (rule same_core_step [OF Cons.prems(1-3) \<open>0 < now\<close>])
  from Cons.IH [OF 1(3-5)] Cons.prems(4) obtain a2 cs2 b2 cs2' where 2:
    "run_engine (occ_observer pa) a1 ms = Some (a2, cs2)" "run_engine (occ_observer pb) b1 ms = Some (b2, cs2')"
    "same_core a2 b2" "occ_inv a2" "occ_inv b2" "mset (map announcement cs2) = mset (map announcement cs2')" by auto
  have "run_engine (occ_observer pa) a (x # ms) = Some (a2, cs @ cs2)" "run_engine (occ_observer pb) b (x # ms) = Some (b2, cs' @ cs2')"
    using 1(1,2) 2(1,2) by (simp_all add: x occ_observer_def)
  with 1(6) 2(3-6) show ?case by (metis map_append mset_append)
qed simp

text \<open>
  C6. Presence is believed from the counts and from nothing else. No stream makes the engine
  panic. After any stream every observation leaves each ledger in place, and what it then
  believes lies between the qualified count and the larger of that count and its old belief. And of two
  runs that range over their maps in different orders, whatever each picks from its states: they
  agree on the tracks; on every ledger but for the camera, source and snapshot of its last witness; and on
  what they announce, as often, but for the sequence in which ledgers speak within one message and for
  what an event says of its witnesses: the camera in front with its source and snapshot, the plate and
  the sub-label, the order in which an arrival lists its cameras and sources, and whom a departure lists.
\<close>

theorem presence_from_counts:
  assumes "occ_inv oc" and "list_all message_ok ms" and "0 < now"
  shows "\<exists>oc1 cs1 oc2 cs2.
      run_engine (occ_observer pick1) oc ms = Some (oc1, cs1) \<and> run_engine (occ_observer pick2) oc ms = Some (oc2, cs2)
    \<and> oc_tracks oc1 = oc_tracks oc2
    \<and> (\<forall>k. map_option ledger_core (gm_get (oc_ledgers oc1) k) = map_option ledger_core (gm_get (oc_ledgers oc2) k))
    \<and> mset (map announcement cs1) = mset (map announcement cs2)
    \<and> (\<forall>k l. gm_get (oc_ledgers oc1) k = Some l \<longrightarrow>
        (\<exists>oc' cs l'. occ_observe ords oc1 now topic payload = Some (oc', cs) \<and> gm_get (oc_ledgers oc') k = Some l'
          \<and> camera_max (dwells l now) (oc_tracks oc') \<le> lg_present l'
          \<and> lg_present l' \<le> max (lg_present l) (camera_max (dwells l now) (oc_tracks oc'))))"
proof -
  have "same_core oc oc" by (simp add: same_core_def)
  from same_core_run [OF this assms(1,1,2), of pick1 pick2] obtain oc1 cs1 oc2 cs2 where run:
    "run_engine (occ_observer pick1) oc ms = Some (oc1, cs1)" "run_engine (occ_observer pick2) oc ms = Some (oc2, cs2)"
    "same_core oc1 oc2" "occ_inv oc1" "mset (map announcement cs1) = mset (map announcement cs2)" by blast
  have "\<exists>oc' cs l'. occ_observe ords oc1 now topic payload = Some (oc', cs) \<and> gm_get (oc_ledgers oc') k = Some l'
          \<and> camera_max (dwells l now) (oc_tracks oc') \<le> lg_present l'
          \<and> lg_present l' \<le> max (lg_present l) (camera_max (dwells l now) (oc_tracks oc'))"
    if l: "gm_get (oc_ledgers oc1) k = Some l" for k l
  proof -
    obtain oc' cs l' where 1: "occ_observe ords oc1 now topic payload = Some (oc', cs)" "gm_get (oc_ledgers oc') k = Some l'"
      "ledger_core l' = fst (core_tick (camera_max (dwells l now) (oc_tracks oc')) (camera_max (holds l) (oc_tracks oc')) now l)"
      by (rule occ_observe_ledger [OF run(4) assms(3) l refl, of ords topic payload]) simp
    have "camera_max (dwells l now) (oc_tracks oc') \<le> camera_max (holds l) (oc_tracks oc')"
      by (rule camera_max_mono) (rule dwells_holds)
    with 1(3) occ_inv_ledger [OF run(4) l] have "camera_max (dwells l now) (oc_tracks oc') \<le> lg_present l'
        \<and> lg_present l' \<le> max (lg_present l) (camera_max (dwells l now) (oc_tracks oc'))"
      by (auto simp: core_tick_def ledger_core_def Let_def split: if_splits)
    with 1 show ?thesis by blast
  qed
  with run show ?thesis unfolding same_core_def by blast
qed

text \<open>The track table each message of a stream leaves, with the message's time.\<close>

definition occ_takes :: "broker_message list \<Rightarrow> occupancy \<Rightarrow> occupancy" where
  "occ_takes ms oc = fold (\<lambda>(now, topic, payload). occ_take now topic payload) ms oc"

fun occ_tables :: "occupancy \<Rightarrow> broker_message list \<Rightarrow> (time \<times> (string, occ_track) gomap) list" where
  "occ_tables oc [] = []"
| "occ_tables oc ((now, topic, payload) # ms) =
     (let oc1 = occ_take now topic payload oc in (now, oc_tracks oc1) # occ_tables oc1 ms)"

lemma occ_tables_snoc:
  "occ_tables oc (ms @ [(now, topic, payload)]) =
     occ_tables oc ms @ [(now, oc_tracks (occ_takes (ms @ [(now, topic, payload)]) oc))]"
  by (induction ms arbitrary: oc) (auto simp: occ_takes_def Let_def)

lemma run_occ_snoc:
  assumes "run_engine (occ_observer pick) oc0 (ms @ [(now, topic, payload)]) = Some (oc', cs)"
  obtains oc cs1 cs2 where "run_engine (occ_observer pick) oc0 ms = Some (oc, cs1)"
    and "occ_observe (pick oc) oc now topic payload = Some (oc', cs2)"
  using assms by (auto simp: run_engine_append occ_observer_def split: option.splits)

lemma run_occ_tracks:
  assumes "occ_inv oc0" and "list_all message_ok ms"
    and "run_engine (occ_observer pick) oc0 ms = Some (oc, cs)"
  shows "oc_tracks oc = oc_tracks (occ_takes ms oc0) \<and> oc_watches oc = oc_watches (occ_takes ms oc0)"
  using assms(2,3)
proof (induction ms arbitrary: oc cs rule: rev_induct)
  case Nil
  then show ?case by (simp add: occ_takes_def)
next
  case (snoc x ms)
  obtain now topic payload where x: "x = (now, topic, payload)" by (cases x) auto
  from snoc.prems(2) obtain oc1 cs1 cs2 where
    1: "run_engine (occ_observer pick) oc0 ms = Some (oc1, cs1)"
    and 2: "occ_observe (pick oc1) oc1 now topic payload = Some (oc, cs2)"
    unfolding x by (rule run_occ_snoc)
  from snoc.IH [OF _ 1] snoc.prems(1)
  have IH: "oc_tracks oc1 = oc_tracks (occ_takes ms oc0)" "oc_watches oc1 = oc_watches (occ_takes ms oc0)"
    by simp_all
  from oc.run_ok [OF assms(1), of ms pick] 1 snoc.prems(1) have "occ_inv oc1" by auto
  moreover from snoc.prems(1) have "0 < now" by (simp add: x message_ok_def)
  ultimately have "oc_tracks oc = oc_tracks (occ_take now topic payload oc1)"
    "oc_watches oc = oc_watches oc1"
    using occ_observe_spec [of oc1 now "pick oc1" topic payload] 2 by auto
  with IH occ_take_cong [OF IH] show ?case by (simp add: x occ_takes_def)
qed

text \<open>While a ledger is below, every table since \<open>belowSince\<close> had too few sightings.\<close>

definition below_run :: "ledger \<Rightarrow> int \<Rightarrow> time \<Rightarrow> (time \<times> (string, occ_track) gomap) list \<Rightarrow> bool" where
  "below_run l n since tables \<longleftrightarrow>
     (\<exists>pre suf. tables = pre @ suf \<and> suf \<noteq> [] \<and> fst (hd suf) = since
       \<and> (\<forall>(_, tracks) \<in> set suf. camera_max (holds l) tracks < n))"

lemma below_run_new: "camera_max (holds l) tracks < n \<Longrightarrow> below_run l n now (tables @ [(now, tracks)])"
  unfolding below_run_def by (intro exI [of _ tables] exI [of _ "[(now, tracks)]"]) simp

lemma below_run_more:
  assumes "below_run l n since tables" and "camera_max (holds l) tracks < n"
  shows "below_run l n since (tables @ [(now, tracks)])"
proof -
  from assms(1) obtain pre suf where "tables = pre @ suf" "suf \<noteq> []" "fst (hd suf) = since"
    "\<forall>(_, tracks) \<in> set suf. camera_max (holds l) tracks < n" unfolding below_run_def by blast
  with assms(2) show ?thesis unfolding below_run_def
    by (intro exI [of _ pre] exI [of _ "suf @ [(now, tracks)]"]) simp
qed

lemma holds_tick: "ledger_core l' = fst (core_tick q raw now l) \<Longrightarrow> holds l' = holds l"
  by (auto simp: core_tick_def ledger_core_def holds_def fun_eq_iff Let_def split: if_splits)

text \<open>One tick: what \<open>belowSince\<close> stands for is kept, and a fall needs the whole grace.\<close>

lemma core_tick_below:
  fixes tracks and now :: time and l :: ledger
  defines "raw \<equiv> camera_max (holds l) tracks"
  assumes "ledger_core l' = fst (core_tick q raw now l)" and "q \<le> raw" and "ledger_inv l" and "0 < now"
    and "lg_belowSince l = 0 \<or> below_run l (lg_present l) (lg_belowSince l) tables"
  shows "lg_belowSince l' = 0 \<or> below_run l' (lg_present l') (lg_belowSince l') (tables @ [(now, tracks)])"
    and "lg_present l' < lg_present l \<Longrightarrow> \<exists>since. below_run l (lg_present l) since (tables @ [(now, tracks)])
      \<and> w_DepartAfter (lg_watch l) \<le> time_sub now since"
proof -
  define below where "below = (if lg_belowSince l = 0 then now else lg_belowSince l)"
  have run: "below_run l (lg_present l) below (tables @ [(now, tracks)])" if "raw < lg_present l"
    using that assms(6) below_run_new [of l tracks "lg_present l" now tables]
      below_run_more [of l "lg_present l" _ tables tracks now]
    by (auto simp: below_def raw_def)
  have same: "below_run l' n t ts = below_run l n t ts" for n t ts
    using holds_tick [OF assms(2)] by (simp add: below_run_def)
  show "lg_belowSince l' = 0 \<or> below_run l' (lg_present l') (lg_belowSince l') (tables @ [(now, tracks)])"
    unfolding same using assms(2,3) run
    by (auto simp: core_tick_def ledger_core_def below_def Let_def split: if_splits)
  assume "lg_present l' < lg_present l"
  with assms(2,3) have "raw < lg_present l" "w_DepartAfter (lg_watch l) \<le> time_sub now below"
    by (auto simp: core_tick_def ledger_core_def below_def Let_def split: if_splits)
  with run show "\<exists>since. below_run l (lg_present l) since (tables @ [(now, tracks)])
      \<and> w_DepartAfter (lg_watch l) \<le> time_sub now since" by blast
qed

lemma run_occ_below:
  assumes "occ_inv oc0" and "\<forall>(_, l) \<in> set (oc_ledgers oc0). lg_belowSince l = 0"
    and "list_all message_ok ms" and "run_engine (occ_observer pick) oc0 ms = Some (oc, cs)"
    and "gm_get (oc_ledgers oc) k = Some l"
  shows "lg_belowSince l = 0 \<or> below_run l (lg_present l) (lg_belowSince l) (occ_tables oc0 ms)"
  using assms(3-5)
proof (induction ms arbitrary: oc cs l rule: rev_induct)
  case Nil
  with assms(2) show ?case by (auto dest: map_of_SomeD)
next
  case (snoc x ms)
  obtain now topic payload where x: "x = (now, topic, payload)" by (cases x) auto
  from snoc.prems(2) obtain oc1 cs1 cs2 where
    1: "run_engine (occ_observer pick) oc0 ms = Some (oc1, cs1)"
    and 2: "occ_observe (pick oc1) oc1 now topic payload = Some (oc, cs2)"
    unfolding x by (rule run_occ_snoc)
  from oc.run_ok [OF assms(1), of ms pick] 1 snoc.prems(1) have inv: "occ_inv oc1" by auto
  from snoc.prems(1) have now: "0 < now" by (simp add: x message_ok_def)
  define tracks where "tracks = oc_tracks (occ_take now topic payload oc1)"
  from occ_observe_spec [OF inv now, of "pick oc1" topic payload] 2 have
    keys: "set (gm_keys (oc_ledgers oc)) = set (gm_keys (oc_ledgers oc1))"
    and step: "\<And>l0. gm_get (oc_ledgers oc1) k = Some l0 \<Longrightarrow> \<exists>l'. gm_get (oc_ledgers oc) k = Some l'
      \<and> ledger_core l' = fst (core_tick (camera_max (dwells l0 now) tracks) (camera_max (holds l0) tracks) now l0)"
    and tr: "oc_tracks oc = tracks"
    unfolding tracks_def by auto
  from keys snoc.prems(3) have "k \<in> set (gm_keys (oc_ledgers oc1))"
    by (metis domI dom_map_of_conv_image_fst list.set_map)
  then obtain l0 where l0: "gm_get (oc_ledgers oc1) k = Some l0" by (auto dest: weak_map_of_SomeI)
  from step [OF l0] snoc.prems(3) have core:
    "ledger_core l = fst (core_tick (camera_max (dwells l0 now) tracks) (camera_max (holds l0) tracks) now l0)"
    by simp
  from run_occ_tracks [OF assms(1) snoc.prems(1,2)] tr
  have "occ_tables oc0 (ms @ [x]) = occ_tables oc0 ms @ [(now, tracks)]"
    unfolding x occ_tables_snoc by simp
  with core_tick_below(1) [OF core camera_max_mono [OF dwells_holds] occ_inv_ledger [OF inv l0] now
      snoc.IH [OF _ 1 l0]] snoc.prems(1)
  show ?case by simp
qed

definition occ_fresh :: "occupancy \<Rightarrow> bool" where
  "occ_fresh oc \<longleftrightarrow> occ_inv oc \<and> (\<forall>(_, l) \<in> set (oc_ledgers oc). lg_belowSince l = 0)"

lemma new_occupancy_fresh: "occ_fresh (new_occupancy ws)"
proof -
  define P :: "occupancy \<Rightarrow> bool" where "P oc \<longleftrightarrow> (\<forall>(_, l) \<in> set (oc_ledgers oc). lg_belowSince l = 0)" for oc
  have ledgers: "(\<forall>(_, l) \<in> set m. lg_belowSince l = 0) \<Longrightarrow>
      (\<forall>(_, l) \<in> set (fold (\<lambda>l. gm_set (z l) (new_ledger w l)) ls m). lg_belowSince l = 0)"
    for z w ls and m :: "(string, ledger) gomap"
  proof (induction ls arbitrary: m)
    case (Cons l ls)
    have "set (gm_set (z l) (new_ledger w l) m) \<subseteq> insert (z l, new_ledger w l) (set m)"
      by (rule gm_set_entries)
    moreover have "lg_belowSince (new_ledger w l) = 0" by (simp add: new_ledger_def)
    ultimately have "\<forall>(_, l) \<in> set (gm_set (z l) (new_ledger w l) m). lg_belowSince l = 0"
      using Cons.prems by blast
    from Cons.IH [OF this] show ?case by simp
  qed simp
  have "P oc \<Longrightarrow> P (add_watch w oc)" for w oc
    using ledgers [of "oc_ledgers oc" "\<lambda>l. w_Zone (default_watch w) @ ''|'' @ l" "default_watch w"
        "w_Labels (default_watch w)"]
    unfolding P_def add_watch_def Let_def by auto
  then have "P oc \<Longrightarrow> P (fold add_watch ws oc)" for oc
    by (induction ws arbitrary: oc) simp_all
  moreover have "P \<lparr>oc_watches = [], oc_ledgers = [], oc_tracks = []\<rparr>" by (simp add: P_def)
  ultimately have "P (new_occupancy ws)" unfolding new_occupancy_def by blast
  then show ?thesis by (simp add: P_def occ_fresh_def occ_inv_new)
qed

text \<open>
  C5. A departure is never believed early: in a run from a state in which no ledger is
  below (a fresh engine is one), a message lowers what a
  ledger believes only if the tables of tracks show, without interruption and for at least
  \<open>DepartAfter\<close> up to that message, fewer sightings on every camera than the ledger believed in.
\<close>

theorem departure_needs_absence:
  assumes "list_all message_ok (ms @ [(now, topic, payload)])"
    and "occ_fresh oc0" and "run_engine (occ_observer pick) oc0 ms = Some (oc, cs)"
    and "gm_get (oc_ledgers oc) k = Some l"
    and "occ_observe ords oc now topic payload = Some (oc', cs')"
    and "gm_get (oc_ledgers oc') k = Some l'" and "lg_present l' < lg_present l"
  shows "\<exists>since. below_run l (lg_present l) since
      (occ_tables oc0 (ms @ [(now, topic, payload)]))
    \<and> w_DepartAfter (lg_watch l) \<le> time_sub now since \<and> 0 < w_DepartAfter (lg_watch l)"
proof -
  from assms(2) have fresh: "occ_inv oc0" "\<forall>(_, l) \<in> set (oc_ledgers oc0). lg_belowSince l = 0"
    by (simp_all add: occ_fresh_def)
  have ms: "list_all message_ok ms" and now: "0 < now" using assms(1) by (simp_all add: message_ok_def)
  from oc.run_ok [OF fresh(1) ms, of pick] assms(3) have inv: "occ_inv oc" by auto
  define tracks where "tracks = oc_tracks (occ_take now topic payload oc)"
  from occ_observe_spec [OF inv now, of ords topic payload] assms(4,5,6) have core:
    "ledger_core l' = fst (core_tick (camera_max (dwells l now) tracks) (camera_max (holds l) tracks) now l)"
    unfolding tracks_def by fastforce
  from run_occ_tracks [OF fresh(1) ms assms(3)]
  have same: "oc_tracks oc = oc_tracks (occ_takes ms oc0)"
    "oc_watches oc = oc_watches (occ_takes ms oc0)" by simp_all
  have "occ_tables oc0 (ms @ [(now, topic, payload)])
      = occ_tables oc0 ms @ [(now, tracks)]"
    unfolding occ_tables_snoc tracks_def occ_take_cong [OF same] by (simp add: occ_takes_def)
  moreover have "0 < w_DepartAfter (lg_watch l)"
    using occ_inv_ledger [OF inv assms(4)] by (simp add: ledger_inv_def)
  ultimately show ?thesis
    using core_tick_below(2) [OF core camera_max_mono [OF dwells_holds] occ_inv_ledger [OF inv assms(4)] now
        run_occ_below [OF fresh ms assms(3,4)] assms(7)] by auto
qed

definition lot_watch :: watch where
  "lot_watch = \<lparr>w_Zone = ''lot'', w_Labels = [''car''], w_ArriveAfter = 5, w_DepartAfter = 9, w_Quiet = False\<rparr>"

definition lot_ledger :: ledger where
  "lot_ledger = (new_ledger lot_watch ''car'')\<lparr>lg_present := 1\<rparr>"

definition lot :: occupancy where
  "lot = \<lparr>oc_watches = [(''lot'', lot_watch)], oc_ledgers = [(''lot|car'', lot_ledger)], oc_tracks = []\<rparr>"

lemma lot_inv: "occ_fresh lot" "occ_inv lot"
  by (simp_all add: occ_fresh_def occ_inv_def lot_def lot_ledger_def lot_watch_def new_ledger_def ledger_inv_def)

lemma lot_get: "gm_get (oc_ledgers lot) ''lot|car'' = Some lot_ledger"
  by (simp add: lot_def)

lemma not_events: "parse_topic ''frigate/stats'' = zero_topic"
  by code_simp

lemma occ_take_other [simp]: "occ_take now ''frigate/stats'' payload oc = oc"
  by (simp add: occ_take_def not_events)

lemma presence_from_counts_witness:
  "\<exists>oc1 cs1 oc2 cs2. run_engine (occ_observer (\<lambda>_. any_orders)) lot [(10, ''frigate/stats'', []), (19, ''frigate/stats'', [])] = Some (oc1, cs1)
    \<and> run_engine (occ_observer (\<lambda>_. any_orders\<lparr>ord_ledgers := [''lot|car'']\<rparr>)) lot [(10, ''frigate/stats'', []), (19, ''frigate/stats'', [])] = Some (oc2, cs2)
    \<and> mset (map announcement cs1) = mset (map announcement cs2)"
proof -
  have "list_all message_ok [(10, ''frigate/stats'', []), (19, ''frigate/stats'', [])]" by (simp add: message_ok_def)
  from presence_from_counts [OF lot_inv(2) this, of 11 "\<lambda>_. any_orders" "\<lambda>_. any_orders\<lparr>ord_ledgers := [''lot|car'']\<rparr>"]
  show ?thesis by fastforce
qed

lemma departure_needs_absence_witness:
  "\<exists>since. below_run lot_ledger 1 since
      (occ_tables lot ([(10, ''frigate/stats'', [])] @ [(19, ''frigate/stats'', [])]))
    \<and> 9 \<le> time_sub 19 since \<and> 0 < w_DepartAfter lot_watch"
proof -
  let ?o = "\<lparr>ord_ledgers = [], ord_counts = \<lambda>_. [], ord_event = \<lambda>_. []\<rparr>"
  have empty: "camera_max P [] = 0" for P by (simp add: camera_max_def)
  have lot: "oc_tracks lot = []" by (simp add: lot_def)
  have run: "run_engine (occ_observer (\<lambda>_. ?o)) lot [(10, ''frigate/stats'', [])] = Some (oc, cs)"
    if "occ_observe ?o lot 10 ''frigate/stats'' [] = Some (oc, cs)" for oc cs
    using that by (simp add: occ_observer_def)
  have take: "oc_tracks (occ_take now ''frigate/stats'' [] lot) = []" for now by (simp add: lot)
  obtain oc1 cs1 l1 where
    1: "occ_observe ?o lot 10 ''frigate/stats'' [] = Some (oc1, cs1)" "occ_inv oc1" "oc_tracks oc1 = []"
    "gm_get (oc_ledgers oc1) ''lot|car'' = Some l1" "ledger_core l1 = fst (core_tick 0 0 10 lot_ledger)"
    by (rule occ_observe_ledger [OF lot_inv(2) _ lot_get take, of 10 ?o]) (simp_all add: empty)
  have l1: "lg_present l1 = 1" "lg_belowSince l1 = 10" "lg_watch l1 = lot_watch" "lg_label l1 = ''car''"
    using 1(5) by (simp_all add: core_tick_def ledger_core_def lot_ledger_def new_ledger_def lot_watch_def
        time_sub_def Let_def)
  have take1: "oc_tracks (occ_take now ''frigate/stats'' [] oc1) = []" for now by (simp add: 1(3))
  obtain oc2 cs2 l2 where
    2: "occ_observe ?o oc1 19 ''frigate/stats'' [] = Some (oc2, cs2)"
    "gm_get (oc_ledgers oc2) ''lot|car'' = Some l2" "ledger_core l2 = fst (core_tick 0 0 19 l1)"
    by (rule occ_observe_ledger [OF 1(2) _ 1(4) take1, of 19 ?o]) (simp_all add: empty)
  have "lg_present l2 = 0"
    using 2(3) l1 by (simp add: core_tick_def ledger_core_def lot_watch_def time_sub_def Let_def)
  moreover have "list_all message_ok ([(10, ''frigate/stats'', [])] @ [(19, ''frigate/stats'', [])])"
    by (simp add: message_ok_def)
  moreover have "holds l1 = holds lot_ledger"
    using l1 by (simp add: holds_def lot_ledger_def new_ledger_def fun_eq_iff)
  then have "below_run l1 n t ts = below_run lot_ledger n t ts" for n t ts
    by (simp add: below_run_def)
  ultimately show ?thesis
    using departure_needs_absence [OF _ lot_inv(1) run [OF 1(1)] 1(4) 2(1,2)] l1
    by (auto simp: lot_watch_def)
qed

section \<open>Supersession\<close>

lemma iou_sym: "iou a b = iou b a"
  by (simp add: iou_def Let_def min.commute max.commute add.commute mult.commute)

lemma iou_nonneg: "0 \<le> iou a b"
proof -
  have "0 \<le> (if x \<le> 0 \<or> y \<le> 0 then 0 else if u \<le> 0 then 0 else fl64 (fl64 (x * y) / u))" for x y u
    by (simp add: fl64_nonneg)
  then show ?thesis unfolding iou_def Let_def
    by (cases "length a \<noteq> 4 \<or> length b \<noteq> 4") (simp_all only: if_True if_False order_refl)
qed

lemma iou_absent: "length a \<noteq> 4 \<or> length b \<noteq> 4 \<Longrightarrow> iou a b = 0"
  by (auto simp: iou_def)

lemma supersede_iou_pos: "0 < supersede_iou"
  by code_simp

text \<open>
  Further. Only a parked object sweeps, and only its own stale identities: after any message but an end
  about an object of a watched label, another track is gone exactly when the object is stationary
  and the other track has its camera, its label, and a box overlapping its box by the threshold;
  every other track is untouched.  The overlap is symmetric and never negative.
\<close>

theorem supersession:
  assumes "gm_wf (oc_tracks oc)" and "watched_label oc (obj_Label (msg_after msg))"
    and "msg_type msg \<noteq> End" and "i \<noteq> obj_ID (msg_after msg)"
  shows "\<exists>tr. gm_get (oc_tracks (absorb now msg oc)) (obj_ID (msg_after msg)) = Some tr
    \<and> gm_get (oc_tracks (absorb now msg oc)) i =
        (case gm_get (oc_tracks oc) i of
           None \<Rightarrow> None
         | Some other \<Rightarrow>
             if obj_Stationary (msg_after msg) \<and> tr_camera other = tr_camera tr
                \<and> tr_label other = tr_label tr \<and> supersede_iou \<le> iou (tr_box tr) (tr_box other)
             then None else Some other)
    \<and> iou (tr_box tr) bx = iou bx (tr_box tr) \<and> 0 \<le> iou (tr_box tr) bx"
proof -
  define ob where "ob = msg_after msg"
  define tr where "tr = update_track (oc_watches oc) now ob
    (case gm_get (oc_tracks oc) (obj_ID ob) of
       Some tr \<Rightarrow> tr
     | None \<Rightarrow> \<lparr>tr_source = obj_ID ob, tr_camera = obj_Camera ob, tr_label = obj_Label ob, tr_plate = [],
                tr_subLabel = [], tr_snapshot = False, tr_entered = [], tr_box = []\<rparr>)"
  define tracks where "tracks = gm_set (obj_ID ob) tr (oc_tracks oc)"
  have absorb: "oc_tracks (absorb now msg oc) =
      (if obj_Stationary ob \<and> length (tr_box tr) = 4
       then filter (\<lambda>(i, other). \<not> superseded ob tr i other) tracks else tracks)"
    using assms(2,3) by (simp add: absorb_def Let_def ob_def [symmetric] tr_def [symmetric] tracks_def)
  have wf: "gm_wf tracks" using assms(1) by (simp add: tracks_def)
  have get: "gm_get tracks j = (if j = obj_ID ob then Some tr else gm_get (oc_tracks oc) j)" for j
    by (simp add: tracks_def)
  have none: "\<not> supersede_iou \<le> iou (tr_box tr) bx" if "length (tr_box tr) \<noteq> 4" for bx
    using iou_absent [of "tr_box tr" bx] that supersede_iou_pos by simp
  have "gm_get (oc_tracks (absorb now msg oc)) (obj_ID ob) = Some tr"
    by (simp add: absorb gm_get_filter [OF wf] superseded_def get del: map_of_eq_Some_iff)
  moreover have "gm_get (oc_tracks (absorb now msg oc)) i =
        (case gm_get (oc_tracks oc) i of
           None \<Rightarrow> None
         | Some other \<Rightarrow>
             if obj_Stationary ob \<and> tr_camera other = tr_camera tr
                \<and> tr_label other = tr_label tr \<and> supersede_iou \<le> iou (tr_box tr) (tr_box other)
             then None else Some other)"
    using none assms(4)
    by (auto simp: absorb gm_get_filter [OF wf] superseded_def get ob_def [symmetric]
        simp del: map_of_eq_Some_iff split: option.split)
  ultimately show ?thesis unfolding ob_def using iou_sym iou_nonneg by blast
qed

lemma supersession_witness:
  "\<exists>tr. gm_get (oc_tracks (absorb 10 \<lparr>msg_type = Update, msg_before = None, msg_after =
        zero_object\<lparr>obj_ID := ''n'', obj_Camera := ''c'', obj_Label := ''car'', obj_Stationary := True,
          obj_Box := [0, 0, 8, 8]\<rparr>\<rparr>
      (lot\<lparr>oc_tracks := [(''o'', tr)]\<rparr>))) ''o'' = None"
proof -
  define tr where "tr = \<lparr>tr_source = ''o'', tr_camera = ''c'', tr_label = ''car'', tr_plate = [],
      tr_subLabel = [], tr_snapshot = False, tr_entered = [], tr_box = [0, 0, 8, 8]\<rparr>"
  define msg where "msg = \<lparr>msg_type = Update, msg_before = None, msg_after =
      zero_object\<lparr>obj_ID := ''n'', obj_Camera := ''c'', obj_Label := ''car'', obj_Stationary := True,
        obj_Box := [0, 0, 8, 8]\<rparr>\<rparr>"
  define oc where "oc = lot\<lparr>oc_tracks := [(''o'', tr)]\<rparr>"
  have "gm_wf (oc_tracks oc)" "watched_label oc (obj_Label (msg_after msg))" "msg_type msg \<noteq> End"
    "''o'' \<noteq> obj_ID (msg_after msg)"
    by (simp_all add: oc_def msg_def watched_label_def lot_def lot_watch_def)
  from supersession [OF this, of 10 "[]"] obtain t where
    t: "gm_get (oc_tracks (absorb 10 msg oc)) ''n'' = Some t"
    "gm_get (oc_tracks (absorb 10 msg oc)) ''o'' = (case gm_get (oc_tracks oc) ''o'' of
           None \<Rightarrow> None
         | Some other \<Rightarrow>
             if obj_Stationary (msg_after msg) \<and> tr_camera other = tr_camera t
                \<and> tr_label other = tr_label t \<and> supersede_iou \<le> iou (tr_box t) (tr_box other)
             then None else Some other)"
    by (auto simp: msg_def)
  have new: "map_option (\<lambda>t. (tr_camera t, tr_label t, tr_box t)) (gm_get (oc_tracks (absorb 10 msg oc)) ''n'')
      = Some (''c'', ''car'', [0, 0, 8, 8])"
    by (simp add: msg_def oc_def tr_def lot_def lot_watch_def absorb_def watched_label_def update_track_def
        superseded_def zero_object_def Let_def)
  have "tr_camera t = ''c'' \<and> tr_label t = ''car'' \<and> tr_box t = [0, 0, 8, 8]"
    using new by (simp add: t(1))
  moreover have "fl64 8 = 8" "fl64 64 = 64" "fl64 128 = 128" "fl64 1 = 1" "supersede_iou \<le> 1"
    by code_simp+
  then have "supersede_iou \<le> iou [0, 0, 8, 8] [0, 0, 8, 8]" by (simp add: iou_def Let_def)
  ultimately have "gm_get (oc_tracks (absorb 10 msg oc)) ''o'' = None"
    by (simp add: t(2)) (simp add: oc_def tr_def msg_def)
  then show ?thesis unfolding msg_def oc_def by blast
qed

end
