(* ===== verification/Incidents.thy ===== *)
theory Incidents
  imports Policy "HOL-Library.Product_Lexorder"
begin

text \<open>
  The \<open>Incidents\<close> engine (\<open>internal/policy/incidents.go\<close>): people and dogs moving about folded
  into one event per thing that happened.  The pointers of \<open>byID\<close> are indices into \<open>members\<close>,
  so an update through either is seen through both.  The index expressions of \<open>build\<close> that could
  panic are the value None.  The order of the ranges over maps in this file cannot be seen in a
  result (they insert into or delete from maps), so they run in stored order.
\<close>

section \<open>State\<close>

record incident_config =
  ic_Labels :: "string list"
  ic_Gap :: duration
  ic_Overlap :: duration
  ic_Notable :: "string list"
  ic_Adjacent :: "(string, string list) gomap"

definition default_incident_config :: incident_config where
  "default_incident_config =
     \<lparr>ic_Labels = [''person'', ''dog''], ic_Gap = 60 * Second, ic_Overlap = 3 * Second, ic_Notable = [],
      ic_Adjacent = []\<rparr>"

record member =
  m_source :: string
  m_camera :: string
  m_label :: string
  m_start :: time
  m_end :: time
  m_zones :: "string list"
  m_snapshot :: bool
  m_clip :: bool

record incident =
  inc_first :: time
  inc_last :: time
  inc_members :: "member list"
  inc_byID :: "(string, nat) gomap"
  inc_path :: "string list"
  inc_sent :: bool
  inc_event :: event
  inc_boxes :: "box_sample list"

record incidents =
  in_cfg :: incident_config
  in_labels :: "string list"
  in_adjacent :: "(string, string list) gomap option"
  in_rest :: passthrough
  in_open :: "incident list"
  in_closed :: "(string, time) gomap"

definition new_incident :: incident where
  "new_incident =
     \<lparr>inc_first = 0, inc_last = 0, inc_members = [], inc_byID = [], inc_path = [], inc_sent = False,
      inc_event = zero_event, inc_boxes = []\<rparr>"

text \<open>The closure \<open>edge\<close> of the constructor; an inner map to true is the list of its keys.\<close>

definition edge :: "string \<Rightarrow> string \<Rightarrow> (string, string list) gomap \<Rightarrow> (string, string list) gomap" where
  "edge a b adj = gm_set a (add_new b (case gm_get adj a of None \<Rightarrow> [] | Some ns \<Rightarrow> ns)) adj"

definition close_graph :: "(string, string list) gomap \<Rightarrow> (string, string list) gomap" where
  "close_graph g = fold (\<lambda>(cam, ns). fold (\<lambda>n adj. edge n cam (edge cam n adj)) ns) g []"

definition new_incidents :: "incident_config \<Rightarrow> incidents" where
  "new_incidents cfg0 =
     (let d = default_incident_config;
          cfg1 = (if ic_Labels cfg0 = [] then cfg0\<lparr>ic_Labels := ic_Labels d\<rparr> else cfg0);
          cfg2 = (if ic_Gap cfg1 \<le> 0 then cfg1\<lparr>ic_Gap := ic_Gap d\<rparr> else cfg1);
          cfg = (if ic_Overlap cfg2 \<le> 0 then cfg2\<lparr>ic_Overlap := ic_Overlap d\<rparr> else cfg2)
      in \<lparr>in_cfg = cfg, in_labels = ic_Labels cfg,
          in_adjacent = (if ic_Adjacent cfg = [] then None else Some (close_graph (ic_Adjacent cfg))),
          in_rest = new_passthrough\<lparr>pt_notable := ic_Notable cfg\<rparr>,
          in_open = [], in_closed = []\<rparr>)"

section \<open>Box evidence\<close>

definition max_box_samples :: nat where "max_box_samples = 2048"

fun every_second :: "'a list \<Rightarrow> 'a list" where
  "every_second [] = []"
| "every_second [x] = [x]"
| "every_second (x # _ # xs) = x # every_second xs"

definition add_box :: "string \<Rightarrow> time \<Rightarrow> f64 list \<Rightarrow> box_sample list \<Rightarrow> box_sample list" where
  "add_box camera now box boxes =
     (let kept = (if max_box_samples \<le> length boxes then every_second boxes else boxes)
      in kept @ [\<lparr>bs_Camera = camera, bs_At = now,
                  bs_Box = [fl32 (box ! 0), fl32 (box ! 1), fl32 (box ! 2), fl32 (box ! 3)]\<rparr>])"

section \<open>Space\<close>

definition reachable :: "incidents \<Rightarrow> incident \<Rightarrow> string \<Rightarrow> bool" where
  "reachable e inc camera =
     (case in_adjacent e of
        None \<Rightarrow> True
      | Some adj \<Rightarrow>
          (case gm_get adj camera of
             None \<Rightarrow> True
           | Some ns \<Rightarrow>
               list_ex (\<lambda>m. m_camera m = camera \<or> m_camera m \<in> set ns \<or> gm_get adj (m_camera m) = None)
                 (inc_members inc)))"

section \<open>The event of an incident\<close>

definition live_end :: "member \<Rightarrow> time \<Rightarrow> time" where
  "live_end m now = (if is_zero (m_end m) then now else m_end m)"

definition concurrent :: "duration \<Rightarrow> member list \<Rightarrow> member \<Rightarrow> time \<Rightarrow> int" where
  "concurrent overlap members m now =
     (let t = m_start m + overlap in
      if live_end m now < t then 1
      else
        let n = fold (\<lambda>ob n.
              if m_camera ob \<noteq> m_camera m \<or> m_label ob \<noteq> m_label m \<or> m_start m < m_start ob then n
              else if \<not> live_end ob now < t then n + 1 else n) members (0 :: int)
        in max n 1)"

definition count_of :: "(string, int) gomap \<Rightarrow> string \<Rightarrow> int" where
  "count_of objects l = (case gm_get objects l of None \<Rightarrow> 0 | Some n \<Rightarrow> n)"

definition primary_label :: "(string, int) gomap \<Rightarrow> string" where
  "primary_label objects =
     (if 0 < count_of objects ''person'' then ''person''
      else case sort_key (\<lambda>l. (- count_of objects l, l)) (gm_keys objects) of
             [] \<Rightarrow> []
           | l # _ \<Rightarrow> l)"

text \<open>The local variables of \<open>build\<close> across its loop over the members.\<close>

record build_state =
  b_ev :: event
  b_last :: time
  b_unzoned :: "string list"
  b_snapshot :: string
  b_clip :: bool

definition build_member ::
  "duration \<Rightarrow> member list \<Rightarrow> time \<Rightarrow> member \<Rightarrow> build_state \<Rightarrow> build_state" where
  "build_member overlap members now m b =
     (let ev = b_ev b;
          zoned = (m_zones m \<noteq> []);
          ev1 = (if zoned then
                   let e1 = (if is_zero (ev_StartedAt ev) \<or> m_start m < ev_StartedAt ev
                             then ev\<lparr>ev_StartedAt := m_start m\<rparr> else ev);
                       e2 = e1\<lparr>ev_Cameras := add_new (m_camera m) (ev_Cameras e1)\<rparr>
                   in if m_snapshot m \<and> ev_SourceID e2 = []
                      then e2\<lparr>ev_SourceID := m_source m, ev_HasSnapshot := True\<rparr> else e2
                 else ev);
          fin = (if is_zero (m_end m) then now else m_end m)
      in \<lparr>b_ev = ev1\<lparr>
            ev_SourceIDs := ev_SourceIDs ev1 @ [m_source m],
            ev_Spans := ev_Spans ev1
              @ [\<lparr>sp_Camera = m_camera m, sp_Label = m_label m, sp_Start = m_start m, sp_End = m_end m\<rparr>],
            ev_Objects := gm_set (m_label m)
              (max (count_of (ev_Objects ev1) (m_label m)) (concurrent overlap members m now))
              (ev_Objects ev1)\<rparr>,
          b_last = (if b_last b < fin then fin else b_last b),
          b_unzoned = (if zoned then b_unzoned b else add_new (m_camera m) (b_unzoned b)),
          b_snapshot = (if m_snapshot m \<and> b_snapshot b = [] then m_source m else b_snapshot b),
          b_clip = (b_clip b \<or> m_clip m)\<rparr>)"

definition build_start :: "incident \<Rightarrow> member \<Rightarrow> build_state" where
  "build_start inc first =
     \<lparr>b_ev = zero_event\<lparr>ev_ID := mint_id (''activity/'' @ m_source first), ev_Kind := KindActivity,
        ev_Path := inc_path inc, ev_Zones := inc_path inc\<rparr>,
      b_last = 0, b_unzoned = [], b_snapshot = [], b_clip = False\<rparr>"

text \<open>\<open>build\<close> after its loop.\<close>

definition build_finish :: "incident \<Rightarrow> member \<Rightarrow> bool \<Rightarrow> build_state \<Rightarrow> event option" where
  "build_finish inc first ended b =
     (let ev1 = (if is_zero (ev_StartedAt (b_ev b)) then (b_ev b)\<lparr>ev_StartedAt := inc_first inc\<rparr>
                 else b_ev b);
          ev2 = ev1\<lparr>ev_Cameras := fold add_new (b_unzoned b) (ev_Cameras ev1)\<rparr>;
          ev3 = (if ev_SourceID ev2 = [] \<and> b_snapshot b \<noteq> []
                 then ev2\<lparr>ev_SourceID := b_snapshot b, ev_HasSnapshot := True\<rparr> else ev2);
          ev4 = (if ev_SourceID ev3 = [] then ev3\<lparr>ev_SourceID := m_source first\<rparr> else ev3)
      in case ev_Cameras ev4 of
           [] \<Rightarrow> None
         | cam # _ \<Rightarrow>
             let ev5 = ev4\<lparr>ev_Camera := cam, ev_Label := primary_label (ev_Objects ev4)\<rparr>;
                 ev6 = (if ended then ev5\<lparr>ev_EndedAt := b_last b, ev_Boxes := inc_boxes inc\<rparr> else ev5)
             in Some (ev6\<lparr>ev_Clip :=
                  (if \<not> b_clip b then ClipNone else if ended then ClipFinal else ClipGrowing)\<rparr>))"

definition build :: "duration \<Rightarrow> incident \<Rightarrow> time \<Rightarrow> bool \<Rightarrow> event option" where
  "build overlap inc now ended =
     (case inc_members inc of
        [] \<Rightarrow> None
      | first # _ \<Rightarrow>
          build_finish inc first ended
            (fold (build_member overlap (inc_members inc) now) (inc_members inc) (build_start inc first)))"

definition same_activity :: "event \<Rightarrow> event \<Rightarrow> bool" where
  "same_activity a b \<longleftrightarrow>
     length (ev_Objects a) = length (ev_Objects b)
     \<and> list_all (\<lambda>(l, n). count_of (ev_Objects b) l = n) (ev_Objects a)
     \<and> ev_Path a = ev_Path b \<and> ev_Cameras a = ev_Cameras b \<and> ev_HasSnapshot a = ev_HasSnapshot b
     \<and> ev_Clip a = ev_Clip b \<and> ev_EndedAt a = ev_EndedAt b"

section \<open>Operations\<close>

definition emit :: "duration \<Rightarrow> time \<Rightarrow> incident \<Rightarrow> (incident \<times> change list) option" where
  "emit overlap now inc =
     (if inc_path inc = [] then Some (inc, [])
      else
        (case build overlap inc now False of
           None \<Rightarrow> None
         | Some next \<Rightarrow>
             if \<not> inc_sent inc then
               Some (inc\<lparr>inc_sent := True, inc_event := next\<rparr>, [Change OpStarted next])
             else if same_activity (inc_event inc) next then Some (inc, [])
             else Some (inc\<lparr>inc_event := next\<rparr>, [Change OpUpdated next])))"

definition close_incident :: "time \<Rightarrow> incident \<Rightarrow> incidents \<Rightarrow> (incidents \<times> change list) option" where
  "close_incident now inc e =
     (let closed1 = fold (\<lambda>i. gm_set i now) (gm_keys (inc_byID inc)) (in_closed e);
          closed2 = filter (\<lambda>(_, t). \<not> Hour < time_sub now t) closed1;
          e1 = e\<lparr>in_closed := closed2\<rparr>
      in if \<not> inc_sent inc then Some (e1, [])
         else case build (ic_Overlap (in_cfg e)) inc now True of
                None \<Rightarrow> None
              | Some ev \<Rightarrow> Some (e1, [Change OpEnded ev]))"

text \<open>The loop over the open incidents: those past their gap are closed, the others kept.\<close>

fun expire :: "time \<Rightarrow> incident list \<Rightarrow> incidents \<Rightarrow> (incident list \<times> incidents \<times> change list) option" where
  "expire now [] e = Some ([], e, [])"
| "expire now (inc # incs) e =
     (if ic_Gap (in_cfg e) \<le> time_sub now (inc_last inc) then
        (case close_incident now inc e of
           None \<Rightarrow> None
         | Some (e1, cs) \<Rightarrow>
             (case expire now incs e1 of
                None \<Rightarrow> None
              | Some (kept, e2, cs') \<Rightarrow> Some (kept, e2, cs @ cs')))
      else
        (case expire now incs e of
           None \<Rightarrow> None
         | Some (kept, e2, cs') \<Rightarrow> Some (inc # kept, e2, cs')))"

text \<open>The incident an object belongs to, opened when there is none; None for a stray end.\<close>

definition locate :: "incidents \<Rightarrow> object \<Rightarrow> msg_type \<Rightarrow> (incident list \<times> nat) option" where
  "locate e ob ty =
     (case find_index (\<lambda>inc. gm_get (inc_byID inc) (obj_ID ob) \<noteq> None) (in_open e) of
        Some i \<Rightarrow> Some (in_open e, i)
      | None \<Rightarrow>
          if ty = End then None
          else case find_index (\<lambda>inc. reachable e inc (obj_Camera ob)) (in_open e) of
                 Some i \<Rightarrow> Some (in_open e, i)
               | None \<Rightarrow> Some (in_open e @ [new_incident], length (in_open e)))"

definition find_member :: "time \<Rightarrow> object \<Rightarrow> incident \<Rightarrow> incident \<times> nat" where
  "find_member now ob inc =
     (case gm_get (inc_byID inc) (obj_ID ob) of
        Some i \<Rightarrow> (inc, i)
      | None \<Rightarrow>
          let started = seconds_time (obj_StartTime ob);
              m = \<lparr>m_source = obj_ID ob, m_camera = obj_Camera ob, m_label = obj_Label ob,
                   m_start = (if is_zero started then now else started), m_end = 0, m_zones = [],
                   m_snapshot = False, m_clip = False\<rparr>
          in (inc\<lparr>inc_members := inc_members inc @ [m],
                  inc_byID := gm_set (obj_ID ob) (length (inc_members inc)) (inc_byID inc),
                  inc_first := (if is_zero (inc_first inc) \<or> m_start m < inc_first inc
                                then m_start m else inc_first inc)\<rparr>,
              length (inc_members inc)))"

definition add_zones :: "string list \<Rightarrow> string list \<Rightarrow> string list" where
  "add_zones zs acc = fold (\<lambda>z acc. if z \<noteq> [] then add_new z acc else acc) zs acc"

definition update_member :: "time \<Rightarrow> msg_type \<Rightarrow> object \<Rightarrow> member \<Rightarrow> member" where
  "update_member now ty ob m =
     (let m1 = m\<lparr>m_snapshot := m_snapshot m \<or> obj_HasSnapshot ob, m_clip := m_clip m \<or> obj_HasClip ob,
                 m_zones := add_zones (obj_EnteredZones ob @ obj_CurrentZones ob) (m_zones m)\<rparr>
      in if ty = End then
           m1\<lparr>m_end := (let t = seconds_time (obj_EndTime ob) in if is_zero t then now else t)\<rparr>
         else m1)"

text \<open>\<open>Observe\<close> between the choice of the incident and \<open>emit\<close>.\<close>

definition absorb_object :: "time \<Rightarrow> msg_type \<Rightarrow> object \<Rightarrow> incident \<Rightarrow> incident" where
  "absorb_object now ty ob inc0 =
     (let (inc, i) = find_member now ob (inc0\<lparr>inc_last := now\<rparr>)
      in inc\<lparr>inc_members := (inc_members inc)[i := update_member now ty ob (inc_members inc ! i)],
             inc_path := add_zones (obj_EnteredZones ob @ obj_CurrentZones ob) (inc_path inc),
             inc_boxes := (if length (obj_Box ob) = 4
                           then add_box (obj_Camera ob) now (obj_Box ob) (inc_boxes inc)
                           else inc_boxes inc)\<rparr>)"

text \<open>\<open>Observe\<close> of a qualifying object.\<close>

definition observe_object :: "incidents \<Rightarrow> time \<Rightarrow> event_msg \<Rightarrow> (incidents \<times> change list) option" where
  "observe_object e now msg =
     (let ob = msg_after msg in
      if gm_get (in_closed e) (obj_ID ob) \<noteq> None then Some (e, [])
      else case locate e ob (msg_type msg) of
             None \<Rightarrow> Some (e, [])
           | Some (opens, i) \<Rightarrow>
               (case emit (ic_Overlap (in_cfg e)) now (absorb_object now (msg_type msg) ob (opens ! i)) of
                  None \<Rightarrow> None
                | Some (inc, cs) \<Rightarrow> Some (e\<lparr>in_open := opens[i := inc]\<rparr>, cs)))"

definition observe_rest ::
  "incidents \<Rightarrow> time \<Rightarrow> string \<Rightarrow> bytes \<Rightarrow> incidents \<times> change list" where
  "observe_rest e now topic payload =
     (let (p, cs) = passthrough_observe (in_rest e) now topic payload in (e\<lparr>in_rest := p\<rparr>, cs))"

definition incidents_observe :: "incidents observer" where
  "incidents_observe e0 now topic payload =
     (case expire now (in_open e0) e0 of
        None \<Rightarrow> None
      | Some (kept, e1, cs) \<Rightarrow>
          let e = e1\<lparr>in_open := kept\<rparr> in
          if top_kind (parse_topic topic) \<noteq> KindEvents then Some (e, cs)
          else
            (case parse_event payload of
               Inl _ \<Rightarrow> (let (e', cs') = observe_rest e now topic payload in Some (e', cs @ cs'))
             | Inr msg \<Rightarrow>
                 if obj_FalsePositive (msg_after msg) \<or> obj_Label (msg_after msg) \<notin> set (in_labels e) then
                   (let (e', cs') = observe_rest e now topic payload in Some (e', cs @ cs'))
                 else
                   (case observe_object e now msg of
                      None \<Rightarrow> None
                    | Some (e', cs') \<Rightarrow> Some (e', cs @ cs'))))"

section \<open>What the loop of build computes\<close>

lemma build_member_simps [simp]:
  "ev_ID (b_ev (build_member d ms now m b)) = ev_ID (b_ev b)"
  "ev_Kind (b_ev (build_member d ms now m b)) = ev_Kind (b_ev b)"
  "ev_Path (b_ev (build_member d ms now m b)) = ev_Path (b_ev b)"
  "ev_Zones (b_ev (build_member d ms now m b)) = ev_Zones (b_ev b)"
  "ev_Quiet (b_ev (build_member d ms now m b)) = ev_Quiet (b_ev b)"
  "ev_EndedAt (b_ev (build_member d ms now m b)) = ev_EndedAt (b_ev b)"
  "ev_SourceIDs (b_ev (build_member d ms now m b)) = ev_SourceIDs (b_ev b) @ [m_source m]"
  "ev_StartedAt (b_ev (build_member d ms now m b)) =
     (if m_zones m \<noteq> [] \<and> (ev_StartedAt (b_ev b) = 0 \<or> m_start m < ev_StartedAt (b_ev b))
      then m_start m else ev_StartedAt (b_ev b))"
  "ev_Cameras (b_ev (build_member d ms now m b)) =
     (if m_zones m \<noteq> [] then add_new (m_camera m) (ev_Cameras (b_ev b)) else ev_Cameras (b_ev b))"
  "ev_Objects (b_ev (build_member d ms now m b)) =
     gm_set (m_label m) (max (count_of (ev_Objects (b_ev b)) (m_label m)) (concurrent d ms m now))
       (ev_Objects (b_ev b))"
  "b_unzoned (build_member d ms now m b) =
     (if m_zones m \<noteq> [] then b_unzoned b else add_new (m_camera m) (b_unzoned b))"
  "b_clip (build_member d ms now m b) \<longleftrightarrow> b_clip b \<or> m_clip m"
  by (simp_all add: build_member_def Let_def)

abbreviation build_fold :: "duration \<Rightarrow> member list \<Rightarrow> time \<Rightarrow> member list \<Rightarrow> build_state \<Rightarrow> build_state" where
  "build_fold d ms now xs b \<equiv> fold (build_member d ms now) xs b"

lemma build_fold_frame [simp]:
  "ev_ID (b_ev (build_fold d ms now xs b)) = ev_ID (b_ev b)"
  "ev_Kind (b_ev (build_fold d ms now xs b)) = ev_Kind (b_ev b)"
  "ev_Path (b_ev (build_fold d ms now xs b)) = ev_Path (b_ev b)"
  "ev_Zones (b_ev (build_fold d ms now xs b)) = ev_Zones (b_ev b)"
  "ev_Quiet (b_ev (build_fold d ms now xs b)) = ev_Quiet (b_ev b)"
  "ev_EndedAt (b_ev (build_fold d ms now xs b)) = ev_EndedAt (b_ev b)"
  "ev_SourceIDs (b_ev (build_fold d ms now xs b)) = ev_SourceIDs (b_ev b) @ map m_source xs"
  by (induction xs arbitrary: b) simp_all

lemma build_fold_cameras:
  "set (ev_Cameras (b_ev (build_fold d ms now xs b)))
     = set (ev_Cameras (b_ev b)) \<union> m_camera ` {m \<in> set xs. m_zones m \<noteq> []}"
  "set (b_unzoned (build_fold d ms now xs b))
     = set (b_unzoned b) \<union> m_camera ` {m \<in> set xs. m_zones m = []}"
  "distinct (ev_Cameras (b_ev (build_fold d ms now xs b))) \<longleftrightarrow> distinct (ev_Cameras (b_ev b))"
  by (induction xs arbitrary: b) auto

lemma build_fold_started:
  assumes "\<forall>m \<in> set xs. m_start m \<noteq> 0"
  shows "ev_StartedAt (b_ev (build_fold d ms now xs b)) = 0 \<longleftrightarrow>
      ev_StartedAt (b_ev b) = 0 \<and> (\<forall>m \<in> set xs. m_zones m = [])"
    and "\<forall>m \<in> set xs. m_zones m \<noteq> [] \<longrightarrow> ev_StartedAt (b_ev (build_fold d ms now xs b)) \<le> m_start m"
    and "ev_StartedAt (b_ev (build_fold d ms now xs b)) = ev_StartedAt (b_ev b)
      \<or> (\<exists>m \<in> set xs. m_zones m \<noteq> [] \<and> ev_StartedAt (b_ev (build_fold d ms now xs b)) = m_start m)"
    and "ev_StartedAt (b_ev b) = 0 \<or> ev_StartedAt (b_ev (build_fold d ms now xs b)) \<le> ev_StartedAt (b_ev b)"
proof -
  have "(ev_StartedAt (b_ev (build_fold d ms now xs b)) = 0 \<longleftrightarrow>
      ev_StartedAt (b_ev b) = 0 \<and> (\<forall>m \<in> set xs. m_zones m = []))
    \<and> (\<forall>m \<in> set xs. m_zones m \<noteq> [] \<longrightarrow> ev_StartedAt (b_ev (build_fold d ms now xs b)) \<le> m_start m)
    \<and> (ev_StartedAt (b_ev (build_fold d ms now xs b)) = ev_StartedAt (b_ev b)
      \<or> (\<exists>m \<in> set xs. m_zones m \<noteq> [] \<and> ev_StartedAt (b_ev (build_fold d ms now xs b)) = m_start m))
    \<and> (ev_StartedAt (b_ev b) = 0 \<or> ev_StartedAt (b_ev (build_fold d ms now xs b)) \<le> ev_StartedAt (b_ev b))"
    using assms
  proof (induction xs arbitrary: b)
    case (Cons m xs)
    have "m_start m \<noteq> 0" "\<forall>m \<in> set xs. m_start m \<noteq> 0" using Cons.prems by simp_all
    with Cons.IH [of "build_member d ms now m b"] show ?case
      by (auto split: if_splits)
  qed simp
  then show
    "ev_StartedAt (b_ev (build_fold d ms now xs b)) = 0 \<longleftrightarrow>
      ev_StartedAt (b_ev b) = 0 \<and> (\<forall>m \<in> set xs. m_zones m = [])"
    "\<forall>m \<in> set xs. m_zones m \<noteq> [] \<longrightarrow> ev_StartedAt (b_ev (build_fold d ms now xs b)) \<le> m_start m"
    "ev_StartedAt (b_ev (build_fold d ms now xs b)) = ev_StartedAt (b_ev b)
      \<or> (\<exists>m \<in> set xs. m_zones m \<noteq> [] \<and> ev_StartedAt (b_ev (build_fold d ms now xs b)) = m_start m)"
    "ev_StartedAt (b_ev b) = 0 \<or> ev_StartedAt (b_ev (build_fold d ms now xs b)) \<le> ev_StartedAt (b_ev b)"
    by simp_all
qed

lemma concurrent_pos: "1 \<le> concurrent d ms m now"
  by (simp add: concurrent_def Let_def)

lemma build_fold_objects:
  fixes l :: string
  defines "n b \<equiv> count_of (ev_Objects (b_ev b)) l"
  shows "gm_wf (ev_Objects (b_ev b)) \<Longrightarrow> gm_wf (ev_Objects (b_ev (build_fold d ms now xs b)))"
    and "set (gm_keys (ev_Objects (b_ev (build_fold d ms now xs b))))
      = set (gm_keys (ev_Objects (b_ev b))) \<union> m_label ` set xs"
    and "n b \<le> n (build_fold d ms now xs b)"
    and "\<forall>m \<in> set xs. m_label m = l \<longrightarrow> concurrent d ms m now \<le> n (build_fold d ms now xs b)"
    and "n (build_fold d ms now xs b) = n b
      \<or> (\<exists>m \<in> set xs. m_label m = l \<and> n (build_fold d ms now xs b) = concurrent d ms m now)"
proof -
  show "gm_wf (ev_Objects (b_ev b)) \<Longrightarrow> gm_wf (ev_Objects (b_ev (build_fold d ms now xs b)))"
    by (induction xs arbitrary: b) (simp_all add: gm_wf_set)
  show "set (gm_keys (ev_Objects (b_ev (build_fold d ms now xs b))))
      = set (gm_keys (ev_Objects (b_ev b))) \<union> m_label ` set xs"
    by (induction xs arbitrary: b) (simp_all only: fold_simps build_member_simps gm_keys_set, auto)
  have step: "n (build_member d ms now m b) = (if m_label m = l then max (n b) (concurrent d ms m now) else n b)" for m b
    by (simp add: n_def count_of_def)
  have "n b \<le> n (build_fold d ms now xs b)
    \<and> (\<forall>m \<in> set xs. m_label m = l \<longrightarrow> concurrent d ms m now \<le> n (build_fold d ms now xs b))
    \<and> (n (build_fold d ms now xs b) = n b
      \<or> (\<exists>m \<in> set xs. m_label m = l \<and> n (build_fold d ms now xs b) = concurrent d ms m now))"
  proof (induction xs arbitrary: b)
    case (Cons m xs)
    from Cons.IH [of "build_member d ms now m b"] step [of m b] show ?case
      by (auto simp: max_def split: if_splits)
  qed simp
  then show "n b \<le> n (build_fold d ms now xs b)"
    "\<forall>m \<in> set xs. m_label m = l \<longrightarrow> concurrent d ms m now \<le> n (build_fold d ms now xs b)"
    "n (build_fold d ms now xs b) = n b
      \<or> (\<exists>m \<in> set xs. m_label m = l \<and> n (build_fold d ms now xs b) = concurrent d ms m now)"
    by simp_all
qed

section \<open>Concurrency\<close>

text \<open>The members counted with an anchor, and the reference: a set that shares a stretch.\<close>

definition with_anchor :: "duration \<Rightarrow> time \<Rightarrow> member \<Rightarrow> member \<Rightarrow> bool" where
  "with_anchor d now m ob \<longleftrightarrow> m_camera ob = m_camera m \<and> m_label ob = m_label m \<and> m_start ob \<le> m_start m
     \<and> m_start m + d \<le> live_end ob now"

definition together :: "duration \<Rightarrow> time \<Rightarrow> member list \<Rightarrow> string \<Rightarrow> nat set \<Rightarrow> bool" where
  "together d now ms l S \<longleftrightarrow> S \<subseteq> {..<length ms} \<and>
     (\<exists>cam t. \<forall>i \<in> S. m_camera (ms ! i) = cam \<and> m_label (ms ! i) = l
        \<and> m_start (ms ! i) \<le> t \<and> t + d \<le> live_end (ms ! i) now)"

lemma concurrent_eq:
  "concurrent d ms m now =
     (if live_end m now < m_start m + d then 1
      else max (int (card {i. i < length ms \<and> with_anchor d now m (ms ! i)})) 1)"
proof -
  have "fold (\<lambda>ob n.
      if m_camera ob \<noteq> m_camera m \<or> m_label ob \<noteq> m_label m \<or> m_start m < m_start ob then n
      else if \<not> live_end ob now < m_start m + d then n + 1 else n) ms (n :: int)
    = n + int (length (filter (with_anchor d now m) ms))" for n
    by (induction ms arbitrary: n) (auto simp: with_anchor_def)
  then show ?thesis
    by (simp add: concurrent_def Let_def length_filter_conv_card)
qed

lemma concurrent_sound:
  assumes "m \<in> set ms"
  shows "concurrent d ms m now = 1
    \<or> (\<exists>S. together d now ms (m_label m) S \<and> concurrent d ms m now = int (card S))"
proof (cases "concurrent d ms m now = 1")
  case False
  let ?S = "{i. i < length ms \<and> with_anchor d now m (ms ! i)}"
  from False have "concurrent d ms m now = int (card ?S)"
    by (auto simp: concurrent_eq max_def split: if_splits)
  moreover have "together d now ms (m_label m) ?S"
    unfolding together_def with_anchor_def by blast
  ultimately show ?thesis by blast
qed simp

lemma concurrent_complete:
  assumes "together d now ms l S" and "S \<noteq> {}"
  shows "\<exists>m \<in> set ms. m_label m = l \<and> int (card S) \<le> concurrent d ms m now"
proof -
  from assms(1) obtain cam t where S: "S \<subseteq> {..<length ms}" and
    all: "\<And>i. i \<in> S \<Longrightarrow> m_camera (ms ! i) = cam \<and> m_label (ms ! i) = l
        \<and> m_start (ms ! i) \<le> t \<and> t + d \<le> live_end (ms ! i) now"
    unfolding together_def by blast
  have fin: "finite S" using S finite_subset by blast
  let ?start = "\<lambda>i. m_start (ms ! i)"
  from fin assms(2) have "Max (?start ` S) \<in> ?start ` S" by (intro Max_in) simp_all
  then obtain i where i1: "i \<in> S" "Max (?start ` S) = ?start i" by blast
  have i2: "m_start (ms ! j) \<le> m_start (ms ! i)" if "j \<in> S" for j
    using that fin i1(2) Max_ge [of "?start ` S" "?start j"] by simp
  note i = i1(1) i2
  let ?m = "ms ! i"
  have "with_anchor d now ?m (ms ! j)" if "j \<in> S" for j
    unfolding with_anchor_def using all [OF that] all [OF i(1)] i(2) [OF that] by simp
  then have "S \<subseteq> {j. j < length ms \<and> with_anchor d now ?m (ms ! j)}" using S by blast
  then have "card S \<le> card {j. j < length ms \<and> with_anchor d now ?m (ms ! j)}"
    by (intro card_mono) auto
  moreover have "\<not> live_end ?m now < m_start ?m + d" using all [OF i(1)] by simp
  ultimately have "int (card S) \<le> concurrent d ms ?m now" by (simp add: concurrent_eq)
  moreover have "?m \<in> set ms" "m_label ?m = l" using S i(1) all by auto
  ultimately show ?thesis by blast
qed

section \<open>The event build returns\<close>

lemma build_start_simps [simp]:
  "ev_ID (b_ev (build_start inc m)) = mint_id (''activity/'' @ m_source m)"
  "ev_Kind (b_ev (build_start inc m)) = KindActivity" "ev_Path (b_ev (build_start inc m)) = inc_path inc"
  "ev_Zones (b_ev (build_start inc m)) = inc_path inc" "ev_Quiet (b_ev (build_start inc m)) = False"
  "ev_StartedAt (b_ev (build_start inc m)) = 0" "ev_EndedAt (b_ev (build_start inc m)) = 0"
  "ev_Cameras (b_ev (build_start inc m)) = []" "ev_SourceIDs (b_ev (build_start inc m)) = []"
  "ev_Objects (b_ev (build_start inc m)) = []" "b_unzoned (build_start inc m) = []"
  by (simp_all add: build_start_def zero_event_def)

lemma build_finish_cases:
  assumes "fold add_new (b_unzoned b) (ev_Cameras (b_ev b)) = cam # cams"
  shows "\<exists>ev. build_finish inc first ended b = Some ev
    \<and> ev_ID ev = ev_ID (b_ev b) \<and> ev_Kind ev = ev_Kind (b_ev b) \<and> ev_Quiet ev = ev_Quiet (b_ev b)
    \<and> ev_Path ev = ev_Path (b_ev b) \<and> ev_Zones ev = ev_Zones (b_ev b)
    \<and> ev_SourceIDs ev = ev_SourceIDs (b_ev b)
    \<and> ev_Objects ev = ev_Objects (b_ev b) \<and> ev_Label ev = primary_label (ev_Objects (b_ev b))
    \<and> ev_StartedAt ev = (if ev_StartedAt (b_ev b) = 0 then inc_first inc else ev_StartedAt (b_ev b))
    \<and> ev_Cameras ev = cam # cams \<and> ev_Camera ev = cam \<and> ev_Clip ev \<noteq> ClipUnknown
    \<and> ev_EndedAt ev = (if ended then b_last b else ev_EndedAt (b_ev b))
    \<and> ev_Boxes ev = (if ended then inc_boxes inc else ev_Boxes (b_ev b))"
  using assms by (simp add: build_finish_def Let_def)

definition build_loop :: "duration \<Rightarrow> incident \<Rightarrow> time \<Rightarrow> build_state" where
  "build_loop d inc now =
     build_fold d (inc_members inc) now (inc_members inc) (build_start inc (hd (inc_members inc)))"

lemma build_cases:
  fixes d now
  assumes "inc_members inc \<noteq> []"
  defines "b \<equiv> build_loop d inc now"
  shows "\<exists>ev. build d inc now ended = Some ev
    \<and> ev_ID ev = mint_id (''activity/'' @ m_source (hd (inc_members inc)))
    \<and> ev_Kind ev = KindActivity \<and> ev_Quiet ev = False
    \<and> ev_Path ev = inc_path inc \<and> ev_Zones ev = inc_path inc
    \<and> ev_SourceIDs ev = map m_source (inc_members inc)
    \<and> ev_Objects ev = ev_Objects (b_ev b) \<and> ev_Label ev = primary_label (ev_Objects (b_ev b))
    \<and> ev_StartedAt ev = (if ev_StartedAt (b_ev b) = 0 then inc_first inc else ev_StartedAt (b_ev b))
    \<and> ev_Cameras ev = fold add_new (b_unzoned b) (ev_Cameras (b_ev b))
    \<and> ev_Camera ev = hd (ev_Cameras ev) \<and> ev_Cameras ev \<noteq> [] \<and> ev_Clip ev \<noteq> ClipUnknown
    \<and> ev_EndedAt ev = (if ended then b_last b else 0)"
proof -
  have "set (fold add_new (b_unzoned b) (ev_Cameras (b_ev b))) = m_camera ` set (inc_members inc)"
    unfolding fold_add_new_set b_def build_loop_def build_fold_cameras by auto
  with assms(1) have "fold add_new (b_unzoned b) (ev_Cameras (b_ev b)) \<noteq> []" by auto
  then obtain cam cams where cams: "fold add_new (b_unzoned b) (ev_Cameras (b_ev b)) = cam # cams"
    by (cases "fold add_new (b_unzoned b) (ev_Cameras (b_ev b))") auto
  have frame: "ev_ID (b_ev b) = mint_id (''activity/'' @ m_source (hd (inc_members inc)))"
    "ev_Kind (b_ev b) = KindActivity" "ev_Quiet (b_ev b) = False" "ev_Path (b_ev b) = inc_path inc"
    "ev_Zones (b_ev b) = inc_path inc" "ev_SourceIDs (b_ev b) = map m_source (inc_members inc)"
    "ev_EndedAt (b_ev b) = 0"
    by (simp_all add: b_def build_loop_def)
  have "build d inc now ended = build_finish inc (hd (inc_members inc)) ended b"
    using assms(1) by (cases "inc_members inc") (simp_all add: build_def b_def build_loop_def)
  with build_finish_cases [OF cams, of inc "hd (inc_members inc)" ended] frame cams
  show ?thesis by (metis list.sel(1) list.simps(3))
qed

lemma build_spec:
  assumes "build d inc now ended = Some ev" and "inc_members inc \<noteq> []" and "\<forall>m \<in> set (inc_members inc). m_start m \<noteq> 0"
  shows "set (ev_Cameras ev) = m_camera ` set (inc_members inc)" and "distinct (ev_Cameras ev)"
    and "ev_Camera ev = hd (ev_Cameras ev)"
    and "ev_SourceIDs ev = map m_source (inc_members inc)"
    and "ev_ID ev = mint_id (''activity/'' @ m_source (hd (inc_members inc)))"
    and "ev_Kind ev = KindActivity" and "ev_Clip ev \<noteq> ClipUnknown"
    and "\<exists>m \<in> set (inc_members inc). m_zones m \<noteq> [] \<Longrightarrow> ev_StartedAt ev \<noteq> 0"
    and "\<exists>m \<in> set (inc_members inc). m_zones m \<noteq> [] \<Longrightarrow>
      ev_StartedAt ev = Min (m_start ` {m \<in> set (inc_members inc). m_zones m \<noteq> []})"
    and "ev_Objects ev = ev_Objects (b_ev (build_loop d inc now))"
proof -
  define b where "b = build_loop d inc now"
  from build_cases [OF assms(2), of d now ended] assms(1) have ev:
    "ev_ID ev = mint_id (''activity/'' @ m_source (hd (inc_members inc)))" "ev_Kind ev = KindActivity"
    "ev_SourceIDs ev = map m_source (inc_members inc)" "ev_Objects ev = ev_Objects (b_ev b)"
    "ev_StartedAt ev = (if ev_StartedAt (b_ev b) = 0 then inc_first inc else ev_StartedAt (b_ev b))"
    "ev_Cameras ev = fold add_new (b_unzoned b) (ev_Cameras (b_ev b))"
    "ev_Camera ev = hd (ev_Cameras ev)" "ev_Clip ev \<noteq> ClipUnknown"
    unfolding b_def by simp_all
  show "set (ev_Cameras ev) = m_camera ` set (inc_members inc)"
    unfolding ev fold_add_new_set b_def build_loop_def build_fold_cameras by auto
  show "distinct (ev_Cameras ev)"
    unfolding ev fold_add_new_distinct b_def build_loop_def build_fold_cameras by simp
  show "ev_ID ev = mint_id (''activity/'' @ m_source (hd (inc_members inc)))" "ev_Camera ev = hd (ev_Cameras ev)" "ev_SourceIDs ev = map m_source (inc_members inc)"
    "ev_Kind ev = KindActivity" "ev_Clip ev \<noteq> ClipUnknown" by fact+
  show "ev_Objects ev = ev_Objects (b_ev (build_loop d inc now))"
    by (simp add: ev b_def)
  assume zoned: "\<exists>m \<in> set (inc_members inc). m_zones m \<noteq> []"
  note st = build_fold_started [OF assms(3), where d = d and ms = "inc_members inc" and now = now
      and b = "build_start inc (hd (inc_members inc))", folded build_loop_def, folded b_def]
  from st(1) zoned have nz: "ev_StartedAt (b_ev b) \<noteq> 0" by simp
  then show "ev_StartedAt ev \<noteq> 0" by (simp add: ev)
  have "ev_StartedAt (b_ev b) \<in> m_start ` {m \<in> set (inc_members inc). m_zones m \<noteq> []}"
    using st(3) nz by auto
  moreover have "\<forall>y \<in> m_start ` {m \<in> set (inc_members inc). m_zones m \<noteq> []}. ev_StartedAt (b_ev b) \<le> y"
    using st(2) by auto
  ultimately have "Min (m_start ` {m \<in> set (inc_members inc). m_zones m \<noteq> []}) = ev_StartedAt (b_ev b)"
    by (intro Min_eqI) auto
  with nz show "ev_StartedAt ev = Min (m_start ` {m \<in> set (inc_members inc). m_zones m \<noteq> []})"
    by (simp add: ev)
qed

text \<open>
  C4. The number of objects an activity reports for a label is exactly the size of the largest set
  of members with that label which one camera had on screen together for the whole of \<open>Overlap\<close>
  (and one when no two were): never an overcount from a chain of overlaps or a split track, never
  an undercount.
\<close>

theorem objects_largest_together:
  assumes "build d inc now ended = Some ev" and "\<forall>m \<in> set (inc_members inc). m_start m \<noteq> 0"
    and "l \<in> m_label ` set (inc_members inc)"
  shows "(\<forall>S. together d now (inc_members inc) l S \<longrightarrow> int (card S) \<le> count_of (ev_Objects ev) l)
    \<and> (count_of (ev_Objects ev) l = 1
       \<or> (\<exists>S. together d now (inc_members inc) l S \<and> count_of (ev_Objects ev) l = int (card S)))
    \<and> 1 \<le> count_of (ev_Objects ev) l"
proof -
  let ?ms = "inc_members inc"
  have ne: "?ms \<noteq> []" using assms(3) by auto
  have ob: "ev_Objects ev = ev_Objects (b_ev (build_loop d inc now))"
    by (rule build_spec(10) [OF assms(1) ne assms(2)])
  let ?n = "count_of (ev_Objects ev) l"
  note fold = build_fold_objects(4,5) [where xs = ?ms and l = l and d = d and ms = ?ms and now = now
      and b = "build_start inc (hd ?ms)", folded build_loop_def, folded ob]
  have ge: "concurrent d ?ms m now \<le> ?n" if "m \<in> set ?ms" "m_label m = l" for m
    using fold(1) that by blast
  have one: "1 \<le> ?n"
  proof -
    from assms(3) obtain m where "m \<in> set ?ms" "m_label m = l" by blast
    with ge concurrent_pos [of d ?ms m now] show ?thesis by fastforce
  qed
  moreover have "int (card S) \<le> ?n" if S: "together d now ?ms l S" for S
  proof (cases "S = {}")
    case False
    from concurrent_complete [OF S False] ge show ?thesis by fastforce
  qed (use one in simp)
  moreover have "?n = 1 \<or> (\<exists>S. together d now ?ms l S \<and> ?n = int (card S))"
  proof -
    from fold(2) one obtain m where "m \<in> set ?ms" "m_label m = l" "?n = concurrent d ?ms m now"
      by (auto simp: count_of_def)
    with concurrent_sound [of m ?ms d now] show ?thesis by auto
  qed
  ultimately show ?thesis by blast
qed

section \<open>Invariant\<close>

abbreviation sources :: "incident \<Rightarrow> string list" where
  "sources inc \<equiv> map m_source (inc_members inc)"

abbreviation first_source :: "incident \<Rightarrow> string" where
  "first_source inc \<equiv> m_source (hd (inc_members inc))"

text \<open>An incident before its first member has joined, and after.\<close>

definition incident_ok :: "incident \<Rightarrow> bool" where
  "incident_ok inc \<longleftrightarrow>
     (\<forall>k i. gm_get (inc_byID inc) k = Some i \<longleftrightarrow> i < length (inc_members inc) \<and> sources inc ! i = k)
     \<and> (\<forall>m \<in> set (inc_members inc). m_start m \<noteq> 0)
     \<and> (inc_path inc = [] \<or> (\<exists>m \<in> set (inc_members inc). m_zones m \<noteq> []))
     \<and> length (inc_boxes inc) \<le> max_box_samples
     \<and> (inc_sent inc \<longrightarrow> inc_path inc \<noteq> [])"

definition incident_inv :: "incident \<Rightarrow> bool" where
  "incident_inv inc \<longleftrightarrow> incident_ok inc \<and> inc_members inc \<noteq> []"

definition incidents_inv :: "incidents \<Rightarrow> bool" where
  "incidents_inv e \<longleftrightarrow>
     (\<forall>inc \<in> set (in_open e). incident_inv inc) \<and> distinct (concat (map sources (in_open e)))
     \<and> passthrough_inv (in_rest e) \<and> gm_wf (in_closed e)"

lemma incident_ok_new: "incident_ok new_incident"
  by (simp add: incident_ok_def new_incident_def max_box_samples_def)

lemma incidents_inv_new: "incidents_inv (new_incidents cfg)"
  by (simp add: incidents_inv_def new_incidents_def passthrough_inv_def new_passthrough_def Let_def)

lemma byID_member: "incident_ok inc \<Longrightarrow> gm_get (inc_byID inc) k \<noteq> None \<longleftrightarrow> k \<in> set (sources inc)"
proof -
  assume "incident_ok inc"
  then have "gm_get (inc_byID inc) k \<noteq> None \<longleftrightarrow> (\<exists>i < length (sources inc). sources inc ! i = k)"
    by (auto simp: incident_ok_def)
  then show ?thesis unfolding in_set_conv_nth by auto
qed

section \<open>One incident in one message\<close>

lemma add_zones_eq: "add_zones zs acc = fold add_new (filter (\<lambda>z. z \<noteq> []) zs) acc"
  by (induction zs arbitrary: acc) (simp_all add: add_zones_def)

lemma add_zones_nil: "add_zones zs acc = [] \<longleftrightarrow> acc = [] \<and> (\<forall>z \<in> set zs. z = [])"
proof -
  have "set (add_zones zs acc) = {z \<in> set zs. z \<noteq> []} \<union> set acc"
    by (simp add: add_zones_eq fold_add_new_set)
  then have "set (add_zones zs acc) = {} \<longleftrightarrow> set acc = {} \<and> (\<forall>z \<in> set zs. z = [])" by auto
  then show ?thesis by (simp only: set_empty)
qed

lemma length_every_second: "length (every_second xs) = (length xs + 1) div 2"
  by (induction xs rule: every_second.induct) simp_all

lemma length_add_box:
  assumes "length boxes \<le> max_box_samples"
  shows "length (add_box camera now box boxes) \<le> max_box_samples"
  using assms by (simp add: add_box_def Let_def length_every_second max_box_samples_def)

lemma update_member_simps [simp]:
  "m_source (update_member now ty ob m) = m_source m" "m_camera (update_member now ty ob m) = m_camera m"
  "m_label (update_member now ty ob m) = m_label m" "m_start (update_member now ty ob m) = m_start m"
  "m_zones (update_member now ty ob m) = add_zones (obj_EnteredZones ob @ obj_CurrentZones ob) (m_zones m)"
  by (simp_all add: update_member_def Let_def)

lemma find_member_spec:
  assumes "incident_ok inc" and "0 < now" and "find_member now ob inc = (inc', i)"
  shows "incident_ok inc'" and "i < length (inc_members inc')" and "sources inc' ! i = obj_ID ob"
    and "sources inc' = (if obj_ID ob \<in> set (sources inc) then sources inc else sources inc @ [obj_ID ob])"
    and "inc_sent inc' = inc_sent inc" and "inc_last inc' = inc_last inc" and "inc_path inc' = inc_path inc"
proof -
  have "incident_ok inc' \<and> i < length (inc_members inc') \<and> sources inc' ! i = obj_ID ob
    \<and> sources inc' = (if obj_ID ob \<in> set (sources inc) then sources inc else sources inc @ [obj_ID ob])
    \<and> inc_sent inc' = inc_sent inc \<and> inc_last inc' = inc_last inc \<and> inc_path inc' = inc_path inc"
  proof (cases "gm_get (inc_byID inc) (obj_ID ob)")
    case None
    with byID_member [OF assms(1), of "obj_ID ob"] have new: "obj_ID ob \<notin> set (sources inc)" by simp
    have fresh: "m_source (inc_members inc ! j) \<noteq> obj_ID ob" if "j < length (inc_members inc)" for j
      using new that by (metis length_map nth_map nth_mem)
    define m where "m = last (inc_members inc')"
    from None assms(2,3) have m: "m_source m = obj_ID ob" "m_start m \<noteq> 0" "m_zones m = []"
      and inc': "inc_members inc' = inc_members inc @ [m]" "i = length (inc_members inc)"
        "inc_byID inc' = gm_set (obj_ID ob) (length (inc_members inc)) (inc_byID inc)"
        "inc_path inc' = inc_path inc" "inc_sent inc' = inc_sent inc" "inc_boxes inc' = inc_boxes inc"
        "inc_last inc' = inc_last inc"
      by (auto simp: find_member_def Let_def m_def split: if_splits)
    have "gm_get (inc_byID inc') k = Some j \<longleftrightarrow> j < length (inc_members inc') \<and> sources inc' ! j = k" for k j
    proof (cases "k = obj_ID ob")
      case True
      then show ?thesis using m(1) fresh [of j] by (auto simp: inc' nth_append less_Suc_eq)
    next
      case False
      with assms(1) m(1) show ?thesis by (simp add: inc' incident_ok_def nth_append less_Suc_eq)
    qed
    with assms(1) m inc' new show ?thesis
      by (simp add: incident_ok_def nth_append)
  next
    case (Some j)
    with byID_member [OF assms(1), of "obj_ID ob"] have "obj_ID ob \<in> set (sources inc)" by simp
    with Some assms show ?thesis by (simp add: find_member_def incident_ok_def)
  qed
  then show "incident_ok inc'" and "i < length (inc_members inc')" and "sources inc' ! i = obj_ID ob"
    and "sources inc' = (if obj_ID ob \<in> set (sources inc) then sources inc else sources inc @ [obj_ID ob])"
    and "inc_sent inc' = inc_sent inc" and "inc_last inc' = inc_last inc" and "inc_path inc' = inc_path inc"
    by blast+
qed

lemma absorb_object_spec:
  fixes ty ob
  assumes "incident_ok inc0" and "0 < now"
  defines "inc \<equiv> absorb_object now ty ob inc0"
  shows "incident_inv inc"
    and "sources inc = (if obj_ID ob \<in> set (sources inc0) then sources inc0 else sources inc0 @ [obj_ID ob])"
    and "inc_sent inc = inc_sent inc0" and "inc_last inc = now"
    and "set (inc_path inc) = set (inc_path inc0) \<union> (set (obj_EnteredZones ob) \<union> set (obj_CurrentZones ob) - {[]})"
proof -
  obtain inc1 i where f: "find_member now ob (inc0\<lparr>inc_last := now\<rparr>) = (inc1, i)" by fastforce
  have "incident_ok (inc0\<lparr>inc_last := now\<rparr>)" using assms(1) by (simp add: incident_ok_def)
  note m = find_member_spec [OF this assms(2) f]
  let ?zs = "obj_EnteredZones ob @ obj_CurrentZones ob"
  define u where "u = update_member now ty ob (inc_members inc1 ! i)"
  have inc: "inc_members inc = (inc_members inc1)[i := u]" "inc_path inc = add_zones ?zs (inc_path inc1)"
    "inc_byID inc = inc_byID inc1" "inc_sent inc = inc_sent inc1" "inc_last inc = inc_last inc1"
    "inc_boxes inc = (if length (obj_Box ob) = 4 then add_box (obj_Camera ob) now (obj_Box ob) (inc_boxes inc1)
      else inc_boxes inc1)"
    by (simp_all add: inc_def absorb_object_def f u_def)
  have src: "sources inc = sources inc1"
    using m(2) by (simp add: inc u_def map_update list_update_same_conv)
  show "sources inc = (if obj_ID ob \<in> set (sources inc0) then sources inc0 else sources inc0 @ [obj_ID ob])"
    using src m(4) by simp
  show "inc_sent inc = inc_sent inc0" "inc_last inc = now" using inc m(5,6) by simp_all
  show "set (inc_path inc) = set (inc_path inc0) \<union> (set (obj_EnteredZones ob) \<union> set (obj_CurrentZones ob) - {[]})"
    using m(7) by (auto simp: inc add_zones_eq fold_add_new_set)
  have "length (inc_boxes inc) \<le> max_box_samples"
    using m(1) length_add_box by (simp add: inc incident_ok_def)
  moreover have "\<forall>m \<in> set (inc_members inc). m_start m \<noteq> 0"
  proof -
    have "m_start u \<noteq> 0" using m(1,2) by (simp add: u_def incident_ok_def)
    with m(1) show ?thesis using set_update_subset_insert [of "inc_members inc1" i u]
      unfolding inc incident_ok_def by blast
  qed
  moreover have "inc_path inc = [] \<or> (\<exists>m \<in> set (inc_members inc). m_zones m \<noteq> [])"
  proof (cases "inc_path inc1 = []")
    case True
    have u: "u \<in> set (inc_members inc)" using m(2) by (simp add: inc set_update_memI)
    show ?thesis
    proof (cases "m_zones u = []")
      case nil: True
      then have "\<forall>z \<in> set ?zs. z = []" unfolding u_def update_member_simps add_zones_nil by blast
      with True show ?thesis by (simp add: inc add_zones_nil)
    qed (use u in blast)
  next
    case False
    with m(1) obtain j where j: "j < length (inc_members inc1)" "m_zones (inc_members inc1 ! j) \<noteq> []"
      by (auto simp: incident_ok_def in_set_conv_nth)
    then have "m_zones ((inc_members inc) ! j) \<noteq> []"
      by (cases "i = j") (simp_all add: inc u_def add_zones_nil)
    moreover have "inc_members inc ! j \<in> set (inc_members inc)" using j(1) by (simp add: inc)
    ultimately show ?thesis by blast
  qed
  moreover have "inc_sent inc \<longrightarrow> inc_path inc \<noteq> []"
    using m(1) by (simp add: inc incident_ok_def add_zones_nil)
  moreover have "\<forall>k i. gm_get (inc_byID inc) k = Some i \<longleftrightarrow> i < length (inc_members inc) \<and> sources inc ! i = k"
    using m(1) unfolding src incident_ok_def inc(3) by (simp add: inc)
  moreover have "inc_members inc \<noteq> []" using m(2) by (auto simp: inc)
  ultimately show "incident_inv inc" by (simp add: incident_inv_def incident_ok_def)
qed

definition in_key :: "event \<Rightarrow> bool \<times> string" where
  "in_key ev = (if ev_Kind ev = KindActivity then (True, hd (ev_SourceIDs ev)) else (False, ev_SourceID ev))"

text \<open>An event built of an incident that touched a zone is well formed and keyed by the first source.\<close>

lemma build_ok:
  assumes "incident_inv inc" and "inc_path inc \<noteq> []"
  shows "\<exists>ev. build d inc now ended = Some ev \<and> change_ok (Change OpStarted ev)
    \<and> in_key ev = (True, first_source inc)"
proof -
  have ne: "inc_members inc \<noteq> []" and st: "\<forall>m \<in> set (inc_members inc). m_start m \<noteq> 0"
    and z: "\<exists>m \<in> set (inc_members inc). m_zones m \<noteq> []"
    using assms by (auto simp: incident_inv_def incident_ok_def)
  from build_cases [OF ne, of d now ended] obtain ev where ev: "build d inc now ended = Some ev" by blast
  note spec = build_spec [OF ev ne st]
  from spec(4) ne have "hd (ev_SourceIDs ev) = first_source inc" by (simp add: hd_map)
  with spec(5-7) spec(8) [OF z] ev show ?thesis by (simp add: change_ok_def in_key_def)
qed

lemma emit_spec:
  assumes "incident_inv inc"
  obtains inc' cs where "emit d now inc = Some (inc', cs)" and "incident_inv inc'"
    and "inc_members inc' = inc_members inc" and "inc_last inc' = inc_last inc"
    and "list_all change_ok cs" and "\<forall>c \<in> set cs. in_key (chg_event c) = (True, first_source inc)"
    and "life (inc_sent inc) (map chg_op cs) = Some (inc_sent inc')"
    and "inc_sent inc' \<longleftrightarrow> inc_path inc' \<noteq> []"
proof (cases "inc_path inc = []")
  case True
  with assms have "\<not> inc_sent inc" by (simp add: incident_inv_def incident_ok_def)
  with True assms show thesis by (intro that [of inc "[]"]) (simp_all add: emit_def)
next
  case False
  from build_ok [OF assms False, of d now False] obtain ev where
    ev: "build d inc now False = Some ev" "change_ok (Change OpStarted ev)"
    "in_key ev = (True, first_source inc)" by blast
  show thesis
  proof (cases "inc_sent inc")
    case False
    with ev assms \<open>inc_path inc \<noteq> []\<close> show thesis
      by (intro that [of "inc\<lparr>inc_sent := True, inc_event := ev\<rparr>" "[Change OpStarted ev]"])
        (simp_all add: emit_def incident_inv_def incident_ok_def)
  next
    case True
    show thesis
    proof (cases "same_activity (inc_event inc) ev")
      case same: True
      with True ev assms \<open>inc_path inc \<noteq> []\<close> show thesis
        by (intro that [of inc "[]"]) (simp_all add: emit_def)
    next
      case False
      with True ev assms \<open>inc_path inc \<noteq> []\<close> show thesis
        by (intro that [of "inc\<lparr>inc_event := ev\<rparr>" "[Change OpUpdated ev]"])
          (simp_all add: emit_def incident_inv_def incident_ok_def change_ok_def)
    qed
  qed
qed

section \<open>The engine\<close>

definition live_incs :: "incident list \<Rightarrow> string \<Rightarrow> bool" where
  "live_incs incs k \<longleftrightarrow> (\<exists>inc \<in> set incs. inc_sent inc \<and> first_source inc = k)"

definition in_live :: "incidents \<Rightarrow> bool \<times> string \<Rightarrow> bool" where
  "in_live e = (\<lambda>(activity, k). if activity then live_incs (in_open e) k else gm_get (pt_live (in_rest e)) k \<noteq> None)"

lemma first_source_in: "incident_inv inc \<Longrightarrow> first_source inc \<in> set (sources inc)"
  by (simp add: incident_inv_def)

lemma distinct_sources_Cons:
  assumes "distinct (concat (map sources (inc # incs)))" and "\<forall>i \<in> set (inc # incs). incident_inv i"
  shows "\<not> live_incs incs (first_source inc)"
  using assms first_source_in unfolding live_incs_def
  by (auto simp: disjoint_iff) (metis first_source_in imageI list.set_map)

text \<open>The ending half of a message: exactly the incidents past their gap go, each said to have ended.\<close>

definition past_gap :: "incidents \<Rightarrow> time \<Rightarrow> incident \<Rightarrow> bool" where
  "past_gap e now inc \<longleftrightarrow> ic_Gap (in_cfg e) \<le> time_sub now (inc_last inc)"

lemma close_incident_spec:
  assumes "incident_inv inc" and "gm_wf (in_closed e)"
  obtains closed cs where "close_incident now inc e = Some (e\<lparr>in_closed := closed\<rparr>, cs)"
    and "gm_wf closed" and "list_all change_ok cs"
    and "\<forall>c \<in> set cs. in_key (chg_event c) = (True, first_source inc)"
    and "map chg_op cs = (if inc_sent inc then [OpEnded] else [])"
proof -
  define closed where "closed = filter (\<lambda>(_, t). \<not> Hour < time_sub now t)
    (fold (\<lambda>i. gm_set i now) (gm_keys (inc_byID inc)) (in_closed e))"
  have "gm_wf (fold (\<lambda>i. gm_set i now) ks m)" if "gm_wf m" for ks and m :: "(string, time) gomap"
    using that by (induction ks arbitrary: m) (simp_all add: gm_wf_set)
  with assms(2) have wf: "gm_wf closed" unfolding closed_def by (intro gm_wf_filter) blast
  show thesis
  proof (cases "inc_sent inc")
    case False
    then show thesis
      by (intro that [of closed "[]"]) (simp_all add: close_incident_def closed_def [symmetric] wf Let_def)
  next
    case True
    with assms(1) have "inc_path inc \<noteq> []" by (simp add: incident_inv_def incident_ok_def)
    from build_ok [OF assms(1) this, of "ic_Overlap (in_cfg e)" now True] obtain ev where
      "build (ic_Overlap (in_cfg e)) inc now True = Some ev" "change_ok (Change OpStarted ev)"
      "in_key ev = (True, first_source inc)" by blast
    with True show thesis
      by (intro that [of closed "[Change OpEnded ev]"])
        (simp_all add: close_incident_def closed_def [symmetric] wf Let_def change_ok_def)
  qed
qed

definition ends :: "incidents \<Rightarrow> time \<Rightarrow> string \<Rightarrow> incident \<Rightarrow> bool" where
  "ends e now k inc \<longleftrightarrow> past_gap e now inc \<and> inc_sent inc \<and> first_source inc = k"

lemma expire_spec:
  assumes "\<forall>inc \<in> set incs. incident_inv inc" and "gm_wf (in_closed e)"
  shows "\<exists>closed cs. expire now incs e
      = Some (filter (\<lambda>inc. \<not> past_gap e now inc) incs, e\<lparr>in_closed := closed\<rparr>, cs)
    \<and> gm_wf closed \<and> list_all change_ok cs
    \<and> (\<forall>c \<in> set cs. fst (in_key (chg_event c)))
    \<and> (\<forall>k. ops_of in_key (True, k) cs = map (\<lambda>_. OpEnded) (filter (ends e now k) incs))"
  using assms
proof (induction incs arbitrary: e)
  case Nil
  have "e\<lparr>in_closed := in_closed e\<rparr> = e" by simp
  with Nil show ?case by (intro exI [of _ "in_closed e"] exI [of _ "[]"]) simp
next
  case (Cons inc incs)
  have inv: "incident_inv inc" "\<forall>inc \<in> set incs. incident_inv inc" using Cons.prems by simp_all
  let ?keep = "\<lambda>e inc. \<not> past_gap e now inc"
  show ?case
  proof (cases "past_gap e now inc")
    case True
    from close_incident_spec [OF inv(1) Cons.prems(2), of now] obtain c1 cs1 where
      1: "close_incident now inc e = Some (e\<lparr>in_closed := c1\<rparr>, cs1)" "gm_wf c1" "list_all change_ok cs1"
      "\<forall>c \<in> set cs1. in_key (chg_event c) = (True, first_source inc)"
      "map chg_op cs1 = (if inc_sent inc then [OpEnded] else [])" by blast
    have same: "?keep (e\<lparr>in_closed := c1\<rparr>) = ?keep e" "ends (e\<lparr>in_closed := c1\<rparr>) now = ends e now"
      by (simp_all add: past_gap_def ends_def fun_eq_iff)
    from Cons.IH [OF inv(2), of "e\<lparr>in_closed := c1\<rparr>"] 1(2) obtain c2 cs2 where
      2: "expire now incs (e\<lparr>in_closed := c1\<rparr>)
          = Some (filter (?keep e) incs, e\<lparr>in_closed := c2\<rparr>, cs2)" "gm_wf c2" "list_all change_ok cs2"
      "\<forall>c \<in> set cs2. fst (in_key (chg_event c))"
      "\<And>k. ops_of in_key (True, k) cs2 = map (\<lambda>_. OpEnded) (filter (ends e now k) incs)"
      unfolding same by auto
    have "ops_of in_key (True, k) cs1 = (if first_source inc = k then map chg_op cs1 else [])" for k
      using 1(4) by (auto simp: ops_of_def filter_id_conv filter_empty_conv)
    then have "ops_of in_key (True, k) (cs1 @ cs2)
        = map (\<lambda>_. OpEnded) (filter (ends e now k) (inc # incs))" for k
      using 2(5) True by (simp add: ends_def 1(5))
    moreover have "expire now (inc # incs) e = Some (filter (?keep e) (inc # incs), e\<lparr>in_closed := c2\<rparr>, cs1 @ cs2)"
      using True 1(1) 2(1) by (simp add: past_gap_def)
    ultimately show ?thesis using 1 2 by (intro exI [of _ c2] exI [of _ "cs1 @ cs2"]) auto
  next
    case False
    from Cons.IH [OF inv(2) Cons.prems(2)] obtain c2 cs2 where
      2: "expire now incs e = Some (filter (?keep e) incs, e\<lparr>in_closed := c2\<rparr>, cs2)" "gm_wf c2"
      "list_all change_ok cs2" "\<forall>c \<in> set cs2. fst (in_key (chg_event c))"
      "\<And>k. ops_of in_key (True, k) cs2 = map (\<lambda>_. OpEnded) (filter (ends e now k) incs)"
      by auto
    have "expire now (inc # incs) e = Some (filter (?keep e) (inc # incs), e\<lparr>in_closed := c2\<rparr>, cs2)"
      using False 2(1) by (simp add: past_gap_def)
    moreover have "filter (ends e now k) (inc # incs) = filter (ends e now k) incs" for k
      using False by (simp add: ends_def)
    ultimately show ?thesis using 2 by (intro exI [of _ c2] exI [of _ cs2]) simp
  qed
qed

lemma expire_life:
  assumes "\<forall>inc \<in> set incs. incident_inv inc" and "distinct (concat (map sources incs))"
  shows "life (live_incs incs k) (map (\<lambda>_. OpEnded) (filter (ends e now k) incs))
    = Some (live_incs (filter (\<lambda>inc. \<not> past_gap e now inc) incs) k)"
  using assms
proof (induction incs)
  case Nil
  then show ?case by (simp add: live_incs_def)
next
  case (Cons inc incs)
  note fresh = distinct_sources_Cons [OF Cons.prems(2,1)]
  from Cons have IH: "life (live_incs incs k) (map (\<lambda>_. OpEnded) (filter (ends e now k) incs))
    = Some (live_incs (filter (\<lambda>inc. \<not> past_gap e now inc) incs) k)" by simp
  show ?case
  proof (cases "inc_sent inc \<and> first_source inc = k")
    case True
    with fresh have none: "\<not> live_incs incs k" by simp
    then have "\<not> live_incs (filter (\<lambda>inc. \<not> past_gap e now inc) incs) k"
      and empty: "filter (ends e now k) incs = []"
      by (auto simp: live_incs_def ends_def filter_empty_conv)
    then have "live_incs (filter (\<lambda>inc. \<not> past_gap e now inc) (inc # incs)) k \<longleftrightarrow> \<not> past_gap e now inc"
      using True by (auto simp: live_incs_def)
    moreover have "filter (ends e now k) (inc # incs) = (if past_gap e now inc then [inc] else [])"
      using True empty by (simp add: ends_def [of _ _ _ inc])
    moreover have "live_incs (inc # incs) k" using True by (simp add: live_incs_def)
    ultimately show ?thesis by simp
  next
    case False
    then have "live_incs (inc # xs) k = live_incs xs k" "\<not> ends e now k inc" for xs
      by (auto simp: live_incs_def ends_def)
    with IH show ?thesis by simp
  qed
qed

text \<open>The other half: where an object goes, and what is then said of its incident.\<close>

lemma locate_spec:
  assumes "\<forall>inc \<in> set (in_open e). incident_inv inc" and "distinct (concat (map sources (in_open e)))"
    and "locate e ob ty = Some (opens, i)"
  shows "i < length opens" and "incident_ok (opens ! i)" and "distinct (concat (map sources opens))"
    and "\<And>j. j < length opens \<Longrightarrow> j \<noteq> i \<Longrightarrow> incident_inv (opens ! j) \<and> obj_ID ob \<notin> set (sources (opens ! j))"
    and "\<And>k. live_incs opens k = live_incs (in_open e) k"
proof -
  have member: "gm_get (inc_byID inc) (obj_ID ob) \<noteq> None \<longleftrightarrow> obj_ID ob \<in> set (sources inc)"
    if "inc \<in> set (in_open e)" for inc
    using byID_member [of inc] assms(1) that by (simp add: incident_inv_def)
  let ?has = "\<lambda>inc. gm_get (inc_byID inc) (obj_ID ob) \<noteq> None"
  have "i < length opens \<and> incident_ok (opens ! i) \<and> distinct (concat (map sources opens))
    \<and> (\<forall>j < length opens. j \<noteq> i \<longrightarrow> incident_inv (opens ! j) \<and> obj_ID ob \<notin> set (sources (opens ! j)))
    \<and> (\<forall>k. live_incs opens k = live_incs (in_open e) k)"
  proof (cases "find_index ?has (in_open e)")
    case (Some n)
    note n = find_index_Some [OF Some]
    from Some assms(3) have opens: "opens = in_open e" "i = n" by (simp_all add: locate_def)
    have "obj_ID ob \<in> set (sources (in_open e ! n))" using n member [of "in_open e ! n"] by simp
    moreover have "set (sources (in_open e ! n)) \<inter> set (sources (in_open e ! j)) = {}"
      if "j < length (in_open e)" "j \<noteq> n" for j
      using distinct_concat_disjoint [OF assms(2), of n j] n that by simp
    ultimately show ?thesis using n assms(1,2) by (auto simp: opens incident_inv_def)
  next
    case None
    with find_index_None [of ?has "in_open e"] member
    have none: "obj_ID ob \<notin> set (sources inc)" if "inc \<in> set (in_open e)" for inc using that by blast
    show ?thesis
    proof (cases "find_index (\<lambda>inc. reachable e inc (obj_Camera ob)) (in_open e)")
      case (Some n)
      note n = find_index_Some [OF Some]
      from None Some assms(3) have "opens = in_open e" "i = n" by (auto simp: locate_def split: if_splits)
      with n none assms(1,2) show ?thesis by (auto simp: incident_inv_def)
    next
      case none2: None
      from None none2 assms(3) have "opens = in_open e @ [new_incident]" "i = length (in_open e)"
        by (auto simp: locate_def split: if_splits)
      moreover have "inc_members new_incident = []" "inc_sent new_incident = False"
        by (simp_all add: new_incident_def)
      ultimately show ?thesis using none assms(1,2) incident_ok_new
        by (auto simp: nth_append less_Suc_eq live_incs_def)
    qed
  qed
  then show "i < length opens" and "incident_ok (opens ! i)" and "distinct (concat (map sources opens))"
    and "\<And>j. j < length opens \<Longrightarrow> j \<noteq> i \<Longrightarrow> incident_inv (opens ! j) \<and> obj_ID ob \<notin> set (sources (opens ! j))"
    and "\<And>k. live_incs opens k = live_incs (in_open e) k" by blast+
qed

lemma observe_object_spec:
  assumes "incidents_inv e" and "0 < now"
  obtains e' cs where "observe_object e now msg = Some (e', cs)" and "incidents_inv e'"
    and "list_all change_ok cs" and "\<forall>c \<in> set cs. fst (in_key (chg_event c))"
    and "\<And>k. life (live_incs (in_open e) k) (ops_of in_key (True, k) cs) = Some (live_incs (in_open e') k)"
    and "in_rest e' = in_rest e" and "in_cfg e' = in_cfg e" and "in_closed e' = in_closed e"
    and "\<forall>inc \<in> set (in_open e'). inc \<in> set (in_open e) \<or> inc_last inc = now"
proof (cases "gm_get (in_closed e) (obj_ID (msg_after msg)) \<noteq> None \<or> locate e (msg_after msg) (msg_type msg) = None")
  case True
  then have "observe_object e now msg = Some (e, [])" by (auto simp: observe_object_def Let_def)
  from that [OF this assms(1)] show thesis by simp
next
  case False
  define ob where "ob = msg_after msg"
  from False obtain opens i where loc: "locate e ob (msg_type msg) = Some (opens, i)"
    by (auto simp: ob_def)
  from assms(1) have inv: "\<forall>inc \<in> set (in_open e). incident_inv inc" "distinct (concat (map sources (in_open e)))"
    "passthrough_inv (in_rest e)" "gm_wf (in_closed e)" by (simp_all add: incidents_inv_def)
  note l = locate_spec [OF inv(1,2) loc]
  define inc1 where "inc1 = absorb_object now (msg_type msg) ob (opens ! i)"
  note a = absorb_object_spec [OF l(2) assms(2), of "msg_type msg" ob, folded inc1_def]
  obtain inc cs where
    em: "emit (ic_Overlap (in_cfg e)) now inc1 = Some (inc, cs)" "incident_inv inc"
    "inc_members inc = inc_members inc1" "inc_last inc = inc_last inc1" "list_all change_ok cs"
    "\<forall>c \<in> set cs. in_key (chg_event c) = (True, first_source inc1)"
    "life (inc_sent inc1) (map chg_op cs) = Some (inc_sent inc)"
    by (rule emit_spec [OF a(1), of "ic_Overlap (in_cfg e)" now])
  let ?opens = "opens[i := inc]"
  have obs: "observe_object e now msg = Some (e\<lparr>in_open := ?opens\<rparr>, cs)"
    using False loc em(1) by (simp add: observe_object_def Let_def ob_def [symmetric] inc1_def)
  have src: "sources inc = (if obj_ID ob \<in> set (sources (opens ! i)) then sources (opens ! i)
      else sources (opens ! i) @ [obj_ID ob])"
    using a(2) em(3) by simp
  have others: "set (sources inc) \<inter> set (sources (opens ! j)) = {}" if "j < length opens" "j \<noteq> i" for j
    using l(4) [OF that] distinct_concat_disjoint [OF l(3), of i j] l(1) that src by auto
  have dist_i: "distinct (sources (opens ! i))"
    using l(1,3) by (auto simp: distinct_concat_iff)
  have dist: "distinct (concat (map sources ?opens))"
    unfolding map_update
    by (rule distinct_concat_update [OF l(3)]) (use l(1) dist_i src others in auto)
  have all: "\<forall>x \<in> set ?opens. incident_inv x"
  proof
    fix x assume "x \<in> set ?opens"
    then obtain j where "j < length opens" "x = ?opens ! j" by (metis in_set_conv_nth length_list_update)
    then show "incident_inv x" using l(1,4) em(2) by (cases "j = i") auto
  qed
  have last: "\<forall>x \<in> set ?opens. x \<in> set (in_open e) \<or> inc_last x = now"
  proof
    fix x assume "x \<in> set ?opens"
    then obtain j where j: "j < length opens" "x = ?opens ! j" by (metis in_set_conv_nth length_list_update)
    show "x \<in> set (in_open e) \<or> inc_last x = now"
    proof (cases "j = i")
      case True
      with j em(4) a(4) show ?thesis by simp
    next
      case False
      with j l(4) [OF j(1)] have x: "x = opens ! j" "inc_members x \<noteq> []"
        by (simp_all add: incident_inv_def)
      then have "x \<noteq> new_incident" by (auto simp: new_incident_def)
      moreover have "x \<in> set opens" using j(1) x(1) by simp
      moreover have "opens = in_open e \<or> opens = in_open e @ [new_incident]"
        using loc by (auto simp: locate_def split: option.splits if_splits)
      ultimately show ?thesis by (elim disjE) simp_all
    qed
  qed
  have firsts: "first_source inc = first_source (opens ! i) \<or> inc_members (opens ! i) = []"
    using src by (cases "inc_members (opens ! i)"; cases "inc_members inc") (auto split: if_splits)
  have unsent: "inc_members (opens ! i) = [] \<Longrightarrow> \<not> inc_sent (opens ! i)"
    using l(2) by (auto simp: incident_ok_def)
  have life: "life (live_incs opens k) (ops_of in_key (True, k) cs) = Some (live_incs ?opens k)" for k
  proof -
    define R where "R \<longleftrightarrow> (\<exists>j < length opens. j \<noteq> i \<and> inc_sent (opens ! j) \<and> first_source (opens ! j) = k)"
    have before: "live_incs opens k \<longleftrightarrow> (inc_sent (opens ! i) \<and> first_source (opens ! i) = k) \<or> R"
      using l(1) unfolding live_incs_def R_def by (metis in_set_conv_nth)
    have "live_incs ?opens k \<longleftrightarrow> (\<exists>j < length opens. inc_sent (?opens ! j) \<and> first_source (?opens ! j) = k)"
      unfolding live_incs_def by (metis in_set_conv_nth length_list_update)
    then have after: "live_incs ?opens k \<longleftrightarrow> (inc_sent inc \<and> first_source inc = k) \<or> R"
      using l(1) unfolding R_def by (metis nth_list_update_eq nth_list_update_neq)
    have ops: "ops_of in_key (True, k) cs = (if first_source inc = k then map chg_op cs else [])"
      using em(3,6) by (auto simp: ops_of_def filter_id_conv filter_empty_conv)
    show ?thesis
    proof (cases "first_source inc = k")
      case True
      have "first_source inc \<in> set (sources inc)" using em(2) by (rule first_source_in)
      then have "\<not> R"
        unfolding R_def using others True l(4) first_source_in by (metis disjoint_iff)
      moreover have "inc_sent (opens ! i) \<and> first_source (opens ! i) = k \<longleftrightarrow> inc_sent inc1"
        using firsts unsent True a(3) by auto
      ultimately show ?thesis using True em(7) by (simp add: ops before after)
    next
      case False
      then have "\<not> (inc_sent (opens ! i) \<and> first_source (opens ! i) = k)"
        using firsts unsent by auto
      with False before after have "live_incs opens k \<longleftrightarrow> R" "live_incs ?opens k \<longleftrightarrow> R" by blast+
      with False show ?thesis by (simp add: ops)
    qed
  qed
  show thesis
  proof (rule that [OF obs])
    show "incidents_inv (e\<lparr>in_open := ?opens\<rparr>)" using all dist inv by (simp add: incidents_inv_def)
    show "list_all change_ok cs" by fact
    show "\<forall>c \<in> set cs. fst (in_key (chg_event c))" using em(6) by simp
    show "life (live_incs (in_open e) k) (ops_of in_key (True, k) cs)
        = Some (live_incs (in_open (e\<lparr>in_open := ?opens\<rparr>)) k)" for k
      using life [of k] l(5) by simp
    show "\<forall>inc \<in> set (in_open (e\<lparr>in_open := ?opens\<rparr>)). inc \<in> set (in_open e) \<or> inc_last inc = now"
      using last by simp
  qed simp_all
qed

lemma observe_rest_spec:
  assumes "incidents_inv e" and "0 < now"
  obtains e' cs where "observe_rest e now topic payload = (e', cs)" and "incidents_inv e'"
    and "list_all change_ok cs" and "\<forall>c \<in> set cs. \<not> fst (in_key (chg_event c))"
    and "\<And>k. life (gm_get (pt_live (in_rest e)) k \<noteq> None) (ops_of in_key (False, k) cs)
          = Some (gm_get (pt_live (in_rest e')) k \<noteq> None)"
    and "in_open e' = in_open e" and "in_cfg e' = in_cfg e"
proof -
  obtain p cs where p: "passthrough_observe (in_rest e) now topic payload = (p, cs)" by fastforce
  then have obs: "passthrough_observer (in_rest e) now topic payload = Some (p, cs)"
    by (simp add: passthrough_observer_def)
  from assms(1) have inv: "passthrough_inv (in_rest e)" by (simp add: incidents_inv_def)
  from pt.step_ok [OF inv assms(2), of topic payload] obs
  have p': "passthrough_inv p" and ok: "list_all change_ok cs" by auto
  have kinds: "ev_Kind (chg_event c) \<noteq> KindActivity" if "c \<in> set cs" for c
    using p that passthrough_message_about(2)
    by (fastforce simp: passthrough_observe_def split: if_splits sum.splits)
  have keys: "in_key (chg_event c) = (False, ev_SourceID (chg_event c))" if "c \<in> set cs" for c
    using kinds [OF that] by (simp add: in_key_def)
  have "ops_of in_key (False, k) cs = ops_of ev_SourceID k cs" for k
    unfolding ops_of_def by (intro arg_cong [of _ _ "map chg_op"] filter_cong) (simp_all add: keys)
  then have "life (gm_get (pt_live (in_rest e)) k \<noteq> None) (ops_of in_key (False, k) cs)
      = Some (gm_get (pt_live p) k \<noteq> None)" for k
    using pt.step_life [OF inv assms(2) obs, of k] by simp
  then show thesis
    using p p' ok keys assms(1)
    by (intro that [of "e\<lparr>in_rest := p\<rparr>" cs]) (simp_all add: observe_rest_def incidents_inv_def)
qed

text \<open>What one message does to the engine.\<close>

lemma incidents_observe_spec:
  assumes "incidents_inv e0" and "0 < now"
  obtains e cs where "incidents_observe e0 now topic payload = Some (e, cs)" and "incidents_inv e"
    and "list_all change_ok cs"
    and "\<And>k. life (in_live e0 k) (ops_of in_key k cs) = Some (in_live e k)"
    and "in_cfg e = in_cfg e0"
    and "\<forall>inc \<in> set (in_open e). \<not> past_gap e0 now inc \<or> inc_last inc = now"
proof -
  note goal = that
  from assms(1) have inv: "\<forall>inc \<in> set (in_open e0). incident_inv inc"
    "distinct (concat (map sources (in_open e0)))" "passthrough_inv (in_rest e0)" "gm_wf (in_closed e0)"
    by (simp_all add: incidents_inv_def)
  let ?kept = "filter (\<lambda>inc. \<not> past_gap e0 now inc) (in_open e0)"
  from expire_spec [OF inv(1,4), of now] obtain closed cs0 where
    x: "expire now (in_open e0) e0 = Some (?kept, e0\<lparr>in_closed := closed\<rparr>, cs0)" "gm_wf closed"
    "list_all change_ok cs0" "\<forall>c \<in> set cs0. fst (in_key (chg_event c))"
    "\<And>k. ops_of in_key (True, k) cs0 = map (\<lambda>_. OpEnded) (filter (ends e0 now k) (in_open e0))" by blast
  define e where "e = e0\<lparr>in_closed := closed, in_open := ?kept\<rparr>"
  have dist: "distinct (concat (map f (filter P xs)))" if "distinct (concat (map f xs))"
    for f :: "incident \<Rightarrow> string list" and P xs
    using that by (induction xs) auto
  have e: "incidents_inv e" using inv x(2) dist [OF inv(2)] by (simp add: incidents_inv_def e_def)
  have frame: "in_rest e = in_rest e0" "in_cfg e = in_cfg e0" "in_open e = ?kept" "in_labels e = in_labels e0"
    by (simp_all add: e_def)
  have other: "ops_of in_key (b, k) cs = []" if "\<forall>c \<in> set cs. fst (in_key (chg_event c)) \<noteq> b" for b k cs
    using that by (auto simp: ops_of_def filter_empty_conv)
  have life0: "life (in_live e0 k) (ops_of in_key k cs0) = Some (in_live e k)" for k
  proof (cases k)
    case (Pair b s)
    with expire_life [OF inv(1,2), of s e0 now] x(4,5) other [of cs0 False s] show ?thesis
      by (cases b) (simp_all add: in_live_def frame)
  qed
  have finish: thesis
    if "incidents_observe e0 now topic payload = Some (e', cs0 @ cs')" and "incidents_inv e'"
      and "list_all change_ok cs'"
      and life': "\<And>k. life (in_live e k) (ops_of in_key k cs') = Some (in_live e' k)"
      and "in_cfg e' = in_cfg e"
      and last: "\<forall>inc \<in> set (in_open e'). inc \<in> set (in_open e) \<or> inc_last inc = now" for e' cs'
  proof (rule goal [OF that(1,2)])
    show "list_all change_ok (cs0 @ cs')" using x(3) that(3) by simp
    show "life (in_live e0 k) (ops_of in_key k (cs0 @ cs')) = Some (in_live e' k)" for k
      using life0 life' by (simp add: life_append)
    show "in_cfg e' = in_cfg e0" using that(5) by (simp add: frame)
    show "\<forall>inc \<in> set (in_open e'). \<not> past_gap e0 now inc \<or> inc_last inc = now"
      using last by (auto simp: frame)
  qed
  have via_rest: thesis
    if "incidents_observe e0 now topic payload
      = (let (e', cs') = observe_rest e now topic payload in Some (e', cs0 @ cs'))"
  proof -
    from observe_rest_spec [OF e assms(2), of topic payload] obtain e' cs' where
      r: "observe_rest e now topic payload = (e', cs')" "incidents_inv e'" "list_all change_ok cs'"
      "\<forall>c \<in> set cs'. \<not> fst (in_key (chg_event c))"
      "\<And>k. life (gm_get (pt_live (in_rest e)) k \<noteq> None) (ops_of in_key (False, k) cs')
          = Some (gm_get (pt_live (in_rest e')) k \<noteq> None)"
      "in_open e' = in_open e" "in_cfg e' = in_cfg e" by blast
    show thesis
    proof (rule finish)
      show "incidents_observe e0 now topic payload = Some (e', cs0 @ cs')" using that r(1) by simp
      show "life (in_live e k) (ops_of in_key k cs') = Some (in_live e' k)" for k
        using r(4-6) other [of cs' True "snd k"] by (cases k; cases "fst k") (simp_all add: in_live_def)
    qed (use r in simp_all)
  qed
  have e2: "e0\<lparr>in_closed := closed\<rparr>\<lparr>in_open := ?kept\<rparr> = e" by (simp add: e_def)
  have start: "incidents_observe e0 now topic payload =
      (if top_kind (parse_topic topic) \<noteq> KindEvents then Some (e, cs0)
       else (case parse_event payload of
               Inl _ \<Rightarrow> (let (e', cs') = observe_rest e now topic payload in Some (e', cs0 @ cs'))
             | Inr msg \<Rightarrow>
                 if obj_FalsePositive (msg_after msg) \<or> obj_Label (msg_after msg) \<notin> set (in_labels e) then
                   (let (e', cs') = observe_rest e now topic payload in Some (e', cs0 @ cs'))
                 else
                   (case observe_object e now msg of
                      None \<Rightarrow> None
                    | Some (e', cs') \<Rightarrow> Some (e', cs0 @ cs'))))"
    by (simp only: incidents_observe_def x(1) option.case prod.case e2 Let_def)
  show thesis
  proof (cases "top_kind (parse_topic topic) = KindEvents")
    case False
    then show thesis using e start by (intro finish [of e "[]"]) simp_all
  next
    case events: True
    show thesis
    proof (cases "parse_event payload")
      case (Inl err)
      with events start show thesis by (intro via_rest) simp
    next
      case (Inr msg)
      show thesis
      proof (cases "obj_FalsePositive (msg_after msg) \<or> obj_Label (msg_after msg) \<notin> set (in_labels e)")
        case True
        with events start Inr show thesis by (intro via_rest) simp
      next
        case False
        from observe_object_spec [OF e assms(2), of msg] obtain e' cs' where
          ob: "observe_object e now msg = Some (e', cs')" "incidents_inv e'" "list_all change_ok cs'"
          "\<forall>c \<in> set cs'. fst (in_key (chg_event c))"
          "\<And>k. life (live_incs (in_open e) k) (ops_of in_key (True, k) cs') = Some (live_incs (in_open e') k)"
          "in_rest e' = in_rest e" "in_cfg e' = in_cfg e"
          "\<forall>inc \<in> set (in_open e'). inc \<in> set (in_open e) \<or> inc_last inc = now" by metis
        show thesis
        proof (rule finish)
          show "incidents_observe e0 now topic payload = Some (e', cs0 @ cs')"
            using events start Inr False ob(1) by simp
          show "life (in_live e k) (ops_of in_key k cs') = Some (in_live e' k)" for k
            using ob(4-6) other [of cs' False "snd k"] by (cases k; cases "fst k") (simp_all add: in_live_def)
        qed (use ob in simp_all)
      qed
    qed
  qed
qed

interpretation inc: tracker incidents_observe incidents_inv in_key in_live
proof unfold_locales
  fix e now topic payload
  assume "incidents_inv e" and "(0 :: int) < now"
  from incidents_observe_spec [OF this, of topic payload]
  show "\<exists>s' cs. incidents_observe e now topic payload = Some (s', cs) \<and> incidents_inv s'
      \<and> list_all change_ok cs" by metis
next
  fix e now topic payload e' cs k
  assume "incidents_inv e" and "(0 :: int) < now" and obs: "incidents_observe e now topic payload = Some (e', cs)"
  from incidents_observe_spec [OF this(1,2), of topic payload]
  show "life (in_live e k) (ops_of in_key k cs) = Some (in_live e' k)" using obs
    by (metis option.inject prod.inject)
qed

section \<open>Properties\<close>

text \<open>
  C1. The life of every event: whatever stream of messages a new engine is fed, it never panics,
  every change it emits is well formed, and for each activity (known by its first member) and each
  passed-through object the operations are Started, then any Updated, then Ended, possibly over
  again; an event is running at the end exactly when the engine still holds it open.
\<close>

theorem incidents_life:
  assumes "list_all message_ok ms"
  shows "\<exists>e cs. run_engine incidents_observe (new_incidents cfg) ms = Some (e, cs)
    \<and> list_all change_ok cs \<and> life False (ops_of in_key k cs) = Some (in_live e k)"
proof -
  from inc.run_ok [OF incidents_inv_new assms, of cfg] obtain e cs where
    run: "run_engine incidents_observe (new_incidents cfg) ms = Some (e, cs)" "list_all change_ok cs" by blast
  have "in_live (new_incidents cfg) k = False"
    by (cases k) (simp add: in_live_def live_incs_def new_incidents_def new_passthrough_def Let_def)
  with inc.run_life [OF incidents_inv_new assms run(1), of k] run show ?thesis by simp
qed

lemma incidents_life_witness:
  "\<exists>e cs. run_engine incidents_observe (new_incidents default_incident_config)
      [(10, ''frigate/events'', demo_payload), (20, ''frigate/stats'', [])] = Some (e, cs)
    \<and> list_all change_ok cs \<and> life False (ops_of in_key (True, ''a'') cs) = Some (in_live e (True, ''a''))"
  by (rule incidents_life) (simp add: message_ok_def)

lemma run_snoc_inv:
  assumes "list_all message_ok (ms @ [m])" and "incidents_inv e0"
    and "run_engine incidents_observe e0 (ms @ [m]) = Some (e, cs)"
  obtains e1 cs1 cs2 where "run_engine incidents_observe e0 ms = Some (e1, cs1)" and "incidents_inv e1"
    and "incidents_observe e1 (fst m) (fst (snd m)) (snd (snd m)) = Some (e, cs2)" and "0 < fst m"
proof -
  have ms: "list_all message_ok ms" and m: "0 < fst m" using assms(1) by (simp_all add: message_ok_def)
  from inc.run_ok [OF assms(2) ms] obtain e1 cs1 where
    1: "run_engine incidents_observe e0 ms = Some (e1, cs1)" "incidents_inv e1" by blast
  with assms(3) obtain cs2 where "incidents_observe e1 (fst m) (fst (snd m)) (snd (snd m)) = Some (e, cs2)"
    by (cases m) (auto simp: run_engine_append split: option.splits)
  from that [OF 1 this m] show thesis .
qed

lemma run_cfg:
  assumes "list_all message_ok ms" and "incidents_inv e0"
    and "run_engine incidents_observe e0 ms = Some (e, cs)"
  shows "in_cfg e = in_cfg e0"
  using assms(1,3)
proof (induction ms arbitrary: e cs rule: rev_induct)
  case (snoc m ms)
  from run_snoc_inv [OF snoc.prems(1) assms(2) snoc.prems(2)] obtain e1 cs1 cs2 where
    1: "run_engine incidents_observe e0 ms = Some (e1, cs1)" "incidents_inv e1"
    "incidents_observe e1 (fst m) (fst (snd m)) (snd (snd m)) = Some (e, cs2)" "0 < fst m" by metis
  from incidents_observe_spec [OF 1(2,4), of "fst (snd m)" "snd (snd m)"] 1(3) have "in_cfg e = in_cfg e1"
    by (metis option.inject prod.inject)
  with snoc.IH [OF _ 1(1)] snoc.prems(1) show ?case by simp
qed simp

text \<open>
  Further. Everything open is recent: after any message, every incident still open was active less than
  the gap ago, and holds at least one member, each object once, and at most 2048 box samples.
\<close>

theorem open_incidents_recent:
  assumes "list_all message_ok (ms @ [m])"
    and "run_engine incidents_observe (new_incidents cfg) (ms @ [m]) = Some (e, cs)"
  shows "\<forall>inc \<in> set (in_open e). time_sub (fst m) (inc_last inc) < ic_Gap (in_cfg e)
    \<and> inc_members inc \<noteq> [] \<and> length (inc_boxes inc) \<le> 2048 \<and> distinct (sources inc)"
proof
  fix inc assume inc: "inc \<in> set (in_open e)"
  from run_snoc_inv [OF assms(1) incidents_inv_new assms(2)] obtain e1 cs1 cs2 where
    1: "incidents_inv e1" "incidents_observe e1 (fst m) (fst (snd m)) (snd (snd m)) = Some (e, cs2)"
    "0 < fst m" by metis
  from incidents_observe_spec [OF 1(1,3), of "fst (snd m)" "snd (snd m)"] 1(2) have
    e: "incidents_inv e" "in_cfg e = in_cfg e1"
    "\<forall>inc \<in> set (in_open e). \<not> past_gap e1 (fst m) inc \<or> inc_last inc = fst m"
    by (metis option.inject prod.inject)+
  have "in_cfg e = in_cfg (new_incidents cfg)"
    by (rule run_cfg [OF assms(1) incidents_inv_new assms(2)])
  then have gap: "0 < ic_Gap (in_cfg e)"
    by (simp add: new_incidents_def default_incident_config_def Let_def)
  have "time_sub (fst m) (inc_last inc) < ic_Gap (in_cfg e)"
    using e(2,3) inc gap by (auto simp: past_gap_def time_sub_def)
  moreover have "incident_inv inc" using e(1) inc by (simp add: incidents_inv_def)
  moreover have "distinct (sources inc)"
    using e(1) inc by (auto simp: incidents_inv_def distinct_concat_iff)
  ultimately show "time_sub (fst m) (inc_last inc) < ic_Gap (in_cfg e)
    \<and> inc_members inc \<noteq> [] \<and> length (inc_boxes inc) \<le> 2048 \<and> distinct (sources inc)"
    by (simp add: incident_inv_def incident_ok_def max_box_samples_def)
qed

text \<open>
  Further. The public face of an activity: an event is built whenever there is a member; its id is minted
  from the first one, its sources are the members in order, its cameras are exactly the members'
  cameras without repetition, the first of them leads, and once a member has been in a named zone
  the activity starts when the earliest such member did.
\<close>

theorem activity_face:
  assumes "inc_members inc \<noteq> []" and "\<forall>m \<in> set (inc_members inc). m_start m \<noteq> 0"
    and "\<exists>m \<in> set (inc_members inc). m_zones m \<noteq> []"
  shows "\<exists>ev. build d inc now ended = Some ev
    \<and> ev_ID ev = mint_id (''activity/'' @ first_source inc)
    \<and> ev_SourceIDs ev = sources inc
    \<and> set (ev_Cameras ev) = m_camera ` set (inc_members inc) \<and> distinct (ev_Cameras ev)
    \<and> ev_Camera ev = hd (ev_Cameras ev)
    \<and> ev_StartedAt ev = Min (m_start ` {m \<in> set (inc_members inc). m_zones m \<noteq> []})"
proof -
  from build_cases [OF assms(1), of d now ended] obtain ev where ev: "build d inc now ended = Some ev" by blast
  note spec = build_spec [OF ev assms(1,2)]
  show ?thesis using ev spec(1-5) spec(9) [OF assms(3)] by blast
qed

definition neighbours :: "(string, string list) gomap \<Rightarrow> string \<Rightarrow> string \<Rightarrow> bool" where
  "neighbours g a b \<longleftrightarrow> (case gm_get g a of None \<Rightarrow> False | Some ns \<Rightarrow> b \<in> set ns)"

lemma neighbours_edge: "neighbours (edge x y g) a b \<longleftrightarrow> (a = x \<and> b = y) \<or> neighbours g a b"
proof (cases "a = x")
  case True
  have "neighbours (edge x y g) x b \<longleftrightarrow> b \<in> insert y (set (case gm_get g x of None \<Rightarrow> [] | Some ns \<Rightarrow> ns))"
    by (simp only: neighbours_def edge_def gm_get_set if_True option.case set_add_new simp_thms)
  with True show ?thesis by (cases "gm_get g x") (simp_all add: neighbours_def)
next
  case False
  then show ?thesis by (simp add: neighbours_def edge_def)
qed

definition edges :: "(string \<times> string list) list \<Rightarrow> string \<Rightarrow> string \<Rightarrow> bool" where
  "edges g x y \<longleftrightarrow> (\<exists>ns. (x, ns) \<in> set g \<and> y \<in> set ns) \<or> (\<exists>ns. (y, ns) \<in> set g \<and> x \<in> set ns)"

lemma neighbours_camera:
  "neighbours (fold (\<lambda>n adj. edge n cam (edge cam n adj)) ns h) x y \<longleftrightarrow>
     neighbours h x y \<or> (x = cam \<and> y \<in> set ns) \<or> (y = cam \<and> x \<in> set ns)"
proof (induction ns arbitrary: h)
  case (Cons n ns)
  have "neighbours (fold (\<lambda>n adj. edge n cam (edge cam n adj)) (n # ns) h) x y \<longleftrightarrow>
      neighbours (edge n cam (edge cam n h)) x y \<or> (x = cam \<and> y \<in> set ns) \<or> (y = cam \<and> x \<in> set ns)"
    using Cons.IH [of "edge n cam (edge cam n h)"] by simp
  then show ?case unfolding neighbours_edge by auto
qed simp

lemma neighbours_graph:
  "neighbours (fold (\<lambda>(cam, ns). fold (\<lambda>n adj. edge n cam (edge cam n adj)) ns) g h) x y \<longleftrightarrow>
     neighbours h x y \<or> edges g x y"
proof (induction g arbitrary: h)
  case (Cons c g)
  obtain cam ns where c: "c = (cam, ns)" by (cases c)
  show ?case unfolding fold_Cons comp_apply Cons.IH c prod.case neighbours_camera
    by (auto simp: edges_def)
qed (simp add: edges_def)

text \<open>
  Further. The camera graph is symmetric however it was written: two cameras are neighbours exactly when
  the configuration lists one of them under the other.
\<close>

theorem graph_symmetric:
  "neighbours (close_graph g) x y \<longleftrightarrow>
     (\<exists>ns. (x, ns) \<in> set g \<and> y \<in> set ns) \<or> (\<exists>ns. (y, ns) \<in> set g \<and> x \<in> set ns)"
  unfolding close_graph_def neighbours_graph by (simp add: neighbours_def edges_def)

section \<open>Stragglers\<close>

lemma close_incident_remembers:
  assumes "close_incident now inc e = Some (e', cs)" and "gm_get (in_closed e) k = Some t"
    and "time_sub now t \<le> Hour" and "gm_wf (in_closed e)"
  shows "\<exists>t'. gm_get (in_closed e') k = Some t' \<and> time_sub now t' \<le> Hour \<and> gm_wf (in_closed e')
    \<and> (\<forall>c \<in> set cs. chg_op c = OpEnded)"
proof -
  let ?set = "\<lambda>ks m. fold (\<lambda>i. gm_set i now) ks m"
  have "gm_wf (?set ks m) \<and> (\<exists>t'. gm_get (?set ks m) k = Some t' \<and> time_sub now t' \<le> Hour)"
    if "gm_wf m" "gm_get m k = Some t1" "time_sub now t1 \<le> Hour" for ks m t1
    using that
  proof (induction ks arbitrary: m t1)
    case (Cons i ks)
    have get: "gm_get (gm_set i now m) k = Some (if k = i then now else t1)" using Cons.prems(2) by simp
    have "time_sub now now \<le> Hour" by (simp add: time_sub_def)
    then have "time_sub now (if k = i then now else t1) \<le> Hour" using Cons.prems(3) by simp
    from Cons.IH [OF gm_wf_set [OF Cons.prems(1)] get this] show ?case unfolding fold_Cons comp_apply .
  qed auto
  from this [OF assms(4,2,3), of "gm_keys (inc_byID inc)"] obtain t' where
    t': "gm_wf (?set (gm_keys (inc_byID inc)) (in_closed e))"
    "gm_get (?set (gm_keys (inc_byID inc)) (in_closed e)) k = Some t'" "time_sub now t' \<le> Hour" by blast
  define closed where "closed = filter (\<lambda>(_, t). \<not> Hour < time_sub now t)
    (?set (gm_keys (inc_byID inc)) (in_closed e))"
  have "gm_get closed k = Some t'"
    unfolding closed_def gm_get_filter [OF t'(1)] t'(2) using t'(3) by simp
  moreover have "in_closed e' = closed" "\<forall>c \<in> set cs. chg_op c = OpEnded"
    using assms(1) by (auto simp: close_incident_def closed_def [symmetric] Let_def split: if_splits option.splits)
  moreover have "gm_wf closed" unfolding closed_def by (rule gm_wf_filter [OF t'(1)])
  ultimately show ?thesis using t'(3) by auto
qed

lemma expire_remembers:
  assumes "expire now incs e = Some (kept, e', cs)" and "gm_get (in_closed e) k = Some t"
    and "time_sub now t \<le> Hour" and "gm_wf (in_closed e)"
  shows "gm_get (in_closed e') k \<noteq> None \<and> (\<forall>c \<in> set cs. chg_op c = OpEnded)"
  using assms
proof (induction now incs e arbitrary: t kept e' cs rule: expire.induct)
  case (1 now e)
  then show ?case by auto
next
  case (2 now inc incs e)
  show ?case
  proof (cases "ic_Gap (in_cfg e) \<le> time_sub now (inc_last inc)")
    case True
    with "2.prems"(1) obtain e1 cs1 kept2 cs2 where
      1: "close_incident now inc e = Some (e1, cs1)" "expire now incs e1 = Some (kept2, e', cs2)"
      "cs = cs1 @ cs2"
      by (auto split: option.splits)
    from close_incident_remembers [OF 1(1) "2.prems"(2-4)] obtain t' where
      "gm_get (in_closed e1) k = Some t'" "time_sub now t' \<le> Hour" "gm_wf (in_closed e1)"
      "\<forall>c \<in> set cs1. chg_op c = OpEnded" by blast
    with "2.IH"(1) [OF True 1(1) refl 1(2)] 1(3) show ?thesis by auto
  next
    case False
    with "2.prems"(1) obtain kept2 where "expire now incs e = Some (kept2, e', cs)"
      by (auto split: option.splits)
    from "2.IH"(2) [OF False this "2.prems"(2-4)] show ?thesis .
  qed
qed

text \<open>
  Further. A straggler opens nothing: within an hour of the end of the incident an object belonged to, a
  message about that object adds no incident and says nothing new; the message only ends what was
  past its gap anyway.
\<close>

theorem straggler_silent:
  assumes "incidents_inv e" and "0 < now" and "top_kind (parse_topic topic) = KindEvents"
    and "parse_event payload = Inr msg" and "\<not> obj_FalsePositive (msg_after msg)"
    and "obj_Label (msg_after msg) \<in> set (in_labels e)"
    and "gm_get (in_closed e) (obj_ID (msg_after msg)) = Some t" and "time_sub now t \<le> Hour"
  shows "\<exists>e' cs. incidents_observe e now topic payload = Some (e', cs)
    \<and> in_open e' = filter (\<lambda>inc. time_sub now (inc_last inc) < ic_Gap (in_cfg e)) (in_open e)
    \<and> (\<forall>c \<in> set cs. chg_op c = OpEnded)"
proof -
  from assms(1) have inv: "\<forall>inc \<in> set (in_open e). incident_inv inc" and wf: "gm_wf (in_closed e)"
    by (simp_all add: incidents_inv_def)
  let ?kept = "filter (\<lambda>inc. \<not> past_gap e now inc) (in_open e)"
  from expire_spec [OF inv wf, of now] obtain closed cs where
    x: "expire now (in_open e) e = Some (?kept, e\<lparr>in_closed := closed\<rparr>, cs)" by blast
  from expire_remembers [OF x assms(7,8) wf]
  have "gm_get closed (obj_ID (msg_after msg)) \<noteq> None" and ended: "\<forall>c \<in> set cs. chg_op c = OpEnded"
    by simp_all
  then have obs: "incidents_observe e now topic payload = Some (e\<lparr>in_closed := closed, in_open := ?kept\<rparr>, cs)"
    using assms(3-6) by (auto simp: incidents_observe_def x observe_object_def Let_def)
  have "?kept = filter (\<lambda>inc. time_sub now (inc_last inc) < ic_Gap (in_cfg e)) (in_open e)"
    by (simp add: past_gap_def not_le)
  with obs show ?thesis using ended
    by (intro exI [of _ "e\<lparr>in_closed := closed, in_open := ?kept\<rparr>"] exI [of _ cs]) simp
qed

section \<open>Witnesses\<close>

definition walker :: "string \<Rightarrow> time \<Rightarrow> string list \<Rightarrow> member" where
  "walker i t zs = \<lparr>m_source = i, m_camera = ''c'', m_label = ''person'', m_start = t, m_end = 0,
     m_zones = zs, m_snapshot = False, m_clip = False\<rparr>"

definition walk :: incident where
  "walk = new_incident\<lparr>inc_first := 10, inc_last := 20, inc_path := [''porch''],
     inc_members := [walker ''a'' 10 [''porch''], walker ''b'' 12 []],
     inc_byID := [(''a'', 0), (''b'', 1)]\<rparr>"

lemma walk_members: "inc_members walk = [walker ''a'' 10 [''porch''], walker ''b'' 12 []]"
  by (simp add: walk_def)

lemma objects_largest_together_witness:
  "\<exists>ev. build 3 walk 20 False = Some ev \<and> 2 \<le> count_of (ev_Objects ev) ''person''"
proof -
  from build_cases [of walk 3 20 False] obtain ev where ev: "build 3 walk 20 False = Some ev"
    by (auto simp: walk_members)
  have starts: "\<forall>m \<in> set (inc_members walk). m_start m \<noteq> 0" and
    l: "''person'' \<in> m_label ` set (inc_members walk)"
    by (simp_all add: walk_members walker_def)
  have "together 3 20 (inc_members walk) ''person'' {0, 1}"
    unfolding together_def by (auto simp: walk_members walker_def live_end_def intro!: exI [of _ 12])
  then have "int (card {0 :: nat, 1}) \<le> count_of (ev_Objects ev) ''person''"
    using objects_largest_together [OF ev starts l] by blast
  with ev show ?thesis by auto
qed

lemma activity_face_witness:
  "\<exists>ev. build 3 walk 20 True = Some ev \<and> set (ev_Cameras ev) = {''c''} \<and> ev_StartedAt ev = 10
    \<and> ev_SourceIDs ev = [''a'', ''b'']"
proof -
  have "{m \<in> set (inc_members walk). m_zones m \<noteq> []} = {walker ''a'' 10 [''porch'']}"
    by (auto simp: walk_members walker_def)
  with activity_face [of walk 3 20 True] show ?thesis
    by (simp add: walk_members) (auto simp: walker_def)
qed

lemma open_incidents_recent_witness:
  "\<exists>e cs. run_engine incidents_observe (new_incidents default_incident_config)
      ([] @ [(10, ''frigate/events'', demo_payload)]) = Some (e, cs)
    \<and> (\<forall>inc \<in> set (in_open e). time_sub 10 (inc_last inc) < ic_Gap (in_cfg e))"
proof -
  let ?ms = "[] @ [(10, ''frigate/events'', demo_payload)]"
  have ok: "list_all message_ok ?ms" by (simp add: message_ok_def)
  from inc.run_ok [OF incidents_inv_new ok, of default_incident_config] obtain e cs where
    run: "run_engine incidents_observe (new_incidents default_incident_config) ?ms = Some (e, cs)" by blast
  with open_incidents_recent [OF ok run] show ?thesis by auto
qed

lemma straggler_silent_witness:
  "\<exists>e' cs. incidents_observe ((new_incidents default_incident_config)\<lparr>in_closed := [(''a'', 5)]\<rparr>) 10
      ''frigate/events'' demo_payload = Some (e', cs)
    \<and> in_open e' = [] \<and> (\<forall>c \<in> set cs. chg_op c = OpEnded)"
proof -
  let ?e = "(new_incidents default_incident_config)\<lparr>in_closed := [(''a'', 5)]\<rparr>"
  have "incidents_inv ?e" using incidents_inv_new [of default_incident_config] by (simp add: incidents_inv_def)
  moreover have "in_open ?e = []" "''dog'' \<in> set (in_labels ?e)"
    by (simp_all add: new_incidents_def default_incident_config_def Let_def)
  ultimately show ?thesis
    using straggler_silent [of ?e 10 "''frigate/events''" demo_payload demo_msg 5]
    by (simp add: demo_event events_topic demo_msg_def zero_object_def time_sub_def)
qed

end
