(* ===== verification/Store.thy ===== *)
theory Store
  imports Policy "HOL-Library.Product_Lexorder"
begin

text \<open>
  Package store (\<open>internal/store/store.go\<close>): the events the API serves, by id and in list order,
  with pagination, pruning, bounded histories and watchers.  The mutex makes every operation atomic,
  so each is one function on the state.  An \<open>*entry\<close> is never written after it is made and the two
  indexes share it, so entries are values and the pointer comparison of \<open>remove\<close> is equality.
  A subscriber is known by a number (its address); its channel is the list of undelivered changes.
\<close>

section \<open>State\<close>

record revision =
  rv_At :: time
  rv_Op :: op
  rv_Event :: event

record entry =
  en_ev :: event
  en_updatedAt :: time
  en_history :: "revision list"

record subscriber =
  sub_ch :: "change list"
  sub_want :: "string list option"
  sub_dead :: bool

record store =
  ss_retention :: duration
  ss_byID :: "(string, entry) gomap"
  ss_ordered :: "entry list"
  ss_cameras :: "string list"
  ss_subs :: "(nat, subscriber) gomap"
  ss_applied :: "64 word"
  ss_pruned :: "64 word"

definition max_history :: nat where "max_history = 64"
definition watch_buffer :: nat where "watch_buffer = 256"

definition new_store :: "duration \<Rightarrow> store" where
  "new_store retention =
     \<lparr>ss_retention = retention, ss_byID = [], ss_ordered = [], ss_cameras = [], ss_subs = [],
      ss_applied = 0, ss_pruned = 0\<rparr>"

section \<open>Cursors\<close>

type_synonym cursor = "time \<times> string"

datatype store_error = ErrBadToken

definition older :: "entry \<Rightarrow> cursor \<Rightarrow> bool" where
  "older e c =
     (if ev_StartedAt (en_ev e) \<noteq> fst c then ev_StartedAt (en_ev e) < fst c
      else ev_ID (en_ev e) < snd c)"

definition newer :: "entry \<Rightarrow> cursor \<Rightarrow> bool" where
  "newer e c =
     (if ev_StartedAt (en_ev e) \<noteq> fst c then fst c < ev_StartedAt (en_ev e)
      else snd c < ev_ID (en_ev e))"

definition cursor_string :: "cursor \<Rightarrow> string" where
  "cursor_string c = base64url_encode (itoa (unix_nano (fst c)) @ ''|'' @ snd c)"

definition parse_cursor :: "string \<Rightarrow> store_error + cursor" where
  "parse_cursor token =
     (case base64url_decode token of
        None \<Rightarrow> Inl ErrBadToken
      | Some b \<Rightarrow>
          (case cut (CHR ''|'') b of
             None \<Rightarrow> Inl ErrBadToken
           | Some (ns, i) \<Rightarrow>
               if i = [] then Inl ErrBadToken
               else case parse_int ns of
                      None \<Rightarrow> Inl ErrBadToken
                    | Some n \<Rightarrow> Inr (time_unix 0 n, i)))"

definition camera_set :: "string list \<Rightarrow> string list option" where
  "camera_set cameras = (if cameras = [] then None else Some cameras)"

definition wants :: "string list option \<Rightarrow> string \<Rightarrow> bool" where
  "wants want camera = (case want of None \<Rightarrow> True | Some cs \<Rightarrow> camera \<in> set cs)"

section \<open>Subscribers\<close>

definition offer :: "change \<Rightarrow> subscriber \<Rightarrow> subscriber" where
  "offer c sub =
     (if sub_dead sub \<or> \<not> wants (sub_want sub) (ev_Camera (chg_event c)) then sub
      else if length (sub_ch sub) < watch_buffer then sub\<lparr>sub_ch := sub_ch sub @ [c]\<rparr>
      else sub\<lparr>sub_dead := True\<rparr>)"

text \<open>\<open>drop\<close>, when the watcher's context ends.\<close>

definition drop_sub :: "nat \<Rightarrow> store \<Rightarrow> store" where
  "drop_sub k s = s\<lparr>ss_subs := gm_del k (ss_subs s)\<rparr>"

text \<open>The watcher's side of the channel: what it takes next, if anything is there.\<close>

definition receive :: "nat \<Rightarrow> store \<Rightarrow> change option \<times> store" where
  "receive k s =
     (case gm_get (ss_subs s) k of
        None \<Rightarrow> (None, s)
      | Some sub \<Rightarrow>
          (case sub_ch sub of
             [] \<Rightarrow> (None, s)
           | c # cs \<Rightarrow> (Some c, s\<lparr>ss_subs := gm_set k (sub\<lparr>sub_ch := cs\<rparr>) (ss_subs s)\<rparr>)))"

section \<open>The ordered index\<close>

definition insert_entry :: "entry \<Rightarrow> entry list \<Rightarrow> entry list" where
  "insert_entry e xs =
     (let c = (ev_StartedAt (en_ev e), ev_ID (en_ev e));
          i = sort_search (length xs) (\<lambda>i. older (xs ! i) c)
      in take i xs @ [e] @ drop i xs)"

definition remove_entry :: "entry \<Rightarrow> entry list \<Rightarrow> entry list" where
  "remove_entry e xs =
     (let c = (ev_StartedAt (en_ev e), ev_ID (en_ev e));
          i = sort_search (length xs) (\<lambda>i. \<not> newer (xs ! i) c)
      in if i < length xs \<and> xs ! i = e then take i xs @ drop (i + 1) xs else xs)"

section \<open>Operations\<close>

definition push_history :: "revision \<Rightarrow> revision list \<Rightarrow> revision list" where
  "push_history r h0 =
     (let h = h0 @ [r]
      in if max_history < length h then take 1 h @ drop (length h - max_history + 1) h else h)"

definition store_apply :: "time \<Rightarrow> change \<Rightarrow> store \<Rightarrow> store" where
  "store_apply now c s =
     (let ev = chg_event c;
          cameras = (if ev_Camera ev \<noteq> [] then add_new (ev_Camera ev) (ss_cameras s) else ss_cameras s);
          old = gm_get (ss_byID s) (ev_ID ev);
          ordered = (case old of None \<Rightarrow> ss_ordered s | Some e \<Rightarrow> remove_entry e (ss_ordered s));
          history = (case old of None \<Rightarrow> [] | Some e \<Rightarrow> en_history e);
          e = \<lparr>en_ev = ev, en_updatedAt = now,
               en_history = push_history \<lparr>rv_At = now, rv_Op = chg_op c, rv_Event = ev\<rparr> history\<rparr>
      in s\<lparr>ss_applied := ss_applied s + 1,
           ss_cameras := cameras,
           ss_byID := gm_set (ev_ID ev) e (ss_byID s),
           ss_ordered := insert_entry e ordered,
           ss_subs := map (\<lambda>(k, sub). (k, offer c sub)) (ss_subs s)\<rparr>)"

definition store_history :: "string \<Rightarrow> store \<Rightarrow> revision list" where
  "store_history i s = (case gm_get (ss_byID s) i of None \<Rightarrow> [] | Some e \<Rightarrow> en_history e)"

definition saw_camera :: "string \<Rightarrow> store \<Rightarrow> store" where
  "saw_camera name s = (if name = [] then s else s\<lparr>ss_cameras := add_new name (ss_cameras s)\<rparr>)"

definition store_cameras :: "store \<Rightarrow> string list" where
  "store_cameras s = sort (ss_cameras s)"

definition store_get :: "string \<Rightarrow> store \<Rightarrow> event option" where
  "store_get i s = (case gm_get (ss_byID s) i of None \<Rightarrow> None | Some e \<Rightarrow> Some (en_ev e))"

text \<open>The loop of \<open>List\<close>, with the number of events the page still takes.\<close>

fun page_from :: "string list option \<Rightarrow> int \<Rightarrow> entry list \<Rightarrow> event list" where
  "page_from want n [] = []"
| "page_from want n (e # es) =
     (if n \<le> 0 then []
      else if \<not> wants want (ev_Camera (en_ev e)) then page_from want n es
      else en_ev e # page_from want (n - 1) es)"

definition list_page :: "string list option \<Rightarrow> int \<Rightarrow> cursor option \<Rightarrow> store \<Rightarrow> event list \<times> string" where
  "list_page want page_size after s =
     (let xs = ss_ordered s;
          start = (case after of None \<Rightarrow> 0 | Some c \<Rightarrow> sort_search (length xs) (\<lambda>i. older (xs ! i) c));
          page = page_from want page_size (drop start xs)
      in if page = [] then ([], [])
         else (page, cursor_string (ev_StartedAt (last page), ev_ID (last page))))"

definition store_list ::
  "string list \<Rightarrow> int \<Rightarrow> string \<Rightarrow> store \<Rightarrow> store_error + (event list \<times> string)" where
  "store_list cameras page_size token s =
     (if token = [] then Inr (list_page (camera_set cameras) page_size None s)
      else case parse_cursor token of
             Inl err \<Rightarrow> Inl err
           | Inr c \<Rightarrow> Inr (list_page (camera_set cameras) page_size (Some c) s))"

text \<open>\<open>Watch\<close>: the new subscriber gets number \<open>k\<close>.\<close>

definition snapshot_change :: "entry \<Rightarrow> change" where
  "snapshot_change e = Change (if running (en_ev e) then OpStarted else OpEnded) (en_ev e)"

definition store_watch :: "nat \<Rightarrow> time \<Rightarrow> string list \<Rightarrow> store \<Rightarrow> store" where
  "store_watch k since cameras s =
     (let sub0 = \<lparr>sub_ch = [], sub_want = camera_set cameras, sub_dead = False\<rparr>;
          sub = (if is_zero since then sub0
                 else fold (\<lambda>e sub. if en_updatedAt e < since then sub else offer (snapshot_change e) sub)
                        (rev (ss_ordered s)) sub0)
      in s\<lparr>ss_subs := gm_set k sub (ss_subs s)\<rparr>)"

text \<open>The loop of \<open>Prune\<close>, over the ordered index from its end.\<close>

fun prune_loop ::
  "time \<Rightarrow> entry list \<Rightarrow> (string, entry) gomap \<Rightarrow> nat \<Rightarrow> entry list \<times> (string, entry) gomap \<times> nat"
where
  "prune_loop cutoff [] m n = ([], m, n)"
| "prune_loop cutoff (e # es) m n =
     (if ev_StartedAt (en_ev e) < cutoff then prune_loop cutoff es (gm_del (ev_ID (en_ev e)) m) (n + 1)
      else (e # es, m, n))"

definition store_prune :: "time \<Rightarrow> store \<Rightarrow> store \<times> nat" where
  "store_prune now s =
     (let cutoff = now + - ss_retention s;
          (rest, m, n) = prune_loop cutoff (rev (ss_ordered s)) (ss_byID s) 0
      in (s\<lparr>ss_byID := m, ss_ordered := rev rest, ss_pruned := ss_pruned s + of_nat n\<rparr>, n))"

record store_stats =
  sts_Events :: nat
  sts_Live :: nat
  sts_Watchers :: nat
  sts_Applied :: "64 word"
  sts_Pruned :: "64 word"

definition get_stats :: "store \<Rightarrow> store_stats" where
  "get_stats s =
     \<lparr>sts_Events = length (ss_byID s),
      sts_Live = length (filter (\<lambda>(_, e). running (en_ev e)) (ss_byID s)),
      sts_Watchers = length (ss_subs s), sts_Applied = ss_applied s, sts_Pruned = ss_pruned s\<rparr>"

declare map_of_eq_Some_iff [simp del]

section \<open>The order of the list\<close>

definition key :: "entry \<Rightarrow> time \<times> string" where
  "key e = (ev_StartedAt (en_ev e), ev_ID (en_ev e))"

lemma older_iff: "older e c \<longleftrightarrow> key e < c"
  by (cases c) (auto simp: older_def key_def)

lemma newer_iff: "newer e c \<longleftrightarrow> c < key e"
  by (cases c) (auto simp: newer_def key_def)

definition newest_first :: "entry list \<Rightarrow> bool" where
  "newest_first xs \<longleftrightarrow> sorted_wrt (\<lambda>a b. key b < key a) xs"

lemma newest_first_nth:
  "newest_first xs \<Longrightarrow> i \<le> j \<Longrightarrow> j < length xs \<Longrightarrow> key (xs ! j) \<le> key (xs ! i)"
  unfolding newest_first_def
  by (cases "i = j") (auto intro!: less_imp_le dest: sorted_wrt_nth_less [of _ xs i j])

lemma search_older:
  assumes "newest_first xs"
  shows "sort_search (length xs) (\<lambda>i. older (xs ! i) c) = length (takeWhile (\<lambda>e. \<not> older e c) xs)"
  using newest_first_nth [OF assms] by (intro sort_search_list) (auto simp: older_iff intro: le_less_trans)

lemma search_not_newer:
  assumes "newest_first xs"
  shows "sort_search (length xs) (\<lambda>i. \<not> newer (xs ! i) c) = length (takeWhile (\<lambda>e. newer e c) xs)"
proof -
  have "sort_search (length xs) (\<lambda>i. \<not> newer (xs ! i) c) = length (takeWhile (\<lambda>e. \<not> \<not> newer e c) xs)"
    using newest_first_nth [OF assms]
    by (intro sort_search_list) (auto simp: newer_iff not_less intro: order_trans)
  then show ?thesis by simp
qed

text \<open>On a sorted index the two searches split the list at the cursor.\<close>

lemma takeWhile_newest:
  assumes "newest_first xs" and "\<And>e e'. key e' < key e \<Longrightarrow> P e' \<Longrightarrow> P e"
  shows "takeWhile P xs = filter P xs" and "dropWhile P xs = filter (\<lambda>e. \<not> P e) xs"
proof -
  have "takeWhile P xs = filter P xs \<and> dropWhile P xs = filter (\<lambda>e. \<not> P e) xs"
    using assms(1) unfolding newest_first_def
  proof (induction xs)
    case (Cons x xs)
    show ?case
    proof (cases "P x")
      case False
      then have "\<forall>y \<in> set xs. \<not> P y" using assms(2) [of _ x] Cons.prems by auto
      with False show ?thesis by (simp add: filter_id_conv filter_empty_conv)
    qed (use Cons in simp)
  qed simp
  then show "takeWhile P xs = filter P xs" and "dropWhile P xs = filter (\<lambda>e. \<not> P e) xs" by simp_all
qed

lemma insert_entry_eq:
  assumes "newest_first xs"
  shows "insert_entry e xs = filter (\<lambda>x. \<not> key x < key e) xs @ [e] @ filter (\<lambda>x. key x < key e) xs"
proof -
  have "takeWhile (\<lambda>x. \<not> older x (key e)) xs = filter (\<lambda>x. \<not> older x (key e)) xs"
    and "dropWhile (\<lambda>x. \<not> older x (key e)) xs = filter (\<lambda>x. \<not> \<not> older x (key e)) xs"
    by (rule takeWhile_newest [OF assms]; simp add: older_iff)+
  then show ?thesis
    unfolding insert_entry_def Let_def key_def [symmetric] search_older [OF assms]
      take_takeWhile_length drop_takeWhile_length
    by (simp add: older_iff)
qed

lemma newest_first_key: "newest_first xs \<Longrightarrow> a \<in> set xs \<Longrightarrow> b \<in> set xs \<Longrightarrow> key a = key b \<Longrightarrow> a = b"
proof -
  have "sorted_wrt (\<lambda>a b. key b < key a) xs \<Longrightarrow> a \<in> set xs \<Longrightarrow> b \<in> set xs \<Longrightarrow> key a = key b \<Longrightarrow> a = b"
    by (induction xs) auto
  then show "newest_first xs \<Longrightarrow> a \<in> set xs \<Longrightarrow> b \<in> set xs \<Longrightarrow> key a = key b \<Longrightarrow> a = b"
    by (simp add: newest_first_def)
qed

lemma newest_first_filter: "newest_first xs \<Longrightarrow> newest_first (filter P xs)"
  by (simp add: newest_first_def sorted_wrt_filter)

lemma insert_entry_sorted:
  assumes "newest_first xs" and "\<forall>x \<in> set xs. key x \<noteq> key e"
  shows "newest_first (insert_entry e xs)" and "set (insert_entry e xs) = insert e (set xs)"
proof -
  have lt: "key e < key x" if "x \<in> set xs" "\<not> key x < key e" for x
    using assms(2) that by (metis linorder_neqE)
  then show "newest_first (insert_entry e xs)"
    using newest_first_filter [OF assms(1)]
    unfolding insert_entry_eq [OF assms(1)] newest_first_def
    by (auto simp: sorted_wrt_append dest: less_trans)
  show "set (insert_entry e xs) = insert e (set xs)"
    unfolding insert_entry_eq [OF assms(1)] by auto
qed

lemma remove_entry_eq:
  assumes "newest_first xs" and "e \<in> set xs"
  shows "remove_entry e xs = filter (\<lambda>x. x \<noteq> e) xs"
proof -
  have "takeWhile (\<lambda>x. newer x (key e)) xs = filter (\<lambda>x. newer x (key e)) xs"
    and dw: "dropWhile (\<lambda>x. newer x (key e)) xs = filter (\<lambda>x. \<not> newer x (key e)) xs"
    by (rule takeWhile_newest [OF assms(1)]; simp add: newer_iff)+
  define hs where "hs = takeWhile (\<lambda>x. newer x (key e)) xs"
  define ts where "ts = dropWhile (\<lambda>x. newer x (key e)) xs"
  have xs: "xs = hs @ ts" by (simp add: hs_def ts_def)
  have "e \<in> set ts" using assms(2) unfolding ts_def dw by (simp add: newer_iff)
  moreover have "key x \<le> key e" if "x \<in> set ts" for x
    using that unfolding ts_def dw by (simp add: newer_iff not_less)
  ultimately obtain ts' where ts: "ts = e # ts'"
    using assms(1) unfolding xs newest_first_def
    by (cases ts) (auto simp: sorted_wrt_append dest: leD)
  have "e \<notin> set hs" by (auto simp: hs_def newer_iff dest: set_takeWhileD)
  moreover have "e \<notin> set ts'"
    using assms(1) unfolding xs ts newest_first_def by (auto simp: sorted_wrt_append)
  moreover have "remove_entry e xs = hs @ ts'"
    unfolding remove_entry_def Let_def key_def [symmetric] search_not_newer [OF assms(1)]
    unfolding hs_def [symmetric] by (simp add: xs ts)
  ultimately have "filter (\<lambda>x. x \<noteq> e) hs = hs" "filter (\<lambda>x. x \<noteq> e) ts' = ts'"
    and "remove_entry e xs = hs @ ts'"
    by (auto simp: filter_id_conv)
  then show ?thesis by (simp add: xs ts)
qed

section \<open>Invariant\<close>

definition entry_ok :: "entry \<Rightarrow> bool" where
  "entry_ok e \<longleftrightarrow> en_history e \<noteq> [] \<and> length (en_history e) \<le> max_history
     \<and> rv_Event (last (en_history e)) = en_ev e \<and> rv_At (last (en_history e)) = en_updatedAt e"

definition store_inv :: "store \<Rightarrow> bool" where
  "store_inv s \<longleftrightarrow> newest_first (ss_ordered s) \<and> gm_wf (ss_byID s)
     \<and> (\<forall>k e. gm_get (ss_byID s) k = Some e \<longleftrightarrow> e \<in> set (ss_ordered s) \<and> ev_ID (en_ev e) = k)
     \<and> (\<forall>e \<in> set (ss_ordered s). entry_ok e)
     \<and> gm_wf (ss_subs s) \<and> (\<forall>(_, sub) \<in> set (ss_subs s). length (sub_ch sub) \<le> watch_buffer)"

lemma store_inv_new: "store_inv (new_store r)"
  by (simp add: store_inv_def new_store_def newest_first_def)

lemma push_history_ok:
  "push_history r h \<noteq> []" "length (push_history r h) \<le> max (length h) max_history \<or> length (push_history r h) \<le> max_history"
  "last (push_history r h) = r"
  "h \<noteq> [] \<Longrightarrow> hd (push_history r h) = hd h"
  by (auto simp: push_history_def Let_def max_history_def hd_append last_drop hd_take)

lemma push_history_length: "length h \<le> max_history \<Longrightarrow> length (push_history r h) \<le> max_history"
  by (auto simp: push_history_def Let_def max_history_def)

lemma offer_length: "length (sub_ch sub) \<le> watch_buffer \<Longrightarrow> length (sub_ch (offer c sub)) \<le> watch_buffer"
  by (simp add: offer_def)

lemma store_inv_id:
  assumes "store_inv s" and "a \<in> set (ss_ordered s)" and "b \<in> set (ss_ordered s)"
    and "ev_ID (en_ev a) = ev_ID (en_ev b)"
  shows "a = b"
  using assms unfolding store_inv_def by (metis option.inject)

lemma store_apply_inv:
  assumes "store_inv s"
  shows "store_inv (store_apply now c s)"
proof -
  define k where "k = ev_ID (chg_event c)"
  define ordered where "ordered = (case gm_get (ss_byID s) k of None \<Rightarrow> ss_ordered s
    | Some e \<Rightarrow> remove_entry e (ss_ordered s))"
  define history where "history = (case gm_get (ss_byID s) k of None \<Rightarrow> [] | Some e \<Rightarrow> en_history e)"
  define e where "e = \<lparr>en_ev = chg_event c, en_updatedAt = now,
    en_history = push_history \<lparr>rv_At = now, rv_Op = chg_op c, rv_Event = chg_event c\<rparr> history\<rparr>"
  define s' where "s' = store_apply now c s"
  have s': "ss_byID s' = gm_set k e (ss_byID s)" "ss_ordered s' = insert_entry e ordered"
    "ss_subs s' = map (\<lambda>(k, sub). (k, offer c sub)) (ss_subs s)"
    by (simp_all add: s'_def store_apply_def Let_def k_def e_def ordered_def history_def)
  from assms have nf: "newest_first (ss_ordered s)" and wf: "gm_wf (ss_byID s)"
    and agree: "\<And>k e. gm_get (ss_byID s) k = Some e \<longleftrightarrow> e \<in> set (ss_ordered s) \<and> ev_ID (en_ev e) = k"
    and ok: "\<And>e. e \<in> set (ss_ordered s) \<Longrightarrow> entry_ok e"
    and subs: "gm_wf (ss_subs s)" "\<forall>(_, sub) \<in> set (ss_subs s). length (sub_ch sub) \<le> watch_buffer"
    by (simp_all add: store_inv_def)
  have ordered: "newest_first ordered" "set ordered = {x \<in> set (ss_ordered s). ev_ID (en_ev x) \<noteq> k}"
  proof -
    have "newest_first ordered \<and> set ordered = {x \<in> set (ss_ordered s). ev_ID (en_ev x) \<noteq> k}"
    proof (cases "gm_get (ss_byID s) k")
      case None
      then have "\<forall>x \<in> set (ss_ordered s). ev_ID (en_ev x) \<noteq> k" using agree by (metis option.distinct(1))
      with None nf show ?thesis by (auto simp: ordered_def)
    next
      case (Some e0)
      then have "e0 \<in> set (ss_ordered s)" "ev_ID (en_ev e0) = k" using agree by blast+
      moreover from this have "ev_ID (en_ev x) = k \<longleftrightarrow> x = e0" if "x \<in> set (ss_ordered s)" for x
        using store_inv_id [OF assms that, of e0] by auto
      ultimately show ?thesis using Some nf
        by (auto simp: ordered_def remove_entry_eq newest_first_filter)
    qed
    then show "newest_first ordered" "set ordered = {x \<in> set (ss_ordered s). ev_ID (en_ev x) \<noteq> k}"
      by simp_all
  qed
  have id: "ev_ID (en_ev e) = k" by (simp add: e_def k_def)
  with ordered(2) have "\<forall>x \<in> set ordered. key x \<noteq> key e" by (auto simp: key_def)
  note ins = insert_entry_sorted [OF ordered(1) this]
  have "length history \<le> max_history"
    using agree ok by (auto simp: history_def entry_ok_def split: option.split)
  then have "entry_ok e"
    by (simp add: e_def entry_ok_def push_history_ok push_history_length)
  then have "\<forall>x \<in> set (ss_ordered s'). entry_ok x" using ok by (auto simp: s'(2) ins(2) ordered(2))
  moreover have "gm_get (ss_byID s') j = Some x \<longleftrightarrow> x \<in> set (ss_ordered s') \<and> ev_ID (en_ev x) = j" for j x
  proof (cases "j = k")
    case True
    with id show ?thesis by (auto simp: s' ins(2) ordered(2))
  next
    case False
    with id agree [of j x] show ?thesis by (auto simp: s' ins(2) ordered(2))
  qed
  moreover have "\<forall>(_, sub) \<in> set (ss_subs s'). length (sub_ch sub) \<le> watch_buffer"
    using subs(2) offer_length by (auto simp: s'(3))
  ultimately show ?thesis
    using ins(1) wf subs(1) unfolding s'_def [symmetric] store_inv_def
    by (simp add: s' gm_wf_set)
qed

lemma saw_camera_inv: "store_inv s \<Longrightarrow> store_inv (saw_camera name s)"
  by (simp add: saw_camera_def store_inv_def)

lemma drop_sub_inv: "store_inv s \<Longrightarrow> store_inv (drop_sub k s)"
  using gm_del_entries [of k "ss_subs s"] by (auto simp: drop_sub_def store_inv_def gm_wf_del)

lemma subs_set_inv:
  assumes "store_inv s" and "length (sub_ch sub) \<le> watch_buffer"
  shows "store_inv (s\<lparr>ss_subs := gm_set k sub (ss_subs s)\<rparr>)"
proof -
  have "set (gm_set k sub (ss_subs s)) \<subseteq> insert (k, sub) (set (ss_subs s))" by (rule gm_set_entries)
  with assms have "\<forall>(_, sub) \<in> set (gm_set k sub (ss_subs s)). length (sub_ch sub) \<le> watch_buffer"
    unfolding store_inv_def by blast
  with assms(1) show ?thesis by (simp add: store_inv_def gm_wf_set)
qed

lemma fold_offer_length:
  "length (sub_ch sub) \<le> watch_buffer \<Longrightarrow>
     length (sub_ch (fold (\<lambda>e sub. if P e then sub else offer (f e) sub) es sub)) \<le> watch_buffer"
  by (induction es arbitrary: sub) (simp_all add: offer_length)

lemma store_watch_inv: "store_inv s \<Longrightarrow> store_inv (store_watch k since cameras s)"
  unfolding store_watch_def Let_def
  by (rule subs_set_inv) (simp_all add: fold_offer_length)

lemma receive_inv: "store_inv s \<Longrightarrow> store_inv (snd (receive k s))"
proof (cases "gm_get (ss_subs s) k")
  case (Some sub)
  assume inv: "store_inv s"
  show ?thesis
  proof (cases "sub_ch sub")
    case (Cons c cs)
    from inv Some have "length (sub_ch sub) \<le> watch_buffer"
      unfolding store_inv_def by (auto dest: map_of_SomeD)
    with Cons have "length (sub_ch (sub\<lparr>sub_ch := cs\<rparr>)) \<le> watch_buffer" by simp
    from subs_set_inv [OF inv this] show ?thesis by (simp add: receive_def Some Cons)
  qed (use inv Some in \<open>simp add: receive_def\<close>)
qed (simp add: receive_def)

section \<open>Pruning\<close>

lemma prune_loop_eq:
  "prune_loop cutoff es m n =
     (let P = (\<lambda>e. ev_StartedAt (en_ev e) < cutoff)
      in (dropWhile P es, fold (\<lambda>e. gm_del (ev_ID (en_ev e))) (takeWhile P es) m,
          n + length (takeWhile P es)))"
  by (induction cutoff es m n rule: prune_loop.induct) (simp_all add: Let_def)

lemma fold_del_get:
  "gm_get (fold (\<lambda>e. gm_del (f e)) es m) k = (if k \<in> f ` set es then None else gm_get m k)"
  by (induction es arbitrary: m) (auto)

lemma fold_del_wf: "gm_wf m \<Longrightarrow> gm_wf (fold (\<lambda>e. gm_del (f e)) es m)"
  by (induction es arbitrary: m) (simp_all add: gm_wf_del)

lemma prune_split:
  assumes "newest_first xs"
  shows "rev (dropWhile (\<lambda>e. ev_StartedAt (en_ev e) < cutoff) (rev xs))
      = filter (\<lambda>e. cutoff \<le> ev_StartedAt (en_ev e)) xs"
    and "set (takeWhile (\<lambda>e. ev_StartedAt (en_ev e) < cutoff) (rev xs))
      = {e \<in> set xs. ev_StartedAt (en_ev e) < cutoff}"
    and "length (takeWhile (\<lambda>e. ev_StartedAt (en_ev e) < cutoff) (rev xs))
      = length xs - length (filter (\<lambda>e. cutoff \<le> ev_StartedAt (en_ev e)) xs)"
proof -
  let ?P = "\<lambda>e. ev_StartedAt (en_ev e) < cutoff"
  have "takeWhile ?P (rev xs) = filter ?P (rev xs) \<and> dropWhile ?P (rev xs) = filter (\<lambda>e. \<not> ?P e) (rev xs)"
    using assms unfolding newest_first_def
  proof (induction xs rule: rev_induct)
    case (snoc x xs)
    have "ev_StartedAt (en_ev x) \<le> ev_StartedAt (en_ev y)" if "y \<in> set xs" for y
      using snoc.prems that by (auto simp: sorted_wrt_append key_def)
    moreover have "sorted_wrt (\<lambda>a b. key b < key a) xs" using snoc.prems by (simp add: sorted_wrt_append)
    note snoc.IH [OF this]
    moreover have "filter ?P (rev xs) = []" "filter (\<lambda>e. \<not> ?P e) (rev xs) = rev xs" if "\<not> ?P x"
    proof -
      have "\<not> ?P y" if "y \<in> set xs" for y using calculation(1) [OF that] \<open>\<not> ?P x\<close> by simp
      then show "filter ?P (rev xs) = []" "filter (\<lambda>e. \<not> ?P e) (rev xs) = rev xs"
        by (simp_all add: filter_id_conv filter_empty_conv)
    qed
    ultimately show ?case by (cases "?P x") simp_all
  qed simp
  then have tw: "takeWhile ?P (rev xs) = filter ?P (rev xs)"
    and dw: "dropWhile ?P (rev xs) = filter (\<lambda>e. \<not> ?P e) (rev xs)" by simp_all
  show "rev (dropWhile ?P (rev xs)) = filter (\<lambda>e. cutoff \<le> ev_StartedAt (en_ev e)) xs"
    unfolding dw by (simp add: rev_filter not_less)
  show "set (takeWhile ?P (rev xs)) = {e \<in> set xs. ev_StartedAt (en_ev e) < cutoff}"
    unfolding tw by auto
  have "length (filter ?P xs) = length xs - length (filter (\<lambda>e. \<not> ?P e) xs)"
    using sum_length_filter_compl [of ?P xs] by simp
  then show "length (takeWhile ?P (rev xs))
      = length xs - length (filter (\<lambda>e. cutoff \<le> ev_StartedAt (en_ev e)) xs)"
    unfolding tw by (simp add: not_less flip: rev_filter)
qed

lemma store_prune_spec:
  assumes "store_inv s" and "store_prune now s = (s', n)"
  defines "cutoff \<equiv> now - ss_retention s"
  shows "store_inv s'"
    and "ss_ordered s' = filter (\<lambda>e. cutoff \<le> ev_StartedAt (en_ev e)) (ss_ordered s)"
    and "n = length (ss_ordered s) - length (ss_ordered s')"
    and "gm_get (ss_byID s') k = (case gm_get (ss_byID s) k of None \<Rightarrow> None
      | Some e \<Rightarrow> if cutoff \<le> ev_StartedAt (en_ev e) then Some e else None)"
    and "ss_subs s' = ss_subs s"
proof -
  from assms(1) have nf: "newest_first (ss_ordered s)" and wf: "gm_wf (ss_byID s)"
    and agree: "\<And>k e. gm_get (ss_byID s) k = Some e \<longleftrightarrow> e \<in> set (ss_ordered s) \<and> ev_ID (en_ev e) = k"
    by (simp_all add: store_inv_def)
  let ?P = "\<lambda>e. ev_StartedAt (en_ev e) < cutoff"
  have s': "ss_ordered s' = rev (dropWhile ?P (rev (ss_ordered s)))"
    "ss_byID s' = fold (\<lambda>e. gm_del (ev_ID (en_ev e))) (takeWhile ?P (rev (ss_ordered s))) (ss_byID s)"
    "n = length (takeWhile ?P (rev (ss_ordered s)))" "ss_subs s' = ss_subs s"
    using assms(2) by (auto simp: store_prune_def prune_loop_eq Let_def cutoff_def)
  show ord: "ss_ordered s' = filter (\<lambda>e. cutoff \<le> ev_StartedAt (en_ev e)) (ss_ordered s)"
    unfolding s' by (rule prune_split(1) [OF nf])
  show "n = length (ss_ordered s) - length (ss_ordered s')"
    unfolding ord s'(3) by (rule prune_split(3) [OF nf])
  show "ss_subs s' = ss_subs s" by fact
  have get: "gm_get (ss_byID s') k = (case gm_get (ss_byID s) k of None \<Rightarrow> None
      | Some e \<Rightarrow> if cutoff \<le> ev_StartedAt (en_ev e) then Some e else None)" for k
  proof (cases "gm_get (ss_byID s) k")
    case None
    then show ?thesis unfolding s'(2) fold_del_get by simp
  next
    case (Some e)
    then have e: "e \<in> set (ss_ordered s)" "ev_ID (en_ev e) = k" using agree [of k e] by simp_all
    have same: "x = e" if "x \<in> set (ss_ordered s)" "ev_ID (en_ev x) = k" for x
      using store_inv_id [OF assms(1) that(1) e(1)] that(2) e(2) by simp
    have "k \<in> (\<lambda>e. ev_ID (en_ev e)) ` {x \<in> set (ss_ordered s). ?P x} \<longleftrightarrow> ?P e"
    proof
      assume "k \<in> (\<lambda>e. ev_ID (en_ev e)) ` {x \<in> set (ss_ordered s). ?P x}"
      then obtain x where "x \<in> set (ss_ordered s)" "?P x" "ev_ID (en_ev x) = k" by blast
      with same [of x] show "?P e" by simp
    next
      assume "?P e"
      with e show "k \<in> (\<lambda>e. ev_ID (en_ev e)) ` {x \<in> set (ss_ordered s). ?P x}"
        by (intro image_eqI [of _ _ e]) simp_all
    qed
    then show ?thesis unfolding s'(2) fold_del_get prune_split(2) [OF nf] Some
      by (simp add: not_less)
  qed
  then show "gm_get (ss_byID s') k = (case gm_get (ss_byID s) k of None \<Rightarrow> None
      | Some e \<Rightarrow> if cutoff \<le> ev_StartedAt (en_ev e) then Some e else None)" .
  have "gm_get (ss_byID s') k = Some e \<longleftrightarrow> e \<in> set (ss_ordered s') \<and> ev_ID (en_ev e) = k" for k e
  proof -
    have "gm_get (ss_byID s') k = Some e \<longleftrightarrow> gm_get (ss_byID s) k = Some e \<and> cutoff \<le> ev_StartedAt (en_ev e)"
      unfolding get by (cases "gm_get (ss_byID s) k") auto
    then show ?thesis unfolding ord using agree [of k e] by auto
  qed
  then show "store_inv s'"
    using assms(1) nf wf unfolding store_inv_def
    by (simp add: ord s'(2,4) newest_first_filter fold_del_wf)
qed

section \<open>Pages\<close>

lemma page_from_eq: "page_from want n es = take (nat n) (map en_ev (filter (\<lambda>e. wants want (ev_Camera (en_ev e))) es))"
proof (induction want n es rule: page_from.induct)
  case (2 want n e es)
  show ?case
  proof (cases "n \<le> 0")
    case False
    then have "nat n = Suc (nat (n - 1))" by simp
    with False 2 show ?thesis by simp
  qed simp
qed simp

lemma parse_cursor_string:
  assumes "i \<noteq> []" and "min_duration \<le> t - unix_epoch" and "t - unix_epoch \<le> max_duration"
  shows "parse_cursor (cursor_string (t, i)) = Inr (t, i)"
proof -
  have n: "unix_nano t = t - unix_epoch" using assms(2,3) by (simp add: unix_nano_def int64_id)
  then have "parse_int (itoa (unix_nano t)) = Some (t - unix_epoch)" using assms(2,3) by (simp add: parse_int_itoa)
  moreover have "cut (CHR ''|'') (itoa (unix_nano t) @ ''|'' @ i) = Some (itoa (unix_nano t), i)"
    by (simp add: cut_append)
  ultimately show ?thesis
    using assms(1) by (simp add: parse_cursor_def cursor_string_def base64url_decode_encode time_unix_def)
qed

lemma parse_cursor_empty: "parse_cursor [] = Inl ErrBadToken"
  by code_simp

text \<open>What the pages still have to deliver after a cursor.\<close>

definition wanted :: "string list \<Rightarrow> entry list \<Rightarrow> entry list" where
  "wanted cameras xs = filter (\<lambda>e. wants (camera_set cameras) (ev_Camera (en_ev e))) xs"

lemma drop_older:
  assumes "newest_first xs"
  shows "drop (sort_search (length xs) (\<lambda>i. older (xs ! i) c)) xs = filter (\<lambda>e. older e c) xs"
proof -
  have "dropWhile (\<lambda>e. \<not> older e c) xs = filter (\<lambda>e. \<not> \<not> older e c) xs"
    by (rule takeWhile_newest [OF assms]) (simp add: older_iff)
  then show ?thesis unfolding search_older [OF assms] drop_takeWhile_length by simp
qed

lemma newest_first_drop:
  assumes "newest_first xs" and "n \<le> length xs" and "0 < n"
  shows "filter (\<lambda>e. older e (key (xs ! (n - 1)))) xs = drop n xs"
proof -
  have split: "xs = take n xs @ drop n xs" by simp
  have "\<forall>e \<in> set (take n xs). \<not> older e (key (xs ! (n - 1)))"
    using newest_first_nth [OF assms(1), of _ "n - 1"] assms(2,3)
    by (auto simp: in_set_conv_nth older_iff not_less)
  moreover have "\<forall>e \<in> set (drop n xs). older e (key (xs ! (n - 1)))"
    using assms sorted_wrt_nth_less [of "\<lambda>a b. key b < key a" xs "n - 1"]
    by (auto simp: in_set_conv_nth older_iff newest_first_def)
  ultimately show ?thesis
    by (subst split) (simp only: filter_append, simp add: filter_empty_conv filter_id_conv)
qed

text \<open>A client that asks for page after page until one is empty.\<close>

fun all_pages :: "nat \<Rightarrow> string list \<Rightarrow> int \<Rightarrow> string \<Rightarrow> store \<Rightarrow> store_error + event list list" where
  "all_pages 0 cameras n token s = Inr []"
| "all_pages (Suc fuel) cameras n token s =
     (case store_list cameras n token s of
        Inl err \<Rightarrow> Inl err
      | Inr (page, token') \<Rightarrow>
          if page = [] then Inr []
          else case all_pages fuel cameras n token' s of
                 Inl err \<Rightarrow> Inl err
               | Inr ps \<Rightarrow> Inr (page # ps))"

definition listable :: "store \<Rightarrow> bool" where
  "listable s \<longleftrightarrow> (\<forall>e \<in> set (ss_ordered s). ev_ID (en_ev e) \<noteq> []
     \<and> min_duration \<le> ev_StartedAt (en_ev e) - unix_epoch
     \<and> ev_StartedAt (en_ev e) - unix_epoch \<le> max_duration)"

text \<open>One page, given what is left.\<close>

lemma list_page_step:
  assumes "store_inv s" and "listable s" and "0 < n"
    and rest: "(case after of None \<Rightarrow> wanted cameras (ss_ordered s)
               | Some c \<Rightarrow> filter (\<lambda>e. older e c) (wanted cameras (ss_ordered s))) = left"
    and page: "list_page (camera_set cameras) n after s = (pg, token)"
  shows "pg = map en_ev (take (nat n) left)"
    and "left \<noteq> [] \<Longrightarrow> \<exists>c. token \<noteq> [] \<and> parse_cursor token = Inr c
      \<and> filter (\<lambda>e. older e c) (wanted cameras (ss_ordered s)) = drop (nat n) left"
proof -
  from assms(1) have nf: "newest_first (ss_ordered s)" by (simp add: store_inv_def)
  let ?start = "case after of None \<Rightarrow> 0
    | Some c \<Rightarrow> sort_search (length (ss_ordered s)) (\<lambda>i. older (ss_ordered s ! i) c)"
  let ?page = "page_from (camera_set cameras) n (drop ?start (ss_ordered s))"
  have "wanted cameras (drop ?start (ss_ordered s)) = left"
  proof (cases after)
    case None
    with rest show ?thesis by (simp add: wanted_def)
  next
    case (Some c)
    with rest show ?thesis by (simp add: drop_older [OF nf] wanted_def conj_commute)
  qed
  then have pe: "?page = map en_ev (take (nat n) left)"
    by (simp add: page_from_eq wanted_def take_map)
  show pg: "pg = map en_ev (take (nat n) left)"
    using page pe by (simp add: list_page_def Let_def split: if_splits)
  assume ne: "left \<noteq> []"
  define m where "m = min (nat n) (length left)"
  have m: "0 < m" "m \<le> length left" using ne assms(3) by (auto simp: m_def)
  have tk: "take (nat n) left = take m left" "drop (nat n) left = drop m left" by (auto simp: m_def min_def)
  have nfl: "newest_first left"
    using rest nf by (auto simp: wanted_def newest_first_filter split: option.splits)
  have sub: "set left \<subseteq> set (wanted cameras (ss_ordered s))"
    using rest by (auto split: option.splits)
  define e where "e = left ! (m - 1)"
  have e: "e \<in> set left" using m by (simp add: e_def)
  have "last (map en_ev (take m left)) = en_ev e"
    using m ne by (subst last_conv_nth) (auto simp: e_def min_def)
  then have token: "token = cursor_string (key e)"
    using page pe pg ne m tk by (auto simp: list_page_def Let_def key_def split: if_splits)
  have "e \<in> set (ss_ordered s)" using e sub by (auto simp: wanted_def)
  with assms(2) have parse: "parse_cursor token = Inr (key e)"
    unfolding token key_def by (intro parse_cursor_string) (auto simp: listable_def)
  have "filter (\<lambda>x. older x (key e)) left = drop m left"
    unfolding e_def by (rule newest_first_drop [OF nfl m(2,1)])
  moreover have "filter (\<lambda>x. older x (key e)) (wanted cameras (ss_ordered s)) = filter (\<lambda>x. older x (key e)) left"
  proof (cases after)
    case None
    with rest show ?thesis by simp
  next
    case (Some c)
    with rest e have "key e < c" by (auto simp: older_iff)
    then have "older x (key e) \<Longrightarrow> older x c" for x by (auto simp: older_iff)
    then have "(\<lambda>x. older x c \<and> older x (key e)) = (\<lambda>x. older x (key e))" by blast
    moreover have "left = filter (\<lambda>x. older x c) (wanted cameras (ss_ordered s))" using Some rest by simp
    ultimately show ?thesis by (simp only: filter_filter)
  qed
  ultimately show "\<exists>c. token \<noteq> [] \<and> parse_cursor token = Inr c
      \<and> filter (\<lambda>e. older e c) (wanted cameras (ss_ordered s)) = drop (nat n) left"
    using parse parse_cursor_empty tk by (intro exI [of _ "key e"]) auto
qed

lemma all_pages_left:
  assumes "store_inv s" and "listable s" and "0 < n"
    and "token = [] \<and> left = wanted cameras (ss_ordered s)
      \<or> (\<exists>c. token \<noteq> [] \<and> parse_cursor token = Inr c
           \<and> left = filter (\<lambda>e. older e c) (wanted cameras (ss_ordered s)))"
    and "length left < fuel"
  shows "\<exists>ps. all_pages fuel cameras n token s = Inr ps \<and> concat ps = map en_ev left
    \<and> (\<forall>p \<in> set ps. p \<noteq> [] \<and> int (length p) \<le> n) \<and> (\<forall>p \<in> set (butlast ps). int (length p) = n)"
  using assms(4,5)
proof (induction fuel arbitrary: token left)
  case (Suc fuel)
  obtain after where list: "store_list cameras n token s = Inr (list_page (camera_set cameras) n after s)"
    and rest: "(case after of None \<Rightarrow> wanted cameras (ss_ordered s)
               | Some c \<Rightarrow> filter (\<lambda>e. older e c) (wanted cameras (ss_ordered s))) = left"
    using Suc.prems(1) by (auto simp: store_list_def)
  obtain pg token' where page: "list_page (camera_set cameras) n after s = (pg, token')" by fastforce
  note step = list_page_step [OF assms(1-3) rest page]
  show ?case
  proof (cases "left = []")
    case True
    with step(1) show ?thesis by (simp add: list page)
  next
    case False
    from step(2) [OF False] obtain c where c: "token' \<noteq> []" "parse_cursor token' = Inr c"
      "filter (\<lambda>e. older e c) (wanted cameras (ss_ordered s)) = drop (nat n) left" by blast
    have pg: "pg \<noteq> []" using step(1) False assms(3) by simp
    have "length (drop (nat n) left) < fuel" using Suc.prems(2) False assms(3) by (cases left) auto
    from Suc.IH [OF _ this, of token'] c obtain ps where
      ps: "all_pages fuel cameras n token' s = Inr ps" "concat ps = map en_ev (drop (nat n) left)"
      "\<forall>p \<in> set ps. p \<noteq> [] \<and> int (length p) \<le> n" "\<forall>p \<in> set (butlast ps). int (length p) = n" by auto
    have "concat (pg # ps) = map en_ev left"
      by (simp add: step(1) ps(2) flip: map_append)
    moreover have "int (length pg) \<le> n" using step(1) assms(3) by simp
    moreover have "int (length pg) = n" if "ps \<noteq> []"
    proof -
      from that ps(3) have "concat ps \<noteq> []" by (cases ps) auto
      with ps(2) have "nat n < length left" by simp
      with step(1) assms(3) show ?thesis by simp
    qed
    ultimately show ?thesis using ps pg by (intro exI [of _ "pg # ps"]) (simp add: list page)
  qed
qed simp

text \<open>
  Further. Pagination loses and repeats nothing: a client that starts without a token and hands each
  page's token back gets, page after page until an empty one, exactly the stored events of the
  cameras it asked for, newest first, in full pages but for the last; no token is ever refused.
\<close>

theorem pages_complete:
  assumes "store_inv s" and "listable s" and "0 < n" and "length (ss_ordered s) < fuel"
  shows "\<exists>ps. all_pages fuel cameras n [] s = Inr ps
    \<and> concat ps = filter (\<lambda>ev. wants (camera_set cameras) (ev_Camera ev)) (map en_ev (ss_ordered s))
    \<and> (\<forall>p \<in> set ps. p \<noteq> [] \<and> int (length p) \<le> n) \<and> (\<forall>p \<in> set (butlast ps). int (length p) = n)"
proof -
  have "length (wanted cameras (ss_ordered s)) < fuel"
    using assms(4) by (simp add: wanted_def order.strict_trans1 [OF length_filter_le])
  from all_pages_left [OF assms(1-3) _ this, of "[]"] show ?thesis
    by (simp add: wanted_def filter_map comp_def)
qed

section \<open>Properties\<close>

text \<open>The operations of the store as steps, for what holds in every reachable state.\<close>

inductive store_step :: "store \<Rightarrow> store \<Rightarrow> bool" where
  step_apply: "store_step s (store_apply now c s)"
| step_saw: "store_step s (saw_camera name s)"
| step_watch: "k \<notin> set (gm_keys (ss_subs s)) \<Longrightarrow> store_step s (store_watch k since cameras s)"
| step_drop: "store_step s (drop_sub k s)"
| step_receive: "store_step s (snd (receive k s))"
| step_prune: "store_step s (fst (store_prune now s))"

inductive_cases store_step_cases: "store_step s s'"

lemma store_step_inv: "store_step s s' \<Longrightarrow> store_inv s \<Longrightarrow> store_inv s'"
proof (induction rule: store_step.induct)
  case (step_prune s now)
  then show ?case by (cases "store_prune now s") (simp add: store_prune_spec(1))
qed (simp_all add: store_apply_inv saw_camera_inv store_watch_inv drop_sub_inv receive_inv)

text \<open>
  C11. The two indexes of the store never disagree: in every state reachable from an empty store by
  any interleaving of its operations, the list is sorted strictly newest first, it holds exactly the
  entries of the map under their own ids, every history is non-empty, has at most 64 revisions and
  ends in the event as it stands, and no watcher is more than 256 changes behind.
\<close>

theorem store_reachable_inv:
  assumes "store_step\<^sup>*\<^sup>* (new_store r) s"
  shows "sorted_wrt (\<lambda>a b. key b < key a) (ss_ordered s)
    \<and> (\<forall>i e. gm_get (ss_byID s) i = Some e \<longleftrightarrow> e \<in> set (ss_ordered s) \<and> ev_ID (en_ev e) = i)
    \<and> (\<forall>e \<in> set (ss_ordered s). en_history e \<noteq> [] \<and> length (en_history e) \<le> 64
         \<and> rv_Event (last (en_history e)) = en_ev e)
    \<and> (\<forall>(k, sub) \<in> set (ss_subs s). length (sub_ch sub) \<le> 256)"
proof -
  from assms have "store_inv s"
    by (induction rule: rtranclp_induct) (auto intro: store_inv_new store_step_inv)
  then show ?thesis
    by (simp add: store_inv_def newest_first_def entry_ok_def max_history_def watch_buffer_def)
qed

lemma sample_inv:
  "store_inv (store_apply 9 (Change OpStarted (zero_event\<lparr>ev_ID := ''x'', ev_StartedAt := unix_epoch + 7\<rparr>))
     (new_store Hour))"
  by (rule store_apply_inv) (rule store_inv_new)

lemma store_reachable_inv_witness:
  "\<exists>s. store_step\<^sup>*\<^sup>* (new_store Hour) s \<and> ss_ordered s \<noteq> []
    \<and> (\<forall>e \<in> set (ss_ordered s). length (en_history e) \<le> 64)"
proof -
  let ?s = "store_apply 9 (Change OpStarted (zero_event\<lparr>ev_ID := ''x''\<rparr>)) (new_store Hour)"
  have reach: "store_step\<^sup>*\<^sup>* (new_store Hour) ?s" by (rule r_into_rtranclp) (rule step_apply)
  moreover have "ss_ordered ?s \<noteq> []"
    by (simp add: store_apply_def Let_def insert_entry_def)
  ultimately show ?thesis using store_reachable_inv [OF reach] by blast
qed

text \<open>
  Further. Pruning is exact: it forgets the events that started before the retention window, keeps the
  others in order and by id, returns how many it forgot, and disturbs no watcher.
\<close>

theorem prune_exact:
  assumes "store_inv s" and "store_prune now s = (s', n)"
  shows "ss_ordered s' = filter (\<lambda>e. now - ss_retention s \<le> ev_StartedAt (en_ev e)) (ss_ordered s)
    \<and> (\<forall>i. gm_get (ss_byID s') i = (case gm_get (ss_byID s) i of None \<Rightarrow> None
         | Some e \<Rightarrow> if now - ss_retention s \<le> ev_StartedAt (en_ev e) then Some e else None))
    \<and> n = length (ss_ordered s) - length (ss_ordered s') \<and> ss_subs s' = ss_subs s"
  using store_prune_spec [OF assms] by blast

lemma prune_exact_witness:
  "\<exists>s' n. store_prune (unix_epoch + 5 * Hour) (store_apply 9 (Change OpStarted
      (zero_event\<lparr>ev_ID := ''x'', ev_StartedAt := unix_epoch + 7\<rparr>)) (new_store Hour)) = (s', n)
    \<and> ss_ordered s' = []"
proof -
  let ?s = "store_apply 9 (Change OpStarted (zero_event\<lparr>ev_ID := ''x'', ev_StartedAt := unix_epoch + 7\<rparr>))
     (new_store Hour)"
  obtain s' n where p: "store_prune (unix_epoch + 5 * Hour) ?s = (s', n)" by fastforce
  have "ss_retention ?s = Hour" by (simp add: store_apply_def new_store_def Let_def)
  moreover have "map (\<lambda>e. ev_StartedAt (en_ev e)) (ss_ordered ?s) = [unix_epoch + 7]"
    by (simp add: store_apply_def new_store_def Let_def insert_entry_def)
  ultimately show ?thesis using prune_exact [OF sample_inv p] p by auto
qed

lemma pages_complete_witness:
  "\<exists>ps. all_pages 3 [] 1 [] (store_apply 9 (Change OpStarted
      (zero_event\<lparr>ev_ID := ''x'', ev_StartedAt := unix_epoch + 7\<rparr>)) (new_store Hour)) = Inr ps
    \<and> concat ps = [zero_event\<lparr>ev_ID := ''x'', ev_StartedAt := unix_epoch + 7\<rparr>]"
proof -
  let ?s = "store_apply 9 (Change OpStarted (zero_event\<lparr>ev_ID := ''x'', ev_StartedAt := unix_epoch + 7\<rparr>))
     (new_store Hour)"
  have ord: "map en_ev (ss_ordered ?s) = [zero_event\<lparr>ev_ID := ''x'', ev_StartedAt := unix_epoch + 7\<rparr>]"
    by (simp add: store_apply_def new_store_def Let_def insert_entry_def)
  then have "listable ?s" by (auto simp: listable_def)
  moreover have "length (ss_ordered ?s) = 1" using ord by (metis length_map length_Cons list.size(3) One_nat_def)
  ultimately show ?thesis
    using pages_complete [OF sample_inv, of 1 3 "[]"] ord
    by (simp add: wants_def camera_set_def) blast
qed

section \<open>Watching\<close>

lemma fold_offer:
  assumes "\<not> sub_dead sub" and "length (sub_ch sub) \<le> watch_buffer"
  shows "sub_ch (fold offer cs sub)
      = take watch_buffer (sub_ch sub @ filter (\<lambda>c. wants (sub_want sub) (ev_Camera (chg_event c))) cs)"
    and "sub_dead (fold offer cs sub) \<longleftrightarrow>
      watch_buffer < length (sub_ch sub @ filter (\<lambda>c. wants (sub_want sub) (ev_Camera (chg_event c))) cs)"
    and "sub_want (fold offer cs sub) = sub_want sub"
proof -
  have dead: "fold offer cs sub = sub" if "sub_dead sub" for cs sub
    using that by (induction cs) (simp_all add: offer_def)
  have "sub_ch (fold offer cs sub)
      = take watch_buffer (sub_ch sub @ filter (\<lambda>c. wants (sub_want sub) (ev_Camera (chg_event c))) cs)
    \<and> (sub_dead (fold offer cs sub) \<longleftrightarrow>
      watch_buffer < length (sub_ch sub @ filter (\<lambda>c. wants (sub_want sub) (ev_Camera (chg_event c))) cs))
    \<and> sub_want (fold offer cs sub) = sub_want sub"
    using assms
  proof (induction cs arbitrary: sub)
    case (Cons c cs)
    show ?case
    proof (cases "wants (sub_want sub) (ev_Camera (chg_event c))")
      case False
      with Cons show ?thesis by (simp add: offer_def)
    next
      case wanted: True
      show ?thesis
      proof (cases "length (sub_ch sub) < watch_buffer")
        case True
        with wanted Cons.prems have "offer c sub = sub\<lparr>sub_ch := sub_ch sub @ [c]\<rparr>" by (simp add: offer_def)
        with Cons.IH [of "sub\<lparr>sub_ch := sub_ch sub @ [c]\<rparr>"] Cons.prems True wanted show ?thesis by simp
      next
        case False
        with wanted Cons.prems have "offer c sub = sub\<lparr>sub_dead := True\<rparr>" by (simp add: offer_def)
        with False wanted Cons.prems dead [of "sub\<lparr>sub_dead := True\<rparr>"] show ?thesis by simp
      qed
    qed
  qed simp
  then show "sub_ch (fold offer cs sub)
      = take watch_buffer (sub_ch sub @ filter (\<lambda>c. wants (sub_want sub) (ev_Camera (chg_event c))) cs)"
    and "sub_dead (fold offer cs sub) \<longleftrightarrow>
      watch_buffer < length (sub_ch sub @ filter (\<lambda>c. wants (sub_want sub) (ev_Camera (chg_event c))) cs)"
    and "sub_want (fold offer cs sub) = sub_want sub" by blast+
qed

lemma apply_subs:
  "gm_get (ss_subs (fold (\<lambda>(now, c). store_apply now c) ncs s)) k
    = map_option (fold offer (map snd ncs)) (gm_get (ss_subs s) k)"
proof (induction ncs arbitrary: s)
  case (Cons nc ncs)
  obtain now c where nc: "nc = (now, c)" by (cases nc)
  have "gm_get (ss_subs (store_apply now c s)) k = map_option (offer c) (gm_get (ss_subs s) k)"
    by (simp add: store_apply_def Let_def)
  with Cons.IH [of "store_apply now c s"] show ?case by (simp add: nc option.map_comp comp_def)
qed (simp add: option.map_id)

text \<open>
  What happens around a watcher: the operations of the store, its own receiving among them, in any
  order.  Its run is what it has received and the store.
\<close>

datatype store_op =
  Store_applied time change
| Store_saw string
| Store_watched nat time "string list"
| Store_dropped nat
| Store_received nat
| Store_pruned time

fun store_op_step :: "store_op \<Rightarrow> store \<Rightarrow> store" where
  "store_op_step (Store_applied now c) s = store_apply now c s"
| "store_op_step (Store_saw name) s = saw_camera name s"
| "store_op_step (Store_watched j since cameras) s = store_watch j since cameras s"
| "store_op_step (Store_dropped j) s = drop_sub j s"
| "store_op_step (Store_received j) s = snd (receive j s)"
| "store_op_step (Store_pruned now) s = fst (store_prune now s)"

definition watcher_step :: "nat \<Rightarrow> store_op \<Rightarrow> change list \<times> store \<Rightarrow> change list \<times> store" where
  "watcher_step k x = (\<lambda>(got, s).
     (if x = Store_received k then got @ (case fst (receive k s) of None \<Rightarrow> [] | Some c \<Rightarrow> [c]) else got,
      store_op_step x s))"

definition watcher_run :: "nat \<Rightarrow> store_op list \<Rightarrow> store \<Rightarrow> change list \<times> store" where
  "watcher_run k xs s = fold (watcher_step k) xs ([], s)"

text \<open>An operation that is not the making or the end of watcher k.\<close>

fun keeps_watcher :: "nat \<Rightarrow> store_op \<Rightarrow> bool" where
  "keeps_watcher k (Store_watched j since cameras) \<longleftrightarrow> j \<noteq> k"
| "keeps_watcher k (Store_dropped j) \<longleftrightarrow> j \<noteq> k"
| "keeps_watcher k x \<longleftrightarrow> True"

fun changes_in :: "store_op list \<Rightarrow> change list" where
  "changes_in [] = []"
| "changes_in (Store_applied now c # xs) = c # changes_in xs"
| "changes_in (x # xs) = changes_in xs"

lemma changes_in_append: "changes_in (xs @ ys) = changes_in xs @ changes_in ys"
  by (induction xs rule: changes_in.induct) auto

lemma watcher_run_snoc: "watcher_run k (xs @ [x]) s = watcher_step k x (watcher_run k xs s)"
  by (simp add: watcher_run_def)

lemma keeps_sub:
  assumes "keeps_watcher k x" and "gm_get (ss_subs s) k = Some sub" and "x \<noteq> Store_received k" and "\<And>now c. x \<noteq> Store_applied now c"
  shows "gm_get (ss_subs (store_op_step x s)) k = Some sub"
  using assms
  by (cases x) (auto simp: saw_camera_def store_watch_def drop_sub_def receive_def store_prune_def Let_def
      split: option.splits list.splits prod.splits)

text \<open>
  The state of watcher k after its run: what it got and what is waiting are a beginning of what was
  sent, all of it unless it was cut off; and when it was.
\<close>

definition overflows :: "nat \<Rightarrow> (change \<Rightarrow> bool) \<Rightarrow> change list \<Rightarrow> store \<Rightarrow> store_op list \<Rightarrow> bool" where
  "overflows k w snap s xs \<longleftrightarrow> 256 < length snap \<or>
     (\<exists>xs1 now c xs2. xs = xs1 @ Store_applied now c # xs2 \<and> w c
       \<and> 256 \<le> length (snap @ filter w (changes_in xs1)) - length (fst (watcher_run k xs1 s)))"

lemma overflows_snoc:
  "overflows k w snap s (xs @ [x]) \<longleftrightarrow> overflows k w snap s xs \<or>
     (\<exists>now c. x = Store_applied now c \<and> w c \<and> 256 \<le> length (snap @ filter w (changes_in xs)) - length (fst (watcher_run k xs s)))"
proof -
  have "(\<exists>xs1 now c xs2. xs @ [x] = xs1 @ Store_applied now c # xs2 \<and> P xs1 c) \<longleftrightarrow>
      (\<exists>xs1 now c xs2. xs = xs1 @ Store_applied now c # xs2 \<and> P xs1 c) \<or> (\<exists>now c. x = Store_applied now c \<and> P xs c)" for P
  proof
    assume "\<exists>xs1 now c xs2. xs @ [x] = xs1 @ Store_applied now c # xs2 \<and> P xs1 c"
    then obtain xs1 now c xs2 where "xs @ [x] = xs1 @ Store_applied now c # xs2" "P xs1 c" by blast
    then show "(\<exists>xs1 now c xs2. xs = xs1 @ Store_applied now c # xs2 \<and> P xs1 c) \<or> (\<exists>now c. x = Store_applied now c \<and> P xs c)"
      by (cases xs2 rule: rev_cases) auto
  qed fastforce
  from this [of "\<lambda>xs1 c. w c \<and> 256 \<le> length (snap @ filter w (changes_in xs1)) - length (fst (watcher_run k xs1 s))"]
  show ?thesis by (simp only: overflows_def disj_assoc)
qed

definition watcher_ok :: "nat \<Rightarrow> string list \<Rightarrow> change list \<Rightarrow> store \<Rightarrow> store_op list \<Rightarrow> bool" where
  "watcher_ok k cameras snap s xs \<longleftrightarrow>
     (let w = (\<lambda>c. wants (camera_set cameras) (ev_Camera (chg_event c)));
          sent = snap @ filter w (changes_in xs); (got, s1) = watcher_run k xs s
      in \<exists>sub. gm_get (ss_subs s1) k = Some sub \<and> sub_want sub = camera_set cameras
        \<and> length (sub_ch sub) \<le> 256 \<and> (\<exists>lost. sent = got @ sub_ch sub @ lost \<and> (\<not> sub_dead sub \<longrightarrow> lost = []))
        \<and> (sub_dead sub \<longleftrightarrow> overflows k w snap s xs))"

lemma watcher_ok_step:
  assumes "watcher_ok k cameras snap s xs" and "keeps_watcher k x"
  shows "watcher_ok k cameras snap s (xs @ [x])"
proof -
  define w :: "change \<Rightarrow> bool" where "w = (\<lambda>c. wants (camera_set cameras) (ev_Camera (chg_event c)))"
  define sent where "sent = snap @ filter w (changes_in xs)"
  obtain got s1 where run: "watcher_run k xs s = (got, s1)" by fastforce
  with assms(1) obtain sub lost where sub: "gm_get (ss_subs s1) k = Some sub" "sub_want sub = camera_set cameras"
    "length (sub_ch sub) \<le> 256" "sent = got @ sub_ch sub @ lost" "\<not> sub_dead sub \<Longrightarrow> lost = []"
    "sub_dead sub \<longleftrightarrow> overflows k w snap s xs"
    by (auto simp: watcher_ok_def Let_def w_def sent_def)
  have ok: "watcher_ok k cameras snap s (xs @ [x])"
    if "gm_get (ss_subs sx) k = Some subx" "watcher_step k x (got, s1) = (gotx, sx)" "sub_want subx = sub_want sub"
      "length (sub_ch subx) \<le> 256" "sent @ filter w (changes_in [x]) = gotx @ sub_ch subx @ lostx"
      "\<not> sub_dead subx \<Longrightarrow> lostx = []" "sub_dead subx \<longleftrightarrow> overflows k w snap s (xs @ [x])"
    for subx sx gotx lostx
    using that run sub(2)
    by (auto simp: watcher_ok_def Let_def watcher_run_snoc changes_in_append sent_def w_def [symmetric])
  show ?thesis
  proof (cases "\<exists>now c. x = Store_applied now c")
    case True
    then obtain now c where x: "x = Store_applied now c" by blast
    have step: "watcher_step k x (got, s1) = (got, store_apply now c s1)" by (simp add: watcher_step_def x)
    have subx: "gm_get (ss_subs (store_apply now c s1)) k = Some (offer c sub)"
      using sub(1) by (simp add: store_apply_def Let_def)
    have wants: "wants (sub_want sub) (ev_Camera (chg_event c)) \<longleftrightarrow> w c" by (simp add: w_def sub(2))
    have waiting: "length sent - length got = length (sub_ch sub) + length lost" using sub(4) by simp
    have over: "overflows k w snap s (xs @ [x]) \<longleftrightarrow> sub_dead sub \<or> (w c \<and> 256 \<le> length (sub_ch sub) + length lost)"
      unfolding overflows_snoc sub(6) using waiting by (auto simp: x run sent_def)
    show ?thesis
    proof (cases "sub_dead sub \<or> \<not> w c")
      case True
      then have "offer c sub = sub" by (auto simp: offer_def wants)
      with True sub over step subx show ?thesis
        by (intro ok [where lostx = "lost @ filter w [c]" and subx = sub and gotx = got
              and sx = "store_apply now c s1"]) (auto simp: x)
    next
      case False
      show ?thesis
      proof (cases "length (sub_ch sub) < 256")
        case True
        with False have "offer c sub = sub\<lparr>sub_ch := sub_ch sub @ [c]\<rparr>" by (simp add: offer_def wants watch_buffer_def)
        with False True sub over step subx show ?thesis
          by (intro ok [where lostx = "[]" and subx = "sub\<lparr>sub_ch := sub_ch sub @ [c]\<rparr>" and gotx = got
              and sx = "store_apply now c s1"]) (simp_all add: x)
      next
        case full: False
        with False have "offer c sub = sub\<lparr>sub_dead := True\<rparr>" by (simp add: offer_def wants watch_buffer_def)
        with False full sub over step subx show ?thesis
          by (intro ok [where lostx = "lost @ [c]" and subx = "sub\<lparr>sub_dead := True\<rparr>" and gotx = got
              and sx = "store_apply now c s1"]) (simp_all add: x)
      qed
    qed
  next
    case silent: False
    then have none: "changes_in [x] = []" "overflows k w snap s (xs @ [x]) \<longleftrightarrow> sub_dead sub"
      unfolding overflows_snoc sub(6) by (cases x; simp)+
    show ?thesis
    proof (cases "x = Store_received k")
      case True
      show ?thesis
      proof (cases "sub_ch sub")
        case Nil
        with True sub none show ?thesis
          by (intro ok [where lostx = lost and subx = sub and sx = s1 and gotx = got])
            (auto simp: watcher_step_def receive_def)
      next
        case (Cons c cs)
        with True sub none show ?thesis
          by (intro ok [where lostx = lost and subx = "sub\<lparr>sub_ch := cs\<rparr>" and gotx = "got @ [c]"
              and sx = "s1\<lparr>ss_subs := gm_set k (sub\<lparr>sub_ch := cs\<rparr>) (ss_subs s1)\<rparr>"])
            (auto simp: watcher_step_def receive_def)
      qed
    next
      case False
      then have "gm_get (ss_subs (store_op_step x s1)) k = Some sub"
        using keeps_sub [OF assms(2) sub(1)] silent by blast
      with False sub none show ?thesis
        by (intro ok [where lostx = lost and subx = sub and gotx = got and sx = "store_op_step x s1"])
          (auto simp: watcher_step_def)
    qed
  qed
qed

lemma watcher_ok_run:
  assumes "watcher_ok k cameras snap s []" and "list_all (keeps_watcher k) xs"
  shows "watcher_ok k cameras snap s xs"
  using assms(2)
proof (induction xs rule: rev_induct)
  case (snoc x xs)
  then show ?case using watcher_ok_step by simp
qed (rule assms(1))

text \<open>What \<open>Watch\<close> sends first.\<close>

definition watch_snapshot :: "time \<Rightarrow> string list \<Rightarrow> store \<Rightarrow> change list" where
  "watch_snapshot since cameras s =
     (if since = 0 then [] else filter (\<lambda>c. wants (camera_set cameras) (ev_Camera (chg_event c)))
        (map snapshot_change (filter (\<lambda>e. since \<le> en_updatedAt e) (rev (ss_ordered s)))))"

lemma watch_start:
  "gm_get (ss_subs (store_watch k since cameras s)) k =
     Some \<lparr>sub_ch = take 256 (watch_snapshot since cameras s), sub_want = camera_set cameras,
       sub_dead = (256 < length (watch_snapshot since cameras s))\<rparr>"
proof (cases "since = 0")
  case True
  then show ?thesis by (simp add: store_watch_def watch_snapshot_def Let_def)
next
  case False
  let ?sub0 = "\<lparr>sub_ch = [], sub_want = camera_set cameras, sub_dead = False\<rparr>"
  let ?snap = "map snapshot_change (filter (\<lambda>e. since \<le> en_updatedAt e) (rev (ss_ordered s)))"
  have "fold (\<lambda>e sub. if en_updatedAt e < since then sub else offer (snapshot_change e) sub) es sub
      = fold offer (map snapshot_change (filter (\<lambda>e. since \<le> en_updatedAt e) es)) sub" for es sub
    by (induction es arbitrary: sub) simp_all
  then have "gm_get (ss_subs (store_watch k since cameras s)) k = Some (fold offer ?snap ?sub0)"
    using False by (simp add: store_watch_def Let_def)
  moreover have "fold offer ?snap ?sub0 = \<lparr>sub_ch = take 256 (watch_snapshot since cameras s), sub_want = camera_set cameras,
       sub_dead = (256 < length (watch_snapshot since cameras s))\<rparr>"
    using fold_offer [of ?sub0 ?snap] False
    by (cases "fold offer ?snap ?sub0") (simp add: watch_buffer_def watch_snapshot_def)
  ultimately show ?thesis by simp
qed

text \<open>
  C10. Nothing slips between a watcher's snapshot and its subscription, or after it. Let a watcher be
  made and then anything happen to the store but its end: changes, its own receiving, other watchers
  that come, receive and go, pruning, in any order. What it was sent is the snapshot of the events
  touched since its time, oldest first (nothing when it gave no time), followed by every later
  change, all for its cameras only. What it has received and what waits for it are the beginning
  of that, all of it unless it was cut off, and at most 256 wait; it is cut off exactly when the
  snapshot was longer than 256 or a change for it came while 256 that it had not received were waiting.
\<close>

theorem watch_gapless:
  assumes "list_all (keeps_watcher k) xs" and "watcher_run k xs (store_watch k since cameras s) = (got, s1)"
  defines "w \<equiv> \<lambda>c. wants (camera_set cameras) (ev_Camera (chg_event c))"
  defines "snap \<equiv> if since = 0 then [] else filter w
      (map snapshot_change (filter (\<lambda>e. since \<le> en_updatedAt e) (rev (ss_ordered s))))"
  shows "\<exists>sub lost. gm_get (ss_subs s1) k = Some sub
    \<and> snap @ filter w (changes_in xs) = got @ sub_ch sub @ lost \<and> (\<not> sub_dead sub \<longrightarrow> lost = []) \<and> length (sub_ch sub) \<le> 256
    \<and> (sub_dead sub \<longleftrightarrow> 256 < length snap \<or>
        (\<exists>xs1 now c xs2. xs = xs1 @ Store_applied now c # xs2 \<and> w c
          \<and> 256 \<le> length (snap @ filter w (changes_in xs1))
              - length (fst (watcher_run k xs1 (store_watch k since cameras s)))))"
proof -
  have snap: "snap = watch_snapshot since cameras s" by (simp add: snap_def watch_snapshot_def w_def)
  have "snap = take 256 snap @ drop 256 snap" by simp
  then have "watcher_ok k cameras snap (store_watch k since cameras s) []"
    using watch_start [of k since cameras s]
    by (auto simp: watcher_ok_def watcher_run_def overflows_def snap intro: exI [of _ "drop 256 snap"])
  from watcher_ok_run [OF this assms(1)] assms(2) obtain sub lost where "gm_get (ss_subs s1) k = Some sub"
    "snap @ filter w (changes_in xs) = got @ sub_ch sub @ lost" "\<not> sub_dead sub \<longrightarrow> lost = []" "length (sub_ch sub) \<le> 256"
    "sub_dead sub \<longleftrightarrow> overflows k w snap (store_watch k since cameras s) xs"
    by (auto simp: watcher_ok_def Let_def w_def)
  then show ?thesis unfolding overflows_def by blast
qed

lemma watch_gapless_witness:
  "\<exists>sub. gm_get (ss_subs (snd (watcher_run 0 [Store_applied 9 (Change OpStarted (zero_event\<lparr>ev_ID := ''x''\<rparr>)), Store_received 0,
      Store_applied 10 (Change OpEnded (zero_event\<lparr>ev_ID := ''x''\<rparr>))] (store_watch 0 5 [] (new_store Hour))))) 0 = Some sub
    \<and> sub_ch sub = [Change OpEnded (zero_event\<lparr>ev_ID := ''x''\<rparr>)] \<and> \<not> sub_dead sub"
proof -
  let ?a = "Change OpStarted (zero_event\<lparr>ev_ID := ''x''\<rparr>)" and ?b = "Change OpEnded (zero_event\<lparr>ev_ID := ''x''\<rparr>)"
  let ?s = "store_watch 0 5 [] (new_store Hour)"
  let ?xs = "[Store_applied 9 ?a, Store_received 0, Store_applied 10 ?b]"
  have sub0: "gm_get (ss_subs ?s) 0 = Some \<lparr>sub_ch = [], sub_want = None, sub_dead = False\<rparr>"
    using watch_start [of 0 5 "[]" "new_store Hour"] by (simp add: watch_snapshot_def new_store_def camera_set_def)
  have all: "wants None (ev_Camera (chg_event c))" for c by (simp add: wants_def)
  let ?s1 = "store_apply 9 ?a ?s"
  have sub1: "gm_get (ss_subs ?s1) 0 = Some \<lparr>sub_ch = [?a], sub_want = None, sub_dead = False\<rparr>"
    using sub0 all [of ?a] by (simp add: store_apply_def Let_def offer_def watch_buffer_def)
  obtain got s1 where run: "watcher_run 0 ?xs ?s = (got, s1)" by fastforce
  have "fst (watcher_run 0 ?xs ?s) = [?a]"
    using sub1 by (simp add: watcher_run_def watcher_step_def receive_def)
  with run have got: "got = [?a]" by simp
  have short: "length (filter P (changes_in xs1)) \<le> 2" if "?xs = xs1 @ ys" for P xs1 ys
  proof -
    have "changes_in xs1 @ changes_in ys = [?a, ?b]"
      using arg_cong [OF that, of changes_in] changes_in_append [of xs1 ys] by simp
    then have "length (changes_in xs1) \<le> 2"
      by (metis length_append le_add1 length_Cons list.size(3) numeral_2_eq_2)
    then show ?thesis using length_filter_le [of P "changes_in xs1"] by linarith
  qed
  have "list_all (keeps_watcher 0) ?xs" by simp
  note applied = watch_gapless [OF this run]
  have snap: "(if (5 :: time) = 0 then [] else filter P (map snapshot_change (filter Q (rev (ss_ordered (new_store Hour)))))) = []"
    for P Q by (simp add: new_store_def)
  have wanted: "wants (camera_set []) x \<longleftrightarrow> True" for x by (simp add: wants_def camera_set_def)
  have sent: "[] @ filter (\<lambda>c. True) (changes_in ?xs) = [?a, ?b]" by simp
  from applied have "\<exists>sub lost. gm_get (ss_subs s1) 0 = Some sub
    \<and> [?a, ?b] = got @ sub_ch sub @ lost \<and> (\<not> sub_dead sub \<longrightarrow> lost = [])
    \<and> (sub_dead sub \<longrightarrow> (\<exists>xs1 now c xs2. ?xs = xs1 @ Store_applied now c # xs2
          \<and> 256 \<le> length ([] @ filter (\<lambda>c. True) (changes_in xs1)) - length (fst (watcher_run 0 xs1 ?s))))"
    unfolding snap wanted sent by (elim exE conjE, intro exI conjI) (assumption | simp only: list.size not_less_zero simp_thms | fastforce)+
  then obtain sub lost where sub: "gm_get (ss_subs s1) 0 = Some sub"
    "[?a, ?b] = got @ sub_ch sub @ lost" "\<not> sub_dead sub \<longrightarrow> lost = []"
    "sub_dead sub \<longrightarrow> (\<exists>xs1 now c xs2. ?xs = xs1 @ Store_applied now c # xs2
          \<and> 256 \<le> length ([] @ filter (\<lambda>c. True) (changes_in xs1)) - length (fst (watcher_run 0 xs1 ?s)))"
    by blast
  have "\<not> sub_dead sub"
  proof
    assume "sub_dead sub"
    with sub(4) obtain xs1 ys where "?xs = xs1 @ ys" "256 \<le> length (filter (\<lambda>c. True) (changes_in xs1))"
      unfolding append_Nil by (meson diff_le_self le_trans)
    from short [OF this(1), of "\<lambda>c. True"] this(2) show False by linarith
  qed
  moreover from this sub(2,3) got have "sub_ch sub = [?b]" by simp
  ultimately show ?thesis unfolding run snd_conv using sub(1) by blast
qed

section \<open>The store and its log\<close>

text \<open>
  What the store stands for: of every id the revisions since it was last forgotten, oldest first and
  none left out.  Only a change adds one, and only pruning forgets, an id whose last event started
  before the window.
\<close>

fun log_step :: "duration \<Rightarrow> store_op \<Rightarrow> (string \<Rightarrow> revision list) \<Rightarrow> string \<Rightarrow> revision list" where
  "log_step r (Store_applied now c) m =
     m(ev_ID (chg_event c) := m (ev_ID (chg_event c)) @ [\<lparr>rv_At = now, rv_Op = chg_op c, rv_Event = chg_event c\<rparr>])"
| "log_step r (Store_pruned now) m =
     (\<lambda>i. if m i \<noteq> [] \<and> ev_StartedAt (rv_Event (last (m i))) < now - r then [] else m i)"
| "log_step r x m = m"

text \<open>A long history as it is kept: the first revision and the last sixty-three.\<close>

definition bounded_history :: "revision list \<Rightarrow> revision list" where
  "bounded_history rs = (if length rs \<le> 64 then rs else hd rs # drop (length rs - 63) rs)"

lemma bounded_history_snoc: "push_history r (bounded_history rs) = bounded_history (rs @ [r])"
proof (cases "length rs \<le> 64")
  case True
  then show ?thesis
    by (cases rs) (auto simp: bounded_history_def push_history_def max_history_def Let_def numeral_2_eq_2 drop_Cons' take_Cons')
next
  case False
  then have "length rs - 62 = Suc (length rs - 63)" by simp
  with False show ?thesis
    by (cases rs) (auto simp: bounded_history_def push_history_def max_history_def Let_def Suc_diff_le drop_Suc tl_drop)
qed

lemma push_history_Nil: "push_history r [] = [r]"
  by (simp add: push_history_def max_history_def)

definition entry_of :: "revision list \<Rightarrow> entry option" where
  "entry_of rs = (if rs = [] then None else Some \<lparr>en_ev = rv_Event (last rs), en_updatedAt = rv_At (last rs),
     en_history = bounded_history rs\<rparr>)"

lemma entry_of_SomeD: "entry_of rs = Some e \<Longrightarrow> rs \<noteq> [] \<and> en_ev e = rv_Event (last rs)"
  by (auto simp: entry_of_def split: if_splits)

lemma log_apply:
  assumes "\<And>i. gm_get (ss_byID s) i = entry_of (m i)"
  shows "gm_get (ss_byID (store_apply now c s)) i = entry_of (log_step r (Store_applied now c) m i)"
  using assms [of "ev_ID (chg_event c)"] assms [of i]
  by (auto simp: store_apply_def Let_def entry_of_def bounded_history_snoc push_history_Nil
      bounded_history_def [of "[r]" for r])

lemma log_prune:
  assumes "store_inv s" and "\<And>i. gm_get (ss_byID s) i = entry_of (m i)"
  shows "gm_get (ss_byID (fst (store_prune now s))) i = entry_of (log_step (ss_retention s) (Store_pruned now) m i)"
proof -
  obtain s' n where p: "store_prune now s = (s', n)" by fastforce
  show ?thesis using store_prune_spec(4) [OF assms(1) p, of i] assms(2) [of i]
    by (auto simp: p entry_of_def)
qed

lemma store_op_inv: "store_inv s \<Longrightarrow> store_inv (store_op_step x s)"
  by (cases x) (simp_all add: store_apply_inv saw_camera_inv store_watch_inv drop_sub_inv receive_inv
      store_prune_spec(1) [OF _ surjective_pairing])

lemma store_op_quiet:
  assumes "\<And>now c. x \<noteq> Store_applied now c" and "\<And>now. x \<noteq> Store_pruned now"
  shows "ss_byID (store_op_step x s) = ss_byID s" and "log_step r x m = m"
    and "ss_applied (store_op_step x s) = ss_applied s"
  using assms by (cases x; simp add: saw_camera_def store_watch_def drop_sub_def receive_def Let_def
      split: option.split list.split)+

text \<open>The names an operation brings to the camera list.\<close>

fun cameras_of :: "store_op \<Rightarrow> string set" where
  "cameras_of (Store_applied now c) = {ev_Camera (chg_event c)} - {[]}"
| "cameras_of (Store_saw name) = {name} - {[]}"
| "cameras_of x = {}"

lemma store_op_rest:
  "ss_retention (store_op_step x s) = ss_retention s"
  "set (ss_cameras (store_op_step x s)) = set (ss_cameras s) \<union> cameras_of x"
  "ss_applied (store_op_step x s) = ss_applied s + of_nat (length (changes_in [x]))"
  "distinct (ss_cameras s) \<Longrightarrow> distinct (ss_cameras (store_op_step x s))"
  by (cases x; auto simp: saw_camera_def store_watch_def drop_sub_def receive_def store_prune_def store_apply_def Let_def
      split: option.split list.split prod.split)+

lemma store_log:
  fixes r :: duration and xs :: "store_op list"
  defines "s \<equiv> fold store_op_step xs (new_store r)"
  shows "store_inv s" and "ss_retention s = r" and "gm_get (ss_byID s) i = entry_of (fold (log_step r) xs (\<lambda>i. []) i)"
    and "set (ss_cameras s) = (\<Union>x \<in> set xs. cameras_of x)" and "ss_applied s = of_nat (length (changes_in xs))"
    and "distinct (ss_cameras s)"
proof -
  have "store_inv s \<and> ss_retention s = r \<and> (\<forall>i. gm_get (ss_byID s) i = entry_of (fold (log_step r) xs (\<lambda>i. []) i))
    \<and> set (ss_cameras s) = (\<Union>x \<in> set xs. cameras_of x) \<and> ss_applied s = of_nat (length (changes_in xs))
    \<and> distinct (ss_cameras s)"
    unfolding s_def
  proof (induction xs rule: rev_induct)
    case Nil
    show ?case by (simp add: store_inv_new) (simp add: new_store_def entry_of_def)
  next
    case (snoc x xs)
    define s1 where "s1 = fold store_op_step xs (new_store r)"
    define m1 where "m1 = fold (log_step r) xs (\<lambda>i. [])"
    from snoc have ih: "store_inv s1" "ss_retention s1 = r" "\<And>i. gm_get (ss_byID s1) i = entry_of (m1 i)"
      "set (ss_cameras s1) = (\<Union>x \<in> set xs. cameras_of x)" "ss_applied s1 = of_nat (length (changes_in xs))"
      "distinct (ss_cameras s1)"
      by (simp_all add: s1_def m1_def)
    have "gm_get (ss_byID (store_op_step x s1)) i = entry_of (log_step r x m1 i)" for i
    proof (cases "(\<exists>now c. x = Store_applied now c) \<or> (\<exists>now. x = Store_pruned now)")
      case True
      with log_apply [OF ih(3), of _ _ i r] log_prune [OF ih(1,3), of _ i, unfolded ih(2)]
      show ?thesis by (auto simp del: log_step.simps)
    qed (use store_op_quiet ih(3) in simp)
    with ih store_op_inv [OF ih(1), of x] show ?case
      by (simp add: s1_def [symmetric] m1_def [symmetric] store_op_rest changes_in_append Un_commute)
  qed
  then show "store_inv s" and "ss_retention s = r" and "gm_get (ss_byID s) i = entry_of (fold (log_step r) xs (\<lambda>i. []) i)"
    and "set (ss_cameras s) = (\<Union>x \<in> set xs. cameras_of x)" and "ss_applied s = of_nat (length (changes_in xs))"
    and "distinct (ss_cameras s)" by blast+
qed


text \<open>
  Further. A history keeps its first revision and its newest ones: whatever is applied, the history of an
  event that was already known starts as before and ends with the new revision, within 64.
\<close>

theorem history_bounded:
  assumes "store_inv s" and "gm_get (ss_byID s) (ev_ID (chg_event c)) = Some e"
  shows "hd (store_history (ev_ID (chg_event c)) (store_apply now c s)) = hd (en_history e)
    \<and> last (store_history (ev_ID (chg_event c)) (store_apply now c s))
        = \<lparr>rv_At = now, rv_Op = chg_op c, rv_Event = chg_event c\<rparr>
    \<and> length (store_history (ev_ID (chg_event c)) (store_apply now c s)) \<le> 64"
proof -
  from assms have "e \<in> set (ss_ordered s)" "\<forall>e \<in> set (ss_ordered s). entry_ok e"
    by (auto simp: store_inv_def)
  then have e: "en_history e \<noteq> []" "length (en_history e) \<le> max_history" by (auto simp: entry_ok_def)
  have "store_history (ev_ID (chg_event c)) (store_apply now c s)
      = push_history \<lparr>rv_At = now, rv_Op = chg_op c, rv_Event = chg_event c\<rparr> (en_history e)"
    using assms(2) by (simp add: store_history_def store_apply_def Let_def)
  with e push_history_ok(3,4) push_history_length show ?thesis by (simp add: max_history_def)
qed

lemma history_bounded_witness:
  "length (store_history ''x'' (store_apply 10 (Change OpEnded (zero_event\<lparr>ev_ID := ''x''\<rparr>))
     (store_apply 9 (Change OpStarted (zero_event\<lparr>ev_ID := ''x'', ev_StartedAt := unix_epoch + 7\<rparr>))
       (new_store Hour)))) \<le> 64"
proof -
  let ?s = "store_apply 9 (Change OpStarted (zero_event\<lparr>ev_ID := ''x'', ev_StartedAt := unix_epoch + 7\<rparr>))
       (new_store Hour)"
  obtain e where "gm_get (ss_byID ?s) ''x'' = Some e" by (simp add: store_apply_def Let_def)
  with history_bounded [OF sample_inv, of "Change OpEnded (zero_event\<lparr>ev_ID := ''x''\<rparr>)" e 10]
  show ?thesis by simp
qed

end
