(* ===== verification/Captoken.thy ===== *)
theory Captoken
  imports Go_Crypto
begin

text \<open>
  Capability tokens (package \<open>internal/captoken\<close>): signed claims, a ring of one or two keys, and
  the verification of a presented token.

  A token is a byte string: the key's id, the claims, and a truncated MAC, written in base64.
  The MAC is the executable HMAC of \<open>Go_Crypto\<close>; nothing is assumed of it, so what is proved
  here is what holds of any MAC: who holds a key of the ring can verify, every field is signed,
  and what Verify accepts is byte for byte what Mint writes for the claims it returns.  That
  nobody else can produce a MAC is not a property of this code.  A comparison in constant time
  is modelled by its result.
\<close>

section \<open>Claims, keys and errors\<close>

datatype token_error = ErrMalformed | ErrUnknownKey | ErrBadMAC | ErrExpired

abbreviation (input) MinKeyLen :: nat where "MinKeyLen \<equiv> 32"
abbreviation (input) kidLen :: nat where "kidLen \<equiv> 4"
abbreviation (input) macLen :: nat where "macLen \<equiv> 16"
abbreviation (input) fixedLen :: nat where "fixedLen \<equiv> 10"

text \<open>
  A Media kind is one byte.  Expires is kept as the code signs it: Mint only ever reads
  \<open>Expires.Unix()\<close>, and Verify returns a time of whole seconds.
\<close>

record claims =
  cl_EventID :: string
  cl_Media :: int
  cl_Camera :: string
  cl_Expires :: time

record token_key =
  k_id :: bytes
  k_secret :: bytes

record keyring =
  kr_current :: token_key
  kr_prior :: "token_key option"

section \<open>Building a ring\<close>

definition mk_key :: "bytes \<Rightarrow> token_key" where
  "mk_key secret =
     \<lparr>k_id = take kidLen (sha256 (''curtilage/captoken/kid/'' @ secret)), k_secret = secret\<rparr>"

text \<open>The errors of New and ParseKey, each with its message's cause.\<close>

datatype key_error =
  Current_short nat
| Prior_short nat
| Prior_is_current
| Key_not_base64
| Key_short nat

definition new_keyring :: "bytes \<Rightarrow> bytes \<Rightarrow> key_error + keyring" where
  "new_keyring current prior =
     (if length current < MinKeyLen then Inl (Current_short (length current))
      else let kr = \<lparr>kr_current = mk_key current, kr_prior = None\<rparr> in
        if 0 < length prior then
          if length prior < MinKeyLen then Inl (Prior_short (length prior))
          else let p = mk_key prior in
            if k_id p = k_id (kr_current kr) then Inl Prior_is_current
            else Inr (kr\<lparr>kr_prior := Some p\<rparr>)
        else Inr kr)"

definition parse_key :: "string \<Rightarrow> key_error + bytes" where
  "parse_key s =
     (if s = [] then Inr []
      else case base64std_decode s of
        None \<Rightarrow> Inl Key_not_base64
      | Some b \<Rightarrow> if length b < MinKeyLen then Inl (Key_short (length b)) else Inr b)"

definition current_key_id :: "keyring \<Rightarrow> string" where
  "current_key_id kr = hex_encode (k_id (kr_current kr))"

definition has_prior :: "keyring \<Rightarrow> bool" where
  "has_prior kr \<longleftrightarrow> kr_prior kr \<noteq> None"

section \<open>Mint\<close>

definition token_mac :: "bytes \<Rightarrow> bytes \<Rightarrow> bytes" where
  "token_mac secret data = take macLen (hmac_sha256 secret data)"

text \<open>The clean-up of the camera, and the bytes before the MAC.\<close>

definition mint_claims :: "claims \<Rightarrow> claims" where
  "mint_claims c = (if 255 < length (cl_Camera c) then c\<lparr>cl_Camera := []\<rparr> else c)"

definition token_body :: "token_key \<Rightarrow> claims \<Rightarrow> bytes" where
  "token_body k c =
     k_id k @ be_bytes 8 (unix_sec (cl_Expires c))
     @ [char_of (cl_Media c), char_of (length (cl_Camera c))] @ cl_Camera c @ cl_EventID c"

definition mint :: "keyring \<Rightarrow> claims \<Rightarrow> string" where
  "mint kr c =
     (let c' = mint_claims c; body = token_body (kr_current kr) c'
      in base64url_encode (body @ token_mac (k_secret (kr_current kr)) body))"

section \<open>Verify\<close>

definition lookup_key :: "keyring \<Rightarrow> bytes \<Rightarrow> token_key option" where
  "lookup_key kr kid =
     (if kid = k_id (kr_current kr) then Some (kr_current kr)
      else case kr_prior kr of
        Some p \<Rightarrow> if kid = k_id p then Some p else None
      | None \<Rightarrow> None)"

text \<open>
  The claims part of a signed body, after the key id.  The code slices it after checking the
  lengths, so no slice is out of range.
\<close>

definition read_claims :: "bytes \<Rightarrow> claims option" where
  "read_claims s =
     (let camLen = of_char (s ! 9) in
      if length s < fixedLen + camLen + 1 then None
      else Some \<lparr>cl_EventID = drop (fixedLen + camLen) s,
                 cl_Media = of_char (s ! 8),
                 cl_Camera = take camLen (drop fixedLen s),
                 cl_Expires = time_unix (int64 (be_int (take 8 s))) 0\<rparr>)"

text \<open>The result: the error, with the claims when the code returns them too.\<close>

definition verify :: "keyring \<Rightarrow> string \<Rightarrow> time \<Rightarrow> (token_error \<times> claims option) + claims" where
  "verify kr token now =
     (case base64url_decode token of
        None \<Rightarrow> Inl (ErrMalformed, None)
      | Some body \<Rightarrow>
          if length body < kidLen + fixedLen + 1 + macLen then Inl (ErrMalformed, None)
          else case lookup_key kr (take kidLen body) of
            None \<Rightarrow> Inl (ErrUnknownKey, None)
          | Some k \<Rightarrow>
              let signed = take (length body - macLen) body;
                  sig = drop (length body - macLen) body in
              if sig \<noteq> token_mac (k_secret k) signed then Inl (ErrBadMAC, None)
              else case read_claims (drop kidLen signed) of
                None \<Rightarrow> Inl (ErrMalformed, None)
              | Some c \<Rightarrow>
                  if \<not> now < cl_Expires c then Inl (ErrExpired, Some c) else Inr c)"

section \<open>Rings\<close>

text \<open>What New promises of a ring: ids of four bytes, and two keys that can be told apart.\<close>

definition keyring_ok :: "keyring \<Rightarrow> bool" where
  "keyring_ok kr \<longleftrightarrow> length (k_id (kr_current kr)) = kidLen \<and>
     (case kr_prior kr of None \<Rightarrow> True
      | Some p \<Rightarrow> length (k_id p) = kidLen \<and> k_id p \<noteq> k_id (kr_current kr))"

lemma length_mk_key [simp]: "length (k_id (mk_key s)) = 4"
  by (simp add: mk_key_def)

lemma secret_mk_key [simp]: "k_secret (mk_key s) = s"
  by (simp add: mk_key_def)

lemma lookup_current [simp]: "lookup_key kr (k_id (kr_current kr)) = Some (kr_current kr)"
  by (simp add: lookup_key_def)

lemma lookup_prior: "keyring_ok kr \<Longrightarrow> kr_prior kr = Some p \<Longrightarrow> lookup_key kr (k_id p) = Some p"
  by (simp add: lookup_key_def keyring_ok_def)

lemma lookup_key_Some:
  "lookup_key kr kid = Some k \<Longrightarrow> kid = k_id k \<and> (k = kr_current kr \<or> kr_prior kr = Some k)"
  by (auto simp: lookup_key_def split: if_splits option.splits)

section \<open>Bytes and claims\<close>

text \<open>The claims as Verify gives them back: the camera cleaned up, the expiry in whole seconds.\<close>

definition signed_claims :: "claims \<Rightarrow> claims" where
  "signed_claims c = (mint_claims c)\<lparr>cl_Expires := time_unix (unix_sec (cl_Expires c)) 0\<rparr>"

text \<open>Claims a caller can mint: a byte for the media, an event id, an expiry in range.\<close>

definition claims_ok :: "claims \<Rightarrow> bool" where
  "claims_ok c \<longleftrightarrow> 0 \<le> cl_Media c \<and> cl_Media c < 256 \<and> cl_EventID c \<noteq> []
     \<and> min_duration \<le> unix_sec (cl_Expires c) \<and> unix_sec (cl_Expires c) \<le> max_duration"

text \<open>The last step of Verify.\<close>

definition dated :: "time \<Rightarrow> claims \<Rightarrow> (token_error \<times> claims option) + claims" where
  "dated now c = (if now < cl_Expires c then Inr c else Inl (ErrExpired, Some c))"

lemma unix_sec_time_unix [simp]: "unix_sec (time_unix n 0) = n"
  by (simp add: unix_sec_def time_unix_def)

lemma length_token_mac [simp]: "length (token_mac s d) = 16"
  by (simp add: token_mac_def)

lemma read_claims_body:
  assumes "claims_ok c" and "length (cl_Camera c) \<le> 255" and "length (k_id k) = kidLen"
  shows "read_claims (drop kidLen (token_body k c))
    = Some (c\<lparr>cl_Expires := time_unix (unix_sec (cl_Expires c)) 0\<rparr>)"
proof -
  define e where "e = be_bytes 8 (unix_sec (cl_Expires c))"
  have e: "length e = 8" "int64 (be_int e) = unix_sec (cl_Expires c)"
    using assms(1) int64_of_mod [of "unix_sec (cl_Expires c)"]
    by (simp_all add: e_def be_int_be_bytes int64_id claims_ok_def)
  have body: "drop kidLen (token_body k c)
      = e @ [char_of (cl_Media c), char_of (length (cl_Camera c))] @ cl_Camera c @ cl_EventID c"
    by (simp add: token_body_def e_def assms(3))
  from assms show ?thesis
    unfolding body read_claims_def
    by (simp add: e nth_append Let_def claims_ok_def)
qed

lemma token_body_read:
  assumes "read_claims s = Some c" and "11 \<le> length s"
  shows "token_body k c = k_id k @ s" and "cl_EventID c \<noteq> []" and "length (cl_Camera c) \<le> 255"
proof -
  define n :: nat where "n = of_char (s ! 9)"
  have n: "n < 256" unfolding n_def by (rule nat_of_char_less_256)
  from assms(1) have c: "c = \<lparr>cl_EventID = drop (10 + n) s, cl_Media = of_char (s ! 8),
      cl_Camera = take n (drop 10 s), cl_Expires = time_unix (int64 (be_int (take 8 s))) 0\<rparr>"
    and len: "\<not> length s < 11 + n"
    by (auto simp: read_claims_def n_def Let_def split: if_splits)
  have "be_bytes 8 (int64 (be_int (take 8 s))) = be_bytes 8 (be_int (take 8 s))"
    by (rule be_bytes_mod) (use int64_mod in simp)
  also have "\<dots> = take 8 s" using be_bytes_be_int [of "take 8 s"] assms(2) by simp
  finally have e: "be_bytes 8 (int64 (be_int (take 8 s))) = take 8 s" .
  have "char_of n = s ! 9" by (simp add: n_def)
  moreover have "take n (drop 10 s) @ drop (10 + n) s = drop 10 s"
    by (metis add.commute append_take_drop_id drop_drop)
  moreover have "s = take 8 s @ [s ! 8, s ! 9] @ drop 10 s"
    using assms(2) id_take_nth_drop [of 8 s] Cons_nth_drop_Suc [of 9 s] by simp
  ultimately show "token_body k c = k_id k @ s"
    using len assms(2) by (simp add: token_body_def c e)
  show "cl_EventID c \<noteq> []" "length (cl_Camera c) \<le> 255" using len n by (simp_all add: c)
qed

section \<open>Minting and verifying\<close>

lemma verify_body:
  assumes "base64url_decode token = Some (body @ token_mac (k_secret k) body)"
    and "lookup_key kr (k_id k) = Some k" and "length (k_id k) = kidLen"
    and body: "body = token_body k c" and "claims_ok c" and "length (cl_Camera c) \<le> 255"
  shows "verify kr token now = dated now (c\<lparr>cl_Expires := time_unix (unix_sec (cl_Expires c)) 0\<rparr>)"
proof -
  have "15 \<le> length body"
    using assms(3,5) by (cases "cl_EventID c") (simp_all add: body token_body_def claims_ok_def)
  moreover have "take kidLen body = k_id k" using assms(3) by (simp add: body token_body_def)
  moreover have "read_claims (drop kidLen body)
      = Some (c\<lparr>cl_Expires := time_unix (unix_sec (cl_Expires c)) 0\<rparr>)"
    unfolding body by (rule read_claims_body) (use assms in simp_all)
  ultimately show ?thesis
    using assms(1,2) by (simp add: verify_def Let_def dated_def)
qed

lemma mint_token:
  assumes "claims_ok c"
  shows "base64url_decode (mint kr c) = Some (token_body (kr_current kr) (mint_claims c)
      @ token_mac (k_secret (kr_current kr)) (token_body (kr_current kr) (mint_claims c)))"
    and "claims_ok (mint_claims c)" and "length (cl_Camera (mint_claims c)) \<le> 255"
    and "(mint_claims c)\<lparr>cl_Expires := time_unix (unix_sec (cl_Expires (mint_claims c))) 0\<rparr>
      = signed_claims c"
  using assms
  by (simp_all add: mint_def Let_def base64url_decode_encode mint_claims_def claims_ok_def
      signed_claims_def)

text \<open>
  Further. A key's life. Claims minted by a ring verify in it, until their expiry and no longer, and
  come back as they were signed; they still do once the key has become the prior one; and a
  ring that has dropped the key answers that it does not know it.
\<close>
theorem token_rotation:
  assumes "claims_ok c" and "keyring_ok now_ring" and "keyring_ok rotated"
    and "kr_prior rotated = Some (kr_current now_ring)"
  shows "verify now_ring (mint now_ring c) t = dated t (signed_claims c) \<and>
    verify rotated (mint now_ring c) t = dated t (signed_claims c) \<and>
    verify (rotated\<lparr>kr_prior := None\<rparr>) (mint now_ring c) t = Inl (ErrUnknownKey, None)"
proof (intro conjI)
  let ?k = "kr_current now_ring"
  have k: "length (k_id ?k) = kidLen" using assms(2) by (simp add: keyring_ok_def)
  note tok = mint_token [OF assms(1)]
  show "verify now_ring (mint now_ring c) t = dated t (signed_claims c)"
    using verify_body [OF tok(1) lookup_current k refl tok(2,3)] tok(4) by simp
  show "verify rotated (mint now_ring c) t = dated t (signed_claims c)"
    using verify_body [OF tok(1) lookup_prior [OF assms(3,4)] k refl tok(2,3)] tok(4) by simp
  have "15 \<le> length (token_body ?k (mint_claims c))"
    using k tok(2) by (cases "cl_EventID (mint_claims c)") (simp_all add: token_body_def claims_ok_def)
  moreover have "take kidLen (token_body ?k (mint_claims c)) = k_id ?k"
    using k by (simp add: token_body_def)
  moreover have "lookup_key (rotated\<lparr>kr_prior := None\<rparr>) (k_id ?k) = None"
    using assms(3,4) by (simp add: lookup_key_def keyring_ok_def)
  ultimately show
    "verify (rotated\<lparr>kr_prior := None\<rparr>) (mint now_ring c) t = Inl (ErrUnknownKey, None)"
    using tok(1) [of now_ring] by (simp add: verify_def)
qed

text \<open>
  C30. What Verify accepts is what Mint writes. When a token verifies, its bytes are exactly the
  bytes a key of the ring mints for the claims returned, the claims name an event and are not
  past their expiry: no two different claims share a token, and no field of an accepted token is
  outside its signature.
\<close>
theorem verify_exact:
  assumes "verify kr token now = Inr c"
  shows "now < cl_Expires c \<and> cl_EventID c \<noteq> [] \<and>
    (\<exists>k. (k = kr_current kr \<or> kr_prior kr = Some k) \<and>
      base64url_decode token = base64url_decode (mint \<lparr>kr_current = k, kr_prior = None\<rparr> c))"
proof (intro conjI)
  from assms obtain body k where body: "base64url_decode token = Some body"
    and long: "\<not> length body < 31" and k: "lookup_key kr (take kidLen body) = Some k"
    and sig: "drop (length body - macLen) body
      = token_mac (k_secret k) (take (length body - macLen) body)"
    and c: "read_claims (drop kidLen (take (length body - macLen) body)) = Some c"
    and "now < cl_Expires c"
    by (auto simp: verify_def Let_def split: option.splits if_splits)
  let ?signed = "take (length body - macLen) body"
  have "11 \<le> length (drop kidLen ?signed)" using long by simp
  note read = token_body_read [OF c this]
  have "take kidLen ?signed = take kidLen body" using long by simp
  then have "?signed = take kidLen body @ drop kidLen ?signed" by (metis append_take_drop_id)
  then have "?signed = token_body k c" using lookup_key_Some [OF k] read(1) by simp
  moreover have "body = ?signed @ drop (length body - macLen) body" by simp
  ultimately have "body = token_body k c @ token_mac (k_secret k) (token_body k c)"
    using sig by metis
  then have "base64url_decode token = base64url_decode (mint \<lparr>kr_current = k, kr_prior = None\<rparr> c)"
    using body read(3) by (simp add: mint_def Let_def mint_claims_def base64url_decode_encode)
  with lookup_key_Some [OF k] show
    "\<exists>k. (k = kr_current kr \<or> kr_prior kr = Some k) \<and>
      base64url_decode token = base64url_decode (mint \<lparr>kr_current = k, kr_prior = None\<rparr> c)" by blast
  show "now < cl_Expires c" by fact
  show "cl_EventID c \<noteq> []" by (rule read(2))
qed

text \<open>
  Further. The rings New accepts: a current key of at least 32 bytes, a prior one that is empty or
  as long and has another id; such a ring mints with the current key and can tell its keys
  apart. ParseKey yields no key between the empty one and 32 bytes.
\<close>
theorem keyrings:
  "((\<exists>kr. new_keyring cur pri = Inr kr) \<longleftrightarrow>
      32 \<le> length cur \<and> (pri = [] \<or> 32 \<le> length pri \<and> k_id (mk_key pri) \<noteq> k_id (mk_key cur))) \<and>
   (new_keyring cur pri = Inr kr \<longrightarrow> keyring_ok kr \<and> k_secret (kr_current kr) = cur \<and>
      (has_prior kr \<longleftrightarrow> pri \<noteq> []) \<and>
      map_option k_secret (kr_prior kr) = (if pri = [] then None else Some pri)) \<and>
   (parse_key s = Inr b \<longrightarrow> b = [] \<or> 32 \<le> length b)"
  by (auto simp: new_keyring_def keyring_ok_def has_prior_def parse_key_def Let_def
      split: if_splits option.splits)

section \<open>Witnesses\<close>

definition demo_claims :: claims where
  "demo_claims = \<lparr>cl_EventID = ''ev1'', cl_Media = 2, cl_Camera = ''porch'',
     cl_Expires = unix_epoch + 1750000000 * Second\<rparr>"

definition demo_ring :: keyring where
  "demo_ring = \<lparr>kr_current = \<lparr>k_id = ''AAAA'', k_secret = replicate 32 CHR ''a''\<rparr>, kr_prior = None\<rparr>"

definition next_ring :: keyring where
  "next_ring = \<lparr>kr_current = \<lparr>k_id = ''BBBB'', k_secret = replicate 32 CHR ''b''\<rparr>,
     kr_prior = Some (kr_current demo_ring)\<rparr>"

lemma demo_claims_ok: "claims_ok demo_claims" and demo_ring_ok: "keyring_ok demo_ring"
  and next_ring_ok: "keyring_ok next_ring" and next_prior: "kr_prior next_ring = Some (kr_current demo_ring)"
  by (simp_all add: demo_claims_def demo_ring_def next_ring_def claims_ok_def keyring_ok_def unix_sec_def)

lemma demo_signed: "signed_claims demo_claims = demo_claims"
  by (simp add: signed_claims_def demo_claims_def mint_claims_def unix_sec_def time_unix_def)

theorem token_rotation_witness:
  "verify demo_ring (mint demo_ring demo_claims) unix_epoch = Inr demo_claims \<and>
   verify next_ring (mint demo_ring demo_claims) unix_epoch = Inr demo_claims \<and>
   verify (next_ring\<lparr>kr_prior := None\<rparr>) (mint demo_ring demo_claims) unix_epoch
     = Inl (ErrUnknownKey, None)"
  using token_rotation [OF demo_claims_ok demo_ring_ok next_ring_ok next_prior, of unix_epoch]
  by (simp add: demo_signed dated_def) (simp add: demo_claims_def)

lemma demo_verifies: "verify demo_ring (mint demo_ring demo_claims) unix_epoch = Inr demo_claims"
proof -
  note tok = mint_token [OF demo_claims_ok]
  have "length (k_id (kr_current demo_ring)) = kidLen" by (simp add: demo_ring_def)
  from verify_body [OF tok(1) lookup_current this refl tok(2,3)] tok(4)
  show ?thesis by (simp add: demo_signed dated_def) (simp add: demo_claims_def)
qed

theorem verify_exact_witness: "unix_epoch < cl_Expires demo_claims \<and> cl_EventID demo_claims \<noteq> []"
  using verify_exact [OF demo_verifies] by simp

theorem keyrings_witness:
  "\<exists>kr. new_keyring (replicate 32 CHR ''k'') [] = Inr kr \<and> keyring_ok kr \<and> \<not> has_prior kr"
proof -
  have "\<exists>kr. new_keyring (replicate 32 CHR ''k'') [] = Inr kr"
    using keyrings [of "replicate 32 CHR ''k''" "[]"] by simp
  then obtain kr where kr: "new_keyring (replicate 32 CHR ''k'') [] = Inr kr" by blast
  with keyrings [of "replicate 32 CHR ''k''" "[]" kr "[]" "[]"] show ?thesis by simp
qed

end
