(* ===== verification/Mediacache.thy ===== *)
theory Mediacache
  imports Go_Strings
begin

text \<open>
  The disk-backed cache of media cuts (package \<open>internal/mediacache\<close>).

  Every operation holds the mutex except the fetch inside Fill, so each locked section is one
  definition here and an operation of several sections is several steps: \<open>fill_begin\<close>,
  \<open>fill_slot\<close>, \<open>fill_store\<close> or \<open>fill_fail\<close>, and \<open>fill_leave\<close>.  The cache owns its directory; its
  completed files are part of the state (a path and a size each), partial files are not.  What
  the file system answers is an argument: \<open>rm p\<close> says whether removing \<open>p\<close> succeeds, \<open>pick\<close> in
  which order the run-time ranges over the map.  Sizes and use counters are unbounded here.
\<close>

section \<open>Keys and entries\<close>

record cache_key =
  ck_Media :: string
  ck_Ref :: string
  ck_Start :: int
  ck_End :: int
  ck_Variant :: string

definition key_filename :: "cache_key \<Rightarrow> string" where
  "key_filename k =
     (let v = (if ck_Variant k = [] then ''orig'' else ck_Variant k)
      in ck_Media k @ ''-'' @ ck_Ref k @ ''-'' @ itoa (ck_Start k) @ ''-'' @ itoa (ck_End k) @ ''-'' @ v)"

record cache_entry =
  ce_path :: string
  ce_size :: int
  ce_seq :: int

text \<open>
  A flight is waiting for one of the fill slots, fetching in one, or done with the result its
  waiters share.
\<close>

datatype flight = Queued | Fetching | Done "string option"

abbreviation (input) maxFills :: nat where "maxFills \<equiv> 4"
abbreviation (input) dirtyWindow :: int where "dirtyWindow \<equiv> 8388608"
abbreviation (input) copyBuffer :: int where "copyBuffer \<equiv> 262144"

record cache =
  mc_dir :: string
  mc_budget :: int
  mc_entries :: "(cache_key, cache_entry) gomap"
  mc_inflight :: "(cache_key, flight) gomap"
  mc_size :: int
  mc_seq :: int
  mc_files :: "(string, int) gomap"

type_synonym cache_pick = "(cache_key, cache_entry) gomap \<Rightarrow> cache_key list"

definition key_path :: "string \<Rightarrow> cache_key \<Rightarrow> string" where
  "key_path dir k = dir @ ''/'' @ key_filename k"

text \<open>New: the directory is emptied, as far as the files can be removed.\<close>

definition new_cache :: "(string \<Rightarrow> bool) \<Rightarrow> (string, int) gomap \<Rightarrow> string \<Rightarrow> int \<Rightarrow> cache" where
  "new_cache rm files dir budget =
     \<lparr>mc_dir = dir, mc_budget = budget, mc_entries = [], mc_inflight = [], mc_size = 0, mc_seq = 0,
      mc_files = filter (\<lambda>(p, n). \<not> rm p) files\<rparr>"

section \<open>Uses\<close>

text \<open>\<open>c.seq++; e.seq = c.seq\<close>.\<close>

definition touch :: "cache_key \<Rightarrow> cache_entry \<Rightarrow> cache \<Rightarrow> cache" where
  "touch k e c =
     c\<lparr>mc_seq := mc_seq c + 1, mc_entries := gm_set k (e\<lparr>ce_seq := mc_seq c + 1\<rparr>) (mc_entries c)\<rparr>"

definition cache_get :: "cache_key \<Rightarrow> cache \<Rightarrow> string option \<times> cache" where
  "cache_get k c =
     (case gm_get (mc_entries c) k of
        None \<Rightarrow> (None, c)
      | Some e \<Rightarrow> (Some (ce_path e), touch k e c))"

definition cache_contains :: "cache_key \<Rightarrow> cache \<Rightarrow> bool" where
  "cache_contains k c \<longleftrightarrow> gm_get (mc_entries c) k \<noteq> None"

record cache_stats =
  cs_Entries :: nat
  cs_Bytes :: int

definition cache_stats_of :: "cache \<Rightarrow> cache_stats" where
  "cache_stats_of c = \<lparr>cs_Entries = length (mc_entries c), cs_Bytes = mc_size c\<rparr>"

section \<open>Eviction\<close>

definition drop_entry :: "(string \<Rightarrow> bool) \<Rightarrow> cache_key \<Rightarrow> cache_entry \<Rightarrow> cache \<Rightarrow> cache" where
  "drop_entry rm k e c =
     c\<lparr>mc_files := (if rm (ce_path e) then gm_del (ce_path e) (mc_files c) else mc_files c),
       mc_size := mc_size c - ce_size e,
       mc_entries := gm_del k (mc_entries c)\<rparr>"

text \<open>The inner loop of shed: the entry used longest ago.\<close>

fun lru_step :: "cache_key \<times> cache_entry \<Rightarrow> (cache_key \<times> cache_entry) option
    \<Rightarrow> (cache_key \<times> cache_entry) option" where
  "lru_step (k, e) None = Some (k, e)"
| "lru_step (k, e) (Some (oldest, lru)) =
     (if ce_seq e < ce_seq lru then Some (k, e) else Some (oldest, lru))"

definition least_recent :: "cache_pick \<Rightarrow> (cache_key, cache_entry) gomap
    \<Rightarrow> (cache_key \<times> cache_entry) option" where
  "least_recent pick m = fold lru_step (gm_pick (pick m) m) None"

text \<open>The outer loop, one entry fewer each time round; the fuel is the number of entries.\<close>

fun shed_loop :: "nat \<Rightarrow> (string \<Rightarrow> bool) \<Rightarrow> cache_pick \<Rightarrow> cache \<Rightarrow> cache" where
  "shed_loop 0 rm pick c = c"
| "shed_loop (Suc n) rm pick c =
     (if mc_budget c < mc_size c \<and> 1 < length (mc_entries c) then
        case least_recent pick (mc_entries c) of
          None \<Rightarrow> c
        | Some (k, e) \<Rightarrow> shed_loop n rm pick (drop_entry rm k e c)
      else c)"

definition shed :: "(string \<Rightarrow> bool) \<Rightarrow> cache_pick \<Rightarrow> cache \<Rightarrow> cache" where
  "shed rm pick c = shed_loop (length (mc_entries c)) rm pick c"

definition evict :: "(string \<Rightarrow> bool) \<Rightarrow> cache_key \<Rightarrow> cache \<Rightarrow> cache" where
  "evict rm k c =
     (case gm_get (mc_entries c) k of None \<Rightarrow> c | Some e \<Rightarrow> drop_entry rm k e c)"

section \<open>Fill and Put\<close>

datatype fill_start = Hit string | Join | Lead

text \<open>The first section of Fill: a hit, a flight to wait for, or a new one to lead.\<close>

definition fill_begin :: "cache_key \<Rightarrow> cache \<Rightarrow> fill_start \<times> cache" where
  "fill_begin k c =
     (case gm_get (mc_entries c) k of
        Some e \<Rightarrow> (Hit (ce_path e), touch k e c)
      | None \<Rightarrow>
          (case gm_get (mc_inflight c) k of
             Some f \<Rightarrow> (Join, c)
           | None \<Rightarrow> (Lead, c\<lparr>mc_inflight := gm_set k Queued (mc_inflight c)\<rparr>)))"

text \<open>\<open>c.fills <- struct{}{}\<close>: only when one of the slots is free.\<close>

definition fetching :: "cache \<Rightarrow> nat" where
  "fetching c = length (filter (\<lambda>(k, f). f = Fetching) (mc_inflight c))"

definition fill_slot :: "cache_key \<Rightarrow> cache \<Rightarrow> cache option" where
  "fill_slot k c =
     (if gm_get (mc_inflight c) k = Some Queued \<and> fetching c < maxFills
      then Some (c\<lparr>mc_inflight := gm_set k Fetching (mc_inflight c)\<rparr>) else None)"

text \<open>
  The last section of fill, after the file is complete under its name: the entry is new, the
  size grows, shed runs.  An entry that is already there is overwritten, its size stays counted.
\<close>

definition fill_store :: "(string \<Rightarrow> bool) \<Rightarrow> cache_pick \<Rightarrow> cache_key \<Rightarrow> int \<Rightarrow> cache \<Rightarrow> cache" where
  "fill_store rm pick k n c =
     (let path = key_path (mc_dir c) k;
          seq = mc_seq c + 1;
          c1 = c\<lparr>mc_files := gm_set path n (mc_files c),
                 mc_seq := seq,
                 mc_entries := gm_set k \<lparr>ce_path = path, ce_size = n, ce_seq = seq\<rparr> (mc_entries c),
                 mc_size := mc_size c + n,
                 mc_inflight := gm_set k (Done (Some path)) (mc_inflight c)\<rparr>
      in shed rm pick c1)"

text \<open>Every way fill gives up: no slot before the deadline, no body, no file, a broken copy.\<close>

definition fill_fail :: "cache_key \<Rightarrow> cache \<Rightarrow> cache" where
  "fill_fail k c = c\<lparr>mc_inflight := gm_set k (Done None) (mc_inflight c)\<rparr>"

definition fill_leave :: "cache_key \<Rightarrow> cache \<Rightarrow> cache" where
  "fill_leave k c = c\<lparr>mc_inflight := gm_del k (mc_inflight c)\<rparr>"

text \<open>
  Put of a file of \<open>n\<close> bytes.  The rename comes before the lock is taken; it is one step with the
  locked section here, so an entry of the same key being dropped just between the two (which
  would take the new file with it) is not modelled.
\<close>

definition put :: "(string \<Rightarrow> bool) \<Rightarrow> cache_pick \<Rightarrow> cache_key \<Rightarrow> int \<Rightarrow> cache \<Rightarrow> cache" where
  "put rm pick k n c =
     (let path = key_path (mc_dir c) k;
          seq = mc_seq c + 1;
          old = (case gm_get (mc_entries c) k of None \<Rightarrow> 0 | Some e \<Rightarrow> ce_size e);
          c1 = c\<lparr>mc_files := gm_set path n (mc_files c),
                 mc_seq := seq,
                 mc_entries := gm_set k \<lparr>ce_path = path, ce_size = n, ce_seq = seq\<rparr> (mc_entries c),
                 mc_size := mc_size c - old + n\<rparr>
      in shed rm pick c1)"

text \<open>
  copySynced: one element per Read, the bytes it returned and whether it ended the body (at its
  end or in an error), with what Write and Sync answered.  The result is the number of bytes
  copied, or None for an error; the second list is what was unsynced after each write.
\<close>

datatype read_end = More | Eof | Broken

fun copy_synced :: "(int \<times> read_end \<times> bool \<times> bool) list \<Rightarrow> int \<Rightarrow> int \<Rightarrow> (int option \<times> int list)" where
  "copy_synced [] n unsynced = (None, [])"
| "copy_synced ((r, stop, wrote, synced) # reads) n unsynced =
     (let u = unsynced + r;
          over = 0 < r \<and> dirtyWindow \<le> u;
          u' = (if r \<le> 0 then unsynced else if over then 0 else u);
          n' = (if 0 < r then n + r else n);
          log = (if 0 < r then [u] else [])
      in if 0 < r \<and> \<not> wrote then (None, [])
         else if over \<and> \<not> synced then (None, log)
         else case stop of
           Eof \<Rightarrow> (Some n', log)
         | Broken \<Rightarrow> (None, log)
         | More \<Rightarrow> (let (res, l) = copy_synced reads n' u' in (res, log @ l)))"

section \<open>File names\<close>

text \<open>Keys as the server makes them: no dash in the medium or the variant, times after 1970.\<close>

definition plain_key :: "cache_key \<Rightarrow> bool" where
  "plain_key k \<longleftrightarrow> CHR ''-'' \<notin> set (ck_Media k) \<and> CHR ''-'' \<notin> set (ck_Variant k)
     \<and> ck_Variant k \<noteq> ''orig'' \<and> 0 \<le> ck_Start k \<and> 0 \<le> ck_End k"

lemma sep_inject:
  fixes c :: char
  assumes "a @ c # x = b @ c # y" and "c \<notin> set a" and "c \<notin> set b"
  shows "a = b \<and> x = y"
proof -
  have "cut c (a @ c # x) = Some (a, x)" "cut c (b @ c # y) = Some (b, y)"
    using assms(2,3) by (simp_all add: cut_append)
  then have "Some (a, x) = Some (b, y)" unfolding assms(1) by metis
  then show ?thesis by simp
qed

lemma sep_inject_last:
  fixes c :: char
  assumes "x @ c # a = y @ c # b" and "c \<notin> set a" and "c \<notin> set b"
  shows "x = y \<and> a = b"
proof -
  have "rev a @ c # rev x = rev b @ c # rev y" using arg_cong [OF assms(1), of rev] by simp
  with sep_inject [of "rev a" c "rev x" "rev b" "rev y"] assms(2,3) show ?thesis by simp
qed

lemma itoa_no_dash: "0 \<le> n \<Longrightarrow> CHR ''-'' \<notin> set (itoa n)"
  using set_dec [of n] digit_chars_neq(1) by (auto simp: itoa_def simp del: digit_chars_neq)

lemma itoa_inject:
  assumes "0 \<le> m" and "0 \<le> n" and "itoa m = itoa n"
  shows "m = n"
proof -
  have "dec m = dec n" using assms by (simp add: itoa_def del: dec.simps)
  then have "Some m = Some n"
    using dec_digits_dec [OF assms(1)] dec_digits_dec [OF assms(2)] by metis
  then show ?thesis by simp
qed

text \<open>
  Further. Two different cuts never share a file: the file name determines the medium, the camera or
  event, both bounds and the variant, whatever dashes the camera's name has.
\<close>
theorem filename_inject:
  assumes "plain_key k" and "plain_key k'" and "key_filename k = key_filename k'"
  shows "k = k'"
proof -
  define v v' where "v = (if ck_Variant k = [] then ''orig'' else ck_Variant k)"
    and "v' = (if ck_Variant k' = [] then ''orig'' else ck_Variant k')"
  let ?head = "\<lambda>k. ck_Media k @ CHR ''-'' # ck_Ref k"
  note plain = assms(1,2) [unfolded plain_key_def]
  have v: "CHR ''-'' \<notin> set v" "CHR ''-'' \<notin> set v'" using plain by (simp_all add: v_def v'_def)
  have "((?head k @ CHR ''-'' # itoa (ck_Start k)) @ CHR ''-'' # itoa (ck_End k)) @ CHR ''-'' # v
      = ((?head k' @ CHR ''-'' # itoa (ck_Start k')) @ CHR ''-'' # itoa (ck_End k')) @ CHR ''-'' # v'"
    using assms(3) by (simp add: key_filename_def v_def v'_def)
  note 1 = sep_inject_last [OF this v]
  note 2 = sep_inject_last [OF 1 [THEN conjunct1] itoa_no_dash itoa_no_dash]
  have "ck_Variant k = ck_Variant k'"
    using 1 plain by (auto simp: v_def v'_def split: if_splits)
  moreover have "ck_End k = ck_End k'" using 2 plain by (intro itoa_inject) simp_all
  moreover have 3: "?head k = ?head k' \<and> itoa (ck_Start k) = itoa (ck_Start k')"
    by (rule sep_inject_last [where c = "CHR ''-''"]) (use 2 plain itoa_no_dash in simp_all)
  moreover from 3 have "ck_Start k = ck_Start k'" using plain by (intro itoa_inject) simp_all
  moreover have "ck_Media k = ck_Media k' \<and> ck_Ref k = ck_Ref k'"
    by (rule sep_inject [where c = "CHR ''-''"]) (use 3 plain in simp_all)
  ultimately show ?thesis by simp
qed

lemma key_path_inject: "plain_key k \<Longrightarrow> plain_key k' \<Longrightarrow> key_path d k = key_path d k' \<Longrightarrow> k = k'"
  by (simp add: key_path_def filename_inject)

section \<open>The entry used longest ago\<close>

definition seqs_differ :: "(cache_key, cache_entry) gomap \<Rightarrow> bool" where
  "seqs_differ m \<longleftrightarrow> distinct (map (\<lambda>(k, e). ce_seq e) m)"

lemma seqs_differ_inj:
  "seqs_differ m \<Longrightarrow> x \<in> set m \<Longrightarrow> y \<in> set m \<Longrightarrow> ce_seq (snd x) = ce_seq (snd y) \<Longrightarrow> x = y"
  by (auto simp: seqs_differ_def distinct_map inj_on_def split_beta)

lemma seqs_differ_del [simp]: "seqs_differ m \<Longrightarrow> seqs_differ (gm_del k m)"
  unfolding seqs_differ_def AList.delete_eq by (rule distinct_map_filter)

lemma seqs_differ_set:
  assumes "seqs_differ m" and "\<And>j e'. (j, e') \<in> set m \<Longrightarrow> ce_seq e' < ce_seq e"
  shows "seqs_differ (gm_set k e m)"
  using assms
proof (induction m)
  case (Cons a m)
  have "(j, e') \<in> set (gm_set k e m) \<Longrightarrow> e' = e \<or> (j, e') \<in> set m" for j e'
    by (rule gm_set_values)
  with Cons show ?case
    by (cases a) (fastforce simp: seqs_differ_def)
qed (simp add: seqs_differ_def)

lemma fold_lru_step:
  "\<exists>y. fold lru_step xs (Some x) = Some y \<and> y \<in> set (x # xs)
     \<and> (\<forall>z \<in> set (x # xs). ce_seq (snd y) \<le> ce_seq (snd z))"
proof (induction xs arbitrary: x)
  case (Cons a xs)
  obtain k e j l where ax: "a = (k, e)" "x = (j, l)" by (cases a, cases x)
  show ?case
  proof (cases "ce_seq e < ce_seq l")
    case True
    with Cons [of a] ax show ?thesis by force
  next
    case False
    with Cons [of x] ax show ?thesis by force
  qed
qed simp

lemma least_recent_spec:
  assumes "gm_wf m" and "m \<noteq> []"
  shows "\<exists>k e. least_recent pick m = Some (k, e) \<and> (k, e) \<in> set m
    \<and> (\<forall>(j, f) \<in> set m. ce_seq e \<le> ce_seq f)"
proof -
  have set: "set (gm_pick (pick m) m) = set m" using assms(1) by simp
  with assms(2) obtain x xs where xs: "gm_pick (pick m) m = x # xs"
    by (cases "gm_pick (pick m) m") auto
  obtain y where "fold lru_step xs (Some x) = Some y" "y \<in> set m"
    "\<forall>z \<in> set m. ce_seq (snd y) \<le> ce_seq (snd z)"
    using fold_lru_step [of xs x] set [unfolded xs] by blast
  then show ?thesis
    by (intro exI [of _ "fst y"] exI [of _ "snd y"]) (cases x, auto simp: least_recent_def xs split_beta)
qed

text \<open>Which entry that is does not depend on the order of the range.\<close>

lemma least_recent_pick:
  assumes "gm_wf m" and "seqs_differ m"
  shows "least_recent pick m = least_recent pick' m"
proof (cases "m = []")
  case True
  then show ?thesis by (simp add: least_recent_def gm_pick_def gm_range_def gm_order_def)
next
  case False
  from least_recent_spec [OF assms(1) False, of pick] obtain k e where 1:
    "least_recent pick m = Some (k, e)" "(k, e) \<in> set m" "\<forall>(j, f) \<in> set m. ce_seq e \<le> ce_seq f" by blast
  from least_recent_spec [OF assms(1) False, of pick'] obtain j f where 2:
    "least_recent pick' m = Some (j, f)" "(j, f) \<in> set m" "\<forall>(k, e) \<in> set m. ce_seq f \<le> ce_seq e" by blast
  from 1 2 have "ce_seq (snd (k, e)) = ce_seq (snd (j, f))" by force
  with seqs_differ_inj [OF assms(2) 1(2) 2(2)] 1 2 show ?thesis by simp
qed

section \<open>What shed does\<close>

text \<open>
  What the cache keeps of its entries and its size, without the flights: the part of the
  invariant that shed preserves.
\<close>

definition entries_ok :: "cache \<Rightarrow> bool" where
  "entries_ok c \<longleftrightarrow> gm_wf (mc_entries c) \<and> seqs_differ (mc_entries c)
     \<and> mc_size c = gm_sum ce_size (mc_entries c)
     \<and> (\<forall>(k, e) \<in> set (mc_entries c). ce_seq e \<le> mc_seq c \<and> 0 \<le> ce_size e \<and> plain_key k
          \<and> ce_path e = key_path (mc_dir c) k \<and> gm_get (mc_files c) (ce_path e) = Some (ce_size e))"

lemma entries_okD:
  assumes "entries_ok c" and "gm_get (mc_entries c) k = Some e"
  shows "ce_seq e \<le> mc_seq c" and "0 \<le> ce_size e" and "plain_key k"
    and "ce_path e = key_path (mc_dir c) k" and "gm_get (mc_files c) (ce_path e) = Some (ce_size e)"
  using assms by (fastforce simp: entries_ok_def dest: map_of_SomeD)+

lemma drop_entry_simps [simp]:
  "mc_dir (drop_entry rm k e c) = mc_dir c" "mc_budget (drop_entry rm k e c) = mc_budget c"
  "mc_entries (drop_entry rm k e c) = gm_del k (mc_entries c)"
  "mc_inflight (drop_entry rm k e c) = mc_inflight c" "mc_seq (drop_entry rm k e c) = mc_seq c"
  "mc_size (drop_entry rm k e c) = mc_size c - ce_size e"
  by (simp_all add: drop_entry_def)

lemma drop_entry_ok:
  assumes "entries_ok c" and "gm_get (mc_entries c) k = Some e"
  shows "entries_ok (drop_entry rm k e c)"
proof -
  have ok: "ce_seq f \<le> mc_seq c \<and> 0 \<le> ce_size f \<and> plain_key j \<and> ce_path f = key_path (mc_dir c) j
      \<and> gm_get (mc_files (drop_entry rm k e c)) (ce_path f) = Some (ce_size f)"
    if "(j, f) \<in> set (gm_del k (mc_entries c))" for j f
  proof -
    from that have "j \<noteq> k" "(j, f) \<in> set (mc_entries c)" by (auto simp: AList.delete_eq)
    with assms(1) have f: "gm_get (mc_entries c) j = Some f" by (simp add: entries_ok_def)
    have "ce_path f \<noteq> ce_path e"
      using key_path_inject [OF entries_okD(3) [OF assms(1) f] entries_okD(3) [OF assms]] \<open>j \<noteq> k\<close>
      by (auto simp: entries_okD(4) [OF assms(1) f] entries_okD(4) [OF assms])
    with entries_okD [OF assms(1) f] show ?thesis by (simp add: drop_entry_def)
  qed
  with assms show ?thesis by (auto simp: entries_ok_def gm_sum_del)
qed

lemma shed_loop_frame:
  "mc_dir (shed_loop n rm pick c) = mc_dir c \<and> mc_budget (shed_loop n rm pick c) = mc_budget c
   \<and> mc_inflight (shed_loop n rm pick c) = mc_inflight c \<and> mc_seq (shed_loop n rm pick c) = mc_seq c"
  by (induction n arbitrary: c) (auto split: option.splits prod.splits)

lemma shed_simps [simp]:
  "mc_dir (shed rm pick c) = mc_dir c" "mc_budget (shed rm pick c) = mc_budget c"
  "mc_inflight (shed rm pick c) = mc_inflight c" "mc_seq (shed rm pick c) = mc_seq c"
  using shed_loop_frame by (simp_all add: shed_def)

text \<open>
  What an eviction run leaves: a subset of the entries, dropped from the least recently used on,
  no more of them than the budget asks for, and never the last one.
\<close>

definition dropped :: "cache \<Rightarrow> cache \<Rightarrow> cache_key \<Rightarrow> cache_entry \<Rightarrow> bool" where
  "dropped c c' k e \<longleftrightarrow> gm_get (mc_entries c) k = Some e \<and> gm_get (mc_entries c') k = None"

definition evicted :: "cache \<Rightarrow> cache \<Rightarrow> bool" where
  "evicted c c' \<longleftrightarrow> entries_ok c' \<and> mc_entries c' \<noteq> [] \<and>
     (\<forall>k e. gm_get (mc_entries c') k = Some e \<longrightarrow> gm_get (mc_entries c) k = Some e) \<and>
     (\<forall>k e j f. dropped c c' k e \<and> gm_get (mc_entries c') j = Some f \<longrightarrow> ce_seq e < ce_seq f) \<and>
     (mc_entries c' = mc_entries c \<and> mc_size c' = mc_size c \<or>
      (\<exists>k e. dropped c c' k e \<and> mc_budget c < mc_size c' + ce_size e
         \<and> (\<forall>j f. dropped c c' j f \<longrightarrow> ce_seq f \<le> ce_seq e)))"

lemma evicted_drop:
  assumes c: "entries_ok c" and kg: "gm_get (mc_entries c) k = Some e"
    and lru: "\<forall>(j, f) \<in> set (mc_entries c). ce_seq e \<le> ce_seq f" and over: "mc_budget c < mc_size c"
    and ev: "evicted (drop_entry rm k e c) c'"
  shows "evicted c c'"
proof -
  let ?d = "drop_entry rm k e c"
  have kset: "(k, e) \<in> set (mc_entries c)" using kg by (rule map_of_SomeD)
  have sub: "gm_get (mc_entries c') j = Some f \<Longrightarrow> gm_get (mc_entries c) j = Some f \<and> j \<noteq> k" for j f
  proof -
    assume "gm_get (mc_entries c') j = Some f"
    then have "gm_get (mc_entries ?d) j = Some f" using ev by (simp add: evicted_def)
    then show ?thesis by (simp split: if_splits)
  qed
  then have gone: "gm_get (mc_entries c') k = None"
    by (cases "gm_get (mc_entries c') k") auto
  have older: "ce_seq e \<le> ce_seq f" if "gm_get (mc_entries c) j = Some f" for j f
    using lru map_of_SomeD [OF that] by blast
  have strict: "ce_seq e < ce_seq f" if j: "gm_get (mc_entries c) j = Some f" "j \<noteq> k" for j f
  proof -
    have "seqs_differ (mc_entries c)" using c by (simp add: entries_ok_def)
    from seqs_differ_inj [OF this kset map_of_SomeD [OF j(1)]] older [OF j(1)] j(2)
    show ?thesis by fastforce
  qed
  have split: "dropped c c' j f \<longleftrightarrow> j = k \<and> f = e \<or> dropped ?d c' j f" for j f
    using kg gone by (auto simp: dropped_def)
  have last: "(\<exists>k e. dropped c c' k e \<and> mc_budget c < mc_size c' + ce_size e
      \<and> (\<forall>j f. dropped c c' j f \<longrightarrow> ce_seq f \<le> ce_seq e))"
  proof (cases "mc_entries c' = mc_entries ?d \<and> mc_size c' = mc_size ?d")
    case True
    then have "\<not> dropped ?d c' j f" for j f by (simp add: dropped_def)
    with True split over show ?thesis by (intro exI [of _ k] exI [of _ e]) auto
  next
    case False
    with ev obtain j f where f: "dropped ?d c' j f" "mc_budget ?d < mc_size c' + ce_size f"
      "\<forall>i g. dropped ?d c' i g \<longrightarrow> ce_seq g \<le> ce_seq f"
      by (auto simp: evicted_def)
    from f(1) have "ce_seq e \<le> ce_seq f" by (intro older [of j]) (auto simp: dropped_def split: if_splits)
    with f split show ?thesis by (intro exI [of _ j] exI [of _ f]) auto
  qed
  have "ce_seq g < ce_seq f" if "dropped c c' i g" "gm_get (mc_entries c') j = Some f" for i g j f
  proof (cases "i = k \<and> g = e")
    case True
    with strict sub [OF that(2)] show ?thesis by blast
  next
    case False
    with that(1) split have "dropped ?d c' i g" by simp
    with that(2) ev show ?thesis unfolding evicted_def by blast
  qed
  then have order: "\<forall>k e j f. dropped c c' k e \<and> gm_get (mc_entries c') j = Some f \<longrightarrow> ce_seq e < ce_seq f"
    by blast
  have "\<forall>k e. gm_get (mc_entries c') k = Some e \<longrightarrow> gm_get (mc_entries c) k = Some e" using sub by blast
  moreover have "entries_ok c'" "mc_entries c' \<noteq> []" using ev by (simp_all add: evicted_def)
  ultimately show ?thesis unfolding evicted_def using order last by (intro conjI disjI2)
qed

lemma evicted_refl: "entries_ok c \<Longrightarrow> mc_entries c \<noteq> [] \<Longrightarrow> evicted c c"
  by (auto simp: evicted_def dropped_def)

lemma shed_loop_spec:
  assumes "entries_ok c" and "mc_entries c \<noteq> []" and "length (mc_entries c) \<le> Suc n"
  shows "evicted c (shed_loop n rm pick c) \<and>
    (mc_size (shed_loop n rm pick c) \<le> mc_budget c \<or> length (mc_entries (shed_loop n rm pick c)) \<le> 1)"
  using assms
proof (induction n arbitrary: c)
  case 0
  then show ?case by (simp add: evicted_refl)
next
  case (Suc n)
  have wf: "gm_wf (mc_entries c)" using Suc.prems(1) by (simp add: entries_ok_def)
  show ?case
  proof (cases "mc_budget c < mc_size c \<and> 1 < length (mc_entries c)")
    case False
    with Suc.prems show ?thesis by (auto simp: evicted_refl)
  next
    case True
    obtain k e where lru: "least_recent pick (mc_entries c) = Some (k, e)"
      "(k, e) \<in> set (mc_entries c)" "\<forall>(j, f) \<in> set (mc_entries c). ce_seq e \<le> ce_seq f"
      using least_recent_spec [OF wf Suc.prems(2), of pick] by blast
    have kg: "gm_get (mc_entries c) k = Some e" using lru(2) wf by simp
    let ?d = "drop_entry rm k e c"
    have len: "length (mc_entries c) = Suc (length (mc_entries ?d))"
      using gm_length_del [OF wf kg] by simp
    then have ne: "mc_entries ?d \<noteq> []" using True by auto
    have "evicted ?d (shed_loop n rm pick ?d) \<and> (mc_size (shed_loop n rm pick ?d) \<le> mc_budget ?d
        \<or> length (mc_entries (shed_loop n rm pick ?d)) \<le> 1)"
      using Suc.prems len by (intro Suc.IH drop_entry_ok [OF _ kg] ne) simp_all
    moreover have "shed_loop (Suc n) rm pick c = shed_loop n rm pick ?d" using True lru(1) by simp
    ultimately show ?thesis
      using evicted_drop [OF Suc.prems(1) kg lru(3), of rm "shed_loop n rm pick ?d"] True
      by (simp del: shed_loop.simps)
  qed
qed

lemma shed_spec:
  assumes "entries_ok c" and "mc_entries c \<noteq> []"
  shows "evicted c (shed rm pick c)"
    and "mc_size (shed rm pick c) \<le> mc_budget c \<or> length (mc_entries (shed rm pick c)) \<le> 1"
  using shed_loop_spec [OF assms, of "length (mc_entries c)"] by (simp_all add: shed_def)

lemma shed_loop_pick: "entries_ok c \<Longrightarrow> shed_loop n rm pick c = shed_loop n rm pick' c"
proof (induction n arbitrary: c)
  case (Suc n)
  have eq: "least_recent pick (mc_entries c) = least_recent pick' (mc_entries c)"
    using Suc.prems by (intro least_recent_pick) (simp_all add: entries_ok_def)
  show ?case
  proof (cases "mc_entries c = []")
    case False
    then obtain k e where "least_recent pick' (mc_entries c) = Some (k, e)" "(k, e) \<in> set (mc_entries c)"
      using least_recent_spec [of "mc_entries c" pick'] Suc.prems by (auto simp: entries_ok_def)
    moreover from this have "entries_ok (drop_entry rm k e c)"
      using Suc.prems by (intro drop_entry_ok) (simp_all add: entries_ok_def)
    ultimately show ?thesis using Suc.IH eq by simp
  qed simp
qed simp

text \<open>
  C31. Eviction is by least recent use. From any consistent cache, shed keeps every entry used
  after one it keeps, drops just enough (without the last one dropped the budget would still be
  exceeded), ends within the budget or with a single entry, which it always keeps, and does the
  same whatever order the run-time ranges over the map in.
\<close>
theorem shed_least_recent:
  assumes "entries_ok c" and "mc_entries c \<noteq> []"
  shows "evicted c (shed rm pick c) \<and>
    (mc_size (shed rm pick c) \<le> mc_budget c \<or> length (mc_entries (shed rm pick c)) = 1) \<and>
    shed rm pick c = shed rm pick' c"
proof -
  have "mc_entries (shed rm pick c) \<noteq> []"
    using shed_spec(1) [OF assms, of rm pick] by (simp add: evicted_def)
  with shed_spec [OF assms, of rm pick] shed_loop_pick [OF assms(1)] show ?thesis
    by (cases "mc_entries (shed rm pick c)") (auto simp: shed_def)
qed

section \<open>Reachable caches\<close>

text \<open>
  The steps of any number of callers, in any interleaving.  A file is adopted by Put under a key
  that nobody is filling: Put serves the stitched renders, Fill the clips and snapshots.
\<close>

inductive cache_step :: "cache \<Rightarrow> cache \<Rightarrow> bool" where
  step_get: "cache_step c (snd (cache_get k c))"
| step_begin: "plain_key k \<Longrightarrow> cache_step c (snd (fill_begin k c))"
| step_slot: "fill_slot k c = Some c' \<Longrightarrow> cache_step c c'"
| step_store: "gm_get (mc_inflight c) k = Some Fetching \<Longrightarrow> 0 \<le> n \<Longrightarrow>
    cache_step c (fill_store rm pick k n c)"
| step_fail: "gm_get (mc_inflight c) k = Some f \<Longrightarrow> f = Queued \<or> f = Fetching \<Longrightarrow>
    cache_step c (fill_fail k c)"
| step_leave: "gm_get (mc_inflight c) k = Some (Done r) \<Longrightarrow> cache_step c (fill_leave k c)"
| step_put: "gm_get (mc_inflight c) k = None \<Longrightarrow> plain_key k \<Longrightarrow> 0 \<le> n \<Longrightarrow>
    cache_step c (put rm pick k n c)"
| step_evict: "cache_step c (evict rm k c)"

definition flights_ok :: "cache \<Rightarrow> bool" where
  "flights_ok c \<longleftrightarrow> gm_wf (mc_inflight c) \<and> fetching c \<le> maxFills \<and>
     (\<forall>k f. gm_get (mc_inflight c) k = Some f \<longrightarrow> plain_key k
        \<and> (f = Queued \<or> f = Fetching \<longrightarrow> gm_get (mc_entries c) k = None)
        \<and> (\<forall>p. f = Done (Some p) \<longrightarrow> p = key_path (mc_dir c) k))"

definition within_budget :: "cache \<Rightarrow> bool" where
  "within_budget c \<longleftrightarrow> mc_size c \<le> mc_budget c \<or> length (mc_entries c) \<le> 1"

definition cache_inv :: "cache \<Rightarrow> bool" where
  "cache_inv c \<longleftrightarrow> entries_ok c \<and> flights_ok c \<and> within_budget c"

lemma fetching_sum: "int (fetching c) = gm_sum (\<lambda>f. of_bool (f = Fetching)) (mc_inflight c)"
proof -
  have "int (length (filter (\<lambda>(k, f). f = Fetching) m)) = gm_sum (\<lambda>f. of_bool (f = Fetching)) m"
    for m :: "(cache_key, flight) gomap"
    by (induction m) (auto simp: gm_sum_def)
  then show ?thesis by (simp add: fetching_def)
qed

text \<open>A new or refreshed entry under the next use number.\<close>

lemma entries_ok_set:
  assumes c: "entries_ok c" and "plain_key k" and "0 \<le> n"
    and e: "e = \<lparr>ce_path = key_path (mc_dir c) k, ce_size = n, ce_seq = mc_seq c + 1\<rparr>"
    and c1: "mc_entries c1 = gm_set k e (mc_entries c)" "mc_seq c1 = mc_seq c + 1" "mc_dir c1 = mc_dir c"
      "mc_size c1 = mc_size c + n - (case gm_get (mc_entries c) k of None \<Rightarrow> 0 | Some o' \<Rightarrow> ce_size o')"
      "mc_files c1 = gm_set (ce_path e) n (mc_files c) \<or>
       mc_files c1 = mc_files c \<and> gm_get (mc_files c) (ce_path e) = Some n"
  shows "entries_ok c1"
proof -
  have wf: "gm_wf (mc_entries c)" and differ: "seqs_differ (mc_entries c)"
    using c by (simp_all add: entries_ok_def)
  have old: "ce_seq f \<le> mc_seq c \<and> 0 \<le> ce_size f \<and> plain_key j \<and> ce_path f = key_path (mc_dir c) j
      \<and> gm_get (mc_files c) (ce_path f) = Some (ce_size f)" if "gm_get (mc_entries c) j = Some f" for j f
    using entries_okD [OF c that] by simp
  have "seqs_differ (gm_set k e (mc_entries c))"
  proof (rule seqs_differ_set [OF differ])
    fix j f assume "(j, f) \<in> set (mc_entries c)"
    then show "ce_seq f < ce_seq e" using old [of j f] wf by (simp add: e)
  qed
  moreover have "ce_seq f \<le> mc_seq c1 \<and> 0 \<le> ce_size f \<and> plain_key j \<and> ce_path f = key_path (mc_dir c1) j
      \<and> gm_get (mc_files c1) (ce_path f) = Some (ce_size f)"
    if "gm_get (gm_set k e (mc_entries c)) j = Some f" for j f
  proof (cases "j = k")
    case True
    with that assms(2,3) c1 show ?thesis by (auto simp: e)
  next
    case False
    with that have f: "gm_get (mc_entries c) j = Some f" by simp
    with old [OF f] False key_path_inject [OF _ assms(2), of j "mc_dir c"] c1 show ?thesis
      by (auto simp: e)
  qed
  moreover have "gm_wf (gm_set k e (mc_entries c))" using wf by simp
  moreover from this have "\<forall>(j, f) \<in> set (gm_set k e (mc_entries c)). ce_seq f \<le> mc_seq c1
      \<and> 0 \<le> ce_size f \<and> plain_key j \<and> ce_path f = key_path (mc_dir c1) j
      \<and> gm_get (mc_files c1) (ce_path f) = Some (ce_size f)"
    using calculation(2) by (auto simp del: gm_get_set)
  moreover have "mc_size c1 = gm_sum ce_size (gm_set k e (mc_entries c))"
    using c c1(4) gm_sum_set [OF wf, of ce_size k e] by (simp add: entries_ok_def e)
  ultimately show ?thesis unfolding entries_ok_def c1(1) by (intro conjI)
qed

lemma touch_inv:
  assumes "cache_inv c" and "gm_get (mc_entries c) k = Some e"
  shows "cache_inv (touch k e c)"
proof -
  have ok: "entries_ok c" using assms(1) by (simp add: cache_inv_def)
  note e = entries_okD [OF ok assms(2)]
  have "entries_ok (touch k e c)"
    by (rule entries_ok_set [OF ok e(3) e(2), where e = "e\<lparr>ce_seq := mc_seq c + 1\<rparr>"])
      (use e assms(2) in \<open>simp_all add: touch_def\<close>)
  moreover have "length (gm_set k v (mc_entries c)) = length (mc_entries c)" for v
    using assms(2) by (metis length_map map_of_eq_None_iff option.distinct(1) update_keys list.set_map)
  ultimately show ?thesis
    using assms by (auto simp: cache_inv_def within_budget_def flights_ok_def touch_def fetching_def)
qed

declare map_of_eq_Some_iff [simp del]

text \<open>A new file: the state of Fill and of Put just before shed, and after it.\<close>

lemma newest_kept:
  assumes "entries_ok c1" and "gm_get (mc_entries c1) k = Some e" and "ce_seq e = mc_seq c1"
  shows "gm_get (mc_entries (shed rm pick c1)) k = Some e"
    and "gm_get (mc_files (shed rm pick c1)) (ce_path e) = Some (ce_size e)"
    and "entries_ok (shed rm pick c1)" and "within_budget (shed rm pick c1)"
proof -
  have ne: "mc_entries c1 \<noteq> []" using assms(2) by auto
  note shed = shed_spec [OF assms(1) ne, of rm pick]
  show ok: "entries_ok (shed rm pick c1)" using shed(1) by (simp add: evicted_def)
  show "within_budget (shed rm pick c1)" using shed(2) by (simp add: within_budget_def)
  show kept: "gm_get (mc_entries (shed rm pick c1)) k = Some e"
  proof (rule ccontr)
    assume "gm_get (mc_entries (shed rm pick c1)) k \<noteq> Some e"
    then have "dropped c1 (shed rm pick c1) k e"
      using assms(2) shed(1) by (cases "gm_get (mc_entries (shed rm pick c1)) k")
        (auto simp: dropped_def evicted_def)
    moreover obtain a m where "mc_entries (shed rm pick c1) = a # m"
      using shed(1) by (cases "mc_entries (shed rm pick c1)") (auto simp: evicted_def)
    then have f: "gm_get (mc_entries (shed rm pick c1)) (fst a) = Some (snd a)" by simp
    ultimately have "ce_seq e < ce_seq (snd a)" using shed(1) unfolding evicted_def by blast
    with entries_okD(1) [OF ok f] assms(3) show False by simp
  qed
  show "gm_get (mc_files (shed rm pick c1)) (ce_path e) = Some (ce_size e)"
    by (rule entries_okD(5) [OF ok kept])
qed

lemma shed_flights: "entries_ok c1 \<Longrightarrow> mc_entries c1 \<noteq> [] \<Longrightarrow> flights_ok c1 \<Longrightarrow> flights_ok (shed rm pick c1)"
proof -
  assume c1: "entries_ok c1" "mc_entries c1 \<noteq> []" and fl: "flights_ok c1"
  have "gm_get (mc_entries c1) k = None \<Longrightarrow> gm_get (mc_entries (shed rm pick c1)) k = None" for k
    using shed_spec(1) [OF c1, of rm pick]
    by (cases "gm_get (mc_entries (shed rm pick c1)) k") (auto simp: evicted_def)
  with fl show ?thesis by (simp add: flights_ok_def fetching_def)
qed

lemma gm_sum_le: "(\<And>v. f v \<le> g v) \<Longrightarrow> gm_sum f m \<le> gm_sum g m"
  unfolding gm_sum_def by (rule sum_list_mono) auto

lemma fetching_set:
  assumes "gm_wf (mc_inflight c)" and "mc_inflight c' = gm_set k f (mc_inflight c)"
  shows "int (fetching c') = int (fetching c) + of_bool (f = Fetching)
    - of_bool (gm_get (mc_inflight c) k = Some Fetching)"
  unfolding fetching_sum assms(2) using gm_sum_set [OF assms(1), of "\<lambda>f. of_bool (f = Fetching)" k f]
  by (auto split: option.splits)

lemma flights_set:
  assumes "flights_ok c" and "mc_inflight c' = gm_set k f (mc_inflight c)" and "mc_dir c' = mc_dir c"
    and "plain_key k" and "f = Fetching \<Longrightarrow> fetching c < maxFills"
    and "\<And>j. j \<noteq> k \<Longrightarrow> gm_get (mc_entries c) j = None \<Longrightarrow> gm_get (mc_entries c') j = None"
    and "f = Queued \<or> f = Fetching \<Longrightarrow> gm_get (mc_entries c') k = None"
    and "\<And>p. f = Done (Some p) \<Longrightarrow> p = key_path (mc_dir c) k"
  shows "flights_ok c'"
proof -
  have wf: "gm_wf (mc_inflight c)" using assms(1) by (simp add: flights_ok_def)
  have "fetching c' \<le> maxFills"
    using fetching_set [OF wf assms(2)] assms(1,5)
    by (cases "f = Fetching"; cases "gm_get (mc_inflight c) k = Some Fetching")
      (simp_all add: flights_ok_def)
  with assms wf show ?thesis unfolding flights_ok_def by auto
qed

lemma flights_del:
  assumes "flights_ok c"
  shows "flights_ok (fill_leave k c)"
proof -
  have "gm_sum f (gm_del k m) \<le> gm_sum f m" if "gm_wf m" "\<And>v. 0 \<le> f v"
    for f :: "flight \<Rightarrow> int" and m :: "(cache_key, flight) gomap"
    using gm_sum_del [OF that(1), of k _ f] that(2)
    by (cases "gm_get m k") (auto simp: gm_del_absent)
  then have "int (fetching (fill_leave k c)) \<le> int (fetching c)"
    using assms unfolding fetching_sum by (simp add: fill_leave_def flights_ok_def)
  with assms show ?thesis by (simp add: flights_ok_def fill_leave_def)
qed

lemma drop_inv:
  assumes "cache_inv c" and "gm_get (mc_entries c) k = Some e"
  shows "cache_inv (drop_entry rm k e c)"
proof -
  have "entries_ok c" "gm_wf (mc_entries c)" using assms(1) by (simp_all add: cache_inv_def entries_ok_def)
  moreover from this have "length (gm_del k (mc_entries c)) \<le> length (mc_entries c)" "0 \<le> ce_size e"
    using gm_length_del [of "mc_entries c" k e] entries_okD(2) [of c k e] assms(2) by simp_all
  ultimately show ?thesis
    using assms drop_entry_ok [of c k e rm]
    by (auto simp: cache_inv_def within_budget_def flights_ok_def fetching_def)
qed

lemma fill_store_parts:
  assumes "cache_inv c" and "gm_get (mc_inflight c) k = Some Fetching" and "0 \<le> n"
  shows "cache_inv (fill_store rm pick k n c)"
    and "gm_get (mc_entries (fill_store rm pick k n c)) k
      = Some \<lparr>ce_path = key_path (mc_dir c) k, ce_size = n, ce_seq = mc_seq c + 1\<rparr>"
    and "gm_get (mc_files (fill_store rm pick k n c)) (key_path (mc_dir c) k) = Some n"
proof -
  define e where "e = \<lparr>ce_path = key_path (mc_dir c) k, ce_size = n, ce_seq = mc_seq c + 1\<rparr>"
  define c1 where "c1 = c\<lparr>mc_files := gm_set (ce_path e) n (mc_files c), mc_seq := mc_seq c + 1,
      mc_entries := gm_set k e (mc_entries c), mc_size := mc_size c + n,
      mc_inflight := gm_set k (Done (Some (ce_path e))) (mc_inflight c)\<rparr>"
  have store: "fill_store rm pick k n c = shed rm pick c1" by (simp add: fill_store_def e_def c1_def Let_def)
  have "flights_ok c" "entries_ok c" using assms(1) by (simp_all add: cache_inv_def)
  moreover from this assms(2) have k: "plain_key k" "gm_get (mc_entries c) k = None"
    by (auto simp: flights_ok_def)
  moreover have "entries_ok c1"
    by (rule entries_ok_set [where e = e and k = k and n = n and c = c])
      (use calculation assms(3) in \<open>simp_all add: c1_def e_def\<close>)
  moreover have "flights_ok c1"
    by (rule flights_set [where c = c and k = k and f = "Done (Some (ce_path e))"])
      (use calculation in \<open>simp_all add: c1_def e_def\<close>)
  ultimately have c1: "entries_ok c1" "flights_ok c1" by simp_all
  note kept = newest_kept [OF c1(1), of k e rm pick, folded store]
  have "gm_get (mc_entries c1) k = Some e" "ce_seq e = mc_seq c1" by (simp_all add: c1_def e_def)
  note kept = kept [OF this]
  have "flights_ok (shed rm pick c1)" using c1 by (intro shed_flights) (auto simp: c1_def)
  with kept show "cache_inv (fill_store rm pick k n c)" by (simp add: cache_inv_def store)
  show "gm_get (mc_entries (fill_store rm pick k n c)) k
      = Some \<lparr>ce_path = key_path (mc_dir c) k, ce_size = n, ce_seq = mc_seq c + 1\<rparr>"
    using kept(1) by (simp add: e_def)
  show "gm_get (mc_files (fill_store rm pick k n c)) (key_path (mc_dir c) k) = Some n"
    using kept(2) by (simp add: e_def)
qed

lemma put_parts:
  assumes "cache_inv c" and "gm_get (mc_inflight c) k = None" and "plain_key k" and "0 \<le> n"
  shows "cache_inv (put rm pick k n c)"
    and "gm_get (mc_entries (put rm pick k n c)) k
      = Some \<lparr>ce_path = key_path (mc_dir c) k, ce_size = n, ce_seq = mc_seq c + 1\<rparr>"
    and "gm_get (mc_files (put rm pick k n c)) (key_path (mc_dir c) k) = Some n"
proof -
  define e where "e = \<lparr>ce_path = key_path (mc_dir c) k, ce_size = n, ce_seq = mc_seq c + 1\<rparr>"
  define old where "old = (case gm_get (mc_entries c) k of None \<Rightarrow> 0 | Some e \<Rightarrow> ce_size e)"
  define c1 where "c1 = c\<lparr>mc_files := gm_set (ce_path e) n (mc_files c), mc_seq := mc_seq c + 1,
      mc_entries := gm_set k e (mc_entries c), mc_size := mc_size c - old + n\<rparr>"
  have store: "put rm pick k n c = shed rm pick c1"
    by (simp add: put_def e_def c1_def old_def Let_def)
  have c: "flights_ok c" "entries_ok c" using assms(1) by (simp_all add: cache_inv_def)
  have c1: "entries_ok c1"
    by (rule entries_ok_set [where e = e and k = k and n = n and c = c])
      (use c assms(3,4) in \<open>simp_all add: c1_def e_def old_def\<close>)
  have "flights_ok c1"
    using c(1) assms(2) by (auto simp: flights_ok_def fetching_def c1_def)
  then have "flights_ok (shed rm pick c1)" using c1 by (intro shed_flights) (auto simp: c1_def)
  moreover have "gm_get (mc_entries c1) k = Some e" "ce_seq e = mc_seq c1" by (simp_all add: c1_def e_def)
  note kept = newest_kept [OF c1 this, of rm pick]
  ultimately show "cache_inv (put rm pick k n c)" using kept by (simp add: cache_inv_def store)
  show "gm_get (mc_entries (put rm pick k n c)) k
      = Some \<lparr>ce_path = key_path (mc_dir c) k, ce_size = n, ce_seq = mc_seq c + 1\<rparr>"
    using kept(1) by (simp add: store e_def)
  show "gm_get (mc_files (put rm pick k n c)) (key_path (mc_dir c) k) = Some n"
    using kept(2) by (simp add: store e_def)
qed

lemma new_cache_inv: "0 \<le> budget \<Longrightarrow> cache_inv (new_cache rm files dir budget)"
  by (simp add: cache_inv_def entries_ok_def flights_ok_def within_budget_def new_cache_def
      fetching_def seqs_differ_def gm_sum_def)

lemma flight_change_inv:
  assumes "cache_inv c" and "mc_inflight c' = gm_set k f (mc_inflight c)"
    and c': "mc_entries c' = mc_entries c" "mc_dir c' = mc_dir c" "mc_size c' = mc_size c"
      "mc_budget c' = mc_budget c" "mc_seq c' = mc_seq c" "mc_files c' = mc_files c"
    and "plain_key k" and "f = Fetching \<Longrightarrow> fetching c < maxFills"
    and "f = Queued \<or> f = Fetching \<Longrightarrow> gm_get (mc_entries c) k = None"
    and "\<And>p. f \<noteq> Done (Some p)"
  shows "cache_inv c'"
proof -
  have "flights_ok c'"
    by (rule flights_set [where c = c and k = k and f = f])
      (use assms in \<open>auto simp: cache_inv_def\<close>)
  moreover have "entries_ok c'" using assms(1) c' by (simp add: cache_inv_def entries_ok_def)
  moreover have "within_budget c'"
    using assms(1) unfolding cache_inv_def within_budget_def c' by (elim conjE)
  ultimately show ?thesis by (simp add: cache_inv_def)
qed

lemma cache_step_inv: "cache_step c c' \<Longrightarrow> cache_inv c \<Longrightarrow> cache_inv c'"
proof (induction rule: cache_step.induct)
  case (step_get c k)
  then show ?case by (simp add: cache_get_def touch_inv split: option.split)
next
  case (step_begin k c)
  show ?case
  proof (cases "gm_get (mc_entries c) k")
    case (Some e)
    with step_begin show ?thesis by (simp add: fill_begin_def touch_inv)
  next
    case None
    note absent = None
    show ?thesis
    proof (cases "gm_get (mc_inflight c) k")
      case None
      show ?thesis
        by (rule flight_change_inv [OF step_begin.prems, of _ k Queued])
          (use absent None step_begin.hyps in \<open>simp_all add: fill_begin_def\<close>)
    next
      case (Some f)
      with absent step_begin show ?thesis by (simp add: fill_begin_def)
    qed
  qed
next
  case (step_slot k c c')
  then have slot: "gm_get (mc_inflight c) k = Some Queued" "fetching c < maxFills"
    "c' = c\<lparr>mc_inflight := gm_set k Fetching (mc_inflight c)\<rparr>"
    by (auto simp: fill_slot_def split: if_splits)
  then have k: "plain_key k" "gm_get (mc_entries c) k = None"
    using step_slot.prems unfolding cache_inv_def flights_ok_def by blast+
  show ?case
    by (rule flight_change_inv [OF step_slot.prems, of _ k Fetching])
      (use slot k in simp_all)
next
  case (step_store c k n rm pick)
  then show ?case by (intro fill_store_parts)
next
  case (step_fail c k f)
  then have k: "plain_key k" unfolding cache_inv_def flights_ok_def by blast
  show ?case
    by (rule flight_change_inv [OF step_fail.prems, of _ k "Done None"])
      (use k in \<open>simp_all add: fill_fail_def\<close>)
next
  case (step_leave c k r)
  then have "flights_ok (fill_leave k c)" using flights_del [of c k] by (simp add: cache_inv_def)
  moreover have "entries_ok (fill_leave k c) \<longleftrightarrow> entries_ok c"
    "within_budget (fill_leave k c) \<longleftrightarrow> within_budget c"
    by (simp_all add: fill_leave_def entries_ok_def within_budget_def)
  ultimately show ?case using step_leave.prems by (simp add: cache_inv_def)
next
  case (step_put c k n rm pick)
  then show ?case by (intro put_parts)
next
  case (step_evict c rm k)
  then show ?case by (simp add: evict_def drop_inv split: option.split)
qed

text \<open>
  Further. The cache under concurrency. Whatever the callers do, in any interleaving: the size it
  reports is the sum of its entries, which exceeds the budget only while a single entry is left;
  every entry is a complete file of that size on disk under its own name; nothing is fetched
  twice (a key being filled has no entry and at most one flight) and at most four cuts are being
  fetched at once.
\<close>
theorem cache_reachable:
  assumes "cache_step\<^sup>*\<^sup>* (new_cache rm files dir budget) c" and "0 \<le> budget"
  shows "cache_inv c \<and> (mc_size c \<le> mc_budget c \<or> length (mc_entries c) \<le> 1) \<and> fetching c \<le> 4 \<and>
    (\<forall>k p c'. cache_get k c = (Some p, c') \<longrightarrow> (\<exists>n. gm_get (mc_files c) p = Some n))"
proof -
  from assms(1) have "cache_inv c"
    by (induction rule: rtranclp_induct) (use assms(2) in \<open>auto intro: new_cache_inv cache_step_inv\<close>)
  then show ?thesis
    using entries_okD(5) [of c]
    by (auto simp: cache_inv_def within_budget_def flights_ok_def cache_get_def split: option.splits)
qed

text \<open>
  Further. A stored file is there for the caller. When a fill (or a Put) of \<open>n\<close> bytes completes, the
  eviction it triggers never takes the file just stored: it is on disk in full, it is an entry,
  and the next Fill of the key is a hit on it without a fetch.
\<close>
theorem stored_is_cached:
  assumes "cache_inv c" and "gm_get (mc_inflight c) k = Some Fetching" and "0 \<le> n"
    and "c' = fill_store rm pick k n c"
  shows "gm_get (mc_files c') (key_path (mc_dir c) k) = Some n \<and> cache_contains k c' \<and>
    fst (fill_begin k c') = Hit (key_path (mc_dir c) k)"
  using fill_store_parts [OF assms(1-3), of rm pick]
  by (simp add: assms(4) cache_contains_def fill_begin_def)

section \<open>Copying in windows\<close>

lemma copy_synced_log:
  assumes "0 \<le> u" and "u < dirtyWindow" and "\<forall>(r, x) \<in> set reads. r \<le> copyBuffer"
  shows "\<forall>v \<in> set (snd (copy_synced reads n u)). v < dirtyWindow + copyBuffer"
  using assms
proof (induction reads n u rule: copy_synced.induct)
  case (2 r stop wrote synced reads n u)
  have "r \<le> copyBuffer" "\<forall>(r, x) \<in> set reads. r \<le> copyBuffer" using "2.prems"(3) by auto
  then have "\<forall>v \<in> set (snd (copy_synced reads n' u')). v < dirtyWindow + copyBuffer"
    if "stop = More" "\<not> (0 < r \<and> \<not> wrote)" "\<not> ((0 < r \<and> dirtyWindow \<le> u + r) \<and> \<not> synced)"
      "u' = (if r \<le> 0 then u else if 0 < r \<and> dirtyWindow \<le> u + r then 0 else u + r)"
      "n' = (if 0 < r then n + r else n)" for n' u'
    using "2.IH" [OF refl refl that(4,5) refl that(2,3,1)] "2.prems"(1,2) that(4) by auto
  then show ?case
    using \<open>r \<le> copyBuffer\<close> "2.prems"(1,2)
    by (auto simp: Let_def split: read_end.split prod.split if_splits)
qed simp

text \<open>The reads a successful copy made: to the end of the body, each one written.\<close>

fun copied :: "(int \<times> read_end \<times> bool \<times> bool) list \<Rightarrow> int option" where
  "copied [] = None"
| "copied ((r, stop, wrote, synced) # reads) =
     (if 0 < r \<and> \<not> wrote then None
      else case stop of
        Eof \<Rightarrow> Some (max 0 r)
      | Broken \<Rightarrow> None
      | More \<Rightarrow> map_option ((+) (max 0 r)) (copied reads))"

lemma copy_synced_total:
  "fst (copy_synced reads n u) = Some m \<Longrightarrow> copied reads = Some (m - n)"
proof (induction reads arbitrary: n u)
  case (Cons a reads)
  obtain r stop wrote synced where a: "a = (r, stop, wrote, synced)" by (cases a)
  have IH: "copied reads = Some (m - n')" if "copy_synced reads n' u' = (Some m, l)" for n' u' l
    using Cons.IH [of n' u'] that by simp
  from Cons.prems show ?case
    by (auto simp: a Let_def split: read_end.splits prod.splits if_splits dest: IH)
qed simp

text \<open>
  Further. copySynced is a whole copy with a bounded backlog: at no time are as much as the window
  and one buffer of bytes written and not synced, and a result counts every byte up to the end
  of the body, with no read and no write failed before it.
\<close>
theorem copy_bounded:
  assumes "\<forall>(r, x) \<in> set reads. r \<le> copyBuffer" and "copy_synced reads 0 0 = (res, backlog)"
  shows "(\<forall>v \<in> set backlog. v < dirtyWindow + copyBuffer) \<and> (\<forall>m. res = Some m \<longrightarrow> copied reads = Some m)"
proof -
  have "\<forall>v \<in> set backlog. v < dirtyWindow + copyBuffer"
    using copy_synced_log [of 0 reads 0] assms by simp
  moreover have "copied reads = Some m" if "res = Some m" for m
    using copy_synced_total [of reads 0 0 m] assms(2) that by simp
  ultimately show ?thesis by blast
qed

section \<open>A latent miscount\<close>

text \<open>
  Fill does not look for an entry that appeared while it was fetching, as Put does: had a Put of
  the same key come in between, the size would count both files for ever.  No caller does this.
\<close>

definition demo_key :: "string \<Rightarrow> cache_key" where
  "demo_key cam = \<lparr>ck_Media = ''clip'', ck_Ref = cam, ck_Start = 10, ck_End = 30, ck_Variant = []\<rparr>"

definition demo_fill :: "cache_key \<Rightarrow> int \<Rightarrow> cache \<Rightarrow> cache" where
  "demo_fill k n c = (case fill_slot k (snd (fill_begin k c)) of
     None \<Rightarrow> c | Some c' \<Rightarrow> fill_leave k (fill_store (\<lambda>p. True) (\<lambda>m. []) k n c'))"

lemma put_in_flight_miscounts:
  "(let k = demo_key ''porch''; c0 = new_cache (\<lambda>p. True) [] ''/c'' 100;
        c1 = the (fill_slot k (snd (fill_begin k c0)));
        c2 = fill_store (\<lambda>p. True) (\<lambda>m. []) k 7 (put (\<lambda>p. True) (\<lambda>m. []) k 5 c1)
    in mc_size c2 = 12 \<and> map (\<lambda>(k, e). ce_size e) (mc_entries c2) = [7])"
  by code_simp

section \<open>Witnesses\<close>

definition demo_cache :: cache where
  "demo_cache = demo_fill (demo_key ''yard'') 60 (demo_fill (demo_key ''porch'') 70
     (new_cache (\<lambda>p. True) [] ''/c'' 100))"

lemma demo_cache_entries:
  "map (\<lambda>(k, e). (ck_Ref k, ce_size e)) (mc_entries demo_cache) = [(''yard'', 60)]
   \<and> mc_size demo_cache = 60 \<and> mc_inflight demo_cache = []"
  by code_simp

lemma demo_plain: "plain_key (demo_key cam)"
  by (simp add: plain_key_def demo_key_def)

lemma demo_fill_steps:
  assumes "cache_step\<^sup>*\<^sup>* c0 c" and "0 \<le> n"
  shows "cache_step\<^sup>*\<^sup>* c0 (demo_fill (demo_key cam) n c)"
proof (cases "fill_slot (demo_key cam) (snd (fill_begin (demo_key cam) c))")
  case None
  with assms show ?thesis by (simp add: demo_fill_def)
next
  case (Some c')
  let ?k = "demo_key cam"
  have "gm_get (mc_inflight c') ?k = Some Fetching"
    using Some by (auto simp: fill_slot_def split: if_splits)
  moreover have "gm_get (mc_inflight (fill_store rm pick ?k n c')) ?k
      = Some (Done (Some (key_path (mc_dir c') ?k)))" for rm pick
    by (simp add: fill_store_def Let_def)
  ultimately show ?thesis
    using assms Some step_begin [OF demo_plain] step_slot step_store step_leave
    unfolding demo_fill_def
    by simp (meson rtranclp.rtrancl_into_rtrancl)
qed

lemma demo_cache_reachable: "cache_step\<^sup>*\<^sup>* (new_cache (\<lambda>p. True) [] ''/c'' 100) demo_cache"
  unfolding demo_cache_def by (intro demo_fill_steps) simp_all

theorem filename_inject_witness: "demo_key ''porch'' = demo_key ''porch''"
  by (rule filename_inject [OF demo_plain demo_plain refl])

theorem cache_reachable_witness: "cache_inv demo_cache \<and> fetching demo_cache \<le> 4"
  using cache_reachable [OF demo_cache_reachable] by simp

lemma demo_inv: "cache_inv demo_cache"
proof -
  have "cache_step\<^sup>*\<^sup>* c0 c \<Longrightarrow> cache_inv c0 \<Longrightarrow> cache_inv c" for c0 c
    by (induction rule: rtranclp_induct) (auto intro: cache_step_inv)
  from this [OF demo_cache_reachable] show ?thesis by (simp add: new_cache_inv)
qed

theorem shed_least_recent_witness:
  "entries_ok demo_cache \<and> evicted demo_cache (shed (\<lambda>p. True) (\<lambda>m. []) demo_cache)"
proof -
  have "entries_ok demo_cache" "mc_entries demo_cache \<noteq> []"
    using demo_inv demo_cache_entries by (auto simp: cache_inv_def)
  from shed_least_recent [OF this] this show ?thesis by blast
qed

theorem stored_is_cached_witness:
  "\<exists>c. cache_inv c \<and> cache_contains (demo_key ''lane'') (fill_store (\<lambda>p. True) (\<lambda>m. []) (demo_key ''lane'') 5 c)"
proof -
  let ?k = "demo_key ''lane''"
  obtain c where c: "fill_slot ?k (snd (fill_begin ?k demo_cache)) = Some c"
    "gm_get (mc_inflight c) ?k = Some Fetching"
  proof -
    have "case fill_slot ?k (snd (fill_begin ?k demo_cache)) of None \<Rightarrow> False
        | Some c \<Rightarrow> gm_get (mc_inflight c) ?k = Some Fetching" by code_simp
    then show ?thesis using that by (auto split: option.splits)
  qed
  have "cache_inv c"
    using cache_step_inv [OF step_slot [OF c(1)] cache_step_inv [OF step_begin [OF demo_plain] demo_inv]] .
  with stored_is_cached [OF this c(2), of 5 _ "\<lambda>p. True" "\<lambda>m. []", OF _ refl] show ?thesis by auto
qed

theorem copy_bounded_witness:
  "copy_synced [(262144, More, True, True), (100, Eof, True, True)] 0 0 = (Some 262244, [262144, 262244]) \<and>
   copied [(262144, More, True, True), (100, Eof, True, True)] = Some 262244"
proof -
  let ?reads = "[(262144, More, True, True), (100, Eof, True, True)]"
  have "copy_synced ?reads 0 0 = (Some 262244, [262144, 262244])" by simp
  with copy_bounded [OF _ this] show ?thesis by simp
qed

end
