(* ===== verification/Cbor.thy ===== *)
theory Cbor
  imports Go_Crypto
begin

text \<open>
  The CBOR reader of passkey ceremonies (\<open>internal/webauthn/cbor.go\<close>): definite-length items of
  the canonical subset, nested at most eight deep.

  The code keeps the whole input and a position; here a reader is the input that is left, so the
  position is the length of what has been taken off, and a read past the end is a list that is
  too short.  Every error of the code wraps \<open>errCBOR\<close>.
\<close>

datatype cbor_error = Malformed | Indefinite | Nesting | Map_key_type | Major_type int | Trailing

text \<open>
  What value returns: \<open>int64\<close>, \<open>[]byte\<close>, \<open>string\<close>, \<open>[]any\<close> or \<open>map[any]any\<close>, whose keys are
  integers and strings.
\<close>

datatype cbor =
  CInt int
| CBytes bytes
| CText string
| CArr "cbor list"
| CMap "(cbor \<times> cbor) list"

type_synonym 'a cbor_read = "cbor_error + 'a \<times> bytes"

definition be_fold :: "bytes \<Rightarrow> int" where
  "be_fold bs = foldl (\<lambda>a c. a * 256 + of_char c) 0 bs"

definition cbor_head :: "bytes \<Rightarrow> (int \<times> int) cbor_read" where
  "cbor_head s =
     (case s of
        [] \<Rightarrow> Inl Malformed
      | c # r \<Rightarrow>
          let first = of_char c :: int; major = first div 32; info = first mod 32 in
          if info < 24 then Inr ((major, info), r)
          else if info \<le> 27 then
            let n = 2 ^ nat (info - 24) in
            if length r < n then Inl Malformed
            else Inr ((major, be_fold (take n r)), drop n r)
          else Inl Indefinite)"

definition cbor_take :: "int \<Rightarrow> bytes \<Rightarrow> bytes cbor_read" where
  "cbor_take n s = (if int (length s) < n then Inl Malformed else Inr (take (nat n) s, drop (nat n) s))"

fun is_map_key :: "cbor \<Rightarrow> bool" where
  "is_map_key (CInt _) = True"
| "is_map_key (CText _) = True"
| "is_map_key _ = False"

abbreviation max_int64 :: int where "max_int64 \<equiv> 9223372036854775807"

text \<open>
  One item, and the loops over the items of an array and the pairs of a map.  The depth is
  checked first, so the recursion ends although the loops nest.
\<close>

function (sequential) cbor_value :: "nat \<Rightarrow> bytes \<Rightarrow> cbor cbor_read"
  and cbor_items :: "nat \<Rightarrow> nat \<Rightarrow> cbor list \<Rightarrow> bytes \<Rightarrow> (cbor list) cbor_read"
  and cbor_pairs :: "nat \<Rightarrow> nat \<Rightarrow> (cbor, cbor) gomap \<Rightarrow> bytes \<Rightarrow> ((cbor, cbor) gomap) cbor_read"
where
  "cbor_value depth s =
     (if 8 < depth then Inl Nesting
      else case cbor_head s of
        Inl e \<Rightarrow> Inl e
      | Inr ((major, arg), r) \<Rightarrow>
          if major = 0 then if max_int64 < arg then Inl Malformed else Inr (CInt arg, r)
          else if major = 1 then
            if max_int64 - 1 < arg then Inl Malformed else Inr (CInt (- 1 - arg), r)
          else if major = 2 then
            (case cbor_take arg r of Inl e \<Rightarrow> Inl e | Inr (b, r') \<Rightarrow> Inr (CBytes b, r'))
          else if major = 3 then
            (case cbor_take arg r of Inl e \<Rightarrow> Inl e | Inr (b, r') \<Rightarrow> Inr (CText b, r'))
          else if major = 4 then
            if 64 < arg then Inl Malformed
            else (case cbor_items (Suc depth) (nat arg) [] r of
                    Inl e \<Rightarrow> Inl e | Inr (vs, r') \<Rightarrow> Inr (CArr vs, r'))
          else if major = 5 then
            if 64 < arg then Inl Malformed
            else (case cbor_pairs (Suc depth) (nat arg) [] r of
                    Inl e \<Rightarrow> Inl e | Inr (m, r') \<Rightarrow> Inr (CMap m, r'))
          else Inl (Major_type major))"
| "cbor_items depth 0 out s = Inr (out, s)"
| "cbor_items depth (Suc n) out s =
     (case cbor_value depth s of
        Inl e \<Rightarrow> Inl e
      | Inr (v, r) \<Rightarrow> cbor_items depth n (out @ [v]) r)"
| "cbor_pairs depth 0 out s = Inr (out, s)"
| "cbor_pairs depth (Suc n) out s =
     (case cbor_value depth s of
        Inl e \<Rightarrow> Inl e
      | Inr (k, r) \<Rightarrow>
          if \<not> is_map_key k then Inl Map_key_type
          else (case cbor_value depth r of
                  Inl e \<Rightarrow> Inl e
                | Inr (v, r') \<Rightarrow> cbor_pairs depth n (gm_set k v out) r'))"
  by pat_completeness auto
termination
  by (relation "inv_image (less_than <*lex*> less_than) (\<lambda>c. case c of
       Inl (d, s) \<Rightarrow> (10 - d, 0)
     | Inr (Inl (d, n, out, s)) \<Rightarrow> (10 - d, Suc n)
     | Inr (Inr (d, n, out, s)) \<Rightarrow> (10 - d, Suc n))") auto

declare cbor_value.simps [simp del]

definition decode_cbor :: "bytes \<Rightarrow> cbor_error + cbor" where
  "decode_cbor b =
     (case cbor_value 0 b of
        Inl e \<Rightarrow> Inl e
      | Inr (v, r) \<Rightarrow> if r \<noteq> [] then Inl Trailing else Inr v)"

definition decode_cbor_prefix :: "bytes \<Rightarrow> cbor_error + cbor \<times> nat" where
  "decode_cbor_prefix b =
     (case cbor_value 0 b of
        Inl e \<Rightarrow> Inl e
      | Inr (v, r) \<Rightarrow> Inr (v, length b - length r))"

section \<open>A decoded item depends on its own bytes alone\<close>

text \<open>A read that succeeds took a prefix off the input, and takes it off any other input too.\<close>

definition local_read :: "(bytes \<Rightarrow> 'a cbor_read) \<Rightarrow> bytes \<Rightarrow> bool" where
  "local_read f s \<longleftrightarrow>
     (\<forall>v r. f s = Inr (v, r) \<longrightarrow> (\<exists>pre. s = pre @ r \<and> (\<forall>t. f (pre @ t) = Inr (v, t))))"

lemma local_readI:
  "(\<And>v r. f s = Inr (v, r) \<Longrightarrow> \<exists>pre. s = pre @ r \<and> (\<forall>t. f (pre @ t) = Inr (v, t))) \<Longrightarrow> local_read f s"
  by (simp add: local_read_def)

lemma local_readD:
  assumes "local_read f s" and "f s = Inr (v, r)"
  obtains pre where "s = pre @ r" and "\<And>t. f (pre @ t) = Inr (v, t)"
  using assms by (auto simp: local_read_def)

lemma cbor_take_local: "local_read (cbor_take n) s"
proof (rule local_readI)
  fix v r assume read: "cbor_take n s = Inr (v, r)"
  then have "\<not> int (length s) < n" "v = take (nat n) s" "r = drop (nat n) s"
    by (auto simp: cbor_take_def split: if_splits)
  then show "\<exists>pre. s = pre @ r \<and> (\<forall>t. cbor_take n (pre @ t) = Inr (v, t))"
    by (intro exI [of _ v]) (auto simp: cbor_take_def)
qed

lemma cbor_head_local: "local_read cbor_head s"
proof (rule local_readI)
  fix v r assume read: "cbor_head s = Inr (v, r)"
  then obtain c s' where s: "s = c # s'" by (auto simp: cbor_head_def split: list.splits)
  let ?info = "of_char c mod 32 :: int"
  let ?n = "2 ^ nat (?info - 24) :: nat"
  show "\<exists>pre. s = pre @ r \<and> (\<forall>t. cbor_head (pre @ t) = Inr (v, t))"
  proof (cases "?info < 24")
    case True
    with read show ?thesis by (intro exI [of _ "[c]"]) (auto simp: cbor_head_def s Let_def)
  next
    case False
    with read have "?info \<le> 27" "\<not> length s' < ?n" "r = drop ?n s'"
      by (auto simp: cbor_head_def s Let_def split: if_splits)
    with False read show ?thesis
      by (intro exI [of _ "c # take ?n s'"]) (auto simp: cbor_head_def s Let_def)
  qed
qed

lemma local_seq:
  assumes "local_read f s" and "f s = Inr (v, r)" and "local_read g r" and "g r = Inr (w, r')"
  obtains pre u where "s = pre @ r'" and "\<And>t. f (pre @ t) = Inr (v, u @ t)" and "\<And>t. g (u @ t) = Inr (w, t)"
proof -
  obtain p where p: "s = p @ r" "\<And>t. f (p @ t) = Inr (v, t)" using local_readD [OF assms(1,2)] by blast
  obtain u where u: "r = u @ r'" "\<And>t. g (u @ t) = Inr (w, t)" using local_readD [OF assms(3,4)] by blast
  from that [of "p @ u" u] p u show thesis by simp
qed

lemma cbor_local:
  "local_read (cbor_value depth) s"
  "local_read (cbor_items depth n out) s"
  "local_read (cbor_pairs depth n m) s"
proof (induction depth s and depth n out s and depth n m s
    rule: cbor_value_cbor_items_cbor_pairs.induct)
  case (1 depth s)
  show ?case
  proof (rule local_readI)
    fix v r assume read: "cbor_value depth s = Inr (v, r)"
    then have d: "\<not> 8 < depth" by (auto simp: cbor_value.simps [of depth s])
    with read obtain major arg r1 where head: "cbor_head s = Inr ((major, arg), r1)"
      by (auto simp: cbor_value.simps [of depth s] split: sum.splits)
    note unfold = cbor_value.simps [of depth] d head
    note head_seq = local_seq [OF cbor_head_local head]
    from head obtain hp where hp: "s = hp @ r1" "\<And>t. cbor_head (hp @ t) = Inr ((major, arg), t)"
      using cbor_head_local by (metis local_readD)
    consider (int) "major = 0 \<or> major = 1" | (bytes) "major = 2 \<or> major = 3" | (arr) "major = 4"
      | (map) "major = 5"
      using read by (auto simp: unfold split: if_splits)
    then show "\<exists>pre. s = pre @ r \<and> (\<forall>t. cbor_value depth (pre @ t) = Inr (v, t))"
    proof cases
      case int
      with read hp show ?thesis
        by (intro exI [of _ hp]) (auto simp: unfold split: if_splits)
    next
      case bytes
      with read obtain b where b: "cbor_take arg r1 = Inr (b, r)"
        by (auto simp: unfold split: sum.splits if_splits)
      obtain pre u where "s = pre @ r" "\<And>t. cbor_head (pre @ t) = Inr ((major, arg), u @ t)"
        "\<And>t. cbor_take arg (u @ t) = Inr (b, t)" by (rule head_seq [OF cbor_take_local b]) blast
      with read bytes b show ?thesis by (intro exI [of _ pre]) (auto simp: unfold)
    next
      case arr
      with read obtain vs where arg: "\<not> 64 < arg" and vs: "cbor_items (Suc depth) (nat arg) [] r1 = Inr (vs, r)"
        by (auto simp: unfold split: sum.splits if_splits)
      have "local_read (cbor_items (Suc depth) (nat arg) []) r1"
        using "1.IH"(1) [OF d head refl refl] arr arg by simp
      from head_seq [OF this vs] obtain pre u where "s = pre @ r"
        "\<And>t. cbor_head (pre @ t) = Inr ((major, arg), u @ t)"
        "\<And>t. cbor_items (Suc depth) (nat arg) [] (u @ t) = Inr (vs, t)" by blast
      with read arr arg vs show ?thesis by (intro exI [of _ pre]) (auto simp: unfold)
    next
      case map
      with read obtain m where arg: "\<not> 64 < arg" and m: "cbor_pairs (Suc depth) (nat arg) [] r1 = Inr (m, r)"
        by (auto simp: unfold split: sum.splits if_splits)
      have "local_read (cbor_pairs (Suc depth) (nat arg) []) r1"
        using "1.IH"(2) [OF d head refl refl] map arg by simp
      from head_seq [OF this m] obtain pre u where "s = pre @ r"
        "\<And>t. cbor_head (pre @ t) = Inr ((major, arg), u @ t)"
        "\<And>t. cbor_pairs (Suc depth) (nat arg) [] (u @ t) = Inr (m, t)" by blast
      with read map arg m show ?thesis by (intro exI [of _ pre]) (auto simp: unfold)
    qed
  qed
next
  case (2 depth out s)
  show ?case by (rule local_readI) (auto intro: exI [of _ "[]"])
next
  case (3 depth n out s)
  show ?case
  proof (rule local_readI)
    fix vs r assume read: "cbor_items depth (Suc n) out s = Inr (vs, r)"
    then obtain v r1 where v: "cbor_value depth s = Inr (v, r1)" and vs: "cbor_items depth n (out @ [v]) r1 = Inr (vs, r)"
      by (auto split: sum.splits)
    from local_seq [OF "3.IH"(1) v "3.IH"(2) [OF v refl] vs]
    obtain pre u where "s = pre @ r" "\<And>t. cbor_value depth (pre @ t) = Inr (v, u @ t)"
      "\<And>t. cbor_items depth n (out @ [v]) (u @ t) = Inr (vs, t)" by blast
    then show "\<exists>pre. s = pre @ r \<and> (\<forall>t. cbor_items depth (Suc n) out (pre @ t) = Inr (vs, t))"
      by (intro exI [of _ pre]) simp
  qed
next
  case (4 depth m s)
  show ?case by (rule local_readI) (auto intro: exI [of _ "[]"])
next
  case (5 depth n m s)
  show ?case
  proof (rule local_readI)
    fix m' r assume read: "cbor_pairs depth (Suc n) m s = Inr (m', r)"
    then obtain k r1 v r2 where k: "cbor_value depth s = Inr (k, r1)" "is_map_key k"
      and v: "cbor_value depth r1 = Inr (v, r2)" and rest: "cbor_pairs depth n (gm_set k v m) r2 = Inr (m', r)"
      by (auto split: sum.splits if_splits)
    obtain p where p: "s = p @ r1" "\<And>t. cbor_value depth (p @ t) = Inr (k, t)"
      using local_readD [OF "5.IH"(1) k(1)] by blast
    have IH: "local_read (cbor_value depth) r1" "local_read (cbor_pairs depth n (gm_set k v m)) r2"
      using "5.IH"(2) [OF k(1) refl] "5.IH"(3) [OF k(1) refl _ v refl] k(2) by simp_all
    from local_seq [OF IH(1) v IH(2) rest]
    obtain pre u where "r1 = pre @ r" "\<And>t. cbor_value depth (pre @ t) = Inr (v, u @ t)"
      "\<And>t. cbor_pairs depth n (gm_set k v m) (u @ t) = Inr (m', t)" by blast
    with p k(2) show "\<exists>pre. s = pre @ r \<and> (\<forall>t. cbor_pairs depth (Suc n) m (pre @ t) = Inr (m', t))"
      by (intro exI [of _ "p @ pre"]) simp
  qed
qed

text \<open>
  Further. A CBOR item delimits itself. When an item is decoded from the front of an input, the count
  returned is within the input and positive, and the item's own bytes decode to the same value:
  alone (with nothing left over), or in front of any other bytes.
\<close>
theorem cbor_prefix:
  assumes "decode_cbor_prefix b = Inr (v, n)"
  shows "0 < n \<and> n \<le> length b \<and> decode_cbor (take n b) = Inr v \<and>
    decode_cbor_prefix (take n b @ t) = Inr (v, n)"
proof -
  from assms obtain r where read: "cbor_value 0 b = Inr (v, r)" and n: "n = length b - length r"
    by (auto simp: decode_cbor_prefix_def split: sum.splits)
  obtain pre where pre: "b = pre @ r" and again: "\<And>t. cbor_value 0 (pre @ t) = Inr (v, t)"
    using local_readD [OF cbor_local(1) read] by blast
  have "pre \<noteq> []"
  proof
    assume "pre = []"
    with again [of "[]"] show False by (simp add: cbor_value.simps cbor_head_def)
  qed
  with n pre have "take n b = pre" "0 < n" "n = length pre" by simp_all
  with again [of "[]"] again [of t] pre show ?thesis
    by (simp add: decode_cbor_def decode_cbor_prefix_def)
qed

section \<open>Every canonical encoding is read back\<close>

fun be_enc :: "nat \<Rightarrow> int \<Rightarrow> bytes" where
  "be_enc 0 a = []"
| "be_enc (Suc n) a = be_enc n (a div 256) @ [char_of (a mod 256)]"

text \<open>The canonical head: the argument in as few bytes as it fits.\<close>

definition enc_head :: "int \<Rightarrow> int \<Rightarrow> bytes" where
  "enc_head major arg =
     (if arg < 24 then [char_of (major * 32 + arg)]
      else if arg < 2 ^ 8 then char_of (major * 32 + 24) # be_enc 1 arg
      else if arg < 2 ^ 16 then char_of (major * 32 + 25) # be_enc 2 arg
      else if arg < 2 ^ 32 then char_of (major * 32 + 26) # be_enc 4 arg
      else char_of (major * 32 + 27) # be_enc 8 arg)"

fun cbor_enc :: "cbor \<Rightarrow> bytes" where
  "cbor_enc (CInt i) = (if 0 \<le> i then enc_head 0 i else enc_head 1 (- 1 - i))"
| "cbor_enc (CBytes b) = enc_head 2 (int (length b)) @ b"
| "cbor_enc (CText b) = enc_head 3 (int (length b)) @ b"
| "cbor_enc (CArr vs) = enc_head 4 (int (length vs)) @ concat (map cbor_enc vs)"
| "cbor_enc (CMap m) =
     enc_head 5 (int (length m)) @ concat (map (\<lambda>(k, v). cbor_enc k @ cbor_enc v) m)"

text \<open>The values of the subset, at depth \<open>d\<close>.\<close>

fun cbor_ok :: "nat \<Rightarrow> cbor \<Rightarrow> bool" where
  "cbor_ok d (CInt i) \<longleftrightarrow> d \<le> 8 \<and> - max_int64 \<le> i \<and> i \<le> max_int64"
| "cbor_ok d (CBytes b) \<longleftrightarrow> d \<le> 8 \<and> length b < 2 ^ 64"
| "cbor_ok d (CText b) \<longleftrightarrow> d \<le> 8 \<and> length b < 2 ^ 64"
| "cbor_ok d (CArr vs) \<longleftrightarrow> d \<le> 8 \<and> length vs \<le> 64 \<and> (\<forall>v \<in> set vs. cbor_ok (Suc d) v)"
| "cbor_ok d (CMap m) \<longleftrightarrow> d \<le> 8 \<and> length m \<le> 64 \<and> gm_wf m
     \<and> (\<forall>(k, v) \<in> set m. is_map_key k \<and> cbor_ok (Suc d) k \<and> cbor_ok (Suc d) v)"

lemma length_be_enc [simp]: "length (be_enc n a) = n"
  by (induction n arbitrary: a) simp_all

lemma be_fold_snoc: "be_fold (s @ [c]) = be_fold s * 256 + of_char c"
  by (simp add: be_fold_def)

lemma be_fold_enc: "0 \<le> a \<Longrightarrow> a < 256 ^ n \<Longrightarrow> be_fold (be_enc n a) = a"
proof (induction n arbitrary: a)
  case 0
  then show ?case by (simp add: be_fold_def)
next
  case (Suc n)
  then have "a div 256 < 256 ^ n" by (simp add: div_less_iff_less_mult mult.commute)
  with Suc show ?case by (simp add: be_fold_snoc)
qed

lemma head_byte:
  "0 \<le> major \<Longrightarrow> major < 8 \<Longrightarrow> 0 \<le> i \<Longrightarrow> i < 32 \<Longrightarrow>
    of_char (char_of (major * 32 + i) :: char) div 32 = major \<and>
    of_char (char_of (major * 32 + i) :: char) mod 32 = i" for major i :: int
  by simp

lemma cbor_head_enc:
  assumes "0 \<le> major" and "major < 8" and "0 \<le> arg" and "arg < 2 ^ 64"
  shows "cbor_head (enc_head major arg @ t) = Inr ((major, arg), t)"
proof -
  have long: "cbor_head (char_of (major * 32 + i) # be_enc n arg @ t) = Inr ((major, arg), t)"
    if "24 \<le> i" "i \<le> 27" "n = 2 ^ nat (i - 24)" "arg < 256 ^ n" for i n
    using that assms head_byte [of major i] be_fold_enc [of arg n]
    by (simp add: cbor_head_def Let_def)
  consider "arg < 24" | "24 \<le> arg" "arg < 2 ^ 8" | "2 ^ 8 \<le> arg" "arg < 2 ^ 16"
    | "2 ^ 16 \<le> arg" "arg < 2 ^ 32" | "2 ^ 32 \<le> arg" by linarith
  then show ?thesis
  proof cases
    case 1
    with assms head_byte [of major arg] show ?thesis
      by (simp add: enc_head_def cbor_head_def Let_def)
  qed (use assms long [of 24 1] long [of 25 2] long [of 26 4] long [of 27 8]
      in \<open>simp_all add: enc_head_def del: be_enc.simps\<close>)
qed

lemma enc_head_length: "int (length b) < 2 ^ 64 \<longleftrightarrow> length b < 2 ^ 64"
  by (metis of_nat_less_iff of_nat_numeral of_nat_power)

lemma cbor_items_enc:
  "(\<And>v t. v \<in> set vs \<Longrightarrow> cbor_value d (cbor_enc v @ t) = Inr (v, t)) \<Longrightarrow>
    cbor_items d (length vs) out (concat (map cbor_enc vs) @ t) = Inr (out @ vs, t)"
  by (induction vs arbitrary: out) simp_all

lemma cbor_pairs_enc:
  assumes "\<And>k v t. (k, v) \<in> set m \<Longrightarrow> is_map_key k \<and> cbor_value d (cbor_enc k @ t) = Inr (k, t)
      \<and> cbor_value d (cbor_enc v @ t) = Inr (v, t)"
    and "gm_wf (out @ m)"
  shows "cbor_pairs d (length m) out (concat (map (\<lambda>(k, v). cbor_enc k @ cbor_enc v) m) @ t)
    = Inr (out @ m, t)"
  using assms
proof (induction m arbitrary: out)
  case (Cons a m)
  obtain k v where a: "a = (k, v)" by (cases a)
  have "gm_set k v out = out @ [(k, v)]" using Cons.prems(2) by (intro gm_set_new) (auto simp: a)
  moreover have "cbor_pairs d (length m) (out @ [(k, v)])
      (concat (map (\<lambda>(k, v). cbor_enc k @ cbor_enc v) m) @ t) = Inr ((out @ [(k, v)]) @ m, t)"
    using Cons.prems by (intro Cons.IH) (auto simp: a)
  ultimately show ?case using Cons.prems(1) [of k v] by (simp add: a)
qed simp

lemma cbor_value_enc: "cbor_ok d v \<Longrightarrow> cbor_value d (cbor_enc v @ t) = Inr (v, t)"
proof (induction v arbitrary: d t)
  case (CInt i)
  then show ?case by (auto simp: cbor_value.simps cbor_head_enc)
next
  case (CBytes b)
  then show ?case
    using enc_head_length [of b] by (simp add: cbor_value.simps cbor_head_enc cbor_take_def)
next
  case (CText b)
  then show ?case
    using enc_head_length [of b] by (simp add: cbor_value.simps cbor_head_enc cbor_take_def)
next
  case (CArr vs)
  have "cbor_items (Suc d) (length vs) [] (concat (map cbor_enc vs) @ t) = Inr ([] @ vs, t)"
    using CArr by (intro cbor_items_enc) simp
  with CArr.prems show ?case by (simp add: cbor_value.simps [of d] cbor_head_enc)
next
  case (CMap m)
  have "cbor_pairs (Suc d) (length m) [] (concat (map (\<lambda>(k, v). cbor_enc k @ cbor_enc v) m) @ t)
      = Inr ([] @ m, t)"
  proof (rule cbor_pairs_enc)
    fix k v t assume kv: "(k, v) \<in> set m"
    then have "is_map_key k" "cbor_ok (Suc d) k" "cbor_ok (Suc d) v" using CMap.prems by auto
    with CMap.IH [OF kv] show "is_map_key k \<and> cbor_value (Suc d) (cbor_enc k @ t) = Inr (k, t)
        \<and> cbor_value (Suc d) (cbor_enc v @ t) = Inr (v, t)" by simp
  qed (use CMap.prems in simp)
  with CMap.prems show ?case by (simp add: cbor_value.simps [of d] cbor_head_enc)
qed

text \<open>
  Further. The reader is complete for the subset it claims: the canonical encoding of every value
  nested at most eight deep, with at most 64 elements per array and map and no key twice, is
  read back as that value.
\<close>
theorem cbor_roundtrip: "cbor_ok 0 v \<Longrightarrow> decode_cbor (cbor_enc v) = Inr v"
  using cbor_value_enc [of 0 v "[]"] by (simp add: decode_cbor_def)

theorem cbor_roundtrip_witness:
  "decode_cbor (cbor_enc (CMap [(CInt 1, CInt 2), (CText ''k'', CArr [CInt (- 7), CBytes ''xy''])]))
    = Inr (CMap [(CInt 1, CInt 2), (CText ''k'', CArr [CInt (- 7), CBytes ''xy''])])"
  by (rule cbor_roundtrip) simp

theorem cbor_prefix_witness:
  "decode_cbor (take 2 [CHR 0x18, CHR 0x64, CHR 0x00]) = Inr (CInt 100)"
proof -
  have "decode_cbor_prefix [CHR 0x18, CHR 0x64, CHR 0x00] = Inr (CInt 100, 2)" by code_simp
  from cbor_prefix [OF this] show ?thesis by simp
qed

end
