(* ===== verification/Webauthn.thy ===== *)
theory Webauthn
  imports Cbor Go_Json
begin

text \<open>
  The two passkey ceremonies (\<open>internal/webauthn/webauthn.go\<close>): registering a credential and
  verifying an assertion.

  The signature schemes of the standard library (\<open>ecdsa.VerifyASN1\<close>, \<open>rsa.VerifyPKCS1v15\<close>) are
  an argument \<open>sig_ok key digest signature\<close> of the definitions that call them; the curve test on
  a P-256 point is written out.  An error is the step that refused.
\<close>

section \<open>Keys and credentials\<close>

abbreviation (input) algES256 :: int where "algES256 \<equiv> - 7"
abbreviation (input) algRS256 :: int where "algRS256 \<equiv> - 257"

datatype public_key =
  Ecdsa_key (ec_X: int) (ec_Y: int)
| Rsa_key (rsa_N: int) (rsa_E: int)

record credential =
  cr_ID :: bytes
  cr_Alg :: int
  cr_Key :: public_key
  cr_COSE :: bytes
  cr_SignCount :: int

record relying_party =
  rp_Origin :: string
  rp_ID :: string

datatype webauthn_error =
  Bad_client_data | Wrong_type | Wrong_challenge | Wrong_origin
| Short_auth_data | Wrong_rp | Not_present | Not_verified
| Bad_cbor cbor_error | Not_a_map | No_auth_data | No_attested_data | Short_attested_data | Bad_id_length
| Bad_ec_key | Not_on_curve | Bad_rsa_key | Bad_rsa_exponent | Unsupported_key
| Counter_back | Bad_signature

section \<open>The P-256 curve\<close>

definition p256_p :: int where
  "p256_p = 2 ^ 256 - 2 ^ 224 + 2 ^ 192 + 2 ^ 96 - 1"

definition p256_b :: int where
  "p256_b = 0x5AC635D8AA3A93E7B3EBBD55769886BC651D06B0CC53B0F63BCE3C3E27D2604B"

definition on_p256 :: "int \<Rightarrow> int \<Rightarrow> bool" where
  "on_p256 x y \<longleftrightarrow> 0 \<le> x \<and> x < p256_p \<and> 0 \<le> y \<and> y < p256_p
     \<and> (y * y) mod p256_p = (x * x * x - 3 * x + p256_b) mod p256_p"

section \<open>COSE keys\<close>

text \<open>\<open>m[k].(int64)\<close> and \<open>m[k].([]byte)\<close> with the comma-ok form: the zero value when absent or of
  another type.\<close>

definition map_int :: "(cbor, cbor) gomap \<Rightarrow> cbor \<Rightarrow> int" where
  "map_int m k = (case gm_get m k of Some (CInt i) \<Rightarrow> i | _ \<Rightarrow> 0)"

definition map_bytes :: "(cbor, cbor) gomap \<Rightarrow> cbor \<Rightarrow> bytes" where
  "map_bytes m k = (case gm_get m k of Some (CBytes b) \<Rightarrow> b | _ \<Rightarrow> [])"

definition cose_ec :: "(cbor, cbor) gomap \<Rightarrow> webauthn_error + public_key" where
  "cose_ec m =
     (let crv = map_int m (CInt (- 1));
          x = map_bytes m (CInt (- 2));
          y = map_bytes m (CInt (- 3)) in
      if crv \<noteq> 1 \<or> length x \<noteq> 32 \<or> length y \<noteq> 32 then Inl Bad_ec_key
      else if \<not> on_p256 (be_int x) (be_int y) then Inl Not_on_curve
      else Inr (Ecdsa_key (be_int x) (be_int y)))"

definition cose_rsa :: "(cbor, cbor) gomap \<Rightarrow> webauthn_error + public_key" where
  "cose_rsa m =
     (let modulus = map_bytes m (CInt (- 1));
          e = map_bytes m (CInt (- 2)) in
      if length modulus < 256 \<or> length e = 0 \<or> 4 < length e then Inl Bad_rsa_key
      else let ex = be_fold e in
        if ex < 3 then Inl Bad_rsa_exponent else Inr (Rsa_key (be_int modulus) ex))"

definition parse_cose :: "bytes \<Rightarrow> webauthn_error + int \<times> public_key \<times> nat" where
  "parse_cose b =
     (case decode_cbor_prefix b of
        Inl e \<Rightarrow> Inl (Bad_cbor e)
      | Inr (v, n) \<Rightarrow>
          (case v of
             CMap m \<Rightarrow>
               let kty = map_int m (CInt 1); alg = map_int m (CInt 3) in
               if kty = 2 \<and> alg = algES256 then
                 (case cose_ec m of Inl e \<Rightarrow> Inl e | Inr k \<Rightarrow> Inr (alg, k, n))
               else if kty = 3 \<and> alg = algRS256 then
                 (case cose_rsa m of Inl e \<Rightarrow> Inl e | Inr k \<Rightarrow> Inr (alg, k, n))
               else Inl Unsupported_key
           | _ \<Rightarrow> Inl Not_a_map))"

text \<open>ParseCOSEKey: the registry's way back from disk.\<close>

definition parse_cose_key :: "bytes \<Rightarrow> webauthn_error + int \<times> public_key" where
  "parse_cose_key b =
     (case parse_cose b of Inl e \<Rightarrow> Inl e | Inr (alg, k, n) \<Rightarrow> Inr (alg, k))"

section \<open>Client data and authenticator data\<close>

record client_data =
  cd_Type :: string
  cd_Challenge :: string
  cd_Origin :: string

definition client_field :: "string \<Rightarrow> json \<Rightarrow> client_data \<Rightarrow> client_data option" where
  "client_field k v c =
     (case field_of [''type'', ''challenge'', ''origin''] k of
        None \<Rightarrow> Some c
      | Some f \<Rightarrow>
          if f = ''type'' then map_option (\<lambda>s. c\<lparr>cd_Type := s\<rparr>) (into_string (cd_Type c) v)
          else if f = ''challenge'' then map_option (\<lambda>s. c\<lparr>cd_Challenge := s\<rparr>) (into_string (cd_Challenge c) v)
          else map_option (\<lambda>s. c\<lparr>cd_Origin := s\<rparr>) (into_string (cd_Origin c) v))"

definition parse_client_data :: "bytes \<Rightarrow> client_data option" where
  "parse_client_data raw =
     (let zero = \<lparr>cd_Type = [], cd_Challenge = [], cd_Origin = []\<rparr> in
      case json_parse raw of
        Some (JObj ms) \<Rightarrow> into_struct client_field ms zero
      | Some JNull \<Rightarrow> Some zero
      | _ \<Rightarrow> None)"

text \<open>The result is the first check that failed, None when all hold.\<close>

definition check_client_data ::
  "relying_party \<Rightarrow> bytes \<Rightarrow> string \<Rightarrow> bytes \<Rightarrow> webauthn_error option" where
  "check_client_data rp raw want challenge =
     (case parse_client_data raw of
        None \<Rightarrow> Some Bad_client_data
      | Some cd \<Rightarrow>
          if cd_Type cd \<noteq> want then Some Wrong_type
          else if base64url_decode (cd_Challenge cd) \<noteq> Some challenge then Some Wrong_challenge
          else if cd_Origin cd \<noteq> rp_Origin rp then Some Wrong_origin
          else None)"

definition check_auth_data :: "relying_party \<Rightarrow> bytes \<Rightarrow> webauthn_error + int \<times> int" where
  "check_auth_data rp authData =
     (if length authData < 37 then Inl Short_auth_data
      else if take 32 authData \<noteq> sha256 (rp_ID rp) then Inl Wrong_rp
      else let flags = of_char (authData ! 32) :: int in
        if \<not> bit flags 0 then Inl Not_present
        else if \<not> bit flags 2 then Inl Not_verified
        else Inr (flags, be_fold (take 4 (drop 33 authData))))"

section \<open>The ceremonies\<close>

text \<open>
  The attested credential data behind the fixed header: aaguid (16), length of the id (2), the
  id, the key.
\<close>

definition read_attested :: "bytes \<Rightarrow> int \<Rightarrow> webauthn_error + credential" where
  "read_attested rest cnt =
     (if length rest < 18 then Inl Short_attested_data
      else let idLen = of_char (rest ! 16) * 256 + of_char (rest ! 17) :: nat in
        if idLen = 0 \<or> 1023 < idLen \<or> length rest < 18 + idLen then Inl Bad_id_length
        else let coseRaw = drop (18 + idLen) rest in
          case parse_cose coseRaw of
            Inl e \<Rightarrow> Inl e
          | Inr (alg, k, n) \<Rightarrow>
              Inr \<lparr>cr_ID = take idLen (drop 18 rest), cr_Alg = alg, cr_Key = k,
                   cr_COSE = take n coseRaw, cr_SignCount = cnt\<rparr>)"

definition verify_registration ::
  "relying_party \<Rightarrow> bytes \<Rightarrow> bytes \<Rightarrow> bytes \<Rightarrow> webauthn_error + credential" where
  "verify_registration rp clientDataJSON attestationObject challenge =
     (case check_client_data rp clientDataJSON ''webauthn.create'' challenge of
        Some e \<Rightarrow> Inl e
      | None \<Rightarrow>
          (case decode_cbor attestationObject of
             Inl e \<Rightarrow> Inl (Bad_cbor e)
           | Inr (CMap m) \<Rightarrow>
               (case gm_get m (CText ''authData'') of
                  Some (CBytes authData) \<Rightarrow>
                    (case check_auth_data rp authData of
                       Inl e \<Rightarrow> Inl e
                     | Inr (flags, cnt) \<Rightarrow>
                         if \<not> bit flags 6 then Inl No_attested_data
                         else read_attested (drop 37 authData) cnt)
                | _ \<Rightarrow> Inl No_auth_data)
           | Inr _ \<Rightarrow> Inl Not_a_map))"

type_synonym sig_check = "public_key \<Rightarrow> bytes \<Rightarrow> bytes \<Rightarrow> bool"

definition verify_assertion ::
  "sig_check \<Rightarrow> relying_party \<Rightarrow> credential \<Rightarrow> bytes \<Rightarrow> bytes \<Rightarrow> bytes \<Rightarrow> bytes \<Rightarrow> webauthn_error + int" where
  "verify_assertion sig_ok rp cred clientDataJSON authData sig challenge =
     (case check_client_data rp clientDataJSON ''webauthn.get'' challenge of
        Some e \<Rightarrow> Inl e
      | None \<Rightarrow>
          (case check_auth_data rp authData of
             Inl e \<Rightarrow> Inl e
           | Inr (flags, cnt) \<Rightarrow>
               if 0 < cr_SignCount cred \<and> cnt \<le> cr_SignCount cred then Inl Counter_back
               else if \<not> sig_ok (cr_Key cred) (sha256 (authData @ sha256 clientDataJSON)) sig
               then Inl Bad_signature
               else Inr cnt))"

section \<open>What is registered\<close>

text \<open>The keys the admin gate takes: a point of the curve, or an RSA key with a usable exponent.\<close>

definition key_ok :: "int \<Rightarrow> public_key \<Rightarrow> bool" where
  "key_ok alg k \<longleftrightarrow> (case k of
     Ecdsa_key x y \<Rightarrow> alg = algES256 \<and> on_p256 x y
   | Rsa_key n e \<Rightarrow> alg = algRS256 \<and> 3 \<le> e \<and> e < 2 ^ 32)"

lemma be_fold_bounds: "0 \<le> be_fold s \<and> be_fold s < 256 ^ length s"
proof (induction s rule: rev_induct)
  case Nil
  then show ?case by (simp add: be_fold_def)
next
  case (snoc c s)
  have "(of_char c :: int) < 256" "0 \<le> (of_char c :: int)"
    using nat_of_char_less_256 [of c] by (metis of_nat_less_iff of_nat_numeral of_nat_of_char)
      (metis of_nat_0_le_iff of_nat_of_char)
  with snoc show ?case by (simp add: be_fold_snoc)
qed

lemma parse_cose_ok:
  assumes "parse_cose b = Inr (alg, k, n)"
  shows "key_ok alg k"
proof -
  have rsa: "0 \<le> be_fold e \<and> be_fold e < 2 ^ 32" if "\<not> 4 < length e" for e
  proof -
    have "be_fold e < 256 ^ length e" using be_fold_bounds by blast
    also have "(256 :: int) ^ length e \<le> 256 ^ 4" using that by (intro power_increasing) simp_all
    finally show ?thesis using be_fold_bounds [of e] by simp
  qed
  from assms show ?thesis
    using rsa [of "map_bytes _ (CInt (- 2))"]
    by (auto simp: parse_cose_def cose_ec_def cose_rsa_def key_ok_def Let_def
        split: sum.splits cbor.splits if_splits)
qed

lemma parse_cose_again:
  assumes "parse_cose b = Inr (alg, k, n)"
  shows "parse_cose_key (take n b) = Inr (alg, k)"
proof -
  from assms obtain v where v: "decode_cbor_prefix b = Inr (v, n)"
    by (auto simp: parse_cose_def Let_def split: sum.splits cbor.splits if_splits)
  then obtain r where read: "cbor_value 0 b = Inr (v, r)" "n = length b - length r"
    by (auto simp: decode_cbor_prefix_def split: sum.splits)
  obtain pre where pre: "b = pre @ r" "\<And>t. cbor_value 0 (pre @ t) = Inr (v, t)"
    using local_readD [OF cbor_local(1) read(1)] by blast
  have "decode_cbor_prefix (take n b) = Inr (v, n)"
    using pre(2) [of "[]"] by (simp add: pre(1) read(2) decode_cbor_prefix_def)
  with assms v have "parse_cose (take n b) = Inr (alg, k, n)"
    by (simp add: parse_cose_def)
  then show ?thesis by (simp add: parse_cose_key_def)
qed

text \<open>
  Further. A registered passkey survives the registry. When a registration verifies, its id has 1 to
  1023 bytes, its key is one of the two supported kinds with its parameters checked, and the
  bytes kept for the registry parse back, alone, to the same algorithm and key.
\<close>
theorem registration_reparses:
  assumes "verify_registration rp cdj obj challenge = Inr cred"
  shows "parse_cose_key (cr_COSE cred) = Inr (cr_Alg cred, cr_Key cred) \<and>
    key_ok (cr_Alg cred) (cr_Key cred) \<and> 1 \<le> length (cr_ID cred) \<and> length (cr_ID cred) \<le> 1023"
proof -
  from assms obtain rest c where read: "read_attested rest c = Inr cred"
    by (auto simp: verify_registration_def split: option.splits sum.splits cbor.splits if_splits)
  let ?id = "of_char (rest ! 16) * 256 + of_char (rest ! 17) :: nat"
  from read obtain alg k n where cose: "parse_cose (drop (18 + ?id) rest) = Inr (alg, k, n)"
    and id: "?id \<noteq> 0" "\<not> 1023 < ?id" "\<not> length rest < 18 + ?id"
    and cred: "cred = \<lparr>cr_ID = take ?id (drop 18 rest), cr_Alg = alg, cr_Key = k,
      cr_COSE = take n (drop (18 + ?id) rest), cr_SignCount = c\<rparr>"
    unfolding read_attested_def Let_def by (simp split: sum.splits if_splits prod.splits)
  have "length (cr_ID cred) = ?id" using id(3) by (simp add: cred)
  with id(1,2) have "1 \<le> length (cr_ID cred)" "length (cr_ID cred) \<le> 1023" by linarith+
  with parse_cose_again [OF cose] parse_cose_ok [OF cose] show ?thesis by (simp add: cred)
qed

section \<open>What an assertion proves\<close>

lemma check_client_None:
  "check_client_data rp raw want challenge = None \<longleftrightarrow>
    (\<exists>cd. parse_client_data raw = Some cd \<and> cd_Type cd = want
      \<and> base64url_decode (cd_Challenge cd) = Some challenge \<and> cd_Origin cd = rp_Origin rp)"
  by (auto simp: check_client_data_def split: option.split)

lemma check_auth_Inr:
  "check_auth_data rp authData = Inr (flags, cnt) \<longleftrightarrow>
    37 \<le> length authData \<and> take 32 authData = sha256 (rp_ID rp) \<and> flags = of_char (authData ! 32)
    \<and> bit flags 0 \<and> bit flags 2 \<and> cnt = be_fold (take 4 (drop 33 authData))"
  by (auto simp: check_auth_data_def Let_def)

text \<open>
  C26. What an accepted assertion establishes: the browser states this ceremony (not a
  registration), the challenge that was issued and this very origin; the authenticator states
  this relying party, a present and verified user; the counter has moved on, if it ever counted;
  and the credential's key signed exactly these statements.
\<close>
theorem assertion_establishes:
  assumes "verify_assertion sig_ok rp cred cdj authData sig challenge = Inr cnt"
  shows "(\<exists>cd. parse_client_data cdj = Some cd \<and> cd_Type cd = ''webauthn.get''
      \<and> base64url_decode (cd_Challenge cd) = Some challenge \<and> cd_Origin cd = rp_Origin rp) \<and>
    take 32 authData = sha256 (rp_ID rp) \<and>
    bit (of_char (authData ! 32) :: int) 0 \<and> bit (of_char (authData ! 32) :: int) 2 \<and>
    (cr_SignCount cred = 0 \<or> cr_SignCount cred < cnt \<or> cr_SignCount cred < 0) \<and>
    0 \<le> cnt \<and> cnt < 2 ^ 32 \<and>
    sig_ok (cr_Key cred) (sha256 (authData @ sha256 cdj)) sig"
proof -
  from assms obtain flags where client: "check_client_data rp cdj ''webauthn.get'' challenge = None"
    and auth: "check_auth_data rp authData = Inr (flags, cnt)"
    and "\<not> (0 < cr_SignCount cred \<and> cnt \<le> cr_SignCount cred)"
    and "sig_ok (cr_Key cred) (sha256 (authData @ sha256 cdj)) sig"
    by (auto simp: verify_assertion_def split: option.splits sum.splits if_splits)
  moreover have "length (take 4 (drop 33 authData)) = 4" using auth by (auto simp: check_auth_Inr)
  then have "0 \<le> cnt" "cnt < 2 ^ 32"
    using auth be_fold_bounds [of "take 4 (drop 33 authData)"] by (simp_all add: check_auth_Inr)
  ultimately show ?thesis by (auto simp: check_client_None check_auth_Inr)
qed

text \<open>
  A credential in use: each assertion is checked against the credential with the counter of the
  last accepted one, as the registry keeps it.
\<close>

fun logins :: "sig_check \<Rightarrow> relying_party \<Rightarrow> credential \<Rightarrow> (bytes \<times> bytes \<times> bytes \<times> bytes) list \<Rightarrow> int list" where
  "logins sig_ok rp cred [] = []"
| "logins sig_ok rp cred ((cdj, authData, sig, challenge) # rest) =
     (case verify_assertion sig_ok rp cred cdj authData sig challenge of
        Inl e \<Rightarrow> logins sig_ok rp cred rest
      | Inr cnt \<Rightarrow> cnt # logins sig_ok rp (cred\<lparr>cr_SignCount := cnt\<rparr>) rest)"

lemma logins_above:
  "0 < cr_SignCount cred \<Longrightarrow> \<forall>c \<in> set (logins sig_ok rp cred xs). cr_SignCount cred < c"
proof (induction sig_ok rp cred xs rule: logins.induct)
  case (2 sig_ok rp cred cdj authData sig challenge rest)
  show ?case
  proof (cases "verify_assertion sig_ok rp cred cdj authData sig challenge")
    case (Inl e)
    with 2 show ?thesis by simp
  next
    case (Inr cnt)
    then have "cr_SignCount cred < cnt"
      using "2.prems" by (auto simp: verify_assertion_def split: option.splits sum.splits if_splits)
    with 2 Inr show ?thesis by fastforce
  qed
qed simp

text \<open>
  Further. A copied authenticator shows. Over any sequence of presented assertions, accepted and
  refused, once an accepted counter is not zero every later accepted one is greater: no
  assertion with a counter is accepted twice, in any order of presentation.
\<close>
theorem counters_increase: "sorted_wrt (\<lambda>a b. a = 0 \<or> a < b) (logins sig_ok rp cred xs)"
proof (induction sig_ok rp cred xs rule: logins.induct)
  case (2 sig_ok rp cred cdj authData sig challenge rest)
  show ?case
  proof (cases "verify_assertion sig_ok rp cred cdj authData sig challenge")
    case (Inl e)
    with 2 show ?thesis by simp
  next
    case (Inr cnt)
    then obtain flags where "check_auth_data rp authData = Inr (flags, cnt)"
      by (auto simp: verify_assertion_def split: option.splits sum.splits if_splits)
    then have "0 \<le> cnt" using be_fold_bounds by (simp add: check_auth_Inr)
    then have "cnt = 0 \<or> (\<forall>c \<in> set (logins sig_ok rp (cred\<lparr>cr_SignCount := cnt\<rparr>) rest). cnt < c)"
      using logins_above [of "cred\<lparr>cr_SignCount := cnt\<rparr>"] by fastforce
    with 2 Inr show ?thesis by auto
  qed
qed simp

section \<open>Witnesses\<close>

definition demo_rp :: relying_party where
  "demo_rp = \<lparr>rp_Origin = ''https://h'', rp_ID = ''h''\<rparr>"

definition demo_client :: "string \<Rightarrow> bytes" where
  "demo_client kind = ''{'' @ [CHR 0x22] @ ''type'' @ [CHR 0x22] @ '':'' @ [CHR 0x22] @ kind @ [CHR 0x22] @ '',''
     @ [CHR 0x22] @ ''challenge'' @ [CHR 0x22] @ '':'' @ [CHR 0x22] @ ''AAAA'' @ [CHR 0x22] @ '',''
     @ [CHR 0x22] @ ''origin'' @ [CHR 0x22] @ '':'' @ [CHR 0x22] @ ''https://h'' @ [CHR 0x22] @ ''}''"

lemma demo_client_parsed:
  "parse_client_data (demo_client ''webauthn.get'')
    = Some \<lparr>cd_Type = ''webauthn.get'', cd_Challenge = ''AAAA'', cd_Origin = ''https://h''\<rparr>"
  "parse_client_data (demo_client ''webauthn.create'')
    = Some \<lparr>cd_Type = ''webauthn.create'', cd_Challenge = ''AAAA'', cd_Origin = ''https://h''\<rparr>"
  "base64url_decode ''AAAA'' = Some (replicate 3 CHR 0x00)"
  by code_simp+

lemma demo_client_checked:
  "check_client_data demo_rp (demo_client ''webauthn.get'') ''webauthn.get'' (replicate 3 CHR 0x00) = None"
  "check_client_data demo_rp (demo_client ''webauthn.create'') ''webauthn.create'' (replicate 3 CHR 0x00) = None"
  unfolding check_client_None by (simp_all add: demo_client_parsed demo_rp_def)

definition demo_cose :: cbor where
  "demo_cose = CMap [(CInt 1, CInt 3), (CInt 3, CInt (- 257)),
     (CInt (- 1), CBytes (replicate 256 CHR 0x80)), (CInt (- 2), CBytes [CHR 0x01, CHR 0x00, CHR 0x01])]"

lemma demo_cose_parsed:
  "parse_cose (cbor_enc demo_cose) = Inr (- 257, Rsa_key (be_int (replicate 256 CHR 0x80)) 65537, length (cbor_enc demo_cose))"
proof -
  have "cbor_ok 0 demo_cose" by (simp add: demo_cose_def)
  from cbor_value_enc [OF this, of "[]"]
  have "decode_cbor_prefix (cbor_enc demo_cose) = Inr (demo_cose, length (cbor_enc demo_cose))"
    by (simp add: decode_cbor_prefix_def del: cbor_enc.simps)
  then show ?thesis
    by (simp add: parse_cose_def demo_cose_def map_int_def map_bytes_def cose_rsa_def be_fold_def Let_def
        del: cbor_enc.simps)
qed

definition demo_auth :: "int \<Rightarrow> bytes \<Rightarrow> bytes" where
  "demo_auth flags rest = sha256 (rp_ID demo_rp) @ [char_of flags, CHR 0x00, CHR 0x00, CHR 0x00, CHR 0x07] @ rest"

lemma demo_auth_checked:
  "check_auth_data demo_rp (demo_auth 0x45 rest) = Inr (0x45, 7)"
  by (simp add: check_auth_Inr demo_auth_def nth_append be_fold_def)

definition demo_object :: bytes where
  "demo_object = cbor_enc (CMap [(CText ''authData'', CBytes (demo_auth 0x45
     (replicate 16 CHR 0x00 @ [CHR 0x00, CHR 0x01, CHR ''i''] @ cbor_enc demo_cose)))])"

lemma demo_registered:
  "\<exists>cred. verify_registration demo_rp (demo_client ''webauthn.create'') demo_object (replicate 3 CHR 0x00) = Inr cred
    \<and> cr_ID cred = ''i'' \<and> cr_Alg cred = - 257"
proof -
  let ?rest = "replicate 16 CHR 0x00 @ [CHR 0x00, CHR 0x01, CHR ''i''] @ cbor_enc demo_cose"
  let ?obj = "CMap [(CText ''authData'', CBytes (demo_auth 0x45 ?rest))]"
  have "length (cbor_enc demo_cose) < 2 ^ 60" by (simp add: demo_cose_def enc_head_def)
  then have "cbor_ok 0 ?obj" by (simp add: demo_auth_def del: cbor_enc.simps)
  from cbor_value_enc [OF this, of "[]"] have obj: "decode_cbor demo_object = Inr ?obj"
    by (simp add: decode_cbor_def demo_object_def del: cbor_enc.simps)
  have "drop 37 (demo_auth 0x45 ?rest) = ?rest" by (simp add: demo_auth_def)
  moreover have "\<exists>cred. read_attested ?rest 7 = Inr cred \<and> cr_ID cred = ''i'' \<and> cr_Alg cred = - 257"
    by (simp add: read_attested_def nth_append demo_cose_parsed Let_def del: cbor_enc.simps)
  moreover have "bit (0x45 :: int) 6" by (simp add: bit_iff_odd)
  ultimately show ?thesis
    by (simp add: verify_registration_def demo_client_checked obj demo_auth_checked del: cbor_enc.simps)
qed

theorem registration_reparses_witness:
  "\<exists>cred :: credential. key_ok (cr_Alg cred) (cr_Key cred) \<and> cr_ID cred = ''i''
    \<and> parse_cose_key (cr_COSE cred) = Inr (cr_Alg cred, cr_Key cred)"
proof -
  obtain cred where "verify_registration demo_rp (demo_client ''webauthn.create'') demo_object
      (replicate 3 CHR 0x00) = Inr cred" "cr_ID cred = ''i''"
    using demo_registered by blast
  with registration_reparses [OF this(1)] show ?thesis by (intro exI [of _ cred]) simp
qed

definition demo_credential :: credential where
  "demo_credential = \<lparr>cr_ID = ''i'', cr_Alg = - 257, cr_Key = Rsa_key 15 3, cr_COSE = [], cr_SignCount = 6\<rparr>"

theorem assertion_establishes_witness:
  "\<exists>cnt. verify_assertion (\<lambda>k d s. s = ''sig'') demo_rp demo_credential (demo_client ''webauthn.get'')
      (demo_auth 0x45 []) ''sig'' (replicate 3 CHR 0x00) = Inr cnt \<and> 6 < cnt"
proof -
  have ok: "verify_assertion (\<lambda>k d s. s = ''sig'') demo_rp demo_credential (demo_client ''webauthn.get'')
      (demo_auth 0x45 []) ''sig'' (replicate 3 CHR 0x00) = Inr 7"
    by (simp add: verify_assertion_def demo_client_checked demo_auth_checked demo_credential_def)
  from assertion_establishes [OF ok] ok show ?thesis by (simp add: demo_credential_def)
qed

end
