(* ===== verification/Devices.thy ===== *)
theory Devices
  imports Webauthn
begin

text \<open>
  The registry of enrolled devices and admin passkeys (package \<open>internal/devices\<close>).

  Every method holds the mutex, so each is one step from a registry to a registry.  The registry
  file is part of the state: \<open>rg_file\<close> is what was last written (the prototext of the standard
  codec reads back as what was written, so it is kept as the values).  What the platform decides
  is an argument: random bytes, whether a write succeeds, the order of a range over a map.
\<close>

section \<open>State\<close>

abbreviation (input) enrollTTL :: duration where "enrollTTL \<equiv> 5 * Minute"
abbreviation (input) lastSeenFlush :: duration where "lastSeenFlush \<equiv> 10 * Minute"
abbreviation (input) maxPending :: nat where "maxPending \<equiv> 8"

record device_state =
  ds_Id :: string
  ds_Name :: string
  ds_TokenSha256 :: string
  ds_EnrolledAt :: time
  ds_LastSeen :: time
  ds_Revoked :: bool

record passkey_state =
  ps_Id :: string
  ps_Name :: string
  ps_CredentialId :: bytes
  ps_PublicKey :: bytes
  ps_SignCount :: int
  ps_RegisteredAt :: time

record registry =
  rg_path :: string
  rg_order :: "device_state list"
  rg_passkeys :: "passkey_state list"
  rg_pending :: "(string, time) gomap"
  rg_saved :: time
  rg_file :: "(device_state list \<times> passkey_state list) option"

text \<open>What callers see of a device and of a passkey.\<close>

record device =
  dv_ID :: string
  dv_Name :: string
  dv_Enrolled :: time
  dv_LastSeen :: time
  dv_Revoked :: bool

record passkey =
  pk_ID :: string
  pk_Name :: string
  pk_Registered :: time
  pk_Credential :: credential

definition device_of :: "device_state \<Rightarrow> device" where
  "device_of d = \<lparr>dv_ID = ds_Id d, dv_Name = ds_Name d, dv_Enrolled = ds_EnrolledAt d,
     dv_LastSeen = ds_LastSeen d, dv_Revoked = ds_Revoked d\<rparr>"

definition passkey_of :: "passkey_state \<Rightarrow> passkey option" where
  "passkey_of p =
     (case parse_cose_key (ps_PublicKey p) of
        Inl e \<Rightarrow> None
      | Inr (alg, key) \<Rightarrow>
          Some \<lparr>pk_ID = ps_Id p, pk_Name = ps_Name p, pk_Registered = ps_RegisteredAt p,
            pk_Credential = \<lparr>cr_ID = ps_CredentialId p, cr_Alg = alg, cr_Key = key,
              cr_COSE = ps_PublicKey p, cr_SignCount = ps_SignCount p\<rparr>\<rparr>)"

text \<open>Random tokens, of the bytes the platform gave; the hash a token is known by.\<close>

definition rand_token :: "bytes \<Rightarrow> string" where
  "rand_token rnd = base64url_encode rnd"

definition hash_token :: "string \<Rightarrow> string" where
  "hash_token token = hex_encode (sha256 token)"

section \<open>Loading and saving\<close>

text \<open>
  New: the file is absent, unreadable or a state; a stored passkey that does not parse is fatal.
\<close>

datatype registry_file = Absent | Unreadable | State "device_state list" "passkey_state list"

definition new_registry :: "string \<Rightarrow> registry_file \<Rightarrow> registry option" where
  "new_registry path file =
     (let r = \<lparr>rg_path = path, rg_order = [], rg_passkeys = [], rg_pending = [], rg_saved = 0, rg_file = None\<rparr> in
      if path = [] then Some r
      else case file of
        Absent \<Rightarrow> Some r
      | Unreadable \<Rightarrow> None
      | State ds ps \<Rightarrow>
          if list_all (\<lambda>p. passkey_of p \<noteq> None) ps
          then Some (r\<lparr>rg_order := ds, rg_passkeys := ps, rg_file := Some (ds, ps)\<rparr>) else None)"

text \<open>save: whether it succeeded, and the registry after it.\<close>

definition save :: "bool \<Rightarrow> time \<Rightarrow> registry \<Rightarrow> bool \<times> registry" where
  "save ok now r =
     (let r' = r\<lparr>rg_saved := now\<rparr> in
      if rg_path r' = [] then (True, r')
      else if ok then (True, r'\<lparr>rg_file := Some (rg_order r', rg_passkeys r')\<rparr>)
      else (False, r'))"

section \<open>Enrollment\<close>

definition armed :: "registry \<Rightarrow> bool" where
  "armed r \<longleftrightarrow> (\<exists>d \<in> set (rg_order r). \<not> ds_Revoked d)"

definition sweep_pending :: "time \<Rightarrow> registry \<Rightarrow> registry" where
  "sweep_pending now r = r\<lparr>rg_pending := filter (\<lambda>(s, expires). \<not> expires < now) (rg_pending r)\<rparr>"

text \<open>The loop that finds the secret expiring first, and the loop that evicts while eight are live.\<close>

definition oldest_pending :: "string list \<Rightarrow> (string, time) gomap \<Rightarrow> string" where
  "oldest_pending ord m =
     fst (fold (\<lambda>(s, expires) (oldest, since). if is_zero since \<or> expires < since then (s, expires) else (oldest, since))
       (gm_pick ord m) ([], 0))"

fun evict_pending :: "nat \<Rightarrow> string list \<Rightarrow> (string, time) gomap \<Rightarrow> (string, time) gomap" where
  "evict_pending 0 ord m = m"
| "evict_pending (Suc n) ord m =
     (if maxPending \<le> length m then evict_pending n ord (gm_del (oldest_pending ord m) m) else m)"

definition mint_enrollment :: "string list \<Rightarrow> bytes \<Rightarrow> time \<Rightarrow> registry \<Rightarrow> string \<times> registry" where
  "mint_enrollment ord rnd now r =
     (let secret = rand_token rnd;
          r1 = sweep_pending now r;
          m = evict_pending (length (rg_pending r1)) ord (rg_pending r1)
      in (secret, r1\<lparr>rg_pending := gm_set secret (now + enrollTTL) m\<rparr>))"

datatype registry_error = Bad_secret | Save_failed | Duplicate_passkey | Last_passkey | No_passkey | Bad_key

definition enroll :: "bool \<Rightarrow> bytes \<Rightarrow> bytes \<Rightarrow> string \<Rightarrow> string \<Rightarrow> time \<Rightarrow> registry
    \<Rightarrow> (registry_error + device \<times> string) \<times> registry" where
  "enroll ok tok_rnd id_rnd secret name now r =
     (let r1 = sweep_pending now r in
      case gm_get (rg_pending r1) secret of
        None \<Rightarrow> (Inl Bad_secret, r1)
      | Some expires \<Rightarrow>
          if expires < now then (Inl Bad_secret, r1)
          else
            let r2 = r1\<lparr>rg_pending := gm_del secret (rg_pending r1)\<rparr>;
                token = rand_token tok_rnd;
                d = \<lparr>ds_Id = rand_token id_rnd, ds_Name = name, ds_TokenSha256 = hash_token token,
                     ds_EnrolledAt = now, ds_LastSeen = now, ds_Revoked = False\<rparr>;
                (saved, r3) = save ok now (r2\<lparr>rg_order := rg_order r2 @ [d]\<rparr>)
            in (if saved then Inr (device_of d, token) else Inl Save_failed, r3))"

section \<open>Authentication and revocation\<close>

text \<open>The position of the last device with the hash: the loop does not stop at the first.\<close>

definition lookup_hash :: "string \<Rightarrow> device_state list \<Rightarrow> nat option" where
  "lookup_hash h ds =
     fold (\<lambda>(i, d) found. if ds_TokenSha256 d = h then Some i else found) (enumerate 0 ds) None"

definition authenticate :: "bool \<Rightarrow> string \<Rightarrow> time \<Rightarrow> registry \<Rightarrow> device option \<times> registry" where
  "authenticate ok token now r =
     (case lookup_hash (hash_token token) (rg_order r) of
        None \<Rightarrow> (None, r)
      | Some i \<Rightarrow>
          if ds_Revoked (rg_order r ! i) then (None, r)
          else
            let d = (rg_order r ! i)\<lparr>ds_LastSeen := now\<rparr>;
                r1 = r\<lparr>rg_order := (rg_order r)[i := d]\<rparr>;
                r2 = (if lastSeenFlush < time_sub now (rg_saved r1) then snd (save ok now r1) else r1)
            in (Some (device_of d), r2))"

definition forget :: "bool \<Rightarrow> string \<Rightarrow> time \<Rightarrow> registry \<Rightarrow> registry" where
  "forget ok token now r =
     (case lookup_hash (hash_token token) (rg_order r) of
        None \<Rightarrow> r
      | Some i \<Rightarrow>
          if ds_Revoked (rg_order r ! i) then r
          else snd (save ok now
            (r\<lparr>rg_order := (rg_order r)[i := (rg_order r ! i)\<lparr>ds_Revoked := True\<rparr>]\<rparr>)))"

definition revoke :: "bool \<Rightarrow> string \<Rightarrow> time \<Rightarrow> registry \<Rightarrow> bool \<times> registry" where
  "revoke ok did now r =
     (case find_index (\<lambda>d. ds_Id d = did \<and> \<not> ds_Revoked d) (rg_order r) of
        None \<Rightarrow> (False, r)
      | Some i \<Rightarrow>
          (True, snd (save ok now
            (r\<lparr>rg_order := (rg_order r)[i := (rg_order r ! i)\<lparr>ds_Revoked := True\<rparr>]\<rparr>))))"

definition list_devices :: "registry \<Rightarrow> device list" where
  "list_devices r = map device_of (rg_order r)"

section \<open>Admin passkeys\<close>

definition has_passkeys :: "registry \<Rightarrow> bool" where
  "has_passkeys r \<longleftrightarrow> 0 < length (rg_passkeys r)"

definition add_passkey :: "bool \<Rightarrow> bytes \<Rightarrow> string \<Rightarrow> credential \<Rightarrow> time \<Rightarrow> registry
    \<Rightarrow> (registry_error + passkey) \<times> registry" where
  "add_passkey ok id_rnd name cred now r =
     (if \<exists>p \<in> set (rg_passkeys r). ps_CredentialId p = cr_ID cred then (Inl Duplicate_passkey, r)
      else
        let p = \<lparr>ps_Id = rand_token id_rnd, ps_Name = name, ps_CredentialId = cr_ID cred,
                 ps_PublicKey = cr_COSE cred, ps_SignCount = cr_SignCount cred, ps_RegisteredAt = now\<rparr>;
            (saved, r1) = save ok now (r\<lparr>rg_passkeys := rg_passkeys r @ [p]\<rparr>)
        in (if \<not> saved then Inl Save_failed
            else (case passkey_of p of None \<Rightarrow> Inl Bad_key | Some pk \<Rightarrow> Inr pk), r1))"

definition passkey_by_credential :: "registry \<Rightarrow> bytes \<Rightarrow> passkey option" where
  "passkey_by_credential r credID =
     (case List.find (\<lambda>p. ps_CredentialId p = credID) (rg_passkeys r) of
        None \<Rightarrow> None | Some p \<Rightarrow> passkey_of p)"

definition set_sign_count :: "bool \<Rightarrow> string \<Rightarrow> int \<Rightarrow> time \<Rightarrow> registry \<Rightarrow> registry" where
  "set_sign_count ok pid cnt now r =
     (case find_index (\<lambda>p. ps_Id p = pid) (rg_passkeys r) of
        None \<Rightarrow> r
      | Some i \<Rightarrow>
          snd (save ok now
            (r\<lparr>rg_passkeys := (rg_passkeys r)[i := (rg_passkeys r ! i)\<lparr>ps_SignCount := cnt\<rparr>]\<rparr>)))"

definition list_passkeys :: "registry \<Rightarrow> passkey list" where
  "list_passkeys r = List.map_filter passkey_of (rg_passkeys r)"

definition remove_passkey :: "bool \<Rightarrow> string \<Rightarrow> time \<Rightarrow> registry \<Rightarrow> registry_error option \<times> registry" where
  "remove_passkey ok pid now r =
     (case find_index (\<lambda>p. ps_Id p = pid) (rg_passkeys r) of
        None \<Rightarrow> (Some No_passkey, r)
      | Some i \<Rightarrow>
          if length (rg_passkeys r) = 1 then (Some Last_passkey, r)
          else
            let (saved, r1) = save ok now
                  (r\<lparr>rg_passkeys := take i (rg_passkeys r) @ drop (Suc i) (rg_passkeys r)\<rparr>)
            in (if saved then None else Some Save_failed, r1))"

section \<open>Histories\<close>

text \<open>Every call that changes the registry, with what the platform decided.\<close>

datatype registry_op =
  Op_mint "string list" bytes time
| Op_enroll bool bytes bytes string string time
| Op_authenticate bool string time
| Op_forget bool string time
| Op_revoke bool string time
| Op_add_passkey bool bytes string credential time
| Op_set_count bool string int time
| Op_remove_passkey bool string time

fun registry_step :: "registry_op \<Rightarrow> registry \<Rightarrow> registry" where
  "registry_step (Op_mint ord rnd now) r = snd (mint_enrollment ord rnd now r)"
| "registry_step (Op_enroll ok tok idr secret name now) r = snd (enroll ok tok idr secret name now r)"
| "registry_step (Op_authenticate ok token now) r = snd (authenticate ok token now r)"
| "registry_step (Op_forget ok token now) r = forget ok token now r"
| "registry_step (Op_revoke ok did now) r = snd (revoke ok did now r)"
| "registry_step (Op_add_passkey ok idr name cred now) r = snd (add_passkey ok idr name cred now r)"
| "registry_step (Op_set_count ok pid cnt now) r = set_sign_count ok pid cnt now r"
| "registry_step (Op_remove_passkey ok pid now) r = snd (remove_passkey ok pid now r)"

definition registry_run :: "registry_op list \<Rightarrow> registry \<Rightarrow> registry" where
  "registry_run ops r = fold registry_step ops r"

lemma registry_run_simps [simp]:
  "registry_run [] r = r" "registry_run (op # ops) r = registry_run ops (registry_step op r)"
  by (simp_all add: registry_run_def)

text \<open>A property every step preserves holds after every history.\<close>

lemma registry_run_inv:
  assumes "\<And>op r. op \<in> set ops \<Longrightarrow> P r \<Longrightarrow> P (registry_step op r)" and "P r"
  shows "P (registry_run ops r)"
  using assms by (induction ops arbitrary: r) simp_all

section \<open>Looking a token up\<close>

lemma lookup_hash_snoc [simp]:
  "lookup_hash h [] = None"
  "lookup_hash h (ds @ [d]) = (if ds_TokenSha256 d = h then Some (length ds) else lookup_hash h ds)"
  by (simp_all add: lookup_hash_def enumerate_append_eq)

lemma lookup_hash_Some:
  "lookup_hash h ds = Some i \<Longrightarrow> i < length ds \<and> ds_TokenSha256 (ds ! i) = h"
  by (induction ds rule: rev_induct) (auto simp: nth_append split: if_splits)

lemma lookup_hash_cong:
  "map ds_TokenSha256 ds = map ds_TokenSha256 ds' \<Longrightarrow> lookup_hash h ds = lookup_hash h ds'"
proof (induction ds arbitrary: ds' rule: rev_induct)
  case (snoc d ds)
  then obtain d' es where "ds' = es @ [d']" by (cases ds' rule: rev_cases) auto
  with snoc.prems snoc.IH [of es] show ?case
    using map_eq_imp_length_eq [of ds_TokenSha256 ds ds_TokenSha256 es] by simp
qed simp

lemma map_update_same: "f y = f (xs ! i) \<Longrightarrow> map f (xs[i := y]) = map f xs"
  by (metis list_update_id map_update)

lemma lookup_hash_update [simp]:
  "ds_TokenSha256 d = ds_TokenSha256 (ds ! i) \<Longrightarrow> lookup_hash h (ds[i := d]) = lookup_hash h ds"
  by (rule lookup_hash_cong) (rule map_update_same)

text \<open>Which token opens the door: the one whose last bearer is not revoked.\<close>

definition live_token :: "registry \<Rightarrow> string \<Rightarrow> bool" where
  "live_token r token \<longleftrightarrow>
     (case lookup_hash (hash_token token) (rg_order r) of
        None \<Rightarrow> False | Some i \<Rightarrow> \<not> ds_Revoked (rg_order r ! i))"

lemma authenticate_live: "fst (authenticate ok token now r) = None \<longleftrightarrow> \<not> live_token r token"
  by (simp add: authenticate_def live_token_def Let_def split: option.split)

section \<open>What each step does to the devices\<close>

lemma save_frame [simp]:
  "rg_path (snd (save ok now r)) = rg_path r" "rg_order (snd (save ok now r)) = rg_order r"
  "rg_passkeys (snd (save ok now r)) = rg_passkeys r" "rg_pending (snd (save ok now r)) = rg_pending r"
  by (simp_all add: save_def Let_def)

text \<open>The fields of a device that never change, and the list of devices, which only grows.\<close>

definition device_core :: "device_state \<Rightarrow> string \<times> string \<times> string \<times> time" where
  "device_core d = (ds_Id d, ds_Name d, ds_TokenSha256 d, ds_EnrolledAt d)"

definition later_devices :: "device_state list \<Rightarrow> device_state list \<Rightarrow> bool" where
  "later_devices ds ds' \<longleftrightarrow> length ds \<le> length ds' \<and>
     (\<forall>i < length ds. device_core (ds' ! i) = device_core (ds ! i)
        \<and> (ds_Revoked (ds ! i) \<longrightarrow> ds_Revoked (ds' ! i)))"

lemma later_refl [simp]: "later_devices ds ds"
  by (simp add: later_devices_def)

lemma later_trans: "later_devices ds es \<Longrightarrow> later_devices es fs \<Longrightarrow> later_devices ds fs"
  by (simp add: later_devices_def)

lemma later_snoc [simp]: "later_devices ds (ds @ [d])"
  by (simp add: later_devices_def nth_append)

lemma later_update [simp]:
  "device_core d = device_core (ds ! i) \<Longrightarrow> (ds_Revoked (ds ! i) \<longrightarrow> ds_Revoked d) \<Longrightarrow>
    later_devices ds (ds[i := d])"
  by (cases "i < length ds") (auto simp: later_devices_def nth_list_update list_update_beyond)

text \<open>Authenticate and Forget, by whether the token is live.\<close>

lemma live_tokenE:
  assumes "live_token r token"
  obtains i where "lookup_hash (hash_token token) (rg_order r) = Some i" "i < length (rg_order r)"
    "\<not> ds_Revoked (rg_order r ! i)" "ds_TokenSha256 (rg_order r ! i) = hash_token token"
  using assms lookup_hash_Some [of "hash_token token" "rg_order r"]
  by (auto simp: live_token_def split: option.splits)

lemma dead_token:
  "\<not> live_token r token \<Longrightarrow> authenticate ok token now r = (None, r)"
  "\<not> live_token r token \<Longrightarrow> forget ok token now r = r"
  by (auto simp: live_token_def authenticate_def forget_def split: option.splits)

lemma used_token:
  assumes "lookup_hash (hash_token token) (rg_order r) = Some i" and "\<not> ds_Revoked (rg_order r ! i)"
  shows "fst (authenticate ok token now r) = Some (device_of ((rg_order r ! i)\<lparr>ds_LastSeen := now\<rparr>))"
    and "rg_order (snd (authenticate ok token now r)) = (rg_order r)[i := (rg_order r ! i)\<lparr>ds_LastSeen := now\<rparr>]"
    and "rg_order (forget ok token now r) = (rg_order r)[i := (rg_order r ! i)\<lparr>ds_Revoked := True\<rparr>]"
  using assms by (simp_all add: authenticate_def forget_def Let_def)

text \<open>
  The outcome of an enrollment, by the state of its secret: a name for a case of \<open>enroll\<close> that
  \<open>enroll_good\<close> and \<open>enroll_bad\<close> derive from it, for the proofs below.
\<close>

definition good_secret :: "string \<Rightarrow> time \<Rightarrow> registry \<Rightarrow> bool" where
  "good_secret secret now r \<longleftrightarrow>
     (case gm_get (rg_pending (sweep_pending now r)) secret of None \<Rightarrow> False | Some e \<Rightarrow> \<not> e < now)"

definition new_device :: "bytes \<Rightarrow> bytes \<Rightarrow> string \<Rightarrow> time \<Rightarrow> device_state" where
  "new_device tok idr name now =
     \<lparr>ds_Id = rand_token idr, ds_Name = name, ds_TokenSha256 = hash_token (rand_token tok),
      ds_EnrolledAt = now, ds_LastSeen = now, ds_Revoked = False\<rparr>"

lemma sweep_frame [simp]:
  "rg_path (sweep_pending now r) = rg_path r" "rg_order (sweep_pending now r) = rg_order r"
  "rg_passkeys (sweep_pending now r) = rg_passkeys r" "rg_file (sweep_pending now r) = rg_file r"
  by (simp_all add: sweep_pending_def)

lemma enroll_good:
  "good_secret secret now r \<Longrightarrow> enroll ok tok idr secret name now r =
    (let r1 = sweep_pending now r;
         s = save ok now (r1\<lparr>rg_pending := gm_del secret (rg_pending r1),
           rg_order := rg_order r @ [new_device tok idr name now]\<rparr>)
     in (if fst s then Inr (device_of (new_device tok idr name now), rand_token tok) else Inl Save_failed, snd s))"
  by (auto simp: good_secret_def enroll_def new_device_def Let_def split_beta split: option.splits)

lemma enroll_bad:
  "\<not> good_secret secret now r \<Longrightarrow> enroll ok tok idr secret name now r = (Inl Bad_secret, sweep_pending now r)"
  by (auto simp: good_secret_def enroll_def Let_def split: option.splits)

text \<open>
  The devices after a step: one appended by an enrollment, one refreshed or revoked, or all
  as they were.
\<close>

lemma step_devices:
  obtains (same) "rg_order (registry_step op r) = rg_order r"
    | (new) ok tok idr secret name now where "op = Op_enroll ok tok idr secret name now"
        "rg_order (registry_step op r) = rg_order r @ [new_device tok idr name now]"
    | (seen) i now where "i < length (rg_order r)"
        "rg_order (registry_step op r) = (rg_order r)[i := (rg_order r ! i)\<lparr>ds_LastSeen := now\<rparr>]"
    | (forgotten) ok token now i where "op = Op_forget ok token now"
        "lookup_hash (hash_token token) (rg_order r) = Some i"
        "rg_order (registry_step op r) = (rg_order r)[i := (rg_order r ! i)\<lparr>ds_Revoked := True\<rparr>]"
    | (revoked) ok did now i where "op = Op_revoke ok did now" "i < length (rg_order r)" "ds_Id (rg_order r ! i) = did"
        "rg_order (registry_step op r) = (rg_order r)[i := (rg_order r ! i)\<lparr>ds_Revoked := True\<rparr>]"
proof (cases op)
  case (Op_mint ord rnd now)
  then show ?thesis using same by (simp add: mint_enrollment_def sweep_pending_def Let_def)
next
  case (Op_enroll ok tok idr secret name now)
  then show ?thesis
    using same new by (cases "good_secret secret now r") (simp_all add: enroll_good enroll_bad Let_def)
next
  case (Op_authenticate ok token now)
  show ?thesis
  proof (cases "live_token r token")
    case True
    then show ?thesis
      by (rule live_tokenE) (rule seen, use Op_authenticate used_token in auto)
  qed (use Op_authenticate same dead_token in simp)
next
  case (Op_forget ok token now)
  show ?thesis
  proof (cases "live_token r token")
    case True
    then show ?thesis
      by (rule live_tokenE) (rule forgotten, use Op_forget used_token in auto)
  qed (use Op_forget same dead_token in simp)
next
  case (Op_revoke ok did now)
  show ?thesis
  proof (cases "find_index (\<lambda>d. ds_Id d = did \<and> \<not> ds_Revoked d) (rg_order r)")
    case None
    then show ?thesis using Op_revoke same by (simp add: revoke_def)
  next
    case (Some i)
    show ?thesis
      by (rule revoked) (use Op_revoke Some find_index_Some [OF Some] in \<open>auto simp: revoke_def\<close>)
  qed
next
  case (Op_add_passkey ok idr name cred now)
  then show ?thesis using same by (simp add: add_passkey_def Let_def split_beta)
next
  case (Op_set_count ok pid cnt now)
  then show ?thesis
    using same by (cases "find_index (\<lambda>p. ps_Id p = pid) (rg_passkeys r)") (simp_all add: set_sign_count_def)
next
  case (Op_remove_passkey ok pid now)
  then show ?thesis
    using same by (cases "find_index (\<lambda>p. ps_Id p = pid) (rg_passkeys r)")
      (simp_all add: remove_passkey_def Let_def split_beta)
qed

lemma step_later: "later_devices (rg_order r) (rg_order (registry_step op r))"
  by (cases op r rule: step_devices) (simp_all add: device_core_def)

text \<open>
  Further. Devices are never taken off the list and revocation is final. After any history the list
  of devices is the old one, with the same id, name, token hash and enrollment time at every
  position, then the new ones; and a device once revoked stays revoked, whoever is enrolled,
  authenticated or revoked later.
\<close>
theorem devices_only_grow: "later_devices (rg_order r) (rg_order (registry_run ops r))"
proof (rule registry_run_inv [where P = "\<lambda>r'. later_devices (rg_order r) (rg_order r')"])
  fix op and r' :: registry assume "later_devices (rg_order r) (rg_order r')"
  then show "later_devices (rg_order r) (rg_order (registry_step op r'))"
    by (rule later_trans) (rule step_later)
qed simp

section \<open>Tokens\<close>

text \<open>Whether an operation enrolls a device under the token's hash.\<close>

fun enrolls :: "string \<Rightarrow> registry_op \<Rightarrow> bool" where
  "enrolls token (Op_enroll ok tok idr secret name now) \<longleftrightarrow> hash_token (rand_token tok) = hash_token token"
| "enrolls token op \<longleftrightarrow> False"

lemma step_lookup:
  assumes "\<not> enrolls token op"
  shows "lookup_hash (hash_token token) (rg_order (registry_step op r)) = lookup_hash (hash_token token) (rg_order r)"
  by (cases op r rule: step_devices) (use assms in \<open>auto simp: new_device_def\<close>)

lemma step_dead:
  assumes "\<not> enrolls token op" and "\<not> live_token r token"
  shows "\<not> live_token (registry_step op r) token"
proof (cases "lookup_hash (hash_token token) (rg_order r)")
  case None
  with step_lookup [OF assms(1), of r] show ?thesis by (simp add: live_token_def)
next
  case (Some i)
  with assms(2) lookup_hash_Some [OF Some] have "i < length (rg_order r)" "ds_Revoked (rg_order r ! i)"
    by (simp_all add: live_token_def)
  with step_later [of r op] have "ds_Revoked (rg_order (registry_step op r) ! i)"
    by (simp add: later_devices_def)
  with Some step_lookup [OF assms(1), of r] show ?thesis by (simp add: live_token_def)
qed

lemma forget_dead: "\<not> live_token (forget ok token t r) token"
proof (cases "live_token r token")
  case True
  then show ?thesis by (rule live_tokenE) (simp add: live_token_def used_token)
qed (simp add: dead_token)

text \<open>
  C23. Signing out and revoking lock the token out for good. Right after Forget the token does
  not authenticate; and a token that does not authenticate, whether revoked or never known, does
  not after any history either, unless a device is enrolled in it under the same hash.
\<close>
theorem locked_out:
  assumes "list_all (\<lambda>op. \<not> enrolls token op) ops"
  shows "fst (authenticate ok token t (registry_run ops (forget ok' token t' r))) = None \<and>
    (fst (authenticate ok token t r) = None \<longrightarrow>
     fst (authenticate ok token t (registry_run ops r)) = None)"
proof -
  have stays: "\<not> live_token (registry_run ops r) token" if "\<not> live_token r token" for r
    using assms that step_dead
    by (intro registry_run_inv [where P = "\<lambda>r. \<not> live_token r token"]) (simp_all add: list_all_iff)
  have "\<not> live_token (forget ok' token t' r) token" by (rule forget_dead)
  with stays show ?thesis by (simp add: authenticate_live)
qed

text \<open>Whether an operation takes a device off: by its token's hash or by its id.\<close>

fun unseats :: "string \<Rightarrow> string \<Rightarrow> registry_op \<Rightarrow> bool" where
  "unseats token did (Op_forget ok other now) \<longleftrightarrow> hash_token other = hash_token token"
| "unseats token did (Op_revoke ok other now) \<longleftrightarrow> other = did"
| "unseats token did op \<longleftrightarrow> False"

definition holds_token :: "string \<Rightarrow> string \<Rightarrow> registry \<Rightarrow> bool" where
  "holds_token token did r \<longleftrightarrow>
     (case lookup_hash (hash_token token) (rg_order r) of
        None \<Rightarrow> False
      | Some i \<Rightarrow> \<not> ds_Revoked (rg_order r ! i) \<and> ds_Id (rg_order r ! i) = did)"

lemma holds_tokenE:
  assumes "holds_token token did r"
  obtains i where "lookup_hash (hash_token token) (rg_order r) = Some i" "i < length (rg_order r)"
    "\<not> ds_Revoked (rg_order r ! i)" "ds_Id (rg_order r ! i) = did" "ds_TokenSha256 (rg_order r ! i) = hash_token token"
  using assms lookup_hash_Some [of "hash_token token" "rg_order r"]
  by (auto simp: holds_token_def split: option.splits)

lemma step_holds:
  assumes "\<not> enrolls token op" and "\<not> unseats token did op" and "holds_token token did r"
  shows "holds_token token did (registry_step op r)"
proof -
  obtain i where i: "lookup_hash (hash_token token) (rg_order r) = Some i" "i < length (rg_order r)"
    "\<not> ds_Revoked (rg_order r ! i)" "ds_Id (rg_order r ! i) = did"
    "ds_TokenSha256 (rg_order r ! i) = hash_token token"
    using assms(3) by (rule holds_tokenE)
  have "\<not> ds_Revoked (rg_order (registry_step op r) ! i)"
  proof (cases op r rule: step_devices)
    case (forgotten ok other now j)
    from lookup_hash_Some [OF this(2)] assms(2) forgotten(1) i(5) have "j \<noteq> i" by auto
    with i forgotten show ?thesis by simp
  next
    case (revoked ok did' now j)
    with assms(2) i(4) have "j \<noteq> i" by auto
    with i revoked show ?thesis by simp
  next
    case (seen j now)
    with i show ?thesis by (simp add: nth_list_update)
  qed (use i in \<open>simp_all add: nth_append\<close>)
  moreover have "ds_Id (rg_order (registry_step op r) ! i) = did"
    using step_later [of r op] i(2,4) by (auto simp: later_devices_def device_core_def)
  ultimately show ?thesis using step_lookup [OF assms(1), of r] i(1) by (simp add: holds_token_def)
qed

lemma enroll_holds:
  assumes "enroll ok tok idr secret name now r = (Inr (d, token), r')"
  shows "holds_token token (dv_ID d) r'"
proof -
  have good: "good_secret secret now r" using assms(1) enroll_bad by (metis Inl_Inr_False prod.inject)
  have token: "token = rand_token tok" and id: "dv_ID d = ds_Id (new_device tok idr name now)"
    and order: "rg_order r' = rg_order r @ [new_device tok idr name now]"
    using assms(1) unfolding enroll_good [OF good]
    by (auto simp: Let_def device_of_def split: if_splits)
  show ?thesis
    by (simp add: holds_token_def order token id nth_append) (simp add: new_device_def)
qed

text \<open>
  C24. An enrolled device gets in. The token a successful enrollment returns authenticates, as the
  device that was enrolled, after any history in which nobody forgets a token of its hash,
  revokes its id or enrolls a device under the same hash.
\<close>
theorem enrolled_gets_in:
  assumes "enroll ok tok idr secret name now r = (Inr (d, token), r')"
    and "list_all (\<lambda>op. \<not> enrolls token op \<and> \<not> unseats token (dv_ID d) op) ops"
  shows "\<exists>d'. fst (authenticate ok' token t (registry_run ops r')) = Some d' \<and> dv_ID d' = dv_ID d"
proof -
  have "holds_token token (dv_ID d) r'" by (rule enroll_holds) (rule assms(1))
  then have "holds_token token (dv_ID d) (registry_run ops r')"
    using assms(2) step_holds
    by (intro registry_run_inv [where P = "holds_token token (dv_ID d)"]) (simp_all add: list_all_iff)
  then obtain i where "lookup_hash (hash_token token) (rg_order (registry_run ops r')) = Some i"
    "\<not> ds_Revoked (rg_order (registry_run ops r') ! i)" "ds_Id (rg_order (registry_run ops r') ! i) = dv_ID d"
    by (rule holds_tokenE)
  with used_token(1) [of token "registry_run ops r'" i ok' t] show ?thesis by (simp add: device_of_def)
qed

section \<open>Enrollment secrets\<close>

declare map_of_eq_Some_iff [simp del]

definition pending_ok :: "registry \<Rightarrow> bool" where
  "pending_ok r \<longleftrightarrow> gm_wf (rg_pending r) \<and> length (rg_pending r) \<le> maxPending"

lemma oldest_in:
  "fst (fold (\<lambda>(s, expires) (oldest, since). if since = 0 \<or> expires < since then (s, expires) else (oldest, since))
     xs acc) \<in> insert (fst acc) (set (gm_keys xs))" for xs :: "(string, time) gomap"
proof (induction xs arbitrary: acc)
  case (Cons x xs)
  from Cons.IH [of x] Cons.IH [of acc] show ?case by (cases x, cases acc) auto
qed simp

lemma oldest_pending_in:
  assumes "gm_wf m" and "m \<noteq> []"
  shows "oldest_pending ord m \<in> set (gm_keys m)"
proof -
  have set: "set (gm_pick ord m) = set m" using assms(1) by simp
  with assms(2) obtain x xs where xs: "gm_pick ord m = x # xs"
    by (cases "gm_pick ord m") auto
  have "set (gm_keys (x # xs)) = set (gm_keys m)" using set by (simp only: xs set_map)
  then show ?thesis
    using oldest_in [of xs x] by (cases x) (auto simp: oldest_pending_def xs)
qed

lemma evict_pending_spec:
  "gm_wf m \<Longrightarrow> length m \<le> n \<Longrightarrow>
    gm_wf (evict_pending n ord m) \<and> length (evict_pending n ord m) < maxPending
    \<and> (\<forall>k v. gm_get (evict_pending n ord m) k = Some v \<longrightarrow> gm_get m k = Some v)"
proof (induction n arbitrary: m)
  case (Suc n)
  show ?case
  proof (cases "maxPending \<le> length m")
    case True
    let ?k = "oldest_pending ord m"
    have "?k \<in> set (gm_keys m)" using True Suc.prems by (intro oldest_pending_in) auto
    then obtain v where "gm_get m ?k = Some v" by (cases "gm_get m ?k") (simp_all add: map_of_eq_None_iff)
    with Suc.prems have "length m = Suc (length (gm_del ?k m))" by (intro gm_length_del)
    with Suc.prems have "gm_wf (gm_del ?k m)" "length (gm_del ?k m) \<le> n" by simp_all
    note IH = Suc.IH [OF this]
    have "gm_get m k = Some v" if "gm_get (evict_pending n ord (gm_del ?k m)) k = Some v" for k v
    proof -
      from IH that have "gm_get (gm_del ?k m) k = Some v" by blast
      then show ?thesis by (simp split: if_splits)
    qed
    with IH True show ?thesis by simp
  qed (use Suc.prems in auto)
qed simp

lemma length_gm_set: "length (gm_set k v m) \<le> Suc (length m)"
  by (induction m) auto

lemma sweep_pending_ok: "pending_ok r \<Longrightarrow> pending_ok (sweep_pending now r)"
  by (auto simp: pending_ok_def sweep_pending_def intro: order_trans [OF length_filter_le])

lemma sweep_absent:
  "gm_get (rg_pending r) secret = None \<Longrightarrow> gm_get (rg_pending (sweep_pending now r)) secret = None"
  by (auto simp: sweep_pending_def map_of_eq_None_iff)

text \<open>Everything but a mint leaves the secrets alone or takes some away.\<close>

lemma step_pending:
  obtains (same) "rg_pending (registry_step op r) = rg_pending r"
    | (mint) ord rnd now where "op = Op_mint ord rnd now"
    | (sweep) now where "rg_pending (registry_step op r) = rg_pending (sweep_pending now r)"
    | (used) now secret where "rg_pending (registry_step op r) = gm_del secret (rg_pending (sweep_pending now r))"
proof (cases op)
  case (Op_enroll ok tok idr secret name now)
  then show ?thesis
    using sweep used by (cases "good_secret secret now r") (simp_all add: enroll_good enroll_bad Let_def)
next
  case (Op_authenticate ok token now)
  then show ?thesis
    using same by (cases "live_token r token")
      (auto simp: dead_token live_token_def authenticate_def Let_def split: option.splits)
next
  case (Op_forget ok token now)
  then show ?thesis
    using same by (cases "live_token r token")
      (auto simp: dead_token live_token_def forget_def Let_def split: option.splits)
next
  case (Op_revoke ok did now)
  then show ?thesis
    using same by (cases "find_index (\<lambda>d. ds_Id d = did \<and> \<not> ds_Revoked d) (rg_order r)") (simp_all add: revoke_def)
next
  case (Op_add_passkey ok idr name cred now)
  then show ?thesis using same by (simp add: add_passkey_def Let_def split_beta)
next
  case (Op_set_count ok pid cnt now)
  then show ?thesis
    using same by (cases "find_index (\<lambda>p. ps_Id p = pid) (rg_passkeys r)") (simp_all add: set_sign_count_def)
next
  case (Op_remove_passkey ok pid now)
  then show ?thesis
    using same by (cases "find_index (\<lambda>p. ps_Id p = pid) (rg_passkeys r)")
      (simp_all add: remove_passkey_def Let_def split_beta)
qed (use mint in simp)

lemma mint_pending:
  assumes "pending_ok r"
  shows "pending_ok (snd (mint_enrollment ord rnd now r))"
    and "gm_get (rg_pending (snd (mint_enrollment ord rnd now r))) (rand_token rnd) = Some (now + enrollTTL)"
    and "s \<noteq> rand_token rnd \<Longrightarrow> gm_get (rg_pending r) s = None \<Longrightarrow>
      gm_get (rg_pending (snd (mint_enrollment ord rnd now r))) s = None"
proof -
  let ?m = "rg_pending (sweep_pending now r)"
  have "gm_wf ?m" using sweep_pending_ok [OF assms] by (simp add: pending_ok_def)
  note ev = evict_pending_spec [OF this order_refl, of ord]
  then show "pending_ok (snd (mint_enrollment ord rnd now r))"
    using length_gm_set [of "rand_token rnd" "now + enrollTTL" "evict_pending (length ?m) ord ?m"]
    by (simp add: mint_enrollment_def pending_ok_def Let_def)
  show "gm_get (rg_pending (snd (mint_enrollment ord rnd now r))) (rand_token rnd) = Some (now + enrollTTL)"
    by (simp add: mint_enrollment_def Let_def)
  assume "s \<noteq> rand_token rnd" "gm_get (rg_pending r) s = None"
  with ev sweep_absent [of r s now] show "gm_get (rg_pending (snd (mint_enrollment ord rnd now r))) s = None"
    by (cases "gm_get (evict_pending (length ?m) ord ?m) s") (auto simp: mint_enrollment_def Let_def)
qed

lemma step_pending_ok:
  assumes "pending_ok r"
  shows "pending_ok (registry_step op r)"
proof (cases op r rule: step_pending)
  case same
  with assms show ?thesis by (simp add: pending_ok_def)
next
  case (mint ord rnd now)
  with mint_pending(1) [OF assms] show ?thesis by simp
next
  case (sweep now)
  with sweep_pending_ok [OF assms, of now] show ?thesis by (simp add: pending_ok_def)
next
  case (used now secret)
  with sweep_pending_ok [OF assms, of now] show ?thesis
    by (auto simp: pending_ok_def AList.delete_eq intro: order_trans [OF length_filter_le])
qed

fun mints :: "string \<Rightarrow> registry_op \<Rightarrow> bool" where
  "mints secret (Op_mint ord rnd now) \<longleftrightarrow> rand_token rnd = secret"
| "mints secret op \<longleftrightarrow> False"

lemma step_absent:
  assumes "pending_ok r" and "\<not> mints secret op" and "gm_get (rg_pending r) secret = None"
  shows "gm_get (rg_pending (registry_step op r)) secret = None"
  using assms sweep_absent [OF assms(3)] mint_pending(3) [OF assms(1)]
  by (cases op r rule: step_pending) auto

text \<open>A secret can only keep the expiry it was minted with.\<close>

lemma step_expiry:
  assumes "pending_ok r" and "\<not> mints secret op" and "gm_get (rg_pending r) secret \<in> {None, Some e}"
  shows "gm_get (rg_pending (registry_step op r)) secret \<in> {None, Some e}"
proof -
  have sweep: "gm_get (rg_pending (sweep_pending now r)) secret \<in> {None, Some e}" for now
    using assms(1,3) gm_get_filter [of "rg_pending r" "\<lambda>s expires. \<not> expires < now" secret]
    by (auto simp: sweep_pending_def pending_ok_def split: option.splits)
  show ?thesis
  proof (cases op r rule: step_pending)
    case (mint ord rnd now)
    let ?m = "rg_pending (sweep_pending now r)"
    have "gm_wf ?m" using sweep_pending_ok [OF assms(1)] by (simp add: pending_ok_def)
    from evict_pending_spec [OF this order_refl, of ord] sweep [of now]
    have "gm_get (evict_pending (length ?m) ord ?m) secret \<in> {None, Some e}"
      by (cases "gm_get (evict_pending (length ?m) ord ?m) secret") auto
    with mint assms(2) show ?thesis by (simp add: mint_enrollment_def Let_def)
  qed (use assms(3) sweep in simp_all)
qed

lemma enroll_spends: "pending_ok r \<Longrightarrow> gm_get (rg_pending (snd (enroll ok tok idr secret name now r))) secret = None"
  using gm_get_filter [of "rg_pending r" "\<lambda>s expires. \<not> expires < now" secret]
  by (cases "good_secret secret now r")
    (auto simp: enroll_good enroll_bad Let_def good_secret_def sweep_pending_def pending_ok_def split: option.splits)

lemma enroll_answers:
  "fst (enroll ok tok idr secret name now r) = Inl Bad_secret \<longleftrightarrow> \<not> good_secret secret now r"
  "good_secret secret now r \<Longrightarrow> \<exists>d. fst (enroll True tok idr secret name now r) = Inr (d, rand_token tok)"
  by (cases "good_secret secret now r"; auto simp: enroll_good enroll_bad Let_def save_def split: if_splits)+

lemma good_secret_expiry:
  "pending_ok r \<Longrightarrow> good_secret secret now r \<longleftrightarrow> (\<exists>e. gm_get (rg_pending r) secret = Some e \<and> now \<le> e)"
  using gm_get_filter [of "rg_pending r" "\<lambda>s expires. \<not> expires < now" secret]
  by (auto simp: good_secret_def sweep_pending_def pending_ok_def split: option.splits)

lemma run_absent:
  assumes "pending_ok r" and "list_all (\<lambda>op. \<not> mints secret op) ops" and "gm_get (rg_pending r) secret = None"
  shows "fst (enroll ok tok idr secret name now (registry_run ops r)) = Inl Bad_secret"
proof -
  have "pending_ok (registry_run ops r) \<and> gm_get (rg_pending (registry_run ops r)) secret = None"
    using assms by (intro registry_run_inv [where P = "\<lambda>r. pending_ok r \<and> gm_get (rg_pending r) secret = None"])
      (simp_all add: list_all_iff step_pending_ok step_absent)
  then show ?thesis by (simp add: enroll_answers good_secret_expiry)
qed

text \<open>
  C22. An enrollment secret works once and for five minutes, and at most eight are live. After any
  history at most eight secrets are pending. \<open>Enroll\<close> takes a secret that was just minted at \<open>t\<close>
  exactly until five minutes later (and gives a device when the registry can be saved), and after that
  time refuses it whatever has happened since, unless the same secret was minted again. It refuses a secret that
  was never minted. And once a secret has been presented, whether it was taken or not and
  whether or not the registry could be saved, no history makes it work again but one that mints it.
\<close>
theorem secret_once:
  assumes "pending_ok r"
  shows "length (rg_pending (registry_run ops r)) \<le> 8
    \<and> (fst (enroll ok tok idr (rand_token rnd) name now (snd (mint_enrollment ord rnd t r))) = Inl Bad_secret \<longleftrightarrow> t + 5 * Minute < now)
    \<and> (now \<le> t + 5 * Minute \<longrightarrow>
        (\<exists>d. fst (enroll True tok idr (rand_token rnd) name now (snd (mint_enrollment ord rnd t r))) = Inr (d, rand_token tok)))
    \<and> (list_all (\<lambda>op. \<not> mints (rand_token rnd) op) ops \<and> t + 5 * Minute < now \<longrightarrow>
        fst (enroll ok tok idr (rand_token rnd) name now (registry_run ops (snd (mint_enrollment ord rnd t r)))) = Inl Bad_secret)
    \<and> (list_all (\<lambda>op. \<not> mints secret op) ops \<longrightarrow>
        (gm_get (rg_pending r) secret = None \<longrightarrow> fst (enroll ok tok idr secret name now (registry_run ops r)) = Inl Bad_secret)
        \<and> fst (enroll ok2 tok2 idr2 secret name2 now2
            (registry_run ops (snd (enroll ok tok idr secret name now r)))) = Inl Bad_secret)"
proof (intro conjI impI)
  have "pending_ok (registry_run ops r)"
    using assms by (intro registry_run_inv [where P = pending_ok] step_pending_ok)
  then show "length (rg_pending (registry_run ops r)) \<le> 8" by (simp add: pending_ok_def)
  let ?r1 = "snd (mint_enrollment ord rnd t r)"
  note mint = mint_pending(1,2) [OF assms, of ord rnd t]
  show "fst (enroll ok tok idr (rand_token rnd) name now ?r1) = Inl Bad_secret \<longleftrightarrow> t + 5 * Minute < now"
    using mint by (simp add: enroll_answers good_secret_expiry not_le)
  show "\<exists>d. fst (enroll True tok idr (rand_token rnd) name now ?r1) = Inr (d, rand_token tok)" if "now \<le> t + 5 * Minute"
    using mint that by (intro enroll_answers) (simp add: good_secret_expiry)
  assume late: "list_all (\<lambda>op. \<not> mints (rand_token rnd) op) ops \<and> t + 5 * Minute < now"
  let ?P = "\<lambda>r. pending_ok r \<and> gm_get (rg_pending r) (rand_token rnd) \<in> {None, Some (t + enrollTTL)}"
  have "?P (registry_run ops ?r1)"
  proof (rule registry_run_inv [where P = ?P])
    show "?P (registry_step op r)" if "op \<in> set ops" "?P r" for op r
      using that late step_pending_ok [of r op] step_expiry [of r "rand_token rnd" op] by (simp only: list_all_iff) blast
  qed (use mint in simp)
  with late show "fst (enroll ok tok idr (rand_token rnd) name now (registry_run ops ?r1)) = Inl Bad_secret"
    by (auto simp: enroll_answers good_secret_expiry)
next
  assume "list_all (\<lambda>op. \<not> mints secret op) ops"
  note absent = run_absent [OF _ this]
  show "fst (enroll ok tok idr secret name now (registry_run ops r)) = Inl Bad_secret" if "gm_get (rg_pending r) secret = None"
    using absent assms that by blast
  show "fst (enroll ok2 tok2 idr2 secret name2 now2 (registry_run ops (snd (enroll ok tok idr secret name now r)))) = Inl Bad_secret"
    using step_pending_ok [OF assms, of "Op_enroll ok tok idr secret name now"] enroll_spends [OF assms]
    by (intro absent) simp_all
qed

section \<open>The admin's door\<close>

lemma remove_nth_set: "set (take i xs @ drop (Suc i) xs) \<subseteq> set xs"
  by (auto dest: in_set_takeD in_set_dropD)

lemma remove_nth_distinct: "distinct (map f xs) \<Longrightarrow> distinct (map f (take i xs @ drop (Suc i) xs))"
proof -
  assume d: "distinct (map f xs)"
  have "map f (take i xs @ drop (Suc i) xs) = take i (map f xs) @ drop (Suc i) (map f xs)"
    by (simp add: take_map drop_map)
  moreover have "set (take i (map f xs)) \<inter> set (drop (Suc i) (map f xs)) = {}"
    using d by (intro set_take_disj_set_drop_if_distinct) simp_all
  ultimately show ?thesis using d by simp
qed

text \<open>The passkeys after a step.\<close>

lemma step_passkeys:
  obtains (same) "rg_passkeys (registry_step op r) = rg_passkeys r"
    | (new) ok idr name cred now where "op = Op_add_passkey ok idr name cred now"
        "cr_ID cred \<notin> ps_CredentialId ` set (rg_passkeys r)"
        "rg_passkeys (registry_step op r) = rg_passkeys r @ [\<lparr>ps_Id = rand_token idr, ps_Name = name,
          ps_CredentialId = cr_ID cred, ps_PublicKey = cr_COSE cred, ps_SignCount = cr_SignCount cred,
          ps_RegisteredAt = now\<rparr>]"
    | (counted) i cnt where "i < length (rg_passkeys r)"
        "rg_passkeys (registry_step op r) = (rg_passkeys r)[i := (rg_passkeys r ! i)\<lparr>ps_SignCount := cnt\<rparr>]"
    | (removed) i where "i < length (rg_passkeys r)" "length (rg_passkeys r) \<noteq> 1"
        "rg_passkeys (registry_step op r) = take i (rg_passkeys r) @ drop (Suc i) (rg_passkeys r)"
proof (cases op)
  case (Op_mint ord rnd now)
  then show ?thesis using same by (simp add: mint_enrollment_def Let_def)
next
  case (Op_enroll ok tok idr secret name now)
  then show ?thesis
    using same by (cases "good_secret secret now r") (simp_all add: enroll_good enroll_bad Let_def)
next
  case (Op_authenticate ok token now)
  then show ?thesis
    using same by (cases "live_token r token")
      (auto simp: dead_token live_token_def authenticate_def Let_def split: option.splits)
next
  case (Op_forget ok token now)
  then show ?thesis
    using same by (cases "live_token r token")
      (auto simp: dead_token live_token_def forget_def Let_def split: option.splits)
next
  case (Op_revoke ok did now)
  then show ?thesis
    using same by (cases "find_index (\<lambda>d. ds_Id d = did \<and> \<not> ds_Revoked d) (rg_order r)") (simp_all add: revoke_def)
next
  case (Op_add_passkey ok idr name cred now)
  show ?thesis
  proof (cases "\<exists>p \<in> set (rg_passkeys r). ps_CredentialId p = cr_ID cred")
    case True
    then show ?thesis using Op_add_passkey same by (simp add: add_passkey_def)
  next
    case False
    then show ?thesis
      by (intro new [OF Op_add_passkey]) (use Op_add_passkey in \<open>auto simp: add_passkey_def Let_def split_beta\<close>)
  qed
next
  case (Op_set_count ok pid cnt now)
  show ?thesis
  proof (cases "find_index (\<lambda>p. ps_Id p = pid) (rg_passkeys r)")
    case None
    then show ?thesis using Op_set_count same by (simp add: set_sign_count_def)
  next
    case (Some i)
    show ?thesis
      by (rule counted) (use Op_set_count Some find_index_Some [OF Some] in \<open>auto simp: set_sign_count_def\<close>)
  qed
next
  case (Op_remove_passkey ok pid now)
  show ?thesis
  proof (cases "find_index (\<lambda>p. ps_Id p = pid) (rg_passkeys r)")
    case None
    then show ?thesis using Op_remove_passkey same by (simp add: remove_passkey_def)
  next
    case (Some i)
    show ?thesis
    proof (cases "length (rg_passkeys r) = 1")
      case True
      then show ?thesis using Op_remove_passkey Some same by (simp add: remove_passkey_def)
    next
      case False
      then show ?thesis
        by (intro removed [of i]) (use Op_remove_passkey Some find_index_Some [OF Some] in
          \<open>auto simp: remove_passkey_def Let_def split_beta\<close>)
    qed
  qed
qed

definition passkeys_ok :: "registry \<Rightarrow> bool" where
  "passkeys_ok r \<longleftrightarrow> distinct (map ps_CredentialId (rg_passkeys r))"

lemma step_passkeys_ok:
  assumes "passkeys_ok r"
  shows "passkeys_ok (registry_step op r) \<and> (has_passkeys r \<longrightarrow> has_passkeys (registry_step op r))"
proof (cases op r rule: step_passkeys)
  case (removed i)
  with assms remove_nth_distinct [of ps_CredentialId "rg_passkeys r" i] show ?thesis
    by (auto simp: passkeys_ok_def has_passkeys_def)
next
  case (counted i cnt)
  have "map ps_CredentialId ((rg_passkeys r)[i := (rg_passkeys r ! i)\<lparr>ps_SignCount := cnt\<rparr>])
      = map ps_CredentialId (rg_passkeys r)"
    by (rule map_update_same) simp
  with assms counted show ?thesis by (simp add: passkeys_ok_def has_passkeys_def)
qed (use assms in \<open>auto simp: passkeys_ok_def has_passkeys_def\<close>)

text \<open>
  C25. The admin's door closes once and stays closed. No history of calls, whatever writes fail,
  takes the registry from having a passkey to having none, so the bootstrap registration never
  reopens; and no credential is ever registered twice.
\<close>
theorem door_stays_closed:
  assumes "passkeys_ok r"
  shows "passkeys_ok (registry_run ops r) \<and> (has_passkeys r \<longrightarrow> has_passkeys (registry_run ops r))"
proof (rule registry_run_inv [where P = "\<lambda>r'. passkeys_ok r' \<and> (has_passkeys r \<longrightarrow> has_passkeys r')"])
  fix op and r' :: registry
  assume "passkeys_ok r' \<and> (has_passkeys r \<longrightarrow> has_passkeys r')"
  with step_passkeys_ok [of r' op]
  show "passkeys_ok (registry_step op r') \<and> (has_passkeys r \<longrightarrow> has_passkeys (registry_step op r'))" by blast
qed (use assms in simp)

section \<open>Restarts\<close>

definition unseen :: "device_state \<Rightarrow> device_state" where
  "unseen d = d\<lparr>ds_LastSeen := 0\<rparr>"

text \<open>The file holds the passkeys and, but for when they were last seen, the devices.\<close>

definition synced :: "registry \<Rightarrow> bool" where
  "synced r \<longleftrightarrow> rg_path r \<noteq> [] \<and> list_all (\<lambda>p. passkey_of p \<noteq> None) (rg_passkeys r) \<and>
     (case rg_file r of
        None \<Rightarrow> rg_order r = [] \<and> rg_passkeys r = []
      | Some (ds, ps) \<Rightarrow> ps = rg_passkeys r \<and> map unseen ds = map unseen (rg_order r))"

text \<open>The writes succeed, and the credentials added are ones a registration verified.\<close>

fun writes_ok :: "registry_op \<Rightarrow> bool" where
  "writes_ok (Op_mint ord rnd now) \<longleftrightarrow> True"
| "writes_ok (Op_enroll ok tok idr secret name now) \<longleftrightarrow> ok"
| "writes_ok (Op_authenticate ok token now) \<longleftrightarrow> ok"
| "writes_ok (Op_forget ok token now) \<longleftrightarrow> ok"
| "writes_ok (Op_revoke ok did now) \<longleftrightarrow> ok"
| "writes_ok (Op_add_passkey ok idr name cred now) \<longleftrightarrow> ok
     \<and> parse_cose_key (cr_COSE cred) = Inr (cr_Alg cred, cr_Key cred)"
| "writes_ok (Op_set_count ok pid cnt now) \<longleftrightarrow> ok"
| "writes_ok (Op_remove_passkey ok pid now) \<longleftrightarrow> ok"

lemma save_synced:
  "rg_path r \<noteq> [] \<Longrightarrow> list_all (\<lambda>p. passkey_of p \<noteq> None) (rg_passkeys r) \<Longrightarrow> synced (snd (save True now r))"
  by (simp add: save_def synced_def Let_def)

lemma synced_cong:
  "synced r \<Longrightarrow> rg_path r' = rg_path r \<Longrightarrow> rg_passkeys r' = rg_passkeys r \<Longrightarrow> rg_file r' = rg_file r \<Longrightarrow>
    map unseen (rg_order r') = map unseen (rg_order r) \<Longrightarrow> synced r'"
  by (auto simp: synced_def split: option.splits)

lemma passkey_of_count [simp]:
  "passkey_of (p\<lparr>ps_SignCount := cnt\<rparr>) = None \<longleftrightarrow> passkey_of p = None"
  by (simp add: passkey_of_def split: sum.split)

lemma list_all_update:
  "list_all P xs \<Longrightarrow> P x \<Longrightarrow> list_all P (xs[i := x])"
  by (auto simp: list_all_iff dest: subsetD [OF set_update_subset_insert])

lemma step_synced:
  assumes "writes_ok op" and "synced r"
  shows "synced (registry_step op r)"
proof -
  have path: "rg_path r \<noteq> []" and keys: "list_all (\<lambda>p. passkey_of p \<noteq> None) (rg_passkeys r)"
    using assms(2) by (simp_all add: synced_def)
  show ?thesis
  proof (cases op)
    case (Op_mint ord rnd now)
    then show ?thesis
      by (intro synced_cong [OF assms(2)]) (simp_all add: mint_enrollment_def Let_def)
  next
    case (Op_enroll ok tok idr secret name now)
    show ?thesis
    proof (cases "good_secret secret now r")
      case True
      then show ?thesis
        using Op_enroll assms(1) path keys by (simp add: enroll_good Let_def save_synced)
    next
      case False
      then show ?thesis
        using Op_enroll by (intro synced_cong [OF assms(2)]) (simp_all add: enroll_bad)
    qed
  next
    case (Op_authenticate ok token now)
    show ?thesis
    proof (cases "live_token r token")
      case True
      then obtain i where i: "lookup_hash (hash_token token) (rg_order r) = Some i" "\<not> ds_Revoked (rg_order r ! i)"
        by (rule live_tokenE)
      let ?r1 = "r\<lparr>rg_order := (rg_order r)[i := (rg_order r ! i)\<lparr>ds_LastSeen := now\<rparr>]\<rparr>"
      have "map unseen (rg_order ?r1) = map unseen (rg_order r)"
        by (simp add: map_update_same unseen_def)
      then have "synced ?r1" by (intro synced_cong [OF assms(2)]) simp_all
      then show ?thesis
        using Op_authenticate assms(1) i path keys by (simp add: authenticate_def Let_def save_synced)
    qed (use Op_authenticate assms(2) dead_token in simp)
  next
    case (Op_forget ok token now)
    show ?thesis
    proof (cases "live_token r token")
      case True
      then obtain i where i: "lookup_hash (hash_token token) (rg_order r) = Some i" "\<not> ds_Revoked (rg_order r ! i)"
        by (rule live_tokenE)
      then show ?thesis
        using Op_forget assms(1) path keys by (simp add: forget_def save_synced)
    qed (use Op_forget assms(2) dead_token in simp)
  next
    case (Op_revoke ok did now)
    then show ?thesis
      using assms path keys by (cases "find_index (\<lambda>d. ds_Id d = did \<and> \<not> ds_Revoked d) (rg_order r)")
        (simp_all add: revoke_def save_synced)
  next
    case (Op_add_passkey ok idr name cred now)
    then show ?thesis
      using assms path keys by (auto simp: add_passkey_def Let_def split_beta passkey_of_def intro!: save_synced)
  next
    case (Op_set_count ok pid cnt now)
    show ?thesis
    proof (cases "find_index (\<lambda>p. ps_Id p = pid) (rg_passkeys r)")
      case None
      then show ?thesis using Op_set_count assms(2) by (simp add: set_sign_count_def)
    next
      case (Some i)
      then have "passkey_of (rg_passkeys r ! i) \<noteq> None"
        using keys find_index_Some [OF Some] by (simp add: list_all_length)
      then have "list_all (\<lambda>p. passkey_of p \<noteq> None)
          ((rg_passkeys r)[i := (rg_passkeys r ! i)\<lparr>ps_SignCount := cnt\<rparr>])"
        by (intro list_all_update [OF keys]) (simp del: not_None_eq)
      with path have "synced (snd (save True now
          (r\<lparr>rg_passkeys := (rg_passkeys r)[i := (rg_passkeys r ! i)\<lparr>ps_SignCount := cnt\<rparr>]\<rparr>)))"
        by (intro save_synced) simp_all
      then show ?thesis using Op_set_count assms(1) Some by (simp add: set_sign_count_def)
    qed
  next
    case (Op_remove_passkey ok pid now)
    have "list_all (\<lambda>p. passkey_of p \<noteq> None) (take i (rg_passkeys r) @ drop (Suc i) (rg_passkeys r))" for i
      using keys remove_nth_set [of i "rg_passkeys r"] by (auto simp: list_all_iff)
    then show ?thesis
      using Op_remove_passkey assms path
      by (cases "find_index (\<lambda>p. ps_Id p = pid) (rg_passkeys r)")
        (auto simp: remove_passkey_def Let_def split_beta intro!: save_synced)
  qed
qed

text \<open>
  Further. A restart forgets nothing that matters. If the writes of a history succeeded, then
  reloading the file gives a registry with the same passkeys and the same devices, revocations
  included, up to when each was last seen.
\<close>
theorem reload_same:
  assumes "synced r" and "list_all writes_ok ops" and "rg_file (registry_run ops r) = Some (ds, ps)"
  shows "\<exists>r'. new_registry (rg_path (registry_run ops r)) (State ds ps) = Some r'
    \<and> rg_passkeys r' = rg_passkeys (registry_run ops r)
    \<and> map unseen (rg_order r') = map unseen (rg_order (registry_run ops r))
    \<and> armed r' = armed (registry_run ops r)"
proof -
  have sync: "synced (registry_run ops r)"
    using assms(1,2) step_synced by (intro registry_run_inv [where P = synced]) (simp_all add: list_all_iff)
  let ?r = "registry_run ops r"
  have sync: "rg_path ?r \<noteq> []" "list_all (\<lambda>p. passkey_of p \<noteq> None) ps" "ps = rg_passkeys ?r"
    and seen: "map unseen ds = map unseen (rg_order ?r)"
    using sync assms(3) by (simp_all add: synced_def)
  have "ds_Revoked \<circ> unseen = ds_Revoked" by (auto simp: unseen_def)
  then have "map ds_Revoked ds = map ds_Revoked (rg_order ?r)"
    using arg_cong [OF seen, of "map ds_Revoked"] by simp
  then have "ds_Revoked ` set ds = ds_Revoked ` set (rg_order ?r)" by (metis set_map)
  then have "(\<exists>d \<in> set ds. \<not> ds_Revoked d) = (\<exists>d \<in> set (rg_order ?r). \<not> ds_Revoked d)"
    by (metis (no_types, lifting) image_iff)
  with sync seen show ?thesis
    by (intro exI [of _ "\<lparr>rg_path = rg_path ?r, rg_order = ds, rg_passkeys = ps, rg_pending = [],
      rg_saved = 0, rg_file = Some (ds, ps)\<rparr>"]) (simp add: new_registry_def armed_def)
qed

text \<open>
  Authentication is enforced while some device is not revoked, so revoking the last one opens
  the API again to every caller.
\<close>

lemma revoking_last_unarms:
  assumes "rg_order r = [d]" and "\<not> ds_Revoked d"
  shows "armed r \<and> \<not> armed (snd (revoke ok (ds_Id d) now r))"
  using assms by (simp add: armed_def revoke_def)

section \<open>Witnesses\<close>

text \<open>A registry with one enrolled device; the token's hash is never computed.\<close>

definition demo_registry :: registry where
  "demo_registry = \<lparr>rg_path = ''f'', rg_order = [], rg_passkeys = [],
     rg_pending = [(''s1'', 600)], rg_saved = 0, rg_file = None\<rparr>"

lemma demo_enroll:
  "\<exists>d r. enroll True ''t'' ''i'' ''s1'' ''phone'' 500 demo_registry = (Inr (d, rand_token ''t''), r)
    \<and> rg_order r = [new_device ''t'' ''i'' ''phone'' 500]"
proof -
  have "good_secret ''s1'' 500 demo_registry"
    by (simp add: good_secret_def sweep_pending_def demo_registry_def)
  from enroll_good [OF this, of True "''t''" "''i''" "''phone''"] show ?thesis
    by (simp add: Let_def save_def demo_registry_def sweep_pending_def)
qed

theorem locked_out_witness:
  "\<exists>r :: registry. armed r \<and> fst (authenticate True ''x'' 9 (registry_run [Op_mint [] ''m'' 3] (forget True ''x'' 2 r))) = None"
proof -
  obtain d and r :: registry where "rg_order r = [new_device ''t'' ''i'' ''phone'' 500]"
    using demo_enroll by blast
  then have "armed r" by (simp add: armed_def new_device_def)
  moreover have "list_all (\<lambda>op. \<not> enrolls ''x'' op) [Op_mint [] ''m'' 3]" by simp
  note locked_out [OF this, of True 9 True 2 r]
  ultimately show ?thesis by blast
qed

theorem enrolled_gets_in_witness:
  "\<exists>(r :: registry) d. fst (authenticate True (rand_token ''t'') 900 (registry_run [Op_mint [] ''m'' 800] r)) = Some d"
proof -
  obtain d and r :: registry
    where r: "enroll True ''t'' ''i'' ''s1'' ''phone'' 500 demo_registry = (Inr (d, rand_token ''t''), r)"
    using demo_enroll by blast
  have "list_all (\<lambda>op. \<not> enrolls (rand_token ''t'') op \<and> \<not> unseats (rand_token ''t'') (dv_ID d) op)
      [Op_mint [] ''m'' 800]" by simp
  from enrolled_gets_in [OF r this, of True 900] show ?thesis by blast
qed

theorem secret_once_witness:
  "pending_ok demo_registry
    \<and> fst (enroll True ''t'' ''i'' ''s1'' ''phone'' 500 demo_registry) \<noteq> Inl Bad_secret
    \<and> fst (enroll True ''u'' ''j'' ''s1'' ''other'' 501
        (registry_run [] (snd (enroll True ''t'' ''i'' ''s1'' ''phone'' 500 demo_registry)))) = Inl Bad_secret"
proof -
  have ok: "pending_ok demo_registry" by (simp add: pending_ok_def demo_registry_def)
  have "good_secret ''s1'' 500 demo_registry"
    by (simp add: good_secret_def sweep_pending_def demo_registry_def)
  moreover have "list_all (\<lambda>op. \<not> mints ''s1'' op) []" by simp
  ultimately show ?thesis
    using secret_once [OF ok, where ops = "[]" and secret = "''s1''" and now = 500] ok enroll_answers(1) by blast
qed

definition key_state :: "string \<Rightarrow> passkey_state" where
  "key_state n = \<lparr>ps_Id = n, ps_Name = n, ps_CredentialId = n, ps_PublicKey = [], ps_SignCount = 0, ps_RegisteredAt = 1\<rparr>"

theorem door_stays_closed_witness:
  "has_passkeys (registry_run [Op_remove_passkey True ''a'' 5, Op_remove_passkey True ''b'' 6]
    (demo_registry\<lparr>rg_passkeys := [key_state ''a'', key_state ''b'']\<rparr>))"
proof -
  let ?r = "demo_registry\<lparr>rg_passkeys := [key_state ''a'', key_state ''b'']\<rparr>"
  have "passkeys_ok ?r" "has_passkeys ?r"
    by (simp_all add: passkeys_ok_def has_passkeys_def key_state_def)
  with door_stays_closed [OF this(1)] show ?thesis by blast
qed

theorem reload_same_witness:
  "\<exists>(r :: registry) ds ps. rg_file r = Some (ds, ps) \<and> rg_order r \<noteq> [] \<and> new_registry (rg_path r) (State ds ps) \<noteq> None"
proof -
  let ?ops = "[Op_enroll True ''t'' ''i'' ''s1'' ''phone'' 500]"
  let ?r = "registry_run ?ops demo_registry"
  have "good_secret ''s1'' 500 demo_registry"
    by (simp add: good_secret_def sweep_pending_def demo_registry_def)
  then have fl: "rg_file ?r = Some (rg_order ?r, rg_passkeys ?r)" "rg_order ?r \<noteq> []"
    by (simp_all add: enroll_good Let_def save_def demo_registry_def sweep_pending_def)
  have "synced demo_registry" "list_all writes_ok ?ops"
    by (simp_all add: synced_def demo_registry_def)
  from reload_same [OF this fl(1)] fl show ?thesis by blast
qed

end
