(* ===== verification/Auth.thy ===== *)
theory Auth
  imports Devices
begin

text \<open>
  Authentication of gRPC calls (\<open>internal/server/auth.go\<close>): the two methods that need no
  credential, the bearer token of every other one, and the calls a device makes about its own
  registration.

  A call is its full method name and its incoming metadata: the values of \<open>authorization\<close>, or
  None when the context carries no metadata.  The registry is None in replay mode.
\<close>

type_synonym metadata = "string list option"

datatype rpc_code = Unauthenticated | Unavailable | InvalidArgument | PermissionDenied | NotFound
  | FailedPrecondition | ResourceExhausted | Internal

abbreviation (input) ProtocolVersion :: nat where "ProtocolVersion \<equiv> 1"

definition hello :: "nat list \<times> string list" where
  "hello = ([ProtocolVersion], [''bearer''])"

definition unauthenticated :: "string \<Rightarrow> bool" where
  "unauthenticated m \<longleftrightarrow>
     m \<in> set [''/curtilage.v1.CurtilageService/Hello'', ''/curtilage.v1.CurtilageService/Enroll'']"

text \<open>bearer: the first value of the right form with a token in it.\<close>

fun first_bearer :: "string list \<Rightarrow> string option" where
  "first_bearer [] = None"
| "first_bearer (v # vs) =
     (case cut_prefix v ''Bearer '' of
        Some t \<Rightarrow> if t \<noteq> [] then Some t else first_bearer vs
      | None \<Rightarrow> first_bearer vs)"

definition bearer :: "metadata \<Rightarrow> string option" where
  "bearer md = (case md of None \<Rightarrow> None | Some vs \<Rightarrow> first_bearer vs)"

text \<open>authorize: the refusal, or None; and the registry, in which the device may have been seen.\<close>

definition authorize :: "bool \<Rightarrow> time \<Rightarrow> metadata \<Rightarrow> string \<Rightarrow> registry option
    \<Rightarrow> rpc_code option \<times> registry option" where
  "authorize ok now md m reg =
     (case reg of
        None \<Rightarrow> (None, reg)
      | Some r \<Rightarrow>
          if \<not> armed r \<or> unauthenticated m then (None, reg)
          else (case bearer md of
            None \<Rightarrow> (Some Unauthenticated, reg)
          | Some token \<Rightarrow>
              (case authenticate ok token now r of
                 (None, r') \<Rightarrow> (Some Unauthenticated, Some r')
               | (Some d, r') \<Rightarrow> (None, Some r'))))"

text \<open>The interceptors: the handler runs on the registry authorize leaves, or not at all.\<close>

definition unary_auth :: "bool \<Rightarrow> time \<Rightarrow> metadata \<Rightarrow> string
    \<Rightarrow> (registry option \<Rightarrow> (rpc_code + 'a) \<times> registry option)
    \<Rightarrow> registry option \<Rightarrow> (rpc_code + 'a) \<times> registry option" where
  "unary_auth ok now md m handler reg =
     (case authorize ok now md m reg of
        (Some code, reg') \<Rightarrow> (Inl code, reg')
      | (None, reg') \<Rightarrow> handler reg')"

text \<open>The Enroll call, and the Forget call.\<close>

definition rpc_enroll :: "bool \<Rightarrow> bytes \<Rightarrow> bytes \<Rightarrow> time \<Rightarrow> string \<Rightarrow> string \<Rightarrow> registry option
    \<Rightarrow> (rpc_code + string \<times> string) \<times> registry option" where
  "rpc_enroll ok tok idr now secret device_name reg =
     (case reg of
        None \<Rightarrow> (Inl Unavailable, reg)
      | Some r \<Rightarrow>
          let name = trim_space device_name in
          if name = [] \<or> 64 < length name then (Inl InvalidArgument, reg)
          else (case enroll ok tok idr secret name now r of
            (Inl e, r') \<Rightarrow> (Inl PermissionDenied, Some r')
          | (Inr (d, token), r') \<Rightarrow> (Inr (token, dv_ID d), Some r')))"

definition rpc_forget :: "bool \<Rightarrow> time \<Rightarrow> metadata \<Rightarrow> string \<Rightarrow> registry option
    \<Rightarrow> (rpc_code + unit) \<times> registry option" where
  "rpc_forget ok now md token_sha256 reg =
     (case reg of
        None \<Rightarrow> (Inr (), reg)
      | Some r \<Rightarrow>
          (case bearer md of
             None \<Rightarrow> (Inr (), reg)
           | Some token \<Rightarrow>
               if token_sha256 \<noteq> hash_token token then (Inl InvalidArgument, reg)
               else (Inr (), Some (forget ok token now r))))"

section \<open>Who gets in\<close>

lemma authenticate_live':
  "live_token r token \<Longrightarrow> \<exists>d r'. authenticate ok token now r = (Some d, r')"
  using authenticate_live [of ok token now r] by (cases "authenticate ok token now r") auto

text \<open>
  C21. Who gets in. A call is let through exactly when there is no registry, when no unrevoked
  device exists, when it is Hello or Enroll, or when its bearer token is the token of an
  unrevoked device; a call that is refused never reaches its handler and leaves the registry as
  it was.
\<close>
theorem authorize_exact:
  "(fst (authorize ok now md m (Some r)) = None \<longleftrightarrow>
      \<not> armed r \<or> unauthenticated m \<or> (\<exists>token. bearer md = Some token \<and> live_token r token)) \<and>
   fst (authorize ok now md m None) = None \<and>
   (fst (authorize ok now md m reg) \<noteq> None \<longrightarrow>
      unary_auth ok now md m handler reg = (Inl Unauthenticated, reg))"
proof (intro conjI impI)
  show "fst (authorize ok now md m (Some r)) = None \<longleftrightarrow>
      \<not> armed r \<or> unauthenticated m \<or> (\<exists>token. bearer md = Some token \<and> live_token r token)"
  proof (cases "bearer md")
    case (Some token)
    then show ?thesis
      using authenticate_live' [of r token ok now] dead_token(1) [of r token ok now]
      by (cases "live_token r token") (auto simp: authorize_def)
  qed (simp add: authorize_def)
  show "fst (authorize ok now md m None) = None" by (simp add: authorize_def)
  assume refused: "fst (authorize ok now md m reg) \<noteq> None"
  then obtain r where r: "reg = Some r" by (cases reg) (simp_all add: authorize_def)
  show "unary_auth ok now md m handler reg = (Inl Unauthenticated, reg)"
  proof (cases "bearer md")
    case None
    with refused show ?thesis by (simp add: unary_auth_def authorize_def r split: if_splits)
  next
    case (Some token)
    with refused show ?thesis
      using authenticate_live' [of r token ok now] dead_token(1) [of r token ok now]
      by (cases "live_token r token") (auto simp: unary_auth_def authorize_def r split: if_splits)
  qed
qed

lemma bearer_header: "t \<noteq> [] \<Longrightarrow> bearer (Some ((''Bearer '' @ t) # vs)) = Some t"
  using cut_prefix_append [of "''Bearer ''" t] by (simp add: bearer_def)

lemma encode_nonempty: "rnd \<noteq> [] \<Longrightarrow> rand_token rnd \<noteq> []"
proof -
  assume "rnd \<noteq> []"
  have "length (rand_token rnd) * 6 = length (pad_bits 6 (byte_bits rnd))"
    unfolding rand_token_def base64url_encode_def by (rule length_encode_bits) simp
  also have "\<dots> > 0" using \<open>rnd \<noteq> []\<close> by (simp add: pad_bits_def)
  finally show ?thesis by auto
qed

text \<open>
  Further. A device's life through the API. After an Enroll call that answered with a token, and any
  later history that neither forgets nor revokes the device, every method is open to a call
  carrying the token; after the device's own Forget call none is, until the API is unarmed
  again, but Hello and Enroll; and a Forget that does not name the token's own hash changes
  nothing.
\<close>
theorem device_through_api:
  assumes "rpc_enroll ok tok idr now secret name (Some r0) = (Inr (token, did), Some r)" and "tok \<noteq> []"
    and "list_all (\<lambda>op. \<not> enrolls token op \<and> \<not> unseats token did op) ops"
    and "md = Some ((''Bearer '' @ token) # vs)"
  shows "fst (authorize ok' t md m (Some (registry_run ops r))) = None \<and>
    (\<exists>r'. rpc_forget ok' t md (hash_token token) (Some (registry_run ops r)) = (Inr (), Some r') \<and>
      (fst (authorize ok2 t2 md m (Some r')) = None \<longrightarrow> \<not> armed r' \<or> unauthenticated m)) \<and>
    (h \<noteq> hash_token token \<longrightarrow>
      rpc_forget ok' t md h (Some (registry_run ops r)) = (Inl InvalidArgument, Some (registry_run ops r)))"
proof -
  let ?r = "registry_run ops r"
  from assms(1) obtain d where enroll: "enroll ok tok idr secret (trim_space name) now r0 = (Inr (d, token), r)"
    and did: "did = dv_ID d"
    by (auto simp: rpc_enroll_def Let_def split: if_splits prod.splits sum.splits)
  then have "good_secret secret now r0" using enroll_bad by (metis Inl_Inr_False prod.inject)
  from enroll [unfolded enroll_good [OF this]] have "token = rand_token tok"
    by (auto simp: Let_def split: if_splits)
  then have "token \<noteq> []" using encode_nonempty [OF assms(2)] by simp
  then have b: "bearer md = Some token" unfolding assms(4) by (rule bearer_header)
  have "holds_token token did ?r"
    using enroll_holds [OF enroll] assms(3) step_holds unfolding did
    by (intro registry_run_inv [where P = "holds_token token (dv_ID d)"]) (simp_all add: list_all_iff)
  then have "live_token ?r token" by (auto simp: holds_token_def live_token_def split: option.splits)
  then have "fst (authorize ok' t md m (Some ?r)) = None"
    using authenticate_live' [of ?r token ok' t] by (auto simp: authorize_def b)
  moreover have "\<not> live_token (forget ok' token t ?r) token" by (rule forget_dead)
  then have "fst (authorize ok2 t2 md m (Some (forget ok' token t ?r))) = None \<Longrightarrow>
      \<not> armed (forget ok' token t ?r) \<or> unauthenticated m"
    using dead_token(1) [of "forget ok' token t ?r" token ok2 t2]
    by (auto simp: authorize_def b split: if_splits)
  ultimately show ?thesis by (auto simp: rpc_forget_def b)
qed

section \<open>Witnesses\<close>

theorem authorize_exact_witness:
  "unary_auth True 5 None ''/x'' (\<lambda>reg. (Inr (), reg)) (Some (demo_registry\<lparr>rg_order := [new_device ''t'' ''i'' ''p'' 1]\<rparr>))
    = (Inl Unauthenticated, Some (demo_registry\<lparr>rg_order := [new_device ''t'' ''i'' ''p'' 1]\<rparr>))"
proof -
  let ?reg = "Some (demo_registry\<lparr>rg_order := [new_device ''t'' ''i'' ''p'' 1]\<rparr>)"
  have "fst (authorize True 5 None ''/x'' ?reg) \<noteq> None"
    by (simp add: authorize_def armed_def new_device_def unauthenticated_def bearer_def)
  then show ?thesis
    using authorize_exact [of True 5 None "''/x''" demo_registry ?reg "\<lambda>reg. (Inr (), reg)"] by blast
qed

theorem device_through_api_witness:
  "\<exists>(r :: registry) token. fst (authorize True 900 (Some [''Bearer '' @ token]) ''/x'' (Some r)) = None \<and> armed r"
proof -
  obtain d and r :: registry
    where r: "enroll True ''t'' ''i'' ''s1'' ''phone'' 500 demo_registry = (Inr (d, rand_token ''t''), r)"
      and order: "rg_order r = [new_device ''t'' ''i'' ''phone'' 500]"
    using demo_enroll by blast
  have "trim_space ''phone'' = ''phone''" by code_simp
  with r have call: "rpc_enroll True ''t'' ''i'' 500 ''s1'' ''phone'' (Some demo_registry)
      = (Inr (rand_token ''t'', dv_ID d), Some r)" by (simp add: rpc_enroll_def)
  have ne: "''t'' \<noteq> []" by simp
  have ops: "list_all (\<lambda>op. \<not> enrolls (rand_token ''t'') op \<and> \<not> unseats (rand_token ''t'') (dv_ID d) op) []"
    by simp
  have "fst (authorize True 900 (Some [''Bearer '' @ rand_token ''t'']) ''/x'' (Some (registry_run [] r))) = None"
    using device_through_api [OF call ne ops refl, where ok' = True and t = 900 and m = "''/x''" and vs = "[]"]
    by blast
  moreover have "armed r" by (simp add: armed_def order new_device_def)
  ultimately show ?thesis by (intro exI [of _ r] exI [of _ "rand_token ''t''"]) simp
qed

end
