(* ===== verification/Edl.thy ===== *)
theory Edl
  imports Policy
begin

text \<open>
  The scored edit decision list (package \<open>internal/edl\<close>): which camera the follow view shows,
  when.  The scoring cursors, which the code keeps in a map that the closure \<open>score\<close> advances,
  are part of the loop's state; \<open>pick t\<close> is the order in which the run-time ranges over the map
  of cameras at step \<open>t\<close>.  Floats are rounded rationals: a box of infinities is not modelled.
\<close>

section \<open>The scorer\<close>

abbreviation (input) edlStep :: duration where "edlStep \<equiv> 500000000"
abbreviation (input) edlStale :: duration where "edlStale \<equiv> 5000000000"
abbreviation (input) edlMinShot :: duration where "edlMinShot \<equiv> 2500000000"

definition edlAdvantage :: f64 where
  "edlAdvantage = fl64 (13 / 10)"

record segment =
  sg_C :: string
  sg_S :: f64
  sg_E :: f64

type_synonym detect_dims = "(string, int \<times> int) gomap"

type_synonym cam_samples = "(string, box_sample list) gomap"

text \<open>\<open>Duration.Seconds\<close>: whole seconds and the rest, truncated towards zero.\<close>

definition dur_seconds :: "duration \<Rightarrow> f64" where
  "dur_seconds d =
     fl64 (fl64 (of_int (sgn d * (\<bar>d\<bar> div Second)))
         + fl64 (fl64 (of_int (sgn d * (\<bar>d\<bar> mod Second))) / 1000000000))"

definition has_dims :: "detect_dims \<Rightarrow> string \<Rightarrow> bool" where
  "has_dims dims cam =
     (case gm_get dims cam of None \<Rightarrow> False | Some (w, h) \<Rightarrow> 0 < w \<and> 0 < h)"

definition samples_of :: "cam_samples \<Rightarrow> string \<Rightarrow> box_sample list" where
  "samples_of per cam = (case gm_get per cam of None \<Rightarrow> [] | Some bs \<Rightarrow> bs)"

text \<open>The loop over \<open>e.Boxes\<close>.\<close>

definition add_sample :: "detect_dims \<Rightarrow> box_sample \<Rightarrow> cam_samples \<Rightarrow> cam_samples" where
  "add_sample dims b per =
     (if has_dims dims (bs_Camera b)
      then gm_set (bs_Camera b) (samples_of per (bs_Camera b) @ [b]) per else per)"

definition per_camera :: "detect_dims \<Rightarrow> box_sample list \<Rightarrow> cam_samples" where
  "per_camera dims boxes = fold (add_sample dims) boxes []"

text \<open>The cursor's loop in \<open>score\<close>.\<close>

function advance :: "time \<Rightarrow> box_sample list \<Rightarrow> nat \<Rightarrow> nat" where
  "advance t bs i = (if i < length bs \<and> \<not> t < bs_At (bs ! i) then advance t bs (i + 1) else i)"
  by pat_completeness auto
termination
  by (relation "measure (\<lambda>(t, bs, i). length bs - i)") auto

declare advance.simps [simp del]

text \<open>The box of the sample: its share of the frame, or -1.\<close>

definition box_score :: "detect_dims \<Rightarrow> string \<Rightarrow> time \<Rightarrow> box_sample \<Rightarrow> f64" where
  "box_score dims cam t s =
     (if edlStale < time_sub t (bs_At s) then - 1
      else let (dw, dh) = (case gm_get dims cam of None \<Rightarrow> (0, 0) | Some d \<Rightarrow> d);
               w = fl32 (bs_Box s ! 2 - bs_Box s ! 0);
               h = fl32 (bs_Box s ! 3 - bs_Box s ! 1)
           in if w \<le> 0 \<or> h \<le> 0 then - 1
              else fl64 (fl64 (w * h) / fl64 (of_int (int64 (dw * dh)))))"

type_synonym cursors = "(string, nat) gomap"

definition cursor_of :: "cursors \<Rightarrow> string \<Rightarrow> nat" where
  "cursor_of idx cam = (case gm_get idx cam of None \<Rightarrow> 0 | Some i \<Rightarrow> i)"

definition score :: "detect_dims \<Rightarrow> cam_samples \<Rightarrow> string \<Rightarrow> time \<Rightarrow> cursors \<Rightarrow> f64 \<times> cursors" where
  "score dims per cam t idx =
     (let bs = samples_of per cam;
          i = advance t bs (cursor_of idx cam);
          idx' = gm_set cam i idx
      in (if i = 0 then - 1 else box_score dims cam t (bs ! (i - 1)), idx'))"

section \<open>The cut\<close>

text \<open>The variables of Build's loop.\<close>

record edl_state =
  es_segs :: "segment list"
  es_current :: string
  es_since :: time
  es_segStart :: time
  es_idx :: cursors

definition seg :: "time \<Rightarrow> string \<Rightarrow> time \<Rightarrow> time \<Rightarrow> segment" where
  "seg clipStart cam from to =
     \<lparr>sg_C = cam, sg_S = dur_seconds (time_sub from clipStart), sg_E = dur_seconds (time_sub to clipStart)\<rparr>"

text \<open>The closure \<open>emit\<close>.\<close>

definition emit :: "time \<Rightarrow> string \<Rightarrow> time \<Rightarrow> time \<Rightarrow> segment list \<Rightarrow> segment list" where
  "emit clipStart current from to segs =
     (if current = [] \<or> \<not> from < to then segs
      else if segs \<noteq> [] \<and> sg_C (last segs) = current
        then butlast segs @ [(last segs)\<lparr>sg_E := dur_seconds (time_sub to clipStart)\<rparr>]
      else segs @ [seg clipStart current from to])"

text \<open>One camera of the inner range.\<close>

definition best_step :: "detect_dims \<Rightarrow> cam_samples \<Rightarrow> time \<Rightarrow> string
    \<Rightarrow> string \<times> f64 \<times> cursors \<Rightarrow> string \<times> f64 \<times> cursors" where
  "best_step dims per t cam = (\<lambda>(best, bestScore, idx).
     (let (sc, idx') = score dims per cam t idx
      in if bestScore < sc then (cam, sc, idx') else (best, bestScore, idx')))"

definition edl_iter :: "detect_dims \<Rightarrow> cam_samples \<Rightarrow> string list \<Rightarrow> time \<Rightarrow> time \<Rightarrow> edl_state \<Rightarrow> edl_state" where
  "edl_iter dims per order clipStart t st =
     (let (best, bestScore, idx) =
            fold (best_step dims per t) (gm_keys (gm_pick order per)) ([], - 1, es_idx st);
          st1 = st\<lparr>es_idx := idx\<rparr>
      in if bestScore < 0 then st1
         else if es_current st = [] then
           st1\<lparr>es_current := best, es_since := t,
               es_segStart := (if es_segs st = [] then clipStart else t)\<rparr>
         else if best \<noteq> es_current st \<and> edlMinShot \<le> time_sub t (es_since st) then
           (let (cur, idx2) = score dims per (es_current st) t idx
            in if fl64 (cur * edlAdvantage) \<le> bestScore then
                 st1\<lparr>es_segs := emit clipStart (es_current st) (es_segStart st) t (es_segs st),
                     es_current := best, es_since := t, es_segStart := t, es_idx := idx2\<rparr>
               else st1\<lparr>es_idx := idx2\<rparr>)
         else st1)"

function edl_loop :: "detect_dims \<Rightarrow> cam_samples \<Rightarrow> (time \<Rightarrow> string list) \<Rightarrow> time \<Rightarrow> time \<Rightarrow> time
    \<Rightarrow> edl_state \<Rightarrow> edl_state" where
  "edl_loop dims per pick clipStart clipEnd t st =
     (if t < clipEnd
      then edl_loop dims per pick clipStart clipEnd (t + edlStep) (edl_iter dims per (pick t) clipStart t st)
      else st)"
  by pat_completeness auto
termination
  by (relation "measure (\<lambda>(dims, per, pick, clipStart, clipEnd, t, st). nat (clipEnd - t))") auto

declare edl_loop.simps [simp del]

text \<open>Build; nil is the empty list.\<close>

definition build_edl :: "(time \<Rightarrow> string list) \<Rightarrow> event \<Rightarrow> time \<Rightarrow> time \<Rightarrow> detect_dims \<Rightarrow> segment list" where
  "build_edl pick e clipStart clipEnd dims =
     (let per = per_camera dims (ev_Boxes e)
      in if per = [] then []
         else
           let st = edl_loop dims per pick clipStart clipEnd clipStart
                 \<lparr>es_segs = [], es_current = [], es_since = 0, es_segStart = clipStart, es_idx = []\<rparr>
           in emit clipStart (es_current st) (es_segStart st) clipEnd (es_segs st))"

section \<open>The cursors find the freshest sample\<close>

text \<open>What a camera shows at a time: its last sample up to then, scored, without any cursor.\<close>

definition view :: "detect_dims \<Rightarrow> cam_samples \<Rightarrow> string \<Rightarrow> time \<Rightarrow> f64" where
  "view dims per cam t =
     (case takeWhile (\<lambda>s. bs_At s \<le> t) (samples_of per cam) of
        [] \<Rightarrow> - 1
      | bs \<Rightarrow> box_score dims cam t (last bs))"

abbreviation seen_by :: "time \<Rightarrow> box_sample list \<Rightarrow> nat" where
  "seen_by t bs \<equiv> length (takeWhile (\<lambda>s. bs_At s \<le> t) bs)"

definition cursors_ok :: "cam_samples \<Rightarrow> time \<Rightarrow> cursors \<Rightarrow> bool" where
  "cursors_ok per t idx \<longleftrightarrow> (\<forall>cam. cursor_of idx cam \<le> seen_by t (samples_of per cam))"

lemma seen_by_mono: "t \<le> u \<Longrightarrow> seen_by t bs \<le> seen_by u bs"
  by (induction bs) auto

lemma cursors_ok_later: "cursors_ok per t idx \<Longrightarrow> t \<le> u \<Longrightarrow> cursors_ok per u idx"
  unfolding cursors_ok_def using seen_by_mono order_trans by blast

lemma advance_eq: "i \<le> seen_by t bs \<Longrightarrow> advance t bs i = seen_by t bs"
proof (induction t bs i rule: advance.induct)
  case (1 t bs i)
  show ?case
  proof (cases "i < seen_by t bs")
    case True
    then have "bs ! i = takeWhile (\<lambda>s. bs_At s \<le> t) bs ! i" by (simp add: takeWhile_nth)
    with True have "bs_At (bs ! i) \<le> t" by (metis nth_mem set_takeWhileD)
    moreover have "i < length bs" using True length_takeWhile_le [of _ bs] by (rule less_le_trans)
    ultimately show ?thesis
      using 1 True by (subst advance.simps) simp
  next
    case False
    with 1 have i: "i = seen_by t bs" by simp
    have "\<not> bs_At (bs ! i) \<le> t" if "i < length bs"
      using nth_length_takeWhile [of "\<lambda>s. bs_At s \<le> t" bs] that by (simp add: i)
    then show ?thesis by (subst advance.simps) (auto simp: i)
  qed
qed

lemma score_view:
  assumes "cursors_ok per t idx"
  shows "fst (score dims per cam t idx) = view dims per cam t"
    and "cursors_ok per t (snd (score dims per cam t idx))"
proof -
  let ?bs = "samples_of per cam"
  have adv: "advance t ?bs (cursor_of idx cam) = seen_by t ?bs"
    by (rule advance_eq) (use assms in \<open>simp add: cursors_ok_def\<close>)
  show "cursors_ok per t (snd (score dims per cam t idx))"
    using assms by (simp add: score_def Let_def adv) (simp add: cursors_ok_def cursor_of_def)
  have "?bs ! (seen_by t ?bs - 1) = last (takeWhile (\<lambda>s. bs_At s \<le> t) ?bs)"
    if "takeWhile (\<lambda>s. bs_At s \<le> t) ?bs \<noteq> []"
    using that by (simp add: last_conv_nth takeWhile_nth)
  then show "fst (score dims per cam t idx) = view dims per cam t"
    by (auto simp: score_def Let_def adv view_def split: list.splits)
qed

text \<open>The inner range: a camera with the greatest view, or nobody.\<close>

lemma best_fold:
  assumes "cursors_ok per t idx"
    and "fold (best_step dims per t) cams (b, sc, idx) = (b', sc', idx')"
  shows "cursors_ok per t idx' \<and> sc \<le> sc' \<and> (\<forall>c \<in> set cams. view dims per c t \<le> sc') \<and>
    (b' = b \<and> sc' = sc \<or> b' \<in> set cams \<and> sc' = view dims per b' t)"
  using assms
proof (induction cams arbitrary: b sc idx)
  case Nil
  then show ?case by simp
next
  case (Cons c cams)
  obtain v i where vi: "score dims per c t idx = (v, i)" by fastforce
  note sv = score_view [OF Cons.prems(1), of dims c, unfolded vi, simplified]
  have step: "best_step dims per t c (b, sc, idx) = (if sc < v then (c, v, i) else (b, sc, i))"
    by (simp add: best_step_def vi)
  show ?case
  proof (cases "sc < v")
    case True
    with Cons.prems(2) have "fold (best_step dims per t) cams (c, v, i) = (b', sc', idx')"
      by (simp add: step)
    from Cons.IH [OF sv(2) this] True sv(1) show ?thesis by auto
  next
    case False
    with Cons.prems(2) have "fold (best_step dims per t) cams (b, sc, i) = (b', sc', idx')"
      by (simp add: step)
    from Cons.IH [OF sv(2) this] False sv(1) show ?thesis by auto
  qed
qed

section \<open>Cuts and hand-offs\<close>

text \<open>A cut as it is decided: the cameras in order, each with the time it took over.\<close>

type_synonym take_over = "string \<times> time"

fun shots :: "time \<Rightarrow> time \<Rightarrow> time \<Rightarrow> take_over list \<Rightarrow> segment list" where
  "shots clipStart from to [] = []"
| "shots clipStart from to [(c, t)] = [seg clipStart c from to]"
| "shots clipStart from to ((c, t) # (d, u) # xs) =
     seg clipStart c from u # shots clipStart u to ((d, u) # xs)"

definition biggest_view :: "detect_dims \<Rightarrow> cam_samples \<Rightarrow> take_over \<Rightarrow> bool" where
  "biggest_view dims per = (\<lambda>(c, t). c \<in> set (gm_keys per) \<and> 0 \<le> view dims per c t
     \<and> (\<forall>d \<in> set (gm_keys per). view dims per d t \<le> view dims per c t))"

definition hand_off :: "detect_dims \<Rightarrow> cam_samples \<Rightarrow> take_over \<Rightarrow> take_over \<Rightarrow> bool" where
  "hand_off dims per = (\<lambda>(c, t) (d, u). d \<noteq> c \<and> t + edlMinShot \<le> u
     \<and> fl64 (view dims per c u * edlAdvantage) \<le> view dims per d u)"

text \<open>The times at which the loop scores.\<close>

definition steps_from :: "time \<Rightarrow> time \<Rightarrow> bool" where
  "steps_from clipStart t \<longleftrightarrow> clipStart \<le> t \<and> edlStep dvd (t - clipStart)"

definition on_grid :: "time \<Rightarrow> time \<Rightarrow> time \<Rightarrow> bool" where
  "on_grid clipStart clipEnd t \<longleftrightarrow> steps_from clipStart t \<and> t < clipEnd"

definition no_evidence :: "detect_dims \<Rightarrow> cam_samples \<Rightarrow> time \<Rightarrow> bool" where
  "no_evidence dims per t \<longleftrightarrow> (\<forall>c \<in> set (gm_keys per). view dims per c t < 0)"

definition good_cut :: "detect_dims \<Rightarrow> cam_samples \<Rightarrow> time \<Rightarrow> time \<Rightarrow> take_over list \<Rightarrow> bool" where
  "good_cut dims per clipStart clipEnd takes \<longleftrightarrow>
     (\<forall>x \<in> set takes. biggest_view dims per x \<and> on_grid clipStart clipEnd (snd x)) \<and>
     successively (hand_off dims per) takes \<and>
     (\<forall>t. on_grid clipStart clipEnd t \<and> (takes = [] \<or> t < snd (hd takes)) \<longrightarrow> no_evidence dims per t)"

lemma shots_snoc:
  "shots s v w (xs @ [(c, t), (d, u)]) = shots s v u (xs @ [(c, t)]) @ [seg s d u w]"
  by (induction s v w xs rule: shots.induct) auto

lemma seg_C [simp]: "sg_C (seg s c from to) = c"
  by (simp add: seg_def)

definition loop_inv :: "detect_dims \<Rightarrow> cam_samples \<Rightarrow> time \<Rightarrow> time \<Rightarrow> edl_state \<Rightarrow> take_over list \<Rightarrow> bool" where
  "loop_inv dims per clipStart t st takes \<longleftrightarrow>
     cursors_ok per t (es_idx st) \<and> good_cut dims per clipStart t takes \<and>
     (if takes = [] then es_current st = [] \<and> es_segs st = []
      else last takes = (es_current st, es_since st) \<and> es_current st \<noteq> [] \<and>
        es_segStart st \<le> es_since st \<and>
        (es_segs st \<noteq> [] \<longrightarrow> sg_C (last (es_segs st)) \<noteq> es_current st) \<and>
        (\<forall>to. es_segs st @ [seg clipStart (es_current st) (es_segStart st) to]
           = shots clipStart clipStart to takes))"

lemma steps_from_start [simp]: "steps_from s s"
  by (simp add: steps_from_def)

lemma steps_from_next: "steps_from s t \<Longrightarrow> steps_from s (t + edlStep)"
proof -
  have "t + edlStep - s = (t - s) + edlStep" by simp
  then show "steps_from s t \<Longrightarrow> steps_from s (t + edlStep)"
    unfolding steps_from_def by (metis add_increasing2 dvd_add_triv_right_iff zero_le_numeral)
qed

lemma on_grid_next:
  assumes "steps_from s t"
  shows "on_grid s (t + edlStep) u \<longleftrightarrow> u = t \<or> on_grid s t u"
proof
  assume u: "on_grid s (t + edlStep) u"
  then have "edlStep dvd (u - t)" using assms dvd_diff [of edlStep "u - s" "t - s"]
    by (simp add: on_grid_def steps_from_def)
  moreover have "u - t < edlStep" using u by (simp add: on_grid_def)
  ultimately have "u - t \<le> 0" by (metis not_le zdvd_not_zless)
  with u show "u = t \<or> on_grid s t u" by (auto simp: on_grid_def)
next
  show "u = t \<or> on_grid s t u \<Longrightarrow> on_grid s (t + edlStep) u" using assms by (auto simp: on_grid_def)
qed

lemma good_cut_later:
  assumes "good_cut dims per s t takes" and "steps_from s t"
    and "takes = [] \<Longrightarrow> no_evidence dims per t"
  shows "good_cut dims per s (t + edlStep) takes"
proof -
  note next_grid = on_grid_next [OF assms(2)]
  have "no_evidence dims per u"
    if "on_grid s (t + edlStep) u" "takes = [] \<or> u < snd (hd takes)" for u
  proof (cases "on_grid s t u")
    case True
    with that assms(1) show ?thesis by (simp add: good_cut_def)
  next
    case False
    with next_grid that(1) have "u = t" by simp
    moreover have "snd (hd takes) < t" if "takes \<noteq> []"
      using assms(1) that by (simp add: good_cut_def on_grid_def)
    ultimately show ?thesis using that(2) assms(3) by fastforce
  qed
  then show ?thesis using assms(1) unfolding good_cut_def next_grid by blast
qed

lemma good_cut_take:
  assumes "good_cut dims per s t takes" and "steps_from s t"
    and "biggest_view dims per (c, t)" and "takes \<noteq> [] \<Longrightarrow> hand_off dims per (last takes) (c, t)"
  shows "good_cut dims per s (t + edlStep) (takes @ [(c, t)])"
proof -
  note next_grid = on_grid_next [OF assms(2)]
  have "no_evidence dims per u"
    if "on_grid s (t + edlStep) u" "u < snd (hd (takes @ [(c, t)]))" for u
  proof -
    have "snd (hd takes) < t" if "takes \<noteq> []"
      using assms(1) that by (simp add: good_cut_def on_grid_def)
    with that(2) have "u < t" "takes \<noteq> [] \<Longrightarrow> u < snd (hd takes)"
      by (cases takes; fastforce)+
    moreover from this next_grid that(1) have "on_grid s t u" by simp
    ultimately show ?thesis using assms(1) unfolding good_cut_def by blast
  qed
  then have "\<forall>u. on_grid s (t + edlStep) u \<and> (takes @ [(c, t)] = [] \<or> u < snd (hd (takes @ [(c, t)])))
      \<longrightarrow> no_evidence dims per u" by simp
  moreover have "\<forall>x \<in> set (takes @ [(c, t)]). biggest_view dims per x \<and> on_grid s (t + edlStep) (snd x)"
    using assms(1,3) next_grid by (auto simp: good_cut_def)
  moreover have "successively (hand_off dims per) (takes @ [(c, t)])"
    using assms(1,4) by (cases "takes = []") (simp_all add: good_cut_def successively_append_iff)
  ultimately show ?thesis unfolding good_cut_def by blast
qed

text \<open>One pass of the loop.\<close>

lemma iter_inv:
  assumes "loop_inv dims per s t st takes" and grid: "steps_from s t"
    and wf: "gm_wf per" and named: "[] \<notin> set (gm_keys per)"
  shows "\<exists>takes'. loop_inv dims per s (t + edlStep) (edl_iter dims per order s t st) takes'"
proof -
  let ?cams = "gm_keys (gm_pick order per)"
  obtain b sc idx where best: "fold (best_step dims per t) ?cams ([], - 1, es_idx st) = (b, sc, idx)"
    by (cases "fold (best_step dims per t) ?cams ([], - 1, es_idx st)") auto
  have cams: "set ?cams = set (gm_keys per)" using gm_pick_set [OF wf] by (metis list.set_map)
  have ok: "cursors_ok per t (es_idx st)" and good: "good_cut dims per s t takes"
    using assms(1) by (simp_all add: loop_inv_def)
  note bf = best_fold [OF ok best, unfolded cams]
  have later: "cursors_ok per t i \<Longrightarrow> cursors_ok per (t + edlStep) i" for i
    by (erule cursors_ok_later) simp
  let ?st1 = "st\<lparr>es_idx := idx\<rparr>"
  have stay: "loop_inv dims per s (t + edlStep) (st\<lparr>es_idx := i\<rparr>) takes"
    if "cursors_ok per t i" "takes = [] \<Longrightarrow> no_evidence dims per t" for i
    using assms(1) later [OF that(1)] good_cut_later [OF good grid that(2)] by (simp add: loop_inv_def)
  show ?thesis
  proof (cases "sc < 0")
    case True
    then have "no_evidence dims per t" using bf by (fastforce simp: no_evidence_def)
    with True stay [of idx] bf show ?thesis by (auto simp: edl_iter_def best)
  next
    case False
    then have b: "b \<in> set (gm_keys per)" "sc = view dims per b t" using bf by auto
    then have big: "biggest_view dims per (b, t)" using bf False by (simp add: biggest_view_def)
    have "b \<noteq> []" using b(1) named by blast
    show ?thesis
    proof (cases "es_current st = []")
      case True
      then have none: "takes = []" "es_segs st = []" using assms(1) by (auto simp: loop_inv_def split: if_splits)
      let ?st = "?st1\<lparr>es_current := b, es_since := t, es_segStart := s\<rparr>"
      have "edl_iter dims per order s t st = ?st" using True False none by (simp add: edl_iter_def best)
      moreover have "loop_inv dims per s (t + edlStep) ?st [(b, t)]"
        using good_cut_take [OF good grid big] none later bf \<open>b \<noteq> []\<close> grid by (simp add: loop_inv_def steps_from_def)
      ultimately show ?thesis by auto
    next
      case cur: False
      then have takes: "takes \<noteq> []" using assms(1) by (auto simp: loop_inv_def split: if_splits)
      note inv = assms(1) [unfolded loop_inv_def]
      let ?c = "es_current st"
      obtain v i where vi: "score dims per ?c t idx = (v, i)" by fastforce
      from bf have "cursors_ok per t idx" by simp
      note sv = score_view [OF this, of dims ?c, unfolded vi, simplified]
      show ?thesis
      proof (cases "b \<noteq> ?c \<and> edlMinShot \<le> t - es_since st")
        case False
        then have "edl_iter dims per order s t st = ?st1"
          using cur \<open>\<not> sc < 0\<close> by (auto simp: edl_iter_def best time_sub_ge)
        with stay [of idx] bf takes show ?thesis by auto
      next
        case ready: True
        show ?thesis
        proof (cases "fl64 (v * edlAdvantage) \<le> sc")
          case False
          then have "edl_iter dims per order s t st = st\<lparr>es_idx := i\<rparr>"
            using ready cur \<open>\<not> sc < 0\<close> by (auto simp: edl_iter_def best vi time_sub_ge)
          with stay [of i] sv takes show ?thesis by auto
        next
          case True
          have from_t: "es_segStart st < t" using inv takes ready by auto
          let ?segs = "es_segs st @ [seg s ?c (es_segStart st) t]"
          let ?st = "st\<lparr>es_segs := ?segs, es_current := b, es_since := t, es_segStart := t, es_idx := i\<rparr>"
          have "emit s ?c (es_segStart st) t (es_segs st) = ?segs"
            using inv takes cur from_t by (auto simp: emit_def)
          then have iter: "edl_iter dims per order s t st = ?st"
            using True ready cur \<open>\<not> sc < 0\<close> by (auto simp: edl_iter_def best vi time_sub_ge)
          have last: "last takes = (?c, es_since st)" using inv takes by simp
          have "hand_off dims per (last takes) (b, t)"
            using ready True b sv(1) by (simp add: last hand_off_def)
          with good_cut_take [OF good grid big] have "good_cut dims per s (t + edlStep) (takes @ [(b, t)])" .
          moreover have "?segs @ [seg s b t w] = shots s s w (takes @ [(b, t)])" for w
          proof -
            obtain ts where ts: "takes = ts @ [(?c, es_since st)]"
              using last takes by (metis append_butlast_last_id)
            have "?segs = shots s s t takes" using inv takes by simp
            then show ?thesis by (simp add: ts shots_snoc)
          qed
          ultimately have "loop_inv dims per s (t + edlStep) ?st (takes @ [(b, t)])"
            using later sv(2) \<open>b \<noteq> []\<close> ready by (auto simp: loop_inv_def)
          with iter show ?thesis by auto
        qed
      qed
    qed
  qed
qed

lemma loop_inv_end:
  assumes "loop_inv dims per s t st takes" and "steps_from s t" and "t < e + edlStep"
    and "gm_wf per" and "[] \<notin> set (gm_keys per)"
  shows "\<exists>takes u. e \<le> u \<and> u < e + edlStep \<and> steps_from s u \<and>
    loop_inv dims per s u (edl_loop dims per pick s e t st) takes"
  using assms
proof (induction dims per pick s e t st arbitrary: takes rule: edl_loop.induct)
  case (1 dims per pick s e t st)
  show ?case
  proof (cases "t < e")
    case False
    with 1(2-4) show ?thesis
      by (subst edl_loop.simps) (simp, intro exI [of _ takes] exI [of _ t], simp)
  next
    case True
    obtain takes' where "loop_inv dims per s (t + edlStep) (edl_iter dims per (pick t) s t st) takes'"
      using iter_inv [OF 1(2,3,5,6)] by blast
    from 1(1) [OF True this steps_from_next [OF 1(3)] _ 1(5,6)] True
    show ?thesis by (subst edl_loop.simps) simp
  qed
qed

lemma per_camera_wf: "gm_wf (per_camera dims boxes)"
proof -
  have "gm_wf per \<Longrightarrow> gm_wf (fold (add_sample dims) boxes per)" for per
    by (induction boxes arbitrary: per) (simp_all add: add_sample_def)
  then show ?thesis by (simp add: per_camera_def)
qed

lemma per_camera_get:
  "gm_get (per_camera dims boxes) cam =
     (let bs = filter (\<lambda>b. bs_Camera b = cam) boxes in if bs = [] \<or> \<not> has_dims dims cam then None else Some bs)"
proof -
  have "gm_get (fold (add_sample dims) boxes per) cam =
      (let bs = filter (\<lambda>b. bs_Camera b = cam) boxes
       in if bs = [] \<or> \<not> has_dims dims cam then gm_get per cam else Some (samples_of per cam @ bs))" for per
    by (induction boxes arbitrary: per) (auto simp: add_sample_def samples_of_def Let_def)
  then show ?thesis by (simp add: per_camera_def samples_of_def Let_def)
qed

lemma per_camera_keys:
  "cam \<in> set (gm_keys (per_camera dims boxes)) \<longleftrightarrow> has_dims dims cam \<and> cam \<in> bs_Camera ` set boxes"
proof -
  have "cam \<in> set (gm_keys (per_camera dims boxes)) \<longleftrightarrow> gm_get (per_camera dims boxes) cam \<noteq> None"
    by (simp add: map_of_eq_None_iff)
  also have "\<dots> \<longleftrightarrow> has_dims dims cam \<and> cam \<in> bs_Camera ` set boxes"
    by (auto simp: per_camera_get Let_def filter_empty_conv)
  finally show ?thesis .
qed

lemma on_grid_end:
  assumes "steps_from s u" and "e \<le> u" and "u < e + edlStep"
  shows "on_grid s u t \<longleftrightarrow> on_grid s e t"
proof
  assume t: "on_grid s u t"
  then have "edlStep dvd (u - t)" using assms(1) dvd_diff [of edlStep "u - s" "t - s"]
    by (simp add: on_grid_def steps_from_def)
  moreover have "0 < u - t" using t by (simp add: on_grid_def)
  ultimately have "edlStep \<le> u - t" by (rule zdvd_imp_le)
  with t assms(3) show "on_grid s e t" by (simp add: on_grid_def)
next
  show "on_grid s e t \<Longrightarrow> on_grid s u t" using assms(2) by (auto simp: on_grid_def)
qed

text \<open>Every cut Build returns comes from a list of take-overs.\<close>

lemma build_takes:
  assumes "gm_get dims [] = None" and "s \<le> e"
  shows "\<exists>takes. build_edl pick ev s e dims = shots s s e takes \<and>
    good_cut dims (per_camera dims (ev_Boxes ev)) s e takes"
proof (cases "per_camera dims (ev_Boxes ev) = []")
  case True
  then show ?thesis
    by (intro exI [of _ "[]"]) (simp add: build_edl_def good_cut_def no_evidence_def)
next
  case False
  let ?per = "per_camera dims (ev_Boxes ev)"
  define st0 where "st0 = \<lparr>es_segs = [], es_current = [], es_since = 0, es_segStart = s, es_idx = []\<rparr>"
  have named: "[] \<notin> set (gm_keys ?per)" unfolding per_camera_keys using assms(1) by (simp add: has_dims_def)
  have inv0: "loop_inv dims ?per s s st0 []"
    by (simp add: loop_inv_def st0_def good_cut_def on_grid_def cursors_ok_def cursor_of_def)
      (auto simp: steps_from_def)
  have "s < e + edlStep" using assms(2) by simp
  from loop_inv_end [OF inv0 steps_from_start this per_camera_wf named, of pick]
  obtain takes u where u: "e \<le> u" "u < e + edlStep" "steps_from s u"
    and inv: "loop_inv dims ?per s u (edl_loop dims ?per pick s e s st0) takes" by blast
  let ?st = "edl_loop dims ?per pick s e s st0"
  have good: "good_cut dims ?per s e takes"
    using inv on_grid_end [OF u(3,1,2)] by (simp add: loop_inv_def good_cut_def)
  have "emit s (es_current ?st) (es_segStart ?st) e (es_segs ?st) = shots s s e takes"
  proof (cases "takes = []")
    case True
    with inv show ?thesis by (simp add: loop_inv_def emit_def)
  next
    case False
    then have "last takes \<in> set takes" by simp
    then have "on_grid s e (snd (last takes))" using good unfolding good_cut_def by blast
    with False inv have "es_segStart ?st < e" by (auto simp: loop_inv_def on_grid_def)
    with False inv show ?thesis by (auto simp: loop_inv_def emit_def)
  qed
  with good False show ?thesis by (auto simp: build_edl_def st0_def Let_def)
qed

text \<open>
  C38. The follow view shows whoever shows the subject best. The cut is a sequence of take-overs
  on the half-second grid of the clip: the first is at the first moment any camera has fresh
  evidence, and then every camera that takes over has the biggest view of all, at least 1.3
  times that of the camera it takes over from, which has held the cut for 2.5 seconds or more.
  A view is a camera's last box up to that moment as a share of its frame, if it is not staler
  than five seconds. Without fresh evidence anywhere there is no cut.
\<close>
theorem cut_follows_biggest_view:
  assumes "gm_get dims [] = None" and "s \<le> e"
  shows "\<exists>takes. build_edl pick ev s e dims = shots s s e takes \<and>
    good_cut dims (per_camera dims (ev_Boxes ev)) s e takes"
  by (rule build_takes [OF assms])

lemma shots_tile:
  "shots s v w ((c, t) # xs) \<noteq> [] \<and> sg_S (hd (shots s v w ((c, t) # xs))) = dur_seconds (time_sub v s)
   \<and> sg_C (hd (shots s v w ((c, t) # xs))) = c
   \<and> sg_E (last (shots s v w ((c, t) # xs))) = dur_seconds (time_sub w s)"
proof (induction xs arbitrary: v c t)
  case (Cons x xs)
  then show ?case by (cases x) (simp add: seg_def)
qed (simp add: seg_def)

lemma shots_successive:
  assumes "successively (\<lambda>x y. fst x \<noteq> fst y) takes"
  shows "successively (\<lambda>a b. sg_E a = sg_S b \<and> sg_C a \<noteq> sg_C b) (shots s v w takes)"
  using assms
proof (induction s v w takes rule: shots.induct)
  case (3 s v w c t d u xs)
  have "shots s u w ((d, u) # xs) \<noteq> []" using shots_tile by blast
  with 3 shots_tile [of s u w d u xs] show ?case
    by (simp add: successively_Cons) (simp add: seg_def)
qed simp_all

lemma shots_cameras: "sg_C ` set (shots s v w takes) = fst ` set takes"
  by (induction s v w takes rule: shots.induct) auto

text \<open>
  Further. The cut covers the clip. Its segments follow each other without gap or overlap from 0 to
  the clip's length, each shows another camera than the one before, and only cameras with known
  dimensions that reported a box appear.
\<close>
theorem cut_tiles_clip:
  assumes "gm_get dims [] = None" and "s \<le> e" and segs: "segs = build_edl pick ev s e dims"
  shows "(segs \<noteq> [] \<longrightarrow> sg_S (hd segs) = 0 \<and> sg_E (last segs) = dur_seconds (time_sub e s)) \<and>
    successively (\<lambda>a b. sg_E a = sg_S b \<and> sg_C a \<noteq> sg_C b) segs \<and>
    (\<forall>g \<in> set segs. has_dims dims (sg_C g) \<and> sg_C g \<in> bs_Camera ` set (ev_Boxes ev))"
proof (intro conjI impI ballI)
  let ?per = "per_camera dims (ev_Boxes ev)"
  obtain takes where takes: "segs = shots s s e takes" "good_cut dims ?per s e takes"
    using build_takes [OF assms(1,2), of pick ev] by (auto simp: segs)
  have "successively (\<lambda>x y. fst x \<noteq> fst y) takes"
    by (rule successively_mono [of "hand_off dims ?per"])
      (use takes(2) in \<open>auto simp: good_cut_def hand_off_def\<close>)
  then show "successively (\<lambda>a b. sg_E a = sg_S b \<and> sg_C a \<noteq> sg_C b) segs"
    unfolding takes(1) by (rule shots_successive)
  have zero: "dur_seconds (time_sub s s) = 0" by (simp add: dur_seconds_def time_sub_def)
  show "sg_S (hd segs) = 0" if "segs \<noteq> []"
    using that shots_tile [of s s e] zero by (cases takes) (auto simp: takes(1))
  show "sg_E (last segs) = dur_seconds (time_sub e s)" if "segs \<noteq> []"
    using that shots_tile [of s s e] by (cases takes) (auto simp: takes(1))
  fix g assume "g \<in> set segs"
  then have "sg_C g \<in> fst ` set takes" using shots_cameras takes(1) by blast
  then have "sg_C g \<in> set (gm_keys ?per)" using takes(2) by (auto simp: good_cut_def biggest_view_def)
  then show "has_dims dims (sg_C g)" "sg_C g \<in> bs_Camera ` set (ev_Boxes ev)"
    unfolding per_camera_keys by blast+
qed

section \<open>Witnesses\<close>

text \<open>The porch sees someone small, the driveway from two seconds on sees them big.\<close>

definition demo_dims :: detect_dims where
  "demo_dims = [(''porch'', (640, 360)), (''drive'', (640, 360))]"

definition demo_box :: "string \<Rightarrow> time \<Rightarrow> rat \<Rightarrow> box_sample" where
  "demo_box cam t n = \<lparr>bs_Camera = cam, bs_At = t, bs_Box = [0, 0, n, n]\<rparr>"

definition demo_boxes :: event where
  "demo_boxes = zero_event\<lparr>ev_Boxes := [demo_box ''porch'' (100 * Second) 200,
     demo_box ''drive'' (102 * Second) 300]\<rparr>"

lemma demo_evidence:
  "0 \<le> view demo_dims (per_camera demo_dims (ev_Boxes demo_boxes)) ''porch'' (100 * Second)"
  "''porch'' \<in> set (gm_keys (per_camera demo_dims (ev_Boxes demo_boxes)))"
  by code_simp+

lemma demo_takes:
  assumes "s \<le> 100 * Second" and "100 * Second < e" and "edlStep dvd (100 * Second - s)"
  shows "\<exists>takes. takes \<noteq> [] \<and> build_edl pick demo_boxes s e demo_dims = shots s s e takes"
proof -
  have "gm_get demo_dims [] = None" by (simp add: demo_dims_def)
  from build_takes [OF this, of s e pick demo_boxes] assms
  obtain takes where takes: "build_edl pick demo_boxes s e demo_dims = shots s s e takes"
    and good: "good_cut demo_dims (per_camera demo_dims (ev_Boxes demo_boxes)) s e takes"
    by auto
  have "on_grid s e (100 * Second)" using assms by (simp add: on_grid_def steps_from_def)
  with good demo_evidence have "takes \<noteq> []" by (fastforce simp: good_cut_def no_evidence_def)
  with takes show ?thesis by blast
qed

theorem cut_follows_biggest_view_witness:
  "\<exists>takes. build_edl (\<lambda>t. []) demo_boxes (99 * Second) (105 * Second) demo_dims
     = shots (99 * Second) (99 * Second) (105 * Second) takes"
proof -
  have "gm_get demo_dims [] = None" by (simp add: demo_dims_def)
  from cut_follows_biggest_view [OF this, of "99 * Second" "105 * Second" "\<lambda>t. []" demo_boxes]
  show ?thesis by auto
qed

theorem cut_tiles_clip_witness:
  "\<exists>segs. segs \<noteq> [] \<and> segs = build_edl (\<lambda>t. []) demo_boxes (99 * Second) (105 * Second) demo_dims \<and>
     sg_S (hd segs) = 0 \<and> sg_E (last segs) = dur_seconds (6 * Second)"
proof -
  have "gm_get demo_dims [] = None" by (simp add: demo_dims_def)
  note tiles = cut_tiles_clip [OF this _ refl, of "99 * Second" "105 * Second" "\<lambda>t. []" demo_boxes]
  obtain takes where takes: "takes \<noteq> []"
    "build_edl (\<lambda>t. []) demo_boxes (99 * Second) (105 * Second) demo_dims
      = shots (99 * Second) (99 * Second) (105 * Second) takes"
    using demo_takes [of "99 * Second" "105 * Second" "\<lambda>t. []"] by (auto simp: dvd_def)
  have "shots (99 * Second) (99 * Second) (105 * Second) takes \<noteq> []"
    using takes(1) shots_tile by (metis list.exhaust prod.exhaust)
  with tiles takes(2) show ?thesis by (simp add: time_sub_def)
qed

text \<open>When two cameras tie, the run-time's order of the map decides who opens the cut.\<close>

definition tie_dims :: detect_dims where
  "tie_dims = [(''porch'', (2, 2)), (''drive'', (2, 2))]"

definition demo_tie :: event where
  "demo_tie = zero_event\<lparr>ev_Boxes := [demo_box ''porch'' 5 1, demo_box ''drive'' 5 1]\<rparr>"

lemma ties_are_random:
  "map sg_C (build_edl (\<lambda>t. [''porch'', ''drive'']) demo_tie 5 6 tie_dims) = [''porch''] \<and>
   map sg_C (build_edl (\<lambda>t. [''drive'', ''porch'']) demo_tie 5 6 tie_dims) = [''drive'']"
  by code_simp

end
