(* ===== verification/Server.thy ===== *)
theory Server
  imports Store Auth Edl
begin

text \<open>
  The service over the store (\<open>internal/server/server.go\<close>): the handshake, the camera list, the
  event list and stream, the wire form of an event, and the table of detect resolutions.

  The generated message types are records with the fields the code sets; a timestamp is a count of
  seconds and nanoseconds, an unset message field is None.
\<close>

section \<open>The handshake and the lists\<close>

abbreviation (input) APIVersion :: int where "APIVersion \<equiv> 1"
abbreviation (input) MinAPIVersion :: int where "MinAPIVersion \<equiv> 1"
abbreviation (input) DefaultPageSize :: int where "DefaultPageSize \<equiv> 50"
abbreviation (input) MaxPageSize :: int where "MaxPageSize \<equiv> 500"

record server_info =
  si_Version :: string
  si_MinApiVersion :: int
  si_ApiVersion :: int
  si_DisplayName :: string
  si_Retention :: duration

definition get_server_info :: "string \<Rightarrow> string \<Rightarrow> int \<Rightarrow> store \<Rightarrow> rpc_code + server_info" where
  "get_server_info version display v s =
     (if v \<noteq> 0 \<and> v < MinAPIVersion then Inl FailedPrecondition
      else Inr \<lparr>si_Version = version, si_MinApiVersion = MinAPIVersion, si_ApiVersion = APIVersion,
                si_DisplayName = display, si_Retention = ss_retention s\<rparr>)"

definition list_cameras :: "store \<Rightarrow> string list" where
  "list_cameras s = store_cameras s"

section \<open>The wire form of an event\<close>

datatype wire_kind = EVENT_KIND_UNKNOWN | EVENT_KIND_ARRIVAL | EVENT_KIND_DEPARTURE | EVENT_KIND_PACKAGE
  | EVENT_KIND_DETECTION | EVENT_KIND_ACTIVITY | EVENT_KIND_STATE | EVENT_KIND_SIGHTING

datatype wire_clip = CLIP_STATE_UNKNOWN | CLIP_STATE_NONE | CLIP_STATE_GROWING | CLIP_STATE_FINAL

datatype wire_change = EVENT_CHANGE_UNKNOWN | EVENT_CHANGE_STARTED | EVENT_CHANGE_UPDATED | EVENT_CHANGE_ENDED

fun kind_to_proto :: "kind \<Rightarrow> wire_kind" where
  "kind_to_proto KindArrival = EVENT_KIND_ARRIVAL"
| "kind_to_proto KindDeparture = EVENT_KIND_DEPARTURE"
| "kind_to_proto KindPackage = EVENT_KIND_PACKAGE"
| "kind_to_proto KindDetection = EVENT_KIND_DETECTION"
| "kind_to_proto KindActivity = EVENT_KIND_ACTIVITY"
| "kind_to_proto KindState = EVENT_KIND_STATE"
| "kind_to_proto KindSighting = EVENT_KIND_SIGHTING"
| "kind_to_proto KindUnknown = EVENT_KIND_UNKNOWN"

fun clip_to_proto :: "clip_state \<Rightarrow> wire_clip" where
  "clip_to_proto ClipNone = CLIP_STATE_NONE"
| "clip_to_proto ClipGrowing = CLIP_STATE_GROWING"
| "clip_to_proto ClipFinal = CLIP_STATE_FINAL"
| "clip_to_proto ClipUnknown = CLIP_STATE_UNKNOWN"

fun op_to_proto :: "op \<Rightarrow> wire_change" where
  "op_to_proto OpStarted = EVENT_CHANGE_STARTED"
| "op_to_proto OpUpdated = EVENT_CHANGE_UPDATED"
| "op_to_proto OpEnded = EVENT_CHANGE_ENDED"
| "op_to_proto OpUnknown = EVENT_CHANGE_UNKNOWN"

text \<open>\<open>timestamppb.New\<close>: \<open>Unix()\<close> and \<open>Nanosecond()\<close>.\<close>

type_synonym timestamp = "int \<times> int"

definition timestamp_of :: "time \<Rightarrow> timestamp" where
  "timestamp_of t = (unix_sec t, (t - unix_epoch) mod Second)"

record wire_span =
  ws_Camera :: string
  ws_Label :: string
  ws_StartedAt :: timestamp
  ws_EndedAt :: "timestamp option"

record wire_event =
  we_Id :: string
  we_Camera :: string
  we_Label :: string
  we_SubLabel :: string
  we_Plate :: string
  we_Zones :: "string list"
  we_Kind :: wire_kind
  we_StartedAt :: timestamp
  we_EndedAt :: "timestamp option"
  we_HasSnapshot :: bool
  we_Clip :: wire_clip
  we_SourceId :: string
  we_SourceIds :: "string list"
  we_Path :: "string list"
  we_Cameras :: "string list"
  we_Objects :: "(string \<times> 32 word) list"
  we_Spans :: "wire_span list"

definition timestamp_opt :: "time \<Rightarrow> timestamp option" where
  "timestamp_opt t = (if is_zero t then None else Some (timestamp_of t))"

definition span_to_proto :: "span \<Rightarrow> wire_span" where
  "span_to_proto sp =
     \<lparr>ws_Camera = sp_Camera sp, ws_Label = sp_Label sp, ws_StartedAt = timestamp_of (sp_Start sp),
      ws_EndedAt = timestamp_opt (sp_End sp)\<rparr>"

text \<open>ToProto; the labels are sorted, so the order in which the map is ranged over does not show.\<close>

definition to_proto :: "event \<Rightarrow> wire_event" where
  "to_proto e =
     \<lparr>we_Id = ev_ID e, we_Camera = ev_Camera e, we_Label = ev_Label e, we_SubLabel = ev_SubLabel e,
      we_Plate = ev_Plate e, we_Zones = ev_Zones e, we_Kind = kind_to_proto (ev_Kind e),
      we_StartedAt = timestamp_of (ev_StartedAt e), we_EndedAt = timestamp_opt (ev_EndedAt e),
      we_HasSnapshot = ev_HasSnapshot e, we_Clip = clip_to_proto (ev_Clip e),
      we_SourceId = ev_SourceID e, we_SourceIds = ev_SourceIDs e, we_Path = ev_Path e,
      we_Cameras = ev_Cameras e,
      we_Objects = map (\<lambda>l. (l, word_of_int (case gm_get (ev_Objects e) l of None \<Rightarrow> 0 | Some n \<Rightarrow> n)))
                     (sort (gm_keys (ev_Objects e))),
      we_Spans = map span_to_proto (ev_Spans e)\<rparr>"

section \<open>ListEvents and WatchEvents\<close>

definition clamp_page :: "int \<Rightarrow> int" where
  "clamp_page n =
     (if n \<le> 0 then DefaultPageSize else if MaxPageSize < n then MaxPageSize else n)"

definition list_events :: "string list \<Rightarrow> int \<Rightarrow> string \<Rightarrow> store \<Rightarrow> rpc_code + wire_event list \<times> string" where
  "list_events cameras page_size token s =
     (case store_list cameras (clamp_page page_size) token s of
        Inl ErrBadToken \<Rightarrow> Inl InvalidArgument
      | Inr (events, next_token) \<Rightarrow> Inr (map to_proto events, next_token))"

text \<open>
  WatchEvents on the changes its channel delivers until it is closed.  \<open>sends\<close> is how many
  messages the stream takes before a Send fails, \<open>gone\<close> whether the client has left by then.
\<close>

datatype watch_end = SendFailed | ClientLeft | TooFarBehind

definition watch_events :: "nat \<Rightarrow> bool \<Rightarrow> change list \<Rightarrow> (wire_change \<times> wire_event) list \<times> watch_end" where
  "watch_events sends gone cs =
     (let ms = map (\<lambda>c. (op_to_proto (chg_op c), to_proto (chg_event c))) cs
      in if sends < length cs then (take sends ms, SendFailed)
         else (ms, if gone then ClientLeft else TooFarBehind))"

section \<open>Detect resolutions\<close>

record dims_table =
  dt_dims :: "detect_dims option"
  dt_at :: time

text \<open>
  DetectDims.  \<open>frigate\<close> is None when there is no Frigate, else what it would answer now.  The
  second result says whether it was asked.
\<close>

definition dims_known :: "dims_table \<Rightarrow> string list \<Rightarrow> bool" where
  "dims_known d cams =
     (case dt_dims d of None \<Rightarrow> False | Some m \<Rightarrow> list_all (\<lambda>c. gm_get m c \<noteq> None) cams)"

definition detect_dims_call :: "detect_dims option option \<Rightarrow> time \<Rightarrow> string list \<Rightarrow> dims_table
    \<Rightarrow> detect_dims \<times> bool \<times> dims_table" where
  "detect_dims_call frigate now cams d =
     (let current = (case dt_dims d of None \<Rightarrow> [] | Some m \<Rightarrow> m)
      in if dims_known d cams \<or> time_sub now (dt_at d) < 10 * Minute then (current, False, d)
         else case frigate of
           None \<Rightarrow> (current, False, d)
         | Some None \<Rightarrow> (current, True, d\<lparr>dt_at := now\<rparr>)
         | Some (Some m) \<Rightarrow> (m, True, \<lparr>dt_dims = Some m, dt_at = now\<rparr>))"

section \<open>What the wire keeps\<close>

fun wire_kind_of :: "wire_kind \<Rightarrow> kind" where
  "wire_kind_of EVENT_KIND_ARRIVAL = KindArrival"
| "wire_kind_of EVENT_KIND_DEPARTURE = KindDeparture"
| "wire_kind_of EVENT_KIND_PACKAGE = KindPackage"
| "wire_kind_of EVENT_KIND_DETECTION = KindDetection"
| "wire_kind_of EVENT_KIND_ACTIVITY = KindActivity"
| "wire_kind_of EVENT_KIND_STATE = KindState"
| "wire_kind_of EVENT_KIND_SIGHTING = KindSighting"
| "wire_kind_of EVENT_KIND_UNKNOWN = KindUnknown"

fun wire_clip_of :: "wire_clip \<Rightarrow> clip_state" where
  "wire_clip_of CLIP_STATE_NONE = ClipNone"
| "wire_clip_of CLIP_STATE_GROWING = ClipGrowing"
| "wire_clip_of CLIP_STATE_FINAL = ClipFinal"
| "wire_clip_of CLIP_STATE_UNKNOWN = ClipUnknown"

definition time_of :: "timestamp \<Rightarrow> time" where
  "time_of ts = time_unix (fst ts) (snd ts)"

definition time_of_opt :: "timestamp option \<Rightarrow> time" where
  "time_of_opt o' = (case o' of None \<Rightarrow> 0 | Some ts \<Rightarrow> time_of ts)"

text \<open>A reader of the API, putting the event together again.\<close>

definition from_proto :: "wire_event \<Rightarrow> event" where
  "from_proto w = zero_event\<lparr>
     ev_ID := we_Id w, ev_Camera := we_Camera w, ev_Label := we_Label w, ev_SubLabel := we_SubLabel w,
     ev_Plate := we_Plate w, ev_Zones := we_Zones w, ev_Kind := wire_kind_of (we_Kind w),
     ev_StartedAt := time_of (we_StartedAt w), ev_EndedAt := time_of_opt (we_EndedAt w),
     ev_HasSnapshot := we_HasSnapshot w, ev_Clip := wire_clip_of (we_Clip w),
     ev_SourceID := we_SourceId w, ev_SourceIDs := we_SourceIds w, ev_Path := we_Path w,
     ev_Cameras := we_Cameras w, ev_Objects := map (\<lambda>(l, n). (l, uint n)) (we_Objects w),
     ev_Spans := map (\<lambda>p. \<lparr>sp_Camera = ws_Camera p, sp_Label = ws_Label p,
        sp_Start = time_of (ws_StartedAt p), sp_End = time_of_opt (ws_EndedAt p)\<rparr>) (we_Spans w)\<rparr>"

lemma wire_enums [simp]:
  "wire_kind_of (kind_to_proto k) = k" "wire_clip_of (clip_to_proto c) = c"
  by (cases k; simp) (cases c; simp)

lemma time_of_timestamp [simp]: "time_of (timestamp_of t) = t" "time_of_opt (timestamp_opt t) = t"
  by (simp_all add: time_of_def timestamp_of_def time_unix_def unix_sec_def time_of_opt_def timestamp_opt_def)

lemma we_Id_to_proto: "we_Id (to_proto e) = ev_ID e"
  by (simp add: to_proto_def)

text \<open>
  C39. The wire loses nothing a reader is promised. An event put together again from its wire form
  is the event that was sent, except for the box evidence and the verdict, which are not for the
  API: every time to the nanosecond, the kind, the clip state, an end exactly when it has
  ended, and for each label the count, whatever order the run-time keeps the map in.
\<close>
theorem wire_roundtrip:
  assumes "gm_wf (ev_Objects e)" and "\<forall>(l, n) \<in> set (ev_Objects e). 0 \<le> n \<and> n < 2 ^ 32"
  shows "from_proto (to_proto e)
      = e\<lparr>ev_Quiet := False, ev_Boxes := [], ev_Objects := ev_Objects (from_proto (to_proto e))\<rparr> \<and>
    gm_get (ev_Objects (from_proto (to_proto e))) l = gm_get (ev_Objects e) l \<and>
    (mset (ev_Objects e) = mset (ev_Objects e') \<longrightarrow>
      we_Objects (to_proto e) = we_Objects (to_proto e'))"
proof (intro conjI impI)
  have "map (\<lambda>p. \<lparr>sp_Camera = sp_Camera p, sp_Label = sp_Label p, sp_Start = sp_Start p, sp_End = sp_End p\<rparr>) sps
      = sps" for sps by (rule map_idI) simp
  then show "from_proto (to_proto e)
      = e\<lparr>ev_Quiet := False, ev_Boxes := [], ev_Objects := ev_Objects (from_proto (to_proto e))\<rparr>"
    by (cases e) (simp add: from_proto_def to_proto_def zero_event_def span_to_proto_def comp_def)
  define m where "m = ev_Objects e"
  let ?n = "\<lambda>l. case gm_get m l of None \<Rightarrow> 0 | Some n \<Rightarrow> n"
  have range: "uint (word_of_int (?n l) :: 32 word) = ?n l" for l
    using assms(2) by (auto simp: m_def uint_word_of_int dest!: map_of_SomeD split: option.splits)
  have "ev_Objects (from_proto (to_proto e)) = map (\<lambda>l. (l, ?n l)) (sort (gm_keys m))"
    by (simp add: from_proto_def to_proto_def range flip: m_def)
  moreover have "gm_get (map (\<lambda>l. (l, ?n l)) ks) l = (if l \<in> set ks then Some (?n l) else None)" for ks
    by (induction ks) auto
  moreover have "l \<in> set (gm_keys m) \<longleftrightarrow> gm_get m l \<noteq> None" by (simp add: map_of_eq_None_iff)
  ultimately show "gm_get (ev_Objects (from_proto (to_proto e))) l = gm_get (ev_Objects e) l"
    by (auto simp flip: m_def split: option.splits)
  assume same: "mset (ev_Objects e) = mset (ev_Objects e')"
  then have wf': "gm_wf (ev_Objects e')"
    using assms(1) by (metis mset_map mset_eq_imp_distinct_iff)
  have "gm_get (ev_Objects e) = gm_get (ev_Objects e')"
    using same assms(1) wf' by (metis map_of_inject_set mset_eq_setD)
  moreover have "sort (gm_keys (ev_Objects e)) = sort (gm_keys (ev_Objects e'))"
    using same by (metis mset_map properties_for_sort mset_sort sorted_sort)
  ultimately show "we_Objects (to_proto e) = we_Objects (to_proto e')"
    by (simp add: to_proto_def)
qed

section \<open>Paging through the API\<close>

text \<open>A client that asks for page after page until one is empty, as in the store.\<close>

fun api_pages :: "nat \<Rightarrow> string list \<Rightarrow> int \<Rightarrow> string \<Rightarrow> store \<Rightarrow> rpc_code + wire_event list list" where
  "api_pages 0 cameras n token s = Inr []"
| "api_pages (Suc fuel) cameras n token s =
     (case list_events cameras n token s of
        Inl err \<Rightarrow> Inl err
      | Inr (page, token') \<Rightarrow>
          if page = [] then Inr []
          else case api_pages fuel cameras n token' s of
                 Inl err \<Rightarrow> Inl err
               | Inr ps \<Rightarrow> Inr (page # ps))"

lemma api_pages_store:
  "api_pages fuel cameras n token s =
     (case all_pages fuel cameras (clamp_page n) token s of
        Inl ErrBadToken \<Rightarrow> Inl InvalidArgument
      | Inr ps \<Rightarrow> Inr (map (map to_proto) ps))"
  by (induction fuel cameras n token s rule: api_pages.induct)
    (auto simp: list_events_def split: sum.splits store_error.splits prod.splits)

lemma clamp_page_range: "0 < clamp_page n \<and> clamp_page n \<le> MaxPageSize"
  by (simp add: clamp_page_def)

text \<open>
  C9. While the stored events have ids and start times that 64-bit nanoseconds hold (what a cursor
  can carry), paging through ListEvents, whatever page size is asked for, gives every stored event of the
  cameras asked for exactly once, newest first and in its wire form, in pages of at most 500
  that are full but for the last; no page is refused.
\<close>
theorem api_pages_complete:
  assumes "store_inv s" and "listable s" and "length (ss_ordered s) < fuel"
  shows "\<exists>ps. api_pages fuel cameras n [] s = Inr ps
    \<and> concat ps = map to_proto
        (filter (\<lambda>ev. wants (camera_set cameras) (ev_Camera ev)) (map en_ev (ss_ordered s)))
    \<and> (\<forall>p \<in> set ps. p \<noteq> [] \<and> length p \<le> 500)
    \<and> (\<forall>p \<in> set (butlast ps). int (length p) = clamp_page n)"
proof -
  have few: "length (wanted cameras (ss_ordered s)) < fuel"
    using assms(3) by (simp add: wanted_def order.strict_trans1 [OF length_filter_le])
  have "\<exists>ps. all_pages fuel cameras (clamp_page n) [] s = Inr ps
      \<and> concat ps = map en_ev (wanted cameras (ss_ordered s))
      \<and> (\<forall>p \<in> set ps. p \<noteq> [] \<and> int (length p) \<le> clamp_page n)
      \<and> (\<forall>p \<in> set (butlast ps). int (length p) = clamp_page n)"
    by (rule all_pages_left [OF assms(1,2) clamp_page_range [THEN conjunct1] _ few]) simp
  then obtain ps where ps: "all_pages fuel cameras (clamp_page n) [] s = Inr ps"
    "concat ps = map en_ev (wanted cameras (ss_ordered s))"
    "\<forall>p \<in> set ps. p \<noteq> [] \<and> int (length p) \<le> clamp_page n"
    "\<forall>p \<in> set (butlast ps). int (length p) = clamp_page n" by blast
  have "concat (map (map to_proto) ps) = map to_proto (map en_ev (wanted cameras (ss_ordered s)))"
    by (simp only: ps(2) flip: map_concat)
  then have "concat (map (map to_proto) ps) = map to_proto
      (filter (\<lambda>ev. wants (camera_set cameras) (ev_Camera ev)) (map en_ev (ss_ordered s)))"
    by (simp add: wanted_def filter_map comp_def)
  moreover have "\<forall>p \<in> set (map (map to_proto) ps). p \<noteq> [] \<and> length p \<le> 500"
    using ps(3) clamp_page_range [of n] by fastforce
  moreover have "\<forall>p \<in> set (butlast (map (map to_proto) ps)). int (length p) = clamp_page n"
    using ps(4) by (auto simp flip: map_butlast)
  ultimately show ?thesis
    by (intro exI [of _ "map (map to_proto) ps"]) (simp add: api_pages_store ps(1))
qed

section \<open>How often Frigate is asked for its resolutions\<close>

fun dims_run :: "(detect_dims option option \<times> time \<times> string list) list \<Rightarrow> dims_table
    \<Rightarrow> time list \<times> dims_table" where
  "dims_run [] d = ([], d)"
| "dims_run ((frigate, now, cams) # calls) d =
     (let (_, asked, d1) = detect_dims_call frigate now cams d;
          (asks, d2) = dims_run calls d1
      in ((if asked then now # asks else asks), d2))"

lemma dims_run_spaced:
  "dims_run calls d = (asks, d') \<Longrightarrow>
     successively (\<lambda>a b. a + 10 * Minute \<le> b) (dt_at d # asks) \<and> dt_at d' = last (dt_at d # asks)"
proof (induction calls d arbitrary: asks rule: dims_run.induct)
  case (2 frigate now cams calls d)
  obtain m asked d1 where call: "detect_dims_call frigate now cams d = (m, asked, d1)"
    by (cases "detect_dims_call frigate now cams d")
  obtain ts where run: "dims_run calls d1 = (ts, d')"
    using 2(2) by (auto simp: call split: prod.splits)
  have step: "if asked then dt_at d1 = now \<and> dt_at d + 10 * Minute \<le> now else dt_at d1 = dt_at d"
    using call time_sub_ge [of "10 * Minute" now "dt_at d"]
    by (auto simp: detect_dims_call_def Let_def split: if_splits option.splits)
  have "asks = (if asked then now # ts else ts)" using 2(2) by (simp add: call run)
  with step 2(1) [OF call [symmetric] refl refl run] show ?case by (auto split: if_splits)
qed simp

text \<open>
  Further. DetectDims is gentle: whoever asks, for whatever cameras and with whatever answers,
  Frigate is asked again only ten minutes or more after the last time; while it is not asked or
  does not answer the table stays as it is, and an answer replaces it.
\<close>
theorem dims_asked_rarely:
  assumes "dims_run calls d = (asks, d')"
  shows "successively (\<lambda>a b. a + 10 * Minute \<le> b) asks \<and>
    (detect_dims_call frigate now cams d = (m, False, d1) \<longrightarrow> d1 = d \<and> m = (case dt_dims d of None \<Rightarrow> [] | Some m \<Rightarrow> m)) \<and>
    (detect_dims_call (Some (Some a)) now cams d = (m, True, d1) \<longrightarrow> m = a \<and> dt_dims d1 = Some a)"
proof (intro conjI impI)
  show "successively (\<lambda>a b. a + 10 * Minute \<le> b) asks"
    using dims_run_spaced [OF assms] by (cases asks) auto
  show "d1 = d" "m = (case dt_dims d of None \<Rightarrow> [] | Some m \<Rightarrow> m)"
    if "detect_dims_call frigate now cams d = (m, False, d1)"
    using that by (auto simp: detect_dims_call_def Let_def split: if_splits option.splits)
  show "m = a" "dt_dims d1 = Some a"
    if "detect_dims_call (Some (Some a)) now cams d = (m, True, d1)"
    using that by (auto simp: detect_dims_call_def Let_def split: if_splits)
qed

section \<open>Witnesses\<close>

theorem wire_roundtrip_witness:
  "ev_EndedAt (from_proto (to_proto (zero_event\<lparr>ev_EndedAt := 7, ev_Objects := [(''cat'', 2)]\<rparr>))) = 7"
proof -
  define e where "e = zero_event\<lparr>ev_EndedAt := 7, ev_Objects := [(''cat'', 2)]\<rparr>"
  have "gm_wf (ev_Objects e)" "\<forall>(l, n) \<in> set (ev_Objects e). 0 \<le> n \<and> n < 2 ^ 32"
    by (simp_all add: e_def)
  from wire_roundtrip [OF this, THEN conjunct1] have "ev_EndedAt (from_proto (to_proto e))
      = ev_EndedAt (e\<lparr>ev_Quiet := False, ev_Boxes := [], ev_Objects := ev_Objects (from_proto (to_proto e))\<rparr>)"
    by (rule arg_cong)
  then have "ev_EndedAt (from_proto (to_proto e)) = ev_EndedAt e" by simp
  moreover have "ev_EndedAt e = 7" by (simp add: e_def)
  ultimately show ?thesis unfolding e_def by (rule trans)
qed

theorem api_pages_complete_witness:
  "\<exists>ps. api_pages 3 [] 0 [] (store_apply 9 (Change OpStarted
      (zero_event\<lparr>ev_ID := ''x'', ev_StartedAt := unix_epoch + 7\<rparr>)) (new_store Hour)) = Inr ps
    \<and> map we_Id (concat ps) = [''x'']"
proof -
  define ev s where "ev = zero_event\<lparr>ev_ID := ''x'', ev_StartedAt := unix_epoch + 7\<rparr>"
    and "s = store_apply 9 (Change OpStarted ev) (new_store Hour)"
  have ord: "map en_ev (ss_ordered s) = [ev]"
    by (simp add: s_def store_apply_def new_store_def Let_def insert_entry_def)
  have lst: "listable s" using ord by (auto simp: listable_def ev_def)
  have len: "length (ss_ordered s) < 3" using arg_cong [OF ord, of length] by simp
  have inv: "store_inv s" unfolding s_def ev_def by (rule sample_inv)
  obtain ps where ps: "api_pages 3 [] 0 [] s = Inr ps"
    "concat ps = map to_proto (filter (\<lambda>ev. wants (camera_set []) (ev_Camera ev)) (map en_ev (ss_ordered s)))"
    using api_pages_complete [OF inv lst len, of "[]" 0] by (elim exE conjE) (rule that)
  have "map we_Id (concat ps) = [''x'']"
    unfolding ps(2) ord by (simp add: wants_def camera_set_def we_Id_to_proto) (simp add: ev_def)
  with ps(1) have "\<exists>ps. api_pages 3 [] 0 [] s = Inr ps \<and> map we_Id (concat ps) = [''x'']"
    by (intro exI conjI)
  then show ?thesis unfolding s_def ev_def .
qed

theorem dims_asked_rarely_witness:
  "\<exists>asks d. dims_run [(Some None, 11 * Minute, [''a'']), (Some (Some []), 12 * Minute, [''a''])]
      \<lparr>dt_dims = None, dt_at = 0\<rparr> = (asks, d) \<and> asks = [11 * Minute]
    \<and> successively (\<lambda>a b. a + 10 * Minute \<le> b) asks"
proof -
  let ?calls = "[(Some None, 11 * Minute, [''a'']), (Some (Some []), 12 * Minute, [''a''])]"
  let ?d = "\<lparr>dt_dims = None, dt_at = 0\<rparr>"
  have "fst (dims_run ?calls ?d) = [11 * Minute]" by code_simp
  then obtain d where run: "dims_run ?calls ?d = ([11 * Minute], d)"
    by (cases "dims_run ?calls ?d") auto
  with dims_asked_rarely [OF run] show ?thesis by blast
qed

end
