(* ===== verification/Media.thy ===== *)
theory Media
  imports Server Captoken Mediacache
begin

text \<open>
  The media door (\<open>internal/server/media.go\<close>): which cut of an event is served, GetMedia, the
  capability links, and the handler that opens them, from the cut cache or straight from Frigate.

  A request to Frigate goes through the client of \<open>Frigate\<close>; what comes back over HTTP is a
  function of the path and an argument here, as is everything else the code does not decide
  (\<open>world\<close>).  One handler call is one step: its cache fill runs through the locked sections of
  \<open>Mediacache\<close> without another caller between them, and a flight of another caller it waits for
  ends as the world says.  \<open>http.ServeContent\<close>, which answers ranges, is not modelled: a response
  says which bytes it serves.
\<close>

section \<open>Cuts\<close>

abbreviation (input) clipMargin :: duration where "clipMargin \<equiv> 5000000000"
abbreviation (input) warmGrace :: duration where "warmGrace \<equiv> 5000000000"
abbreviation (input) MEDIA_SNAPSHOT :: int where "MEDIA_SNAPSHOT \<equiv> 1"
abbreviation (input) MEDIA_CLIP :: int where "MEDIA_CLIP \<equiv> 2"

definition warm_ladder :: "duration list" where
  "warm_ladder = [15 * Second, 30 * Second, Minute, 2 * Minute, 4 * Minute]"

definition latest_checkpoint :: "time \<Rightarrow> time \<Rightarrow> time" where
  "latest_checkpoint started now =
     fold (\<lambda>b best. if b + warmGrace \<le> time_sub now started then started + b else best) warm_ladder 0"

definition clip_cut :: "event \<Rightarrow> time \<Rightarrow> bool \<Rightarrow> time \<times> time \<times> bool" where
  "clip_cut e now checkpoints =
     (let start = ev_StartedAt e + - clipMargin;
          cp = latest_checkpoint (ev_StartedAt e) now
      in if \<not> is_zero (ev_EndedAt e) then (start, ev_EndedAt e + clipMargin, True)
         else if checkpoints \<and> \<not> is_zero cp then (start, cp, True)
         else (start, now, False))"

text \<open>
  \<open>%q\<close>: the printable ASCII characters as they are, the others of ASCII escaped; a byte above
  127 is taken to be printable text.
\<close>

definition quote_char :: "char \<Rightarrow> string" where
  "quote_char c =
     (let n = (of_char c :: nat) in
      if c = CHR 0x22 then [CHR 0x5C, CHR 0x22]
      else if c = CHR 0x5C then [CHR 0x5C, CHR 0x5C]
      else if n = 7 then [CHR 0x5C, CHR ''a'']
      else if n = 8 then [CHR 0x5C, CHR ''b'']
      else if n = 9 then [CHR 0x5C, CHR ''t'']
      else if n = 10 then [CHR 0x5C, CHR ''n'']
      else if n = 11 then [CHR 0x5C, CHR ''v'']
      else if n = 12 then [CHR 0x5C, CHR ''f'']
      else if n = 13 then [CHR 0x5C, CHR ''r'']
      else if n < 32 \<or> n = 127 then [CHR 0x5C, CHR ''x''] @ hex_encode [c]
      else [c])"

definition go_quote :: "string \<Rightarrow> string" where
  "go_quote s = [CHR 0x22] @ concat (map quote_char s) @ [CHR 0x22]"

definition cut_tag :: "string \<Rightarrow> time \<Rightarrow> time \<Rightarrow> string" where
  "cut_tag camera start till =
     go_quote (camera @ ''-'' @ itoa (unix_sec start) @ ''-'' @ itoa (unix_sec till))"

definition clip_key :: "string \<Rightarrow> time \<Rightarrow> time \<Rightarrow> cache_key" where
  "clip_key camera start till =
     \<lparr>ck_Media = ''clip'', ck_Ref = camera, ck_Start = unix_sec start, ck_End = unix_sec till,
      ck_Variant = []\<rparr>"

definition snap_key :: "event \<Rightarrow> cache_key" where
  "snap_key e =
     \<lparr>ck_Media = ''snapshot'', ck_Ref = ev_SourceID e, ck_Start = 0, ck_End = 0, ck_Variant = []\<rparr>"

text \<open>\<open>eventCameras\<close> of \<open>warm.go\<close>.\<close>

definition event_cameras :: "event \<Rightarrow> string list" where
  "event_cameras e =
     (if ev_Camera e \<noteq> [] then [ev_Camera e] else []) @ filter (\<lambda>c. c \<noteq> ev_Camera e) (ev_Cameras e)"

section \<open>The server\<close>

record counters =
  ct_linksMinted :: "64 word"
  ct_linksOpened :: "64 word"
  ct_linksInvalid :: "64 word"
  ct_linksExpired :: "64 word"
  ct_fetches :: "64 word"
  ct_bytes :: "64 word"
  ct_failures :: "64 word"
  ct_hits :: "64 word"
  ct_misses :: "64 word"

record media_server =
  sv_store :: store
  sv_keys :: "keyring option"
  sv_frigate :: bool
  sv_ttl :: duration
  sv_cache :: "cache option"
  sv_counts :: counters

definition tally :: "(counters \<Rightarrow> counters) \<Rightarrow> media_server \<Rightarrow> media_server" where
  "tally f sv = sv\<lparr>sv_counts := f (sv_counts sv)\<rparr>"

definition one_failure :: "media_server \<Rightarrow> media_server" where
  "one_failure = tally (\<lambda>c. c\<lparr>ct_failures := ct_failures c + 1\<rparr>)"

definition one_fetch :: "media_server \<Rightarrow> media_server" where
  "one_fetch = tally (\<lambda>c. c\<lparr>ct_fetches := ct_fetches c + 1\<rparr>)"

definition add_bytes :: "nat \<Rightarrow> media_server \<Rightarrow> media_server" where
  "add_bytes n = tally (\<lambda>c. c\<lparr>ct_bytes := ct_bytes c + of_nat n\<rparr>)"

section \<open>Frigate's answers\<close>

text \<open>An answer over HTTP: its head, the pieces its body comes in, and whether the body breaks off.\<close>

record http_answer =
  ha_resp :: response
  ha_reads :: "bytes list"
  ha_broken :: bool

type_synonym frigate_http = "string \<Rightarrow> http_answer option"

type_synonym body = "bytes list \<times> bool"

datatype ask_error = NoSuchMedia | NoAnswer

datatype cut_source = ClipOf string time time | SnapshotOf string

definition frigate_get :: "frigate_http \<Rightarrow> client_error + string \<Rightarrow> string \<Rightarrow> ask_error + media \<times> body" where
  "frigate_get http request want =
     (case request of
        Inl _ \<Rightarrow> Inl NoSuchMedia
      | Inr path \<Rightarrow>
          (case http path of
             None \<Rightarrow> Inl NoAnswer
           | Some a \<Rightarrow>
               (case get_media (ha_resp a) want of
                  Inl ErrNotFound \<Rightarrow> Inl NoSuchMedia
                | Inl _ \<Rightarrow> Inl NoAnswer
                | Inr m \<Rightarrow> Inr (m, ha_reads a, ha_broken a))))"

fun ask :: "frigate_http \<Rightarrow> cut_source \<Rightarrow> ask_error + media \<times> body" where
  "ask http (ClipOf camera start till) = frigate_get http (clip_request camera start till) ''video/mp4''"
| "ask http (SnapshotOf source) = frigate_get http (snapshot_request source) ''image/jpeg''"

record world =
  wd_http :: frigate_http
  wd_fill :: frigate_http
  wd_joined :: "string option"
  wd_rm :: "string \<Rightarrow> bool"
  wd_pick :: cache_pick
  wd_spool :: bool
  wd_sent :: nat
  wd_write_ok :: bool

section \<open>Resolving and fetching\<close>

definition resolve_event :: "store \<Rightarrow> string \<Rightarrow> int \<Rightarrow> string \<Rightarrow> rpc_code + event" where
  "resolve_event s event_id md camera =
     (case store_get event_id s of
        None \<Rightarrow> Inl NotFound
      | Some e \<Rightarrow>
          if camera \<noteq> [] \<and> (md \<noteq> MEDIA_CLIP \<or> camera \<noteq> ev_Camera e \<and> camera \<notin> set (ev_Cameras e))
          then Inl NotFound
          else let e' = (if camera \<noteq> [] then e\<lparr>ev_Camera := camera\<rparr> else e)
               in if md = MEDIA_SNAPSHOT then (if ev_HasSnapshot e' then Inr e' else Inl NotFound)
                  else if md = MEDIA_CLIP then Inr e'
                  else Inl InvalidArgument)"

text \<open>The request fetch makes, and its entity tag (empty for bytes that may change).\<close>

definition direct_cut :: "event \<Rightarrow> int \<Rightarrow> time \<Rightarrow> cut_source \<times> string" where
  "direct_cut e md now =
     (if md = MEDIA_SNAPSHOT then (SnapshotOf (ev_SourceID e), [])
      else let (start, till, stable) = clip_cut e now False
           in (ClipOf (ev_Camera e) start till, if stable then cut_tag (ev_Camera e) start till else []))"

definition fetch_media :: "frigate_http \<Rightarrow> time \<Rightarrow> string \<Rightarrow> int \<Rightarrow> string \<Rightarrow> media_server
    \<Rightarrow> (rpc_code + media \<times> body \<times> string) \<times> media_server" where
  "fetch_media http now event_id md camera sv =
     (case resolve_event (sv_store sv) event_id md camera of
        Inl err \<Rightarrow> (Inl err, sv)
      | Inr e \<Rightarrow>
          let (source, etag) = direct_cut e md now
          in case ask http source of
               Inl NoSuchMedia \<Rightarrow> (Inl NotFound, one_failure sv)
             | Inl NoAnswer \<Rightarrow> (Inl Unavailable, one_failure sv)
             | Inr (m, b) \<Rightarrow> (Inr (m, b, etag), one_fetch sv))"

section \<open>GetMedia\<close>

datatype media_message = Info string int | Chunk bytes

datatype media_end = Finished | SendBroken | StreamFailed rpc_code

text \<open>
  The loop of GetMedia over the pieces of the body; \<open>sends\<close> is how many messages the stream still
  takes.  The result: the chunks sent, how it ended, and the bytes counted.
\<close>

fun send_chunks :: "nat \<Rightarrow> bytes list \<Rightarrow> bool \<Rightarrow> media_message list \<times> media_end \<times> nat" where
  "send_chunks sends [] broken = ([], if broken then StreamFailed Unavailable else Finished, 0)"
| "send_chunks sends (r # rs) broken =
     (if r = [] then send_chunks sends rs broken
      else if sends = 0 then ([], SendBroken, length r)
      else let (ms, e, n) = send_chunks (sends - 1) rs broken in (Chunk r # ms, e, length r + n))"

definition get_media_rpc :: "frigate_http \<Rightarrow> nat \<Rightarrow> time \<Rightarrow> string \<Rightarrow> int \<Rightarrow> string \<Rightarrow> media_server
    \<Rightarrow> media_message list \<times> media_end \<times> media_server" where
  "get_media_rpc http sends now event_id md camera sv =
     (if \<not> sv_frigate sv then ([], StreamFailed Unavailable, sv)
      else case fetch_media http now event_id md camera sv of
        (Inl err, sv1) \<Rightarrow> ([], StreamFailed err, sv1)
      | (Inr (m, (reads, broken), etag), sv1) \<Rightarrow>
          let info = Info (media_type m) (if 0 < media_size m then media_size m else 0)
          in if sends = 0 then ([], SendBroken, sv1)
             else let (ms, e, n) = send_chunks (sends - 1) reads broken;
                      sv2 = add_bytes n sv1
                  in (info # ms, e, if e = StreamFailed Unavailable then one_failure sv2 else sv2))"

section \<open>Links\<close>

definition camera_link :: "event \<Rightarrow> int \<Rightarrow> string \<Rightarrow> time \<Rightarrow> media_server \<Rightarrow> string option \<times> media_server" where
  "camera_link e md camera now sv =
     (case sv_keys sv of
        None \<Rightarrow> (None, sv)
      | Some kr \<Rightarrow>
          (Some (''/media/'' @ mint kr \<lparr>cl_EventID = ev_ID e, cl_Media = md mod 256, cl_Camera = camera,
                                       cl_Expires = now + sv_ttl sv\<rparr>),
           tally (\<lambda>c. c\<lparr>ct_linksMinted := ct_linksMinted c + 1\<rparr>) sv))"

definition link :: "event \<Rightarrow> int \<Rightarrow> time \<Rightarrow> media_server \<Rightarrow> string option \<times> media_server" where
  "link e md now sv = camera_link e md [] now sv"

section \<open>The cut cache\<close>

text \<open>What serveCached asks the cache for: the key, the tag, the content type and the source.\<close>

definition cached_cut :: "event \<Rightarrow> int \<Rightarrow> time \<Rightarrow> (cache_key \<times> string \<times> string \<times> cut_source) option" where
  "cached_cut e md now =
     (if md = MEDIA_SNAPSHOT then
        if is_zero (ev_EndedAt e) then None
        else Some (snap_key e, go_quote (ev_SourceID e @ ''-snap''), ''image/jpeg'', SnapshotOf (ev_SourceID e))
      else if md = MEDIA_CLIP then
        if \<not> is_zero (ev_EndedAt e) \<and> now < ev_EndedAt e + (clipMargin + warmGrace) then None
        else let (start, till, stable) = clip_cut e now True
             in if \<not> stable then None
                else Some (clip_key (ev_Camera e) start till, cut_tag (ev_Camera e) start till,
                           ''video/mp4'', ClipOf (ev_Camera e) start till)
      else None)"

text \<open>
  Fill with the fetch \<open>clipFetch\<close> or \<open>snapshotFetch\<close>, in one go: the lead fetches and stores, a
  waiter gets what the flight ends in, and without a free slot the request's context ends first.
\<close>

definition cache_fill :: "world \<Rightarrow> cache_key \<Rightarrow> cut_source \<Rightarrow> cache \<Rightarrow> media_server
    \<Rightarrow> string option \<times> media_server" where
  "cache_fill w k source c sv =
     (case fill_begin k c of
        (Hit p, c1) \<Rightarrow> (Some p, sv\<lparr>sv_cache := Some c1\<rparr>)
      | (Join, c1) \<Rightarrow> (wd_joined w, sv\<lparr>sv_cache := Some c1\<rparr>)
      | (Lead, c1) \<Rightarrow>
          (case fill_slot k c1 of
             None \<Rightarrow> (None, sv\<lparr>sv_cache := Some (fill_leave k (fill_fail k c1))\<rparr>)
           | Some c2 \<Rightarrow>
               (case ask (wd_fill w) source of
                  Inl _ \<Rightarrow> (None, one_failure (sv\<lparr>sv_cache := Some (fill_leave k (fill_fail k c2))\<rparr>))
                | Inr (m, reads, broken) \<Rightarrow>
                    if broken then (None, one_fetch (sv\<lparr>sv_cache := Some (fill_leave k (fill_fail k c2))\<rparr>))
                    else (Some (key_path (mc_dir c2) k),
                          one_fetch (sv\<lparr>sv_cache := Some (fill_leave k
                            (fill_store (wd_rm w) (wd_pick w) k (int (length (concat reads))) c2))\<rparr>)))))"

definition clip_cached :: "event \<Rightarrow> time \<Rightarrow> media_server \<Rightarrow> bool" where
  "clip_cached e now sv =
     (case sv_cache sv of
        None \<Rightarrow> False
      | Some c \<Rightarrow>
          if ev_Clip e = ClipNone then False
          else if \<not> is_zero (ev_EndedAt e) \<and> now < ev_EndedAt e + (clipMargin + warmGrace) then False
          else let (start, till, stable) = clip_cut e now True
               in stable \<and> list_all (\<lambda>cam. cache_contains (clip_key cam start till) c) (event_cameras e))"

section \<open>The handler\<close>

text \<open>
  What a response serves: a message, a cached file, a spooled cut, or the stream as it came.  The
  headers \<open>http.Error\<close> sets are left out.
\<close>

datatype payload = Text string | CacheFile string | Spooled bytes | Streamed bytes | Nothing

record reply =
  rp_status :: nat
  rp_headers :: "(string \<times> string) list"
  rp_payload :: payload

definition not_found :: reply where
  "not_found = \<lparr>rp_status = 404, rp_headers = [], rp_payload = Text ''not found''\<rparr>"

definition bad_gateway :: reply where
  "bad_gateway = \<lparr>rp_status = 502, rp_headers = [], rp_payload = Text ''media source unavailable''\<rparr>"

text \<open>The three headers every success has; durations are divided truncating towards zero.\<close>

definition media_headers :: "string \<Rightarrow> time \<Rightarrow> claims \<Rightarrow> (string \<times> string) list" where
  "media_headers ctype now cl =
     (let d = time_sub (cl_Expires cl) now
      in [(''Content-Type'', ctype),
          (''Cache-Control'', ''private, max-age='' @ itoa (sgn d * (\<bar>d\<bar> div Second))),
          (''X-Content-Type-Options'', ''nosniff'')])"

definition serve_cached :: "world \<Rightarrow> time \<Rightarrow> claims \<Rightarrow> cache \<Rightarrow> media_server \<Rightarrow> reply option \<times> media_server" where
  "serve_cached w now cl c sv =
     (case resolve_event (sv_store sv) (cl_EventID cl) (cl_Media cl) (cl_Camera cl) of
        Inl _ \<Rightarrow> (None, sv)
      | Inr e \<Rightarrow>
          (case cached_cut e (cl_Media cl) now of
             None \<Rightarrow> (None, sv)
           | Some (k, etag, ctype, source) \<Rightarrow>
               let (path, sv1) = (case cache_get k c of
                       (Some p, c1) \<Rightarrow>
                         (Some p, tally (\<lambda>n. n\<lparr>ct_hits := ct_hits n + 1\<rparr>) (sv\<lparr>sv_cache := Some c1\<rparr>))
                     | (None, c1) \<Rightarrow>
                         cache_fill w k source c1 (tally (\<lambda>n. n\<lparr>ct_misses := ct_misses n + 1\<rparr>) sv))
               in case path of
                    None \<Rightarrow> (None, sv1)
                  | Some p \<Rightarrow>
                      if (case sv_cache sv1 of None \<Rightarrow> False | Some c2 \<Rightarrow> gm_get (mc_files c2) p \<noteq> None)
                      then (Some \<lparr>rp_status = 200,
                                  rp_headers = media_headers ctype now cl @ [(''ETag'', etag)],
                                  rp_payload = CacheFile p\<rparr>,
                            add_bytes (wd_sent w) sv1)
                      else (None, sv1)))"

text \<open>serveRanged: None when no slot or no spool file is to be had.\<close>

definition serve_ranged :: "world \<Rightarrow> string \<Rightarrow> body \<Rightarrow> (string \<times> string) list \<Rightarrow> media_server
    \<Rightarrow> (reply \<times> media_server) option" where
  "serve_ranged w etag b headers sv =
     (if \<not> wd_spool w then None
      else if snd b then Some (bad_gateway, one_failure sv)
      else Some (\<lparr>rp_status = 200, rp_headers = headers @ [(''ETag'', etag)],
                  rp_payload = Spooled (concat (fst b))\<rparr>, add_bytes (wd_sent w) sv))"

definition serve_direct :: "world \<Rightarrow> string \<Rightarrow> time \<Rightarrow> claims \<Rightarrow> media_server \<Rightarrow> reply \<times> media_server" where
  "serve_direct w verb now cl sv =
     (case fetch_media (wd_http w) now (cl_EventID cl) (cl_Media cl) (cl_Camera cl) sv of
        (Inl err, sv1) \<Rightarrow> (if err = Unavailable then bad_gateway else not_found, sv1)
      | (Inr (m, b, etag), sv1) \<Rightarrow>
          let headers = media_headers (media_type m) now cl;
              size_header = (if 0 \<le> media_size m then [(''Content-Length'', itoa (media_size m))] else []);
              tag_header = (if etag \<noteq> [] then [(''ETag'', etag), (''Accept-Ranges'', ''bytes'')] else []);
              sent = min (wd_sent w) (length (concat (fst b)))
          in if verb = ''HEAD'' then
               (\<lparr>rp_status = 200, rp_headers = headers @ tag_header @ size_header, rp_payload = Nothing\<rparr>, sv1)
             else case (if etag \<noteq> [] then serve_ranged w etag b headers sv1 else None) of
               Some r \<Rightarrow> r
             | None \<Rightarrow>
                 (\<lparr>rp_status = 200, rp_headers = headers @ [(''Accept-Ranges'', ''none'')] @ size_header,
                   rp_payload = Streamed (concat (fst b))\<rparr>,
                  (let sv2 = add_bytes sent sv1
                   in if snd b \<or> \<not> wd_write_ok w then one_failure sv2 else sv2)))"

definition media_handler :: "world \<Rightarrow> string \<Rightarrow> string \<Rightarrow> time \<Rightarrow> media_server \<Rightarrow> reply \<times> media_server" where
  "media_handler w verb path now sv =
     (if verb \<noteq> ''GET'' \<and> verb \<noteq> ''HEAD'' then
        (\<lparr>rp_status = 405, rp_headers = [(''Allow'', ''GET, HEAD'')], rp_payload = Text ''method not allowed''\<rparr>, sv)
      else case sv_keys sv of
        None \<Rightarrow> (not_found, sv)
      | Some kr \<Rightarrow>
          if \<not> sv_frigate sv then (not_found, sv)
          else case verify kr (trim_prefix path ''/media/'') now of
            Inl (ErrExpired, _) \<Rightarrow> (not_found, tally (\<lambda>c. c\<lparr>ct_linksExpired := ct_linksExpired c + 1\<rparr>) sv)
          | Inl _ \<Rightarrow> (not_found, tally (\<lambda>c. c\<lparr>ct_linksInvalid := ct_linksInvalid c + 1\<rparr>) sv)
          | Inr cl \<Rightarrow>
              let sv1 = tally (\<lambda>c. c\<lparr>ct_linksOpened := ct_linksOpened c + 1\<rparr>) sv
              in case (case sv_cache sv1 of None \<Rightarrow> (None, sv1) | Some c \<Rightarrow> serve_cached w now cl c sv1) of
                   (Some r, sv2) \<Rightarrow> (r, sv2)
                 | (None, sv2) \<Rightarrow> serve_direct w verb now cl sv2)"

section \<open>Every cut that is cached has settled\<close>

lemma checkpoint_cases:
  "(latest_checkpoint s now = 0 \<and> (\<forall>b \<in> set warm_ladder. \<not> b + warmGrace \<le> now - s)) \<or>
   (\<exists>b \<in> set warm_ladder. latest_checkpoint s now = s + b \<and> b + warmGrace \<le> now - s \<and>
     (\<forall>b' \<in> set warm_ladder. b' + warmGrace \<le> now - s \<longrightarrow> b' \<le> b))"
  by (simp add: latest_checkpoint_def warm_ladder_def time_sub_ge)

lemma rung_range: "b \<in> set warm_ladder \<Longrightarrow> 15 * Second \<le> b \<and> b \<le> 4 * Minute"
  by (auto simp: warm_ladder_def)

text \<open>The bounds of a clip: what the cut of an event may be at a time.\<close>

definition cut_bounds :: "event \<Rightarrow> time \<Rightarrow> time \<Rightarrow> time \<Rightarrow> bool" where
  "cut_bounds e now s t \<longleftrightarrow> s = ev_StartedAt e - clipMargin \<and>
     (if is_zero (ev_EndedAt e)
      then \<exists>b \<in> set warm_ladder. t = ev_StartedAt e + b \<and> b + warmGrace \<le> now - ev_StartedAt e
        \<and> (\<forall>b' \<in> set warm_ladder. b' + warmGrace \<le> now - ev_StartedAt e \<longrightarrow> b' \<le> b)
      else t = ev_EndedAt e + clipMargin)"

lemma clip_cut_stable:
  assumes "clip_cut e now True = (s, t, True)"
  shows "cut_bounds e now s t"
  using assms checkpoint_cases [of "ev_StartedAt e" now]
  by (auto simp: clip_cut_def cut_bounds_def Let_def split: if_splits)

lemma cached_cut_clip:
  assumes "cached_cut e MEDIA_CLIP now = Some (k, tag, ctype, source)"
  shows "\<exists>s t. clip_cut e now True = (s, t, True) \<and> k = clip_key (ev_Camera e) s t
    \<and> tag = cut_tag (ev_Camera e) s t \<and> ctype = ''video/mp4'' \<and> source = ClipOf (ev_Camera e) s t
    \<and> (is_zero (ev_EndedAt e) \<or> ev_EndedAt e + (clipMargin + warmGrace) \<le> now)"
  using assms by (auto simp: cached_cut_def split: if_splits prod.splits)

text \<open>
  C29. No truncated cut is frozen. Every clip the handler asks the cache for is a cut whose last
  second lies at least five seconds back, so Frigate has it on disk: from five seconds before
  the event to five seconds after its end, or, while it runs, to the newest rung of the ladder
  that has settled; the key names exactly that cut of that camera.
\<close>
theorem cached_cut_settled:
  assumes "cached_cut e md now = Some (k, tag, ctype, ClipOf cam s t)"
  shows "t + warmGrace \<le> now \<and> cut_bounds e now s t \<and> cam = ev_Camera e \<and> k = clip_key cam s t"
proof -
  have "md = MEDIA_CLIP" using assms by (auto simp: cached_cut_def split: if_splits)
  with assms cached_cut_clip [of e now k tag ctype "ClipOf cam s t"]
  have cut: "clip_cut e now True = (s, t, True)" "cam = ev_Camera e" "k = clip_key cam s t"
    "is_zero (ev_EndedAt e) \<or> ev_EndedAt e + (clipMargin + warmGrace) \<le> now" by auto
  note bounds = clip_cut_stable [OF cut(1)]
  moreover have "t + warmGrace \<le> now"
    using bounds cut(4) by (auto simp: cut_bounds_def split: if_splits)
  ultimately show ?thesis using cut by simp
qed

section \<open>A key names one answer\<close>

lemma clip_request_sec:
  assumes "s < t" and "s' < t'" and "unix_sec s = unix_sec s'" and "unix_sec t = unix_sec t'"
  shows "clip_request cam s t = clip_request cam s' t'"
  using assms by (simp add: clip_request_def)

lemma cut_bounds_ordered: "cut_bounds e now s t \<Longrightarrow> running e \<or> ev_StartedAt e \<le> ev_EndedAt e \<Longrightarrow> s < t"
  using rung_range by (fastforce simp: cut_bounds_def running_def split: if_splits)

text \<open>
  Further. Two requests that share a cache key share everything: whichever events and moments they
  come from, they carry the same entity tag and content type and Frigate is asked for the same
  path, so whichever of them fills the cache the other may be served from it.
\<close>
theorem key_names_cut:
  assumes "cached_cut e md now = Some (k, tag, ctype, source)"
    and "cached_cut e' md' now' = Some (k, tag', ctype', source')"
    and "running e \<or> ev_StartedAt e \<le> ev_EndedAt e" and "running e' \<or> ev_StartedAt e' \<le> ev_EndedAt e'"
  shows "tag = tag' \<and> ctype = ctype' \<and> ask http source = ask http source'"
proof (cases "md = MEDIA_CLIP")
  case True
  obtain s t where cut: "clip_cut e now True = (s, t, True)" "k = clip_key (ev_Camera e) s t"
    "tag = cut_tag (ev_Camera e) s t" "ctype = ''video/mp4''" "source = ClipOf (ev_Camera e) s t"
    using cached_cut_clip assms(1) True by blast
  have "md' = MEDIA_CLIP"
    using assms(2) by (auto simp: cached_cut_def cut(2) clip_key_def snap_key_def split: if_splits)
  then obtain s' t' where cut': "clip_cut e' now' True = (s', t', True)" "k = clip_key (ev_Camera e') s' t'"
    "tag' = cut_tag (ev_Camera e') s' t'" "ctype' = ''video/mp4''" "source' = ClipOf (ev_Camera e') s' t'"
    using cached_cut_clip assms(2) by blast
  have same: "ev_Camera e' = ev_Camera e" "unix_sec s' = unix_sec s" "unix_sec t' = unix_sec t"
    using cut(2) cut'(2) by (simp_all add: clip_key_def)
  moreover have "s < t" "s' < t'"
    using cut_bounds_ordered clip_cut_stable cut(1) cut'(1) assms(3,4) by blast+
  ultimately show ?thesis using clip_request_sec [of s t s' t']
    by (simp add: cut(3-5) cut'(3-5) cut_tag_def)
next
  case False
  then have "md = MEDIA_SNAPSHOT" "k = snap_key e"
    using assms(1) by (auto simp: cached_cut_def split: if_splits)
  moreover from this have "md' = MEDIA_SNAPSHOT"
    using assms(2) by (auto simp: cached_cut_def clip_key_def snap_key_def split: if_splits prod.splits)
  ultimately show ?thesis
    using assms(1,2) by (auto simp: cached_cut_def snap_key_def split: if_splits)
qed

section \<open>What a probe learns\<close>

lemma tally_simps [simp]:
  "sv_store (tally f sv) = sv_store sv" "sv_keys (tally f sv) = sv_keys sv"
  "sv_frigate (tally f sv) = sv_frigate sv" "sv_ttl (tally f sv) = sv_ttl sv"
  "sv_cache (tally f sv) = sv_cache sv" "sv_counts (tally f sv) = f (sv_counts sv)"
  by (simp_all add: tally_def)

lemma one_simps [simp]:
  "sv_store (one_failure sv) = sv_store sv" "sv_cache (one_failure sv) = sv_cache sv"
  "sv_store (one_fetch sv) = sv_store sv" "sv_cache (one_fetch sv) = sv_cache sv"
  "sv_store (add_bytes n sv) = sv_store sv" "sv_cache (add_bytes n sv) = sv_cache sv"
  "sv_keys (one_failure sv) = sv_keys sv" "sv_keys (one_fetch sv) = sv_keys sv"
  "sv_keys (add_bytes n sv) = sv_keys sv" "sv_frigate (one_failure sv) = sv_frigate sv"
  "sv_frigate (one_fetch sv) = sv_frigate sv" "sv_frigate (add_bytes n sv) = sv_frigate sv"
  by (simp_all add: one_failure_def one_fetch_def add_bytes_def)

text \<open>The claims name nothing this server has.\<close>

definition dead_claims :: "store \<Rightarrow> claims \<Rightarrow> bool" where
  "dead_claims s cl \<longleftrightarrow>
     (\<exists>err. resolve_event s (cl_EventID cl) (cl_Media cl) (cl_Camera cl) = Inl err)"

lemma resolve_not_unavailable: "resolve_event s i md cam = Inl err \<Longrightarrow> err \<noteq> Unavailable"
  by (auto simp: resolve_event_def Let_def split: option.splits if_splits)

text \<open>
  C28. A probe learns nothing. When the token is malformed, forged, of an unknown key or expired, or
  names an event that is not there, a camera that is not the event's, a snapshot the event has
  none of or an unknown kind of media, the answer is the same not found, and neither the cache
  nor Frigate is touched; only the counters know which it was.
\<close>
theorem probe_learns_nothing:
  assumes "verb = ''GET'' \<or> verb = ''HEAD''"
    and "\<And>kr cl. sv_keys sv = Some kr \<Longrightarrow> verify kr (trim_prefix path ''/media/'') now = Inr cl \<Longrightarrow>
      dead_claims (sv_store sv) cl"
  shows "fst (media_handler w verb path now sv) = not_found \<and>
    sv_cache (snd (media_handler w verb path now sv)) = sv_cache sv \<and>
    sv_store (snd (media_handler w verb path now sv)) = sv_store sv \<and>
    ct_fetches (sv_counts (snd (media_handler w verb path now sv))) = ct_fetches (sv_counts sv) \<and>
    ct_failures (sv_counts (snd (media_handler w verb path now sv))) = ct_failures (sv_counts sv)"
proof (cases "sv_keys sv = None \<or> \<not> sv_frigate sv")
  case True
  with assms(1) show ?thesis by (auto simp: media_handler_def split: option.splits)
next
  case False
  then obtain kr where kr: "sv_keys sv = Some kr" "sv_frigate sv" by auto
  show ?thesis
  proof (cases "verify kr (trim_prefix path ''/media/'') now")
    case (Inl err)
    with kr assms(1) show ?thesis
      by (auto simp: media_handler_def split: prod.splits token_error.splits)
  next
    case (Inr cl)
    from assms(2) [OF kr(1) Inr] obtain err where
      err: "resolve_event (sv_store sv) (cl_EventID cl) (cl_Media cl) (cl_Camera cl) = Inl err"
      by (auto simp: dead_claims_def)
    define sv1 where "sv1 = tally (\<lambda>c. c\<lparr>ct_linksOpened := ct_linksOpened c + 1\<rparr>) sv"
    have "serve_cached w now cl c sv1 = (None, sv1)" for c
      by (simp add: serve_cached_def sv1_def err)
    moreover have "serve_direct w verb now cl sv1 = (not_found, sv1)"
      using resolve_not_unavailable [OF err]
      by (simp add: serve_direct_def fetch_media_def sv1_def err)
    ultimately have "media_handler w verb path now sv = (not_found, sv1)"
      using assms(1) kr Inr by (auto simp: media_handler_def sv1_def [symmetric] Let_def split: option.splits)
    then show ?thesis by (simp add: sv1_def)
  qed
qed

section \<open>The cache under the handler\<close>

lemma fill_begin_dir [simp]: "mc_dir (snd (fill_begin k c)) = mc_dir c"
  by (simp add: fill_begin_def touch_def split: option.split)

lemma fill_slot_dir: "fill_slot k c = Some c' \<Longrightarrow> mc_dir c' = mc_dir c"
  by (auto simp: fill_slot_def split: if_splits)

lemma fill_done_dir [simp]:
  "mc_dir (fill_leave k c) = mc_dir c" "mc_dir (fill_fail k c) = mc_dir c"
  "mc_dir (fill_store rm pick k n c) = mc_dir c"
  by (simp_all add: fill_leave_def fill_fail_def fill_store_def Let_def)

lemma step_fail_leave:
  assumes "gm_get (mc_inflight c) k = Some f" and "f = Queued \<or> f = Fetching"
  shows "cache_step\<^sup>*\<^sup>* c (fill_leave k (fill_fail k c))"
proof -
  have "gm_get (mc_inflight (fill_fail k c)) k = Some (Done None)" by (simp add: fill_fail_def)
  show ?thesis
    by (rule rtranclp.rtrancl_into_rtrancl [OF r_into_rtranclp [of cache_step, OF step_fail [OF assms]] step_leave]) fact
qed

lemma step_store_leave:
  assumes "gm_get (mc_inflight c) k = Some Fetching" and "0 \<le> n"
  shows "cache_step\<^sup>*\<^sup>* c (fill_leave k (fill_store rm pick k n c))"
proof -
  have "gm_get (mc_inflight (fill_store rm pick k n c)) k = Some (Done (Some (key_path (mc_dir c) k)))"
    by (simp add: fill_store_def Let_def)
  show ?thesis
    by (rule rtranclp.rtrancl_into_rtrancl [OF r_into_rtranclp [of cache_step, OF step_store [OF assms]] step_leave]) fact
qed

text \<open>
  A fill moves the cache by its own steps only, and its answer is the path of its key, or that
  of the flight it waited for.
\<close>

definition same_server :: "media_server \<Rightarrow> media_server \<Rightarrow> bool" where
  "same_server sv sv' \<longleftrightarrow> sv_store sv' = sv_store sv \<and> sv_keys sv' = sv_keys sv
     \<and> sv_frigate sv' = sv_frigate sv \<and> sv_ttl sv' = sv_ttl sv"

lemma same_server_simps [simp]:
  "same_server sv sv" "same_server sv (tally f sv') = same_server sv sv'"
  "same_server sv (one_failure sv') = same_server sv sv'"
  "same_server sv (one_fetch sv') = same_server sv sv'"
  "same_server sv (add_bytes n sv') = same_server sv sv'"
  "same_server sv (sv'\<lparr>sv_cache := c\<rparr>) = same_server sv sv'"
  by (simp_all add: same_server_def one_failure_def one_fetch_def add_bytes_def tally_def)

definition filled :: "world \<Rightarrow> cache_key \<Rightarrow> cache \<Rightarrow> string option \<Rightarrow> cache \<Rightarrow> bool" where
  "filled w k c r c' \<longleftrightarrow> cache_step\<^sup>*\<^sup>* c c' \<and> mc_dir c' = mc_dir c \<and>
     (r = None \<or> r = wd_joined w \<or> r = Some (key_path (mc_dir c) k))"

lemma cache_fill_spec:
  assumes "cache_inv c" and "plain_key k"
  shows "\<exists>c'. sv_cache (snd (cache_fill w k source c sv)) = Some c' \<and>
    filled w k c (fst (cache_fill w k source c sv)) c' \<and> same_server sv (snd (cache_fill w k source c sv))"
proof -
  obtain b c1 where start: "fill_begin k c = (b, c1)" by fastforce
  have c1: "cache_step\<^sup>*\<^sup>* c c1" "mc_dir c1 = mc_dir c"
    using step_begin [OF assms(2), of c] fill_begin_dir [of k c] by (simp_all add: start)
  show ?thesis
  proof (cases b)
    case (Hit p)
    then have "p = key_path (mc_dir c) k"
      using start assms(1) entries_okD(4) [of c k]
      by (auto simp: fill_begin_def cache_inv_def split: option.splits)
    with Hit c1 show ?thesis by (auto simp: cache_fill_def start filled_def)
  next
    case Join
    with c1 show ?thesis by (auto simp: cache_fill_def start filled_def)
  next
    case Lead
    then have fl: "gm_get (mc_inflight c1) k = Some Queued"
      using start by (auto simp: fill_begin_def split: option.splits)
    show ?thesis
    proof (cases "fill_slot k c1")
      case None
      have "cache_step\<^sup>*\<^sup>* c (fill_leave k (fill_fail k c1))"
        using c1(1) step_fail_leave [OF fl] by (auto intro: rtranclp_trans [of cache_step c c1])
      with Lead None c1(2) show ?thesis by (simp add: cache_fill_def start filled_def)
    next
      case (Some c2)
      then have c2: "cache_step\<^sup>*\<^sup>* c c2" "mc_dir c2 = mc_dir c" "gm_get (mc_inflight c2) k = Some Fetching"
        using c1 step_slot [OF Some] fill_slot_dir [OF Some]
        by (auto simp: fill_slot_def split: if_splits)
      have fail: "cache_step\<^sup>*\<^sup>* c (fill_leave k (fill_fail k c2))"
        and store: "cache_step\<^sup>*\<^sup>* c (fill_leave k (fill_store rm pick k (int n) c2))" for rm pick n
        using c2(1) step_fail_leave [OF c2(3)] step_store_leave [OF c2(3), of "int n" rm pick]
        by (auto intro: rtranclp_trans [of cache_step c c2])
      show ?thesis
        using Lead Some fail store c2(2)
        by (auto simp: cache_fill_def start filled_def one_failure_def one_fetch_def
            split: sum.splits prod.splits)
    qed
  qed
qed

text \<open>Events of this century: the keys of their cuts are made of dash-free parts.\<close>

definition datable :: "event \<Rightarrow> bool" where
  "datable e \<longleftrightarrow> unix_epoch + clipMargin \<le> ev_StartedAt e \<and> (running e \<or> ev_StartedAt e \<le> ev_EndedAt e)"

lemma unix_sec_nonneg: "unix_epoch \<le> t \<Longrightarrow> 0 \<le> unix_sec t"
  by (simp add: unix_sec_def pos_imp_zdiv_nonneg_iff)

lemma clip_key_plain:
  assumes "datable e" and "cut_bounds e now s t"
  shows "plain_key (clip_key cam s t)"
proof -
  have "s < t" by (rule cut_bounds_ordered [OF assms(2)]) (use assms(1) in \<open>simp add: datable_def\<close>)
  moreover have "unix_epoch \<le> s" using assms by (simp add: cut_bounds_def datable_def)
  ultimately show ?thesis using unix_sec_nonneg by (simp add: plain_key_def clip_key_def)
qed

lemma cached_cut_plain:
  assumes "datable e" and "cached_cut e md now = Some (k, tag, ctype, source)"
  shows "plain_key k"
proof (cases "md = MEDIA_CLIP")
  case True
  obtain s t where cut: "clip_cut e now True = (s, t, True)" "k = clip_key (ev_Camera e) s t"
    using cached_cut_clip assms(2) True by blast
  then show ?thesis using clip_key_plain [OF assms(1) clip_cut_stable] by simp
next
  case False
  with assms(2) have "k = snap_key e" by (auto simp: cached_cut_def split: if_splits)
  then show ?thesis by (simp add: plain_key_def snap_key_def)
qed

lemma resolve_datable:
  assumes "resolve_event s i md cam = Inr e" and "\<forall>e i. store_get i s = Some e \<longrightarrow> datable e"
  shows "datable e"
proof -
  have "datable (e'\<lparr>ev_Camera := cam\<rparr>) = datable e'" for e' by (simp add: datable_def running_def)
  with assms show ?thesis
    by (auto simp: resolve_event_def Let_def split: option.splits if_splits)
qed

text \<open>What serveCached does: the cache moves by its own steps, and what is served is a completed file.\<close>

definition cache_serves :: "world \<Rightarrow> time \<Rightarrow> claims \<Rightarrow> cache \<Rightarrow> cache \<Rightarrow> store \<Rightarrow> reply \<Rightarrow> bool" where
  "cache_serves w now cl c c' s r \<longleftrightarrow>
     (\<exists>e k tag ctype source p. resolve_event s (cl_EventID cl) (cl_Media cl) (cl_Camera cl) = Inr e \<and>
        cached_cut e (cl_Media cl) now = Some (k, tag, ctype, source) \<and> rp_status r = 200 \<and>
        rp_payload r = CacheFile p \<and> gm_get (mc_files c') p \<noteq> None \<and>
        (wd_joined w = Some p \<or> p = key_path (mc_dir c) k))"

lemma serve_cached_spec:
  assumes "cache_inv c" and "sv_cache sv = Some c" and "\<forall>e i. store_get i (sv_store sv) = Some e \<longrightarrow> datable e"
  shows "\<exists>c'. sv_cache (snd (serve_cached w now cl c sv)) = Some c' \<and> cache_step\<^sup>*\<^sup>* c c' \<and>
    same_server sv (snd (serve_cached w now cl c sv)) \<and>
    (\<forall>r. fst (serve_cached w now cl c sv) = Some r \<longrightarrow> cache_serves w now cl c c' (sv_store sv) r)"
proof (cases "resolve_event (sv_store sv) (cl_EventID cl) (cl_Media cl) (cl_Camera cl)")
  case (Inl err)
  with assms(2) show ?thesis by (simp add: serve_cached_def)
next
  case (Inr e)
  show ?thesis
  proof (cases "cached_cut e (cl_Media cl) now")
    case None
    with Inr assms(2) show ?thesis by (simp add: serve_cached_def)
  next
    case (Some x)
    obtain k tag ctype source where x: "x = (k, tag, ctype, source)" by (cases x)
    have "plain_key k" using cached_cut_plain [OF resolve_datable [OF Inr assms(3)]] Some x by blast
    obtain path sv1 where look: "(case cache_get k c of
        (Some p, c1) \<Rightarrow> (Some p, tally (\<lambda>n. n\<lparr>ct_hits := ct_hits n + 1\<rparr>) (sv\<lparr>sv_cache := Some c1\<rparr>))
      | (None, c1) \<Rightarrow> cache_fill w k source c1 (tally (\<lambda>n. n\<lparr>ct_misses := ct_misses n + 1\<rparr>) sv))
      = (path, sv1)" by fastforce
    have "\<exists>c'. sv_cache sv1 = Some c' \<and> cache_step\<^sup>*\<^sup>* c c' \<and> same_server sv sv1 \<and>
        (path = None \<or> path = wd_joined w \<or> path = Some (key_path (mc_dir c) k))"
    proof (cases "gm_get (mc_entries c) k")
      case None
      then have "cache_fill w k source c (tally (\<lambda>n. n\<lparr>ct_misses := ct_misses n + 1\<rparr>) sv) = (path, sv1)"
        using look by (simp add: cache_get_def)
      with cache_fill_spec [OF assms(1) \<open>plain_key k\<close>, of w source
          "tally (\<lambda>n. n\<lparr>ct_misses := ct_misses n + 1\<rparr>) sv"]
      show ?thesis by (auto simp: filled_def same_server_def)
    next
      case (Some en)
      then have "ce_path en = key_path (mc_dir c) k"
        using assms(1) entries_okD(4) [of c k en] by (simp add: cache_inv_def)
      moreover have "cache_step\<^sup>*\<^sup>* c (snd (cache_get k c))" by (rule r_into_rtranclp) (rule step_get)
      ultimately show ?thesis using look Some by (auto simp: cache_get_def)
    qed
    then obtain c' where c': "sv_cache sv1 = Some c'" "cache_step\<^sup>*\<^sup>* c c'" "same_server sv sv1"
      "path = None \<or> path = wd_joined w \<or> path = Some (key_path (mc_dir c) k)" by blast
    have eq: "serve_cached w now cl c sv = (case path of None \<Rightarrow> (None, sv1)
      | Some p \<Rightarrow> if gm_get (mc_files c') p \<noteq> None
          then (Some \<lparr>rp_status = 200, rp_headers = media_headers ctype now cl @ [(''ETag'', tag)],
                  rp_payload = CacheFile p\<rparr>, add_bytes (wd_sent w) sv1)
          else (None, sv1))"
      by (simp add: serve_cached_def Inr Some x look c'(1) split: option.split)
    show ?thesis
    proof (cases "\<exists>p. path = Some p \<and> gm_get (mc_files c') p \<noteq> None")
      case True
      then obtain p where p: "path = Some p" "gm_get (mc_files c') p \<noteq> None" by blast
      have "cache_serves w now cl c c' (sv_store sv) \<lparr>rp_status = 200,
          rp_headers = media_headers ctype now cl @ [(''ETag'', tag)], rp_payload = CacheFile p\<rparr>"
        unfolding cache_serves_def using Inr Some x p c'(4) by auto
      with p c' show ?thesis by (simp add: eq)
    next
      case False
      then have "serve_cached w now cl c sv = (None, sv1)" by (auto simp: eq split: option.splits)
      with c' show ?thesis by simp
    qed
  qed
qed

lemma fetch_media_same:
  "same_server sv (snd (fetch_media http now i md cam sv)) \<and>
   sv_cache (snd (fetch_media http now i md cam sv)) = sv_cache sv"
  by (auto simp: fetch_media_def split: sum.split prod.split ask_error.split)

lemma serve_direct_same:
  "same_server sv (snd (serve_direct w verb now cl sv)) \<and>
   sv_cache (snd (serve_direct w verb now cl sv)) = sv_cache sv"
proof -
  obtain r sv1 where f: "fetch_media (wd_http w) now (cl_EventID cl) (cl_Media cl) (cl_Camera cl) sv = (r, sv1)"
    by fastforce
  have sv1: "same_server sv sv1" "sv_cache sv1 = sv_cache sv"
    using fetch_media_same [of sv "wd_http w" now "cl_EventID cl" "cl_Media cl" "cl_Camera cl"] f by simp_all
  have frames: "sv_cache (one_failure s) = sv_cache s" "sv_cache (add_bytes n s) = sv_cache s" for s n by simp_all
  show ?thesis
    using sv1 by (auto simp: serve_direct_def f serve_ranged_def Let_def split: sum.split prod.split option.split)
qed

text \<open>
  Further. The media door keeps the cache whole: whatever is requested, the handler moves the cache only
  by the cache's own steps, so its invariant holds afterwards, and it changes nothing else of
  the server but the counters. When it answers from the cache it serves a file that is there.
\<close>
theorem handler_keeps_cache:
  assumes "cache_inv c" and "sv_cache sv = Some c" and "\<forall>e i. store_get i (sv_store sv) = Some e \<longrightarrow> datable e"
  shows "\<exists>c'. sv_cache (snd (media_handler w verb path now sv)) = Some c' \<and> cache_step\<^sup>*\<^sup>* c c' \<and> cache_inv c' \<and>
    same_server sv (snd (media_handler w verb path now sv)) \<and>
    (\<forall>p. rp_payload (fst (media_handler w verb path now sv)) = CacheFile p \<longrightarrow> gm_get (mc_files c') p \<noteq> None)"
proof -
  have inv: "cache_step\<^sup>*\<^sup>* c c' \<Longrightarrow> cache_inv c'" for c'
    by (induction rule: rtranclp_induct) (auto intro: cache_step_inv assms(1))
  have plain: ?thesis if "media_handler w verb path now sv = (r, tally f sv)" "\<And>p. rp_payload r \<noteq> CacheFile p" for r f
    using that assms by (intro exI [of _ c]) simp
  have idle: "tally (\<lambda>c. c) sv = sv" by (simp add: tally_def)
  show ?thesis
  proof (cases "(verb \<noteq> ''GET'' \<and> verb \<noteq> ''HEAD'') \<or> sv_keys sv = None \<or> \<not> sv_frigate sv")
    case True
    then have "snd (media_handler w verb path now sv) = sv"
      "rp_payload (fst (media_handler w verb path now sv)) \<noteq> CacheFile p" for p
      by (cases "sv_keys sv"; auto simp: media_handler_def not_found_def)+
    then show ?thesis
      by (intro plain [of "fst (media_handler w verb path now sv)" "\<lambda>c. c"]) (simp_all add: idle prod_eq_iff)
  next
    case False
    then obtain kr where kr: "sv_keys sv = Some kr" "sv_frigate sv" "verb = ''GET'' \<or> verb = ''HEAD''" by auto
    show ?thesis
    proof (cases "verify kr (trim_prefix path ''/media/'') now")
      case (Inl err)
      obtain a b where "err = (a, b)" by (cases err)
      then have "\<exists>f. media_handler w verb path now sv = (not_found, tally f sv)"
        using Inl kr by (cases a) (auto simp: media_handler_def)
      then obtain f where "media_handler w verb path now sv = (not_found, tally f sv)" by blast
      then show ?thesis by (rule plain) (simp add: not_found_def)
    next
      case (Inr cl)
      define sv1 where "sv1 = tally (\<lambda>c. c\<lparr>ct_linksOpened := ct_linksOpened c + 1\<rparr>) sv"
      have sv1: "sv_cache sv1 = Some c" "sv_store sv1 = sv_store sv" "same_server sv sv1"
        using assms(2) by (simp_all add: sv1_def)
      obtain r sv2 where sc: "serve_cached w now cl c sv1 = (r, sv2)" by fastforce
      have h: "media_handler w verb path now sv = (case r of Some r \<Rightarrow> (r, sv2) | None \<Rightarrow> serve_direct w verb now cl sv2)"
        using kr Inr sv1(1) sc by (auto simp: media_handler_def sv1_def [symmetric] Let_def)
      from serve_cached_spec [OF assms(1) sv1(1), of w now cl] assms(3) sc obtain c' where
        c': "sv_cache sv2 = Some c'" "cache_step\<^sup>*\<^sup>* c c'" "same_server sv1 sv2"
        "\<forall>r'. r = Some r' \<longrightarrow> cache_serves w now cl c c' (sv_store sv1) r'"
        by (auto simp: sv1(2))
      have same: "same_server sv sv2" using sv1(3) c'(3) by (simp add: same_server_def)
      show ?thesis
      proof (cases r)
        case None
        have "rp_payload (fst (serve_direct w verb now cl sv2)) \<noteq> CacheFile p" for p
          by (auto simp: serve_direct_def serve_ranged_def not_found_def bad_gateway_def Let_def
              split: sum.split prod.split option.split)
        with None h serve_direct_same [of sv2 w verb now cl] c' same inv show ?thesis
          by (intro exI [of _ c']) (simp add: same_server_def)
      next
        case (Some r')
        with h c' same inv show ?thesis by (intro exI [of _ c']) (auto simp: cache_serves_def)
      qed
    qed
  qed
qed

section \<open>Links\<close>

lemma trim_media [simp]: "trim_prefix (''/media/'' @ token) ''/media/'' = token"
  by (simp add: trim_prefix_def)

text \<open>The claims of a link.\<close>

definition link_claims :: "event \<Rightarrow> int \<Rightarrow> string \<Rightarrow> time \<Rightarrow> media_server \<Rightarrow> claims" where
  "link_claims e md camera now sv =
     \<lparr>cl_EventID = ev_ID e, cl_Media = md, cl_Camera = camera, cl_Expires = now + sv_ttl sv\<rparr>"

text \<open>A ring that opens what \<open>kr\<close> mints: the same, or one in which its key has become the prior.\<close>

definition opens_links_of :: "keyring \<Rightarrow> keyring \<Rightarrow> bool" where
  "opens_links_of kr kr' \<longleftrightarrow> keyring_ok kr \<and>
     (kr' = kr \<or> keyring_ok kr' \<and> kr_prior kr' = Some (kr_current kr))"

lemma opens_verify:
  assumes "opens_links_of kr kr'" and "claims_ok cl"
  shows "verify kr' (mint kr cl) now = dated now (signed_claims cl)"
proof -
  let ?k = "kr_current kr"
  have "lookup_key kr' (k_id ?k) = Some ?k"
    using assms(1) lookup_prior by (auto simp: opens_links_of_def)
  moreover have "length (k_id ?k) = kidLen" using assms(1) by (auto simp: opens_links_of_def keyring_ok_def)
  moreover note tok = mint_token [OF assms(2)]
  ultimately show ?thesis
    using verify_body [OF tok(1) _ _ refl tok(2,3), where kr = kr' and now = now] tok(4) by simp
qed

lemma serve_direct_ok:
  assumes "resolve_event (sv_store sv) (cl_EventID cl) (cl_Media cl) (cl_Camera cl) = Inr e"
    and "ask (wd_http w) (fst (direct_cut e (cl_Media cl) now)) = Inr (m, reads, False)"
  shows "rp_status (fst (serve_direct w ''GET'' now cl sv)) = 200 \<and>
    rp_payload (fst (serve_direct w ''GET'' now cl sv)) \<in> {Spooled (concat reads), Streamed (concat reads)}"
proof -
  obtain source etag where d: "direct_cut e (cl_Media cl) now = (source, etag)" by fastforce
  have "fetch_media (wd_http w) now (cl_EventID cl) (cl_Media cl) (cl_Camera cl) sv
      = (Inr (m, (reads, False), etag), one_fetch sv)"
    using assms by (simp add: fetch_media_def d)
  then show ?thesis
    by (cases "etag \<noteq> [] \<and> wd_spool w") (auto simp: serve_direct_def Let_def serve_ranged_def)
qed

text \<open>
  C27. Links open. A link minted for a camera of a stored event opens at any time before its expiry,
  in whole seconds, also after a key rotation, as long as Frigate has the bytes: the answer is
  a success with the bytes of the event's cut, or with the cached file of its current cut.
\<close>
theorem link_opens:
  assumes minted: "camera_link e md camera t0 sv0 = (Some path, sv1)" "sv_keys sv0 = Some kr"
      "md = MEDIA_SNAPSHOT \<or> md = MEDIA_CLIP" "claims_ok (link_claims e md camera t0 sv0)"
      "length camera \<le> 255"
    and ring: "sv_keys sv = Some kr'" "opens_links_of kr kr'"
    and now: "now < time_unix (unix_sec (t0 + sv_ttl sv0)) 0"
    and event: "sv_frigate sv" "resolve_event (sv_store sv) (ev_ID e) md camera = Inr e'"
      "\<forall>e i. store_get i (sv_store sv) = Some e \<longrightarrow> datable e"
    and cache: "case sv_cache sv of None \<Rightarrow> True | Some c \<Rightarrow> cache_inv c"
    and bytes: "ask (wd_http w) (fst (direct_cut e' md now)) = Inr (m, reads, False)"
  shows "rp_status (fst (media_handler w ''GET'' path now sv)) = 200 \<and>
    (rp_payload (fst (media_handler w ''GET'' path now sv)) \<in> {Spooled (concat reads), Streamed (concat reads)} \<or>
     (\<exists>c k tag ctype source p. sv_cache sv = Some c \<and> cached_cut e' md now = Some (k, tag, ctype, source) \<and>
        rp_payload (fst (media_handler w ''GET'' path now sv)) = CacheFile p \<and>
        (wd_joined w = Some p \<or> p = key_path (mc_dir c) k)))"
proof -
  have "md mod 256 = md" using minted(3) by auto
  then have path: "path = ''/media/'' @ mint kr (link_claims e md camera t0 sv0)"
    using minted(1,2) by (auto simp: camera_link_def link_claims_def)
  define cl where "cl = signed_claims (link_claims e md camera t0 sv0)"
  have cl: "cl_EventID cl = ev_ID e" "cl_Media cl = md" "cl_Camera cl = camera"
    "cl_Expires cl = time_unix (unix_sec (t0 + sv_ttl sv0)) 0"
    using minted(5) by (simp_all add: cl_def signed_claims_def mint_claims_def link_claims_def)
  have ver: "verify kr' (mint kr (link_claims e md camera t0 sv0)) now = Inr cl"
    using opens_verify [OF ring(2) minted(4), of now] now cl(4) by (simp add: cl_def dated_def)
  define sv1 where "sv1 = tally (\<lambda>c. c\<lparr>ct_linksOpened := ct_linksOpened c + 1\<rparr>) sv"
  have sv1: "sv_cache sv1 = sv_cache sv" "sv_store sv1 = sv_store sv" by (simp_all add: sv1_def)
  have h: "media_handler w ''GET'' path now sv =
      (case (case sv_cache sv of None \<Rightarrow> (None, sv1) | Some c \<Rightarrow> serve_cached w now cl c sv1) of
         (Some r, sv2) \<Rightarrow> (r, sv2) | (None, sv2) \<Rightarrow> serve_direct w ''GET'' now cl sv2)"
  proof -
    have "verify kr' (trim_prefix path ''/media/'') now = Inr cl" using ver by (simp only: path trim_media)
    then show ?thesis
      using ring(1) event(1) by (simp add: media_handler_def sv1_def [symmetric] sv1(1) Let_def)
  qed
  have direct: "rp_status (fst (serve_direct w ''GET'' now cl sv2)) = 200 \<and>
      rp_payload (fst (serve_direct w ''GET'' now cl sv2)) \<in> {Spooled (concat reads), Streamed (concat reads)}"
    if "sv_store sv2 = sv_store sv" for sv2
    using serve_direct_ok [of sv2 cl e' w now m reads] that event(2) bytes by (simp add: cl)
  show ?thesis
  proof (cases "sv_cache sv")
    case None
    with h direct [of sv1] sv1(2) show ?thesis by simp
  next
    case (Some c)
    obtain r sv2 where sc: "serve_cached w now cl c sv1 = (r, sv2)" by fastforce
    have "cache_inv c" using cache Some by simp
    from serve_cached_spec [OF this, of sv1 w now cl] sc Some sv1 event(3)
    obtain c' where c': "sv_store sv2 = sv_store sv"
      "\<forall>r'. r = Some r' \<longrightarrow> cache_serves w now cl c c' (sv_store sv) r'"
      by (auto simp: same_server_def)
    show ?thesis
    proof (cases r)
      case None
      with h Some sc direct [OF c'(1)] show ?thesis by simp
    next
      case (Some r')
      then have "cache_serves w now cl c c' (sv_store sv) r'" using c'(2) by simp
      then obtain k tag ctype source p where "cached_cut e' md now = Some (k, tag, ctype, source)"
        "rp_status r' = 200" "rp_payload r' = CacheFile p" "wd_joined w = Some p \<or> p = key_path (mc_dir c) k"
        using event(2) by (auto simp: cache_serves_def cl)
      moreover have "fst (media_handler w ''GET'' path now sv) = r'"
        using h Some sc \<open>sv_cache sv = Some c\<close> by simp
      ultimately show ?thesis using \<open>sv_cache sv = Some c\<close> by blast
    qed
  qed
qed

section \<open>Witnesses\<close>

definition demo_event :: event where
  "demo_event = zero_event\<lparr>ev_ID := ''ev1'', ev_Camera := ''porch'',
     ev_StartedAt := unix_epoch + 1000 * Second\<rparr>"

definition demo_server :: media_server where
  "demo_server = \<lparr>sv_store = store_apply 9 (Change OpStarted demo_event) (new_store Hour),
     sv_keys = Some demo_ring, sv_frigate = True, sv_ttl = Hour, sv_cache = None,
     sv_counts = \<lparr>ct_linksMinted = 0, ct_linksOpened = 0, ct_linksInvalid = 0, ct_linksExpired = 0,
       ct_fetches = 0, ct_bytes = 0, ct_failures = 0, ct_hits = 0, ct_misses = 0\<rparr>\<rparr>"

definition demo_world :: world where
  "demo_world = (let http = (\<lambda>p. Some \<lparr>ha_resp = \<lparr>resp_status = 200, resp_content_type = ''video/mp4'',
       resp_length = 3\<rparr>, ha_reads = [''abc''], ha_broken = False\<rparr>)
     in \<lparr>wd_http = http, wd_fill = http, wd_joined = None, wd_rm = (\<lambda>p. True), wd_pick = (\<lambda>m. []),
         wd_spool = True, wd_sent = 3, wd_write_ok = True\<rparr>)"

lemma demo_get: "store_get i (sv_store demo_server) = (if i = ''ev1'' then Some demo_event else None)"
  by (simp add: demo_server_def store_get_def store_apply_def new_store_def Let_def)
    (simp add: demo_event_def)

lemma demo_datable: "\<forall>e i. store_get i (sv_store demo_server) = Some e \<longrightarrow> datable e"
  by (auto simp: demo_get datable_def running_def demo_event_def zero_event_def split: if_splits)

lemma demo_cut: "cached_cut demo_event MEDIA_CLIP (unix_epoch + 1020 * Second)
   = Some (clip_key ''porch'' (unix_epoch + 995 * Second) (unix_epoch + 1015 * Second),
       cut_tag ''porch'' (unix_epoch + 995 * Second) (unix_epoch + 1015 * Second), ''video/mp4'',
       ClipOf ''porch'' (unix_epoch + 995 * Second) (unix_epoch + 1015 * Second))"
proof -
  have "clip_cut demo_event (unix_epoch + 1020 * Second) True
      = (unix_epoch + 995 * Second, unix_epoch + 1015 * Second, True)" by code_simp
  then show ?thesis by (simp add: cached_cut_def) (simp add: demo_event_def zero_event_def)
qed

theorem cached_cut_settled_witness:
  "(unix_epoch + 1015 * Second) + warmGrace \<le> unix_epoch + 1020 * Second \<and>
   cut_bounds demo_event (unix_epoch + 1020 * Second) (unix_epoch + 995 * Second) (unix_epoch + 1015 * Second)"
  using cached_cut_settled [OF demo_cut] by blast

theorem key_names_cut_witness:
  "cut_tag ''porch'' (unix_epoch + 995 * Second) (unix_epoch + 1015 * Second)
   = cut_tag ''porch'' (unix_epoch + 995 * Second) (unix_epoch + 1015 * Second)"
proof -
  have "running demo_event" by (simp add: running_def demo_event_def zero_event_def)
  with key_names_cut [OF demo_cut demo_cut] show ?thesis by blast
qed

theorem probe_learns_nothing_witness:
  "fst (media_handler demo_world ''GET'' ''/media/x'' unix_epoch demo_server) = not_found"
proof -
  have "base64url_decode ''x'' = None" by code_simp
  then have "verify kr (trim_prefix ''/media/x'' ''/media/'') unix_epoch = Inl (ErrMalformed, None)" for kr
    using trim_media [of "''x''"] by (simp add: verify_def)
  then show ?thesis using probe_learns_nothing [of "''GET''" demo_server "''/media/x''" unix_epoch demo_world] by simp
qed

theorem handler_keeps_cache_witness:
  "\<exists>c. cache_inv c \<and> sv_cache (snd (media_handler demo_world ''GET'' ''/media/x'' unix_epoch (demo_server\<lparr>sv_cache := Some demo_cache\<rparr>)))
    = Some c"
  using handler_keeps_cache [OF demo_inv, of "demo_server\<lparr>sv_cache := Some demo_cache\<rparr>" demo_world "''GET''" "''/media/x''" unix_epoch]
    demo_datable by auto

theorem link_opens_witness:
  "\<exists>path. fst (camera_link demo_event MEDIA_CLIP [] (unix_epoch + 1000 * Second) demo_server) = Some path \<and>
     rp_status (fst (media_handler demo_world ''GET'' path (unix_epoch + 1020 * Second) demo_server)) = 200"
proof -
  let ?t = "unix_epoch + 1000 * Second"
  obtain path sv1 where minted: "camera_link demo_event MEDIA_CLIP [] ?t demo_server = (Some path, sv1)"
    by (simp add: camera_link_def demo_server_def)
  have keys: "sv_keys demo_server = Some demo_ring" "sv_frigate demo_server" "sv_cache demo_server = None"
    "sv_ttl demo_server = Hour" by (simp_all add: demo_server_def)
  have claims: "claims_ok (link_claims demo_event MEDIA_CLIP [] ?t demo_server)"
    by (simp add: claims_ok_def link_claims_def keys(4) unix_sec_def) (simp add: demo_event_def)
  have ring: "opens_links_of demo_ring demo_ring" by (simp add: opens_links_of_def demo_ring_ok)
  have event: "resolve_event (sv_store demo_server) (ev_ID demo_event) MEDIA_CLIP [] = Inr demo_event"
    by (simp add: resolve_event_def demo_get) (simp add: demo_event_def)
  have bytes: "ask (wd_http demo_world) (fst (direct_cut demo_event MEDIA_CLIP (unix_epoch + 1020 * Second)))
      = Inr (\<lparr>media_type = ''video/mp4'', media_size = 3\<rparr>, [''abc''], False)"
    by code_simp
  have "unix_epoch + 1020 * Second < time_unix (unix_sec (?t + sv_ttl demo_server)) 0"
    by (simp add: keys(4) time_unix_def unix_sec_def)
  from link_opens [OF minted keys(1) _ claims _ keys(1) ring this keys(2) event demo_datable _ bytes] keys(3)
  show ?thesis using minted by simp
qed

end
