(* ===== verification/Warm.thy ===== *)
theory Warm
  imports Media
begin

text \<open>
  The warmer and the stitcher (\<open>internal/server/warm.go\<close>, \<open>stitch.go\<close>): the newest events' cuts are
  fetched while they happen, and an ended event's scored cut is rendered into one file.

  The loop of Warm is a function on its two local variables, and says which goroutines it starts
  and stops.  A goroutine is a function of what its selects saw, in order (\<open>wake\<close>).  What either asks
  the cache for is part of its result, with the time of asking.  The clock, Frigate and ffmpeg are
  arguments.
\<close>

section \<open>The working set\<close>

abbreviation (input) warmSet :: nat where "warmSet \<equiv> 4"

text \<open>The newest ended events at start-up, among the 20 that List gives.\<close>

fun warm_recent :: "nat \<Rightarrow> event list \<Rightarrow> event list" where
  "warm_recent warmed [] = []"
| "warm_recent warmed (e # es) =
     (if warmed = warmSet then []
      else if \<not> event_sent e \<or> running e then warm_recent warmed es
      else e # warm_recent (warmed + 1) es)"

definition warm_startup :: "store \<Rightarrow> event list" where
  "warm_startup s =
     (case store_list [] 20 [] s of Inl _ \<Rightarrow> [] | Inr (recent, _) \<Rightarrow> warm_recent 0 recent)"

text \<open>A goroutine of \<open>warmLive\<close> has a number; the map knows those of the working set.\<close>

datatype warm_action = WarmFinal event | WarmLive nat string | CancelLive nat | CloseEnded nat

record warmer =
  wm_watching :: "(string, nat) gomap"
  wm_order :: "string list"
  wm_next :: nat

definition new_warmer :: warmer where
  "new_warmer = \<lparr>wm_watching = [], wm_order = [], wm_next = 0\<rparr>"

text \<open>\<open>deleteID\<close>, and the loop that trims the working set; None where the code would panic.\<close>

fun delete_id :: "string list \<Rightarrow> string \<Rightarrow> string list" where
  "delete_id [] i = []"
| "delete_id (v # vs) i = (if v = i then vs else v # delete_id vs i)"

fun trim_order :: "string list \<Rightarrow> (string, nat) gomap
    \<Rightarrow> (string list \<times> (string, nat) gomap \<times> warm_action list) option" where
  "trim_order [] watching = Some ([], watching, [])"
| "trim_order (old # rest) watching =
     (if warmSet < length (old # rest) then
        case gm_get watching old of
          None \<Rightarrow> None
        | Some n \<Rightarrow>
            (case trim_order rest (gm_del old watching) of
               None \<Rightarrow> None
             | Some (order, watching', acts) \<Rightarrow> Some (order, watching', CancelLive n # acts))
      else Some (old # rest, watching, []))"

definition warm_change :: "change \<Rightarrow> warmer \<Rightarrow> (warmer \<times> warm_action list) option" where
  "warm_change c wm =
     (let e = chg_event c; i = ev_ID e
      in if \<not> event_sent e then Some (wm, [])
         else case chg_op c of
           OpStarted \<Rightarrow>
             if gm_get (wm_watching wm) i \<noteq> None then Some (wm, [])
             else if \<not> running e then Some (wm, [WarmFinal e])
             else (let n = wm_next wm
                   in case trim_order (wm_order wm @ [i]) (gm_set i n (wm_watching wm)) of
                        None \<Rightarrow> None
                      | Some (order, watching, acts) \<Rightarrow>
                          Some (\<lparr>wm_watching = watching, wm_order = order, wm_next = n + 1\<rparr>,
                                WarmLive n i # acts))
         | OpEnded \<Rightarrow>
             (case gm_get (wm_watching wm) i of
                None \<Rightarrow> Some (wm, [])
              | Some n \<Rightarrow>
                  Some (wm\<lparr>wm_watching := gm_del i (wm_watching wm), wm_order := delete_id (wm_order wm) i\<rparr>,
                        [CloseEnded n]))
         | _ \<Rightarrow> Some (wm, []))"

fun warm_run :: "change list \<Rightarrow> warmer \<Rightarrow> (warmer \<times> warm_action list) option" where
  "warm_run [] wm = Some (wm, [])"
| "warm_run (c # cs) wm =
     (case warm_change c wm of
        None \<Rightarrow> None
      | Some (wm1, acts) \<Rightarrow>
          (case warm_run cs wm1 of
             None \<Rightarrow> None
           | Some (wm2, acts') \<Rightarrow> Some (wm2, acts @ acts')))"

section \<open>Warming one event\<close>

text \<open>One request of the cache: when, for which key, from where.\<close>

type_synonym cache_request = "time \<times> cache_key \<times> cut_source"

text \<open>One camera of one rung: fill the new cut, then evict the one before.\<close>

definition warm_rung_camera :: "world \<Rightarrow> time \<Rightarrow> time \<Rightarrow> time \<Rightarrow> string
    \<Rightarrow> (string, time) gomap \<times> cache_request list \<times> media_server
    \<Rightarrow> (string, time) gomap \<times> cache_request list \<times> media_server" where
  "warm_rung_camera w now start till cam = (\<lambda>(prev, reqs, sv).
     (case sv_cache sv of
        None \<Rightarrow> (prev, reqs, sv)
      | Some c \<Rightarrow>
          let k = clip_key cam start till; source = ClipOf cam start till;
              (r, sv1) = cache_fill w k source c sv;
              reqs' = reqs @ [(now, k, source)]
          in case r of
               None \<Rightarrow> (prev, reqs', sv1)
             | Some _ \<Rightarrow>
                 (gm_set cam till prev, reqs',
                  case gm_get prev cam of
                    None \<Rightarrow> sv1
                  | Some old \<Rightarrow>
                      sv1\<lparr>sv_cache := map_option (evict (wd_rm w) (clip_key cam start old)) (sv_cache sv1)\<rparr>)))"

text \<open>\<open>evictCheckpoints\<close>; every key is evicted once, so the order of the range does not matter.\<close>

definition evict_checkpoints :: "world \<Rightarrow> event \<Rightarrow> (string, time) gomap \<Rightarrow> media_server \<Rightarrow> media_server" where
  "evict_checkpoints w e prev sv =
     (let start = ev_StartedAt e + - clipMargin
      in sv\<lparr>sv_cache := map_option
           (fold (\<lambda>(cam, till). evict (wd_rm w) (clip_key cam start till)) prev) (sv_cache sv)\<rparr>)"

definition fill_one :: "world \<Rightarrow> time \<Rightarrow> cache_key \<times> cut_source \<Rightarrow> cache_request list \<times> media_server
    \<Rightarrow> cache_request list \<times> media_server" where
  "fill_one w now = (\<lambda>(k, source) (reqs, sv).
     (case sv_cache sv of
        None \<Rightarrow> (reqs, sv)
      | Some c \<Rightarrow> (reqs @ [(now, k, source)], snd (cache_fill w k source c sv))))"

text \<open>
  \<open>warmFinal\<close>, without the request for a stitch at its end: \<open>now\<close> is the time after the wait, None
  when the context ended first.
\<close>

definition warm_final :: "world \<Rightarrow> time option \<Rightarrow> event \<Rightarrow> media_server \<Rightarrow> cache_request list \<times> media_server" where
  "warm_final w woke e sv =
     (if is_zero (ev_EndedAt e) then ([], sv)
      else case woke of
        None \<Rightarrow> ([], sv)
      | Some now \<Rightarrow>
          let (start, till, stable) = clip_cut e now True
          in if \<not> stable then ([], sv)
             else let clips = (if ev_Clip e = ClipNone then []
                      else map (\<lambda>cam. (clip_key cam start till, ClipOf cam start till)) (event_cameras e));
                      snaps = (if ev_HasSnapshot e then [(snap_key e, SnapshotOf (ev_SourceID e))] else [])
                  in fold (fill_one w now) (clips @ snaps) ([], sv))"

text \<open>
  What the select of a rung saw: the context ended; the event ended, with what the store then
  holds and when warmFinal's wait was over; or the timer at a time, with what the store holds.
\<close>

datatype wake = Cancelled | Sealed "event option" "time option" | Timer time "event option"

definition seal :: "world \<Rightarrow> event \<Rightarrow> event option \<Rightarrow> time option \<Rightarrow> (string, time) gomap \<Rightarrow> media_server
    \<Rightarrow> cache_request list \<times> media_server" where
  "seal w old held woke prev sv =
     (case held of
        None \<Rightarrow> ([], evict_checkpoints w zero_event prev sv)
      | Some e \<Rightarrow>
          let (reqs, sv1) = warm_final w woke e sv in (reqs, evict_checkpoints w e prev sv1))"

fun warm_rungs :: "world \<Rightarrow> duration list \<Rightarrow> wake list \<Rightarrow> event \<Rightarrow> (string, time) gomap \<Rightarrow> media_server
    \<Rightarrow> cache_request list \<times> media_server" where
  "warm_rungs w ladder [] e prev sv = ([], sv)"
| "warm_rungs w ladder (Cancelled # wakes) e prev sv = ([], sv)"
| "warm_rungs w ladder (Sealed held woke # wakes) e prev sv = seal w e held woke prev sv"
| "warm_rungs w [] (Timer now held # wakes) e prev sv = ([], sv)"
| "warm_rungs w (b # ladder) (Timer now held # wakes) e prev sv =
     (case held of
        None \<Rightarrow> ([], sv)
      | Some e1 \<Rightarrow>
          if \<not> running e1 then ([], sv)
          else let till = ev_StartedAt e1 + b; start = ev_StartedAt e1 + - clipMargin;
                   (prev', reqs, sv1) =
                     fold (warm_rung_camera w now start till) (event_cameras e1) (prev, [], sv);
                   (reqs', sv2) = warm_rungs w ladder wakes e1 prev' sv1
               in (reqs @ reqs', sv2))"

definition warm_live :: "world \<Rightarrow> string \<Rightarrow> wake list \<Rightarrow> media_server \<Rightarrow> cache_request list \<times> media_server" where
  "warm_live w i wakes sv =
     (case store_get i (sv_store sv) of
        None \<Rightarrow> ([], sv)
      | Some e \<Rightarrow> warm_rungs w warm_ladder wakes e [] sv)"

section \<open>Stitching\<close>

abbreviation (input) stitchQueue :: nat where "stitchQueue \<equiv> 16"

definition stitch_key :: "event \<Rightarrow> string \<Rightarrow> cache_key" where
  "stitch_key e variant =
     (let (start, till, _) = clip_cut e 0 False
      in \<lparr>ck_Media = ''stitch'', ck_Ref = ev_ID e, ck_Start = unix_sec start, ck_End = unix_sec till,
          ck_Variant = variant\<rparr>)"

definition stitch_cached :: "event \<Rightarrow> string \<Rightarrow> cache option \<Rightarrow> bool" where
  "stitch_cached e variant c =
     (case c of None \<Rightarrow> False
      | Some c \<Rightarrow> \<not> is_zero (ev_EndedAt e) \<and> cache_contains (stitch_key e variant) c)"

definition stitch_path :: "event \<Rightarrow> string \<Rightarrow> cache option \<Rightarrow> string option \<times> cache option" where
  "stitch_path e variant c =
     (case c of None \<Rightarrow> (None, c)
      | Some c \<Rightarrow>
          if is_zero (ev_EndedAt e) then (None, Some c)
          else let (p, c1) = cache_get (stitch_key e variant) c in (p, Some c1))"

definition put_stitch :: "world \<Rightarrow> event \<Rightarrow> string \<Rightarrow> int \<Rightarrow> cache \<Rightarrow> cache" where
  "put_stitch w e variant n c = put (wd_rm w) (wd_pick w) (stitch_key e variant) n c"

text \<open>The two queues; None before Warm has made them.\<close>

record stitch_queues =
  sq_lo :: "event list"
  sq_hi :: "event list"

definition request_stitch :: "event \<Rightarrow> string \<Rightarrow> stitch_queues option \<Rightarrow> stitch_queues option" where
  "request_stitch e variant qs =
     (case qs of
        None \<Rightarrow> None
      | Some q \<Rightarrow>
          if variant = ''hi'' then
            Some (if length (sq_hi q) < stitchQueue then q\<lparr>sq_hi := sq_hi q @ [e]\<rparr> else q)
          else Some (if length (sq_lo q) < stitchQueue then q\<lparr>sq_lo := sq_lo q @ [e]\<rparr> else q))"

text \<open>The worker's next job: a lo if there is one, else a hi.\<close>

definition next_job :: "stitch_queues \<Rightarrow> ((event \<times> string) \<times> stitch_queues) option" where
  "next_job q =
     (case sq_lo q of
        e # es \<Rightarrow> Some ((e, ''lo''), q\<lparr>sq_lo := es\<rparr>)
      | [] \<Rightarrow>
          (case sq_hi q of
             e # es \<Rightarrow> Some ((e, ''hi''), q\<lparr>sq_hi := es\<rparr>)
           | [] \<Rightarrow> None))"

text \<open>After a job: a finished lo queues its own hi.\<close>

definition job_done :: "event \<times> string \<Rightarrow> bool \<Rightarrow> stitch_queues \<Rightarrow> stitch_queues" where
  "job_done job ok q =
     (if ok \<and> snd job = ''lo'' then the (request_stitch (fst job) ''hi'' (Some q)) else q)"

datatype stitch_end = Skipped | StitchFailed | Rendered

text \<open>The loop that gets every camera's cut; it stops at the first that fails.\<close>

fun stitch_fills :: "world \<Rightarrow> time \<Rightarrow> time \<Rightarrow> time \<Rightarrow> segment list \<Rightarrow> (string, string) gomap \<Rightarrow> media_server
    \<Rightarrow> (string, string) gomap option \<times> cache_request list \<times> media_server" where
  "stitch_fills w now start till [] paths sv = (Some paths, [], sv)"
| "stitch_fills w now start till (g # gs) paths sv =
     (if gm_get paths (sg_C g) \<noteq> None then stitch_fills w now start till gs paths sv
      else case sv_cache sv of
        None \<Rightarrow> (None, [], sv)
      | Some c \<Rightarrow>
          let k = clip_key (sg_C g) start till; source = ClipOf (sg_C g) start till
          in case cache_fill w k source c sv of
               (None, sv1) \<Rightarrow> (None, [(now, k, source)], sv1)
             | (Some p, sv1) \<Rightarrow>
                 let (r, reqs, sv2) = stitch_fills w now start till gs (gm_set (sg_C g) p paths) sv1
                 in (r, (now, k, source) # reqs, sv2))"

text \<open>
  stitch, with what ffmpeg makes of the shots (the size of the result, or None): each shot is the
  file of its camera's cut with the bounds of its segment.
\<close>

definition stitch :: "(( string \<times> f64 \<times> f64) list \<Rightarrow> int option) option \<Rightarrow> world \<Rightarrow> (time \<Rightarrow> string list)
    \<Rightarrow> detect_dims \<Rightarrow> time \<Rightarrow> event \<Rightarrow> string \<Rightarrow> media_server \<Rightarrow> stitch_end \<times> cache_request list \<times> media_server" where
  "stitch ffmpeg w pick dims now e variant sv =
     (case (ffmpeg, sv_cache sv) of
        (Some render, Some c) \<Rightarrow>
          if is_zero (ev_EndedAt e) \<or> cache_contains (stitch_key e variant) c then (Skipped, [], sv)
          else let (start, till, _) = clip_cut e 0 False;
                   segs = build_edl pick e start till dims
               in if segs = [] then (Skipped, [], sv)
                  else (case stitch_fills w now start till segs [] sv of
                    (None, reqs, sv1) \<Rightarrow> (StitchFailed, reqs, sv1)
                  | (Some paths, reqs, sv1) \<Rightarrow>
                      (case render (map (\<lambda>g. (the (gm_get paths (sg_C g)), sg_S g, sg_E g)) segs) of
                         None \<Rightarrow> (StitchFailed, reqs, sv1)
                       | Some n \<Rightarrow>
                           (Rendered, reqs, sv1\<lparr>sv_cache := map_option (put_stitch w e variant n) (sv_cache sv1)\<rparr>)))
      | _ \<Rightarrow> (Skipped, [], sv))"

section \<open>The working set is the newest four\<close>

lemma delete_id_remove1 [simp]: "delete_id ids i = remove1 i ids"
  by (induction ids) auto

text \<open>What a change makes of the order, in one formula: a lemma about the loop, not its specification.\<close>

definition hot_step :: "change \<Rightarrow> string list \<Rightarrow> string list" where
  "hot_step c hot =
     (let e = chg_event c; i = ev_ID e
      in if \<not> event_sent e then hot
         else if chg_op c = OpStarted \<and> running e \<and> i \<notin> set hot
           then drop (length hot - 3) (hot @ [i])
         else if chg_op c = OpEnded then remove1 i hot
         else hot)"

definition stops :: "nat \<Rightarrow> warm_action list \<Rightarrow> warm_action list" where
  "stops n acts = filter (\<lambda>a. a = CancelLive n \<or> a = CloseEnded n) acts"

definition starts :: "nat \<Rightarrow> warm_action list \<Rightarrow> warm_action list" where
  "starts n acts = filter (\<lambda>a. \<exists>i. a = WarmLive n i) acts"

lemma stops_simps [simp]:
  "stops n [] = []" "stops n (a # as) = (if a = CancelLive n \<or> a = CloseEnded n then [a] else []) @ stops n as"
  "stops n (as @ bs) = stops n as @ stops n bs"
  by (simp_all add: stops_def)

lemma starts_simps [simp]:
  "starts n [] = []" "starts n (a # as) = (if \<exists>i. a = WarmLive n i then [a] else []) @ starts n as"
  "starts n (as @ bs) = starts n as @ starts n bs"
  by (simp_all add: starts_def)

definition warmer_ok :: "warmer \<Rightarrow> bool" where
  "warmer_ok wm \<longleftrightarrow> distinct (wm_order wm) \<and> length (wm_order wm) \<le> warmSet \<and>
     (\<forall>i. i \<in> set (wm_order wm) \<longleftrightarrow> gm_get (wm_watching wm) i \<noteq> None) \<and>
     (\<forall>i n. gm_get (wm_watching wm) i = Some n \<longrightarrow> n < wm_next wm) \<and>
     (\<forall>i j n. gm_get (wm_watching wm) i = Some n \<and> gm_get (wm_watching wm) j = Some n \<longrightarrow> i = j)"

text \<open>Each goroutine so far was started once, and stopped once unless it is in the working set.\<close>

definition in_set :: "warmer \<Rightarrow> nat \<Rightarrow> bool" where
  "in_set wm n \<longleftrightarrow> (\<exists>i. gm_get (wm_watching wm) i = Some n)"

definition told_once :: "warmer \<Rightarrow> warm_action list \<Rightarrow> bool" where
  "told_once wm acts \<longleftrightarrow>
     (\<forall>n. length (starts n acts) = (if n < wm_next wm then 1 else 0) \<and>
        length (stops n acts) = (if n < wm_next wm \<and> \<not> in_set wm n then 1 else 0))"

lemma ex_value_set: "gm_get m i = None \<Longrightarrow>
    (\<exists>j. gm_get (gm_set i n m) j = Some k) \<longleftrightarrow> k = n \<or> (\<exists>j. gm_get m j = Some k)"
  by (metis gm_get_set option.distinct(1) option.inject)

lemma ex_value_del: "(\<And>j. gm_get m j = Some n \<longleftrightarrow> j = i) \<Longrightarrow>
    (\<exists>j. gm_get (gm_del i m) j = Some k) \<longleftrightarrow> (\<exists>j. gm_get m j = Some k) \<and> k \<noteq> n"
  by (metis gm_get_del option.distinct(1) option.inject)

lemma told_onceI:
  assumes "told_once wm acts0"
    and "\<And>n. length (starts n acts) = (if wm_next wm \<le> n \<and> n < wm_next wm' then 1 else 0)"
    and "wm_next wm \<le> wm_next wm'"
    and "\<And>n. length (stops n acts) = (if n < wm_next wm' \<and> \<not> in_set wm' n \<and> (n < wm_next wm \<longrightarrow> in_set wm n) then 1 else 0)"
    and "\<And>n. n < wm_next wm \<Longrightarrow> in_set wm' n \<Longrightarrow> in_set wm n"
  shows "told_once wm' (acts0 @ acts)"
  unfolding told_once_def
proof (intro allI conjI)
  fix n
  show "length (starts n (acts0 @ acts)) = (if n < wm_next wm' then 1 else 0)"
    using assms(1,2,3) by (auto simp: told_once_def)
  show "length (stops n (acts0 @ acts)) = (if n < wm_next wm' \<and> \<not> in_set wm' n then 1 else 0)"
    using assms(1,3,4,5) by (auto simp: told_once_def)
qed

lemma trim_small: "length order \<le> warmSet \<Longrightarrow> trim_order order watching = Some (order, watching, [])"
  by (cases order) auto

lemma trim_one:
  assumes "length order = warmSet" and "gm_get watching old = Some n"
  shows "trim_order (old # order) watching = Some (order, gm_del old watching, [CancelLive n])"
  using assms trim_small [of order "gm_del old watching"] by simp

text \<open>What one change does to the loop's variables, and to the goroutines.\<close>

definition warm_next_ok :: "warmer \<Rightarrow> change \<Rightarrow> warmer \<Rightarrow> warm_action list \<Rightarrow> bool" where
  "warm_next_ok wm c wm' acts \<longleftrightarrow> warmer_ok wm' \<and> wm_order wm' = hot_step c (wm_order wm) \<and>
     (\<forall>acts0. told_once wm acts0 \<longrightarrow> told_once wm' (acts0 @ acts))"

lemma warm_next_idle:
  assumes "warmer_ok wm" and "hot_step c (wm_order wm) = wm_order wm"
    and "acts = [] \<or> (\<exists>e. acts = [WarmFinal e])"
  shows "warm_next_ok wm c wm acts"
  using assms by (auto simp: warm_next_ok_def told_once_def)

lemma warm_start_ok:
  assumes ok: "warmer_ok wm" and fresh: "gm_get (wm_watching wm) i = None"
    and c: "event_sent (chg_event c)" "chg_op c = OpStarted" "running (chg_event c)" "i = ev_ID (chg_event c)"
  shows "\<exists>wm' acts. warm_change c wm = Some (wm', acts) \<and> warm_next_ok wm c wm' acts"
proof -
  let ?n = "wm_next wm" and ?w = "gm_set i (wm_next wm) (wm_watching wm)"
  have i: "i \<notin> set (wm_order wm)" using ok fresh by (simp add: warmer_ok_def)
  have hot: "hot_step c (wm_order wm) = drop (length (wm_order wm) - 3) (wm_order wm @ [i])"
    using c i by (simp add: hot_step_def Let_def)
  have below: "gm_get (wm_watching wm) j = Some m \<Longrightarrow> m < ?n" for j m using ok by (simp add: warmer_ok_def)
  show ?thesis
  proof (cases "length (wm_order wm) < warmSet")
    case True
    let ?wm = "\<lparr>wm_watching = ?w, wm_order = wm_order wm @ [i], wm_next = ?n + 1\<rparr>"
    have "warm_change c wm = Some (?wm, [WarmLive ?n i])"
      using c fresh True trim_small [of "wm_order wm @ [i]" ?w] by (simp add: warm_change_def Let_def)
    moreover have "warmer_ok ?wm"
      using ok i True below by (auto simp: warmer_ok_def less_Suc_eq)
    moreover have "told_once ?wm (acts0 @ [WarmLive ?n i])" if "told_once wm acts0" for acts0
    proof -
      have set: "in_set ?wm m \<longleftrightarrow> m = ?n \<or> in_set wm m" for m
        using ex_value_set [OF fresh] by (simp add: in_set_def)
      have next_n: "wm_next ?wm = Suc ?n" by simp
      show ?thesis
        by (rule told_onceI [OF that]; simp only: next_n set; simp) auto
    qed
    ultimately show ?thesis
      using hot True by (auto simp: warm_next_ok_def)
  next
    case False
    then have four: "length (wm_order wm) = warmSet" using ok by (simp add: warmer_ok_def)
    then obtain old rest where order: "wm_order wm = old # rest" by (cases "wm_order wm") auto
    have "gm_get (wm_watching wm) old \<noteq> None"
      using ok order unfolding warmer_ok_def by (metis list.set_intros(1))
    then obtain m where m: "gm_get (wm_watching wm) old = Some m" by blast
    have "old \<noteq> i" using i order by auto
    let ?wm = "\<lparr>wm_watching = gm_del old ?w, wm_order = rest @ [i], wm_next = ?n + 1\<rparr>"
    have "trim_order (wm_order wm @ [i]) ?w = Some (rest @ [i], gm_del old ?w, [CancelLive m])"
      using trim_one [of "rest @ [i]" ?w old m] four order m \<open>old \<noteq> i\<close> by simp
    then have "warm_change c wm = Some (?wm, [WarmLive ?n i, CancelLive m])"
      using c fresh by (simp add: warm_change_def Let_def)
    moreover have "warmer_ok ?wm"
      using ok i order four below \<open>old \<noteq> i\<close> by (auto simp: warmer_ok_def less_Suc_eq)
    moreover have "told_once ?wm (acts0 @ [WarmLive ?n i, CancelLive m])" if t: "told_once wm acts0" for acts0
    proof -
      have inj: "gm_get (wm_watching wm) j = Some m \<longleftrightarrow> j = old" for j
        using ok m by (auto simp: warmer_ok_def)
      have m': "m < ?n" using below [OF m] .
      have set: "in_set ?wm k \<longleftrightarrow> k = ?n \<or> in_set wm k \<and> k \<noteq> m" for k
      proof -
        have "gm_get ?w j = Some m \<longleftrightarrow> j = old" for j using inj m m' \<open>old \<noteq> i\<close> by auto
        from ex_value_del [OF this, of k] ex_value_set [OF fresh, of ?n k] m' show ?thesis
          by (auto simp: in_set_def)
      qed
      have "in_set wm m" using m by (auto simp: in_set_def)
      with set m' show ?thesis by (intro told_onceI [OF t]) (auto split: if_splits)
    qed
    ultimately show ?thesis
      using hot order four by (auto simp: warm_next_ok_def)
  qed
qed

lemma warm_end_ok:
  assumes ok: "warmer_ok wm" and n: "gm_get (wm_watching wm) i = Some n"
    and c: "event_sent (chg_event c)" "chg_op c = OpEnded" "i = ev_ID (chg_event c)"
  shows "\<exists>wm' acts. warm_change c wm = Some (wm', acts) \<and> warm_next_ok wm c wm' acts"
proof -
  let ?wm = "wm\<lparr>wm_watching := gm_del i (wm_watching wm), wm_order := remove1 i (wm_order wm)\<rparr>"
  have "warm_change c wm = Some (?wm, [CloseEnded n])"
    using c n by (simp add: warm_change_def Let_def)
  moreover have "warmer_ok ?wm"
    using ok by (auto simp: warmer_ok_def length_remove1)
  moreover have "told_once ?wm (acts0 @ [CloseEnded n])" if t: "told_once wm acts0" for acts0
  proof -
    have inj: "gm_get (wm_watching wm) j = Some n \<longleftrightarrow> j = i" for j
      using ok n by (auto simp: warmer_ok_def)
    have n': "n < wm_next wm" "in_set wm n" using ok n by (auto simp: warmer_ok_def in_set_def)
    have set: "in_set ?wm k \<longleftrightarrow> in_set wm k \<and> k \<noteq> n" for k
      using ex_value_del [OF inj] by (simp add: in_set_def)
    with n' show ?thesis by (intro told_onceI [OF t]) (auto split: if_splits)
  qed
  moreover have "hot_step c (wm_order wm) = remove1 i (wm_order wm)"
    using c by (simp add: hot_step_def Let_def)
  ultimately show ?thesis by (auto simp: warm_next_ok_def)
qed

lemma warm_change_ok:
  assumes "warmer_ok wm"
  shows "\<exists>wm' acts. warm_change c wm = Some (wm', acts) \<and> warm_next_ok wm c wm' acts"
proof -
  let ?e = "chg_event c" and ?g = "gm_get (wm_watching wm) (ev_ID (chg_event c))"
  have mem: "ev_ID ?e \<in> set (wm_order wm) \<longleftrightarrow> ?g \<noteq> None" using assms by (simp add: warmer_ok_def)
  consider (new) "event_sent ?e" "chg_op c = OpStarted" "running ?e" "?g = None"
    | (over) n where "event_sent ?e" "chg_op c = OpEnded" "?g = Some n"
    | (none) "warm_change c wm = Some (wm, []) \<or> warm_change c wm = Some (wm, [WarmFinal ?e])"
        "hot_step c (wm_order wm) = wm_order wm"
    using mem
    by (cases "event_sent ?e"; cases "chg_op c"; cases ?g; cases "running ?e")
      (simp_all add: warm_change_def hot_step_def Let_def remove1_idem)
  then show ?thesis
  proof (cases)
    case new
    with warm_start_ok [OF assms new(4)] show ?thesis by simp
  next
    case over
    with warm_end_ok [OF assms over(3)] show ?thesis by simp
  next
    case none
    with warm_next_idle [OF assms none(2)] show ?thesis by blast
  qed
qed

text \<open>What a change says of an event: that it begins to be warmed, or that it is over.\<close>

definition calls_for :: "string \<Rightarrow> change \<Rightarrow> bool" where
  "calls_for i c \<longleftrightarrow> event_sent (chg_event c) \<and> chg_op c = OpStarted \<and> running (chg_event c) \<and> ev_ID (chg_event c) = i"

definition ends :: "string \<Rightarrow> change \<Rightarrow> bool" where
  "ends i c \<longleftrightarrow> event_sent (chg_event c) \<and> chg_op c = OpEnded \<and> ev_ID (chg_event c) = i"

text \<open>The working set after a stream of changes.\<close>

definition warm_set :: "change list \<Rightarrow> string list" where
  "warm_set cs = wm_order (fst (the (warm_run cs new_warmer)))"

lemma trim_gets: "trim_order order m = Some (order', m', acts) \<Longrightarrow> gm_get m' i = Some n \<Longrightarrow> gm_get m i = Some n"
proof (induction order m arbitrary: order' m' acts rule: trim_order.induct)
  case (2 old rest watching)
  show ?case
  proof (cases "warmSet < length (old # rest)")
    case True
    with 2(2) obtain n0 x where x: "gm_get watching old = Some n0" "trim_order rest (gm_del old watching) = Some x"
      by (auto split: option.splits)
    with True 2(2,3) 2(1) [OF True x(1), of "fst x" "fst (snd x)" "snd (snd x)"] show ?thesis
      by (auto split: prod.splits if_splits)
  qed (use 2 in simp)
qed simp

lemma warm_change_live:
  "warm_change c wm = Some (wm', acts) \<Longrightarrow> gm_get (wm_watching wm') i = Some n \<Longrightarrow>
     gm_get (wm_watching wm) i = Some n \<or> WarmLive n i \<in> set acts"
  by (auto simp: warm_change_def Let_def dest!: trim_gets split: if_splits option.splits op.splits prod.splits)

lemma warm_run_hot:
  assumes "warmer_ok wm" and "told_once wm acts0"
    and "\<And>i n. gm_get (wm_watching wm) i = Some n \<Longrightarrow> WarmLive n i \<in> set acts0"
  shows "\<exists>wm' acts. warm_run cs wm = Some (wm', acts) \<and> warmer_ok wm' \<and> wm_order wm' = fold hot_step cs (wm_order wm)
    \<and> told_once wm' (acts0 @ acts) \<and> (\<forall>i n. gm_get (wm_watching wm') i = Some n \<longrightarrow> WarmLive n i \<in> set (acts0 @ acts))"
  using assms
proof (induction cs arbitrary: wm acts0)
  case (Cons c cs)
  obtain wm1 acts1 where 1: "warm_change c wm = Some (wm1, acts1)" "warm_next_ok wm c wm1 acts1"
    using warm_change_ok [OF Cons.prems(1)] by blast
  then have "warmer_ok wm1" "told_once wm1 (acts0 @ acts1)" "wm_order wm1 = hot_step c (wm_order wm)"
    using Cons.prems(2) by (simp_all add: warm_next_ok_def)
  moreover have "WarmLive n i \<in> set (acts0 @ acts1)" if "gm_get (wm_watching wm1) i = Some n" for i n
    using warm_change_live [OF 1(1) that] Cons.prems(3) by auto
  ultimately show ?case using Cons.IH [of wm1 "acts0 @ acts1"] 1(1) by auto
qed simp

lemma warm_run_new:
  obtains wm acts where "warm_run cs new_warmer = Some (wm, acts)" "warmer_ok wm" "wm_order wm = fold hot_step cs []"
    "told_once wm acts" "\<And>i n. gm_get (wm_watching wm) i = Some n \<Longrightarrow> WarmLive n i \<in> set acts"
proof -
  have "warmer_ok new_warmer" "told_once new_warmer []" "wm_order new_warmer = []" "\<And>i. gm_get (wm_watching new_warmer) i = None"
    by (simp_all add: new_warmer_def warmer_ok_def told_once_def in_set_def)
  then show ?thesis using warm_run_hot [of new_warmer "[]" cs] that by auto
qed

lemma warm_set_hot: "warm_set cs = fold hot_step cs []"
  by (rule warm_run_new [of cs]) (simp add: warm_set_def)

lemma warm_set_distinct: "distinct (warm_set cs)" "length (warm_set cs) \<le> 4"
  by (rule warm_run_new [of cs]; simp add: warm_set_def warmer_ok_def)+

lemma hot_step_ends: "distinct hot \<Longrightarrow> ends i c \<Longrightarrow> i \<notin> set (hot_step c hot)"
  by (simp add: hot_step_def ends_def Let_def)

lemma hot_step_adds: "i \<in> set (hot_step c hot) \<Longrightarrow> i \<notin> set hot \<Longrightarrow> calls_for i c"
  by (auto simp: hot_step_def calls_for_def Let_def dest!: in_set_dropD split: if_splits dest: notin_set_remove1)

text \<open>What is in the set came in by a change and has been in it since.\<close>

lemma warm_set_since:
  "i \<in> set (warm_set cs) \<Longrightarrow> \<exists>xs c ys. cs = xs @ c # ys \<and> calls_for i c \<and> i \<notin> set (warm_set xs)
    \<and> \<not> list_ex (ends i) ys \<and> (\<forall>zs ws. ys = zs @ ws \<longrightarrow> i \<in> set (warm_set (xs @ c # zs)))"
proof (induction cs rule: rev_induct)
  case Nil
  then show ?case by (simp add: warm_set_hot)
next
  case (snoc d cs)
  show ?case
  proof (cases "i \<in> set (warm_set cs)")
    case True
    then obtain xs c ys where "cs = xs @ c # ys" "calls_for i c" "i \<notin> set (warm_set xs)" "\<not> list_ex (ends i) ys"
      "\<forall>zs ws. ys = zs @ ws \<longrightarrow> i \<in> set (warm_set (xs @ c # zs))" using snoc.IH by blast
    moreover have "\<not> ends i d"
      using snoc.prems hot_step_ends [OF warm_set_distinct(1) [of cs], of i d] by (auto simp: warm_set_hot)
    moreover have "i \<in> set (warm_set (xs @ c # zs))" if "ys @ [d] = zs @ ws" for zs ws
      using that calculation(1,5) snoc.prems by (cases ws rule: rev_cases) auto
    ultimately show ?thesis by (intro exI [of _ xs] exI [of _ c] exI [of _ "ys @ [d]"]) auto
  next
    case False
    with snoc.prems have "calls_for i d" by (intro hot_step_adds [of i d "warm_set cs"]) (simp_all add: warm_set_hot)
    with False snoc.prems show ?thesis by (intro exI [of _ cs] exI [of _ d] exI [of _ "[]"]) simp
  qed
qed

text \<open>It takes four others to crowd an event out.\<close>

lemma hot_stays:
  assumes "distinct (pre @ i # post)" and "length (pre @ i # post) \<le> 4" and "\<not> list_ex (ends i) ys"
    and "set post \<subseteq> others" and "\<And>j. list_ex (calls_for j) ys \<Longrightarrow> j \<noteq> i \<Longrightarrow> j \<in> others" and "finite others" "card others \<le> 3"
  shows "i \<in> set (fold hot_step ys (pre @ i # post))"
  using assms
proof (induction ys arbitrary: pre post)
  case (Cons c ys)
  let ?o = "pre @ i # post" and ?j = "ev_ID (chg_event c)"
  have stays: "i \<in> set (fold hot_step ys (pre' @ i # post'))"
    if "distinct (pre' @ i # post')" "length (pre' @ i # post') \<le> 4" "set post' \<subseteq> others" for pre' post'
    using Cons.IH [OF that(1,2) _ that(3)] Cons.prems(3,5-7) by auto
  consider (add) "calls_for ?j c" "?j \<notin> set ?o" | (over) "ends ?j c" | (same) "hot_step c ?o = ?o"
  proof -
    have "calls_for ?j c \<and> ?j \<notin> set ?o \<or> ends ?j c \<or> hot_step c ?o = ?o"
      by (auto simp: hot_step_def calls_for_def ends_def Let_def)
    then show ?thesis using that by blast
  qed
  then show ?case
  proof cases
    case add
    then have j: "?j \<in> others" using Cons.prems(5) [of ?j] by auto
    have hot: "hot_step c ?o = drop (length ?o - 3) (?o @ [?j])" using add by (simp add: hot_step_def calls_for_def Let_def)
    have "set (post @ [?j]) \<subseteq> others" "distinct (post @ [?j])" using Cons.prems(1,4) add(2) j by auto
    then have "length (post @ [?j]) \<le> 3" using Cons.prems(6,7) card_mono [of others "set (post @ [?j])"] distinct_card by force
    then have "length ?o - 3 \<le> length pre" by simp
    then have "hot_step c ?o = drop (length ?o - 3) pre @ i # (post @ [?j])" using hot by simp
    moreover have "distinct (drop (length ?o - 3) pre @ i # (post @ [?j]))"
      using Cons.prems(1) add(2) by (auto dest: in_set_dropD)
    moreover have "length (drop (length ?o - 3) pre @ i # (post @ [?j])) \<le> 4"
      using Cons.prems(2) \<open>length ?o - 3 \<le> length pre\<close> by simp
    ultimately show ?thesis using stays [of "drop (length ?o - 3) pre" "post @ [?j]"] \<open>set (post @ [?j]) \<subseteq> others\<close> by simp
  next
    case over
    then have "?j \<noteq> i" using Cons.prems(3) by auto
    then have "hot_step c ?o = (if ?j \<in> set pre then remove1 ?j pre @ i # post else pre @ i # remove1 ?j post)"
      using over by (simp add: hot_step_def ends_def Let_def remove1_append)
    moreover have "distinct (remove1 ?j pre @ i # post)" "distinct (pre @ i # remove1 ?j post)"
      using Cons.prems(1) set_remove1_subset [of ?j pre] set_remove1_subset [of ?j post] by auto
    moreover have "length (remove1 ?j pre @ i # post) \<le> 4" "length (pre @ i # remove1 ?j post) \<le> 4"
      using Cons.prems(2) by (auto simp: length_remove1)
    moreover have "set (remove1 ?j post) \<subseteq> others" using Cons.prems(4) set_remove1_subset [of ?j post] by blast
    ultimately show ?thesis
      using stays [of "remove1 ?j pre" post] stays [of pre "remove1 ?j post"] Cons.prems(4) by auto
  next
    case same
    with stays [OF Cons.prems(1,2,4)] show ?thesis by simp
  qed
qed simp

text \<open>
  C37. The warmer works on the newest. Over any stream of changes its loop never panics. At most
  four events are being warmed at a time. Each of them was sent and running when it started, has not ended
  since, and has been warmed all the while since that start (one that was crowded out is not taken
  back when another ends, only when it starts anew). Conversely an event that starts so is
  warmed until it ends unless four others start after it. Every warming goroutine is started
  once and told to stop once, by the end of its event or by being crowded out, but those of
  the events being warmed, which have not been told.
\<close>
theorem warm_working_set:
  "\<exists>wm acts. warm_run cs new_warmer = Some (wm, acts) \<and> warm_set cs = wm_order wm
    \<and> distinct (warm_set cs) \<and> length (warm_set cs) \<le> 4 \<and> told_once wm acts
    \<and> (\<forall>i \<in> set (warm_set cs). (\<exists>n. gm_get (wm_watching wm) i = Some n \<and> WarmLive n i \<in> set acts \<and> stops n acts = [])
        \<and> (\<exists>xs c ys. cs = xs @ c # ys \<and> calls_for i c \<and> i \<notin> set (warm_set xs)
            \<and> \<not> list_ex (ends i) ys \<and> (\<forall>zs ws. ys = zs @ ws \<longrightarrow> i \<in> set (warm_set (xs @ c # zs)))))
    \<and> (\<forall>xs c ys i. cs = xs @ c # ys \<and> calls_for i c \<and> i \<notin> set (warm_set xs) \<and> \<not> list_ex (ends i) ys
        \<and> card {j. j \<noteq> i \<and> list_ex (calls_for j) ys} \<le> 3 \<longrightarrow> i \<in> set (warm_set cs))"
proof -
  obtain wm acts where run: "warm_run cs new_warmer = Some (wm, acts)" "warmer_ok wm" "told_once wm acts"
    "\<And>i n. gm_get (wm_watching wm) i = Some n \<Longrightarrow> WarmLive n i \<in> set acts" using warm_run_new [of cs] by metis
  then have set: "warm_set cs = wm_order wm" by (simp add: warm_set_def)
  have live: "\<exists>n. gm_get (wm_watching wm) i = Some n \<and> WarmLive n i \<in> set acts \<and> stops n acts = []" if "i \<in> set (warm_set cs)" for i
  proof -
    have "gm_get (wm_watching wm) i \<noteq> None" using that run(2) unfolding set warmer_ok_def by blast
    then obtain n where n: "gm_get (wm_watching wm) i = Some n" by blast
    then have "in_set wm n" by (auto simp: in_set_def)
    then have "length (stops n acts) = 0" using run(3) unfolding told_once_def by simp
    then have "stops n acts = []" by simp
    with n run(4) show ?thesis by blast
  qed
  have "i \<in> set (warm_set cs)" if cs: "cs = xs @ c # ys" and c: "calls_for i c" "i \<notin> set (warm_set xs)"
    and ys: "\<not> list_ex (ends i) ys" "card {j. j \<noteq> i \<and> list_ex (calls_for j) ys} \<le> 3" for xs c ys i
  proof -
    let ?pre = "drop (length (warm_set xs) - 3) (warm_set xs)"
    have "hot_step c (warm_set xs) = ?pre @ [i]" using c by (simp add: hot_step_def calls_for_def Let_def)
    moreover have "finite {j. j \<noteq> i \<and> list_ex (calls_for j) ys}"
      by (rule finite_subset [of _ "(\<lambda>c. ev_ID (chg_event c)) ` set ys"]) (auto simp: list_ex_iff calls_for_def)
    moreover have "distinct (?pre @ [i])" "length (?pre @ [i]) \<le> 4"
      using warm_set_distinct [of xs] c(2) by (auto dest: in_set_dropD)
    ultimately show ?thesis
      using hot_stays [of ?pre i "[]" ys "{j. j \<noteq> i \<and> list_ex (calls_for j) ys}"] ys by (simp add: cs warm_set_hot [symmetric]) (simp add: warm_set_hot)
  qed
  with run set live warm_set_since [of _ cs] warm_set_distinct [of cs] show ?thesis by (intro exI [of _ wm] exI [of _ acts]) blast
qed

definition start_change :: "string \<Rightarrow> change" where
  "start_change i = Change OpStarted (zero_event\<lparr>ev_ID := i, ev_Kind := KindActivity\<rparr>)"

definition end_change :: "string \<Rightarrow> change" where
  "end_change i = Change OpEnded (zero_event\<lparr>ev_ID := i, ev_Kind := KindActivity, ev_EndedAt := 9\<rparr>)"

text \<open>Five events start and the last ends: the second is still warmed, the first is not taken back.\<close>

lemma warm_working_set_witness:
  "\<exists>wm acts. warm_run (map start_change [''1'', ''2'', ''3'', ''4'', ''5''] @ [end_change ''5'']) new_warmer = Some (wm, acts)
    \<and> ''2'' \<in> set (warm_set (map start_change [''1'', ''2'', ''3'', ''4'', ''5''] @ [end_change ''5'']))
    \<and> ''1'' \<notin> set (wm_order wm) \<and> told_once wm acts"
proof -
  let ?cs = "map start_change [''1'', ''2'', ''3'', ''4'', ''5''] @ [end_change ''5'']"
  let ?ys = "map start_change [''3'', ''4'', ''5''] @ [end_change ''5'']"
  have cs: "?cs = [start_change ''1''] @ start_change ''2'' # ?ys" by simp
  have calls: "calls_for j (start_change k) \<longleftrightarrow> j = k" "\<not> calls_for j (end_change k)" "\<not> ends ''2'' (start_change k)" "\<not> ends ''2'' (end_change ''5'')" for j k
    by (auto simp: calls_for_def ends_def start_change_def end_change_def event_sent_def running_def zero_event_def)
  have "{j. j \<noteq> ''2'' \<and> list_ex (calls_for j) ?ys} = {''3'', ''4'', ''5''}" by (auto simp: calls)
  then have three: "card {j. j \<noteq> ''2'' \<and> list_ex (calls_for j) ?ys} \<le> 3" by simp
  have "set (warm_set [start_change ''1'']) = {''1''}"
    by (simp add: warm_set_hot hot_step_def start_change_def event_sent_def running_def zero_event_def)
  with three cs have hyp: "?cs = [start_change ''1''] @ start_change ''2'' # ?ys \<and> calls_for ''2'' (start_change ''2'') \<and> ''2'' \<notin> set (warm_set [start_change ''1''])
    \<and> \<not> list_ex (ends ''2'') ?ys \<and> card {j. j \<noteq> ''2'' \<and> list_ex (calls_for j) ?ys} \<le> 3" by (simp add: calls)
  obtain wm acts where all: "warm_run ?cs new_warmer = Some (wm, acts)" "warm_set ?cs = wm_order wm" "told_once wm acts"
    "\<And>xs c ys i. ?cs = xs @ c # ys \<and> calls_for i c \<and> i \<notin> set (warm_set xs) \<and> \<not> list_ex (ends i) ys
        \<and> card {j. j \<noteq> i \<and> list_ex (calls_for j) ys} \<le> 3 \<Longrightarrow> i \<in> set (warm_set ?cs)"
    using warm_working_set [of ?cs] by (elim exE conjE) (rule that, assumption+, blast)
  from all(4) [OF hyp] have "''2'' \<in> set (warm_set ?cs)" .
  moreover have "warm_set ?cs = [''2'', ''3'', ''4'']"
    by (simp add: warm_set_hot hot_step_def start_change_def end_change_def event_sent_def running_def zero_event_def)
  then have "''1'' \<notin> set (warm_set ?cs)" by simp
  ultimately show ?thesis using all(1-3) by metis
qed

section \<open>What the warmer asks for has settled\<close>

definition settled_request :: "cache_request \<Rightarrow> bool" where
  "settled_request = (\<lambda>(now, k, source).
     (case source of
        ClipOf cam start till \<Rightarrow> till + warmGrace \<le> now \<and> k = clip_key cam start till
      | SnapshotOf _ \<Rightarrow> True))"

text \<open>
  Timers never fire early: warmFinal has waited out its cut, a rung's timer is due, and what the
  store then holds did not start later than what the timer was set for.
\<close>

definition final_due :: "event \<Rightarrow> time option \<Rightarrow> bool" where
  "final_due e woke \<longleftrightarrow> (\<forall>now. woke = Some now \<longrightarrow> ev_EndedAt e + (clipMargin + warmGrace) \<le> now)"

fun timely :: "event \<Rightarrow> duration list \<Rightarrow> wake list \<Rightarrow> bool" where
  "timely e ladder (Sealed (Some e1) woke # wakes) = final_due e1 woke"
| "timely e (b # ladder) (Timer now (Some e1) # wakes) =
     (ev_StartedAt e + (b + warmGrace) \<le> now \<and> ev_StartedAt e1 \<le> ev_StartedAt e \<and> timely e1 ladder wakes)"
| "timely e ladder wakes = True"

lemma fill_one_reqs:
  "set (fst (fold (fill_one w now) xs (reqs, sv))) \<subseteq> set reqs \<union> Pair now ` set xs"
proof (induction xs arbitrary: reqs sv)
  case (Cons x xs)
  obtain reqs1 sv1 where one: "fill_one w now x (reqs, sv) = (reqs1, sv1)" by fastforce
  then have "set reqs1 \<subseteq> insert (now, x) (set reqs)"
    by (cases x) (auto simp: fill_one_def split: option.splits)
  with Cons.IH [of reqs1 sv1] show ?case by (auto simp: one)
qed simp

lemma warm_final_settled:
  assumes "final_due e woke" and "r \<in> set (fst (warm_final w woke e sv))"
  shows "settled_request r"
proof -
  obtain now where now: "woke = Some now" "\<not> is_zero (ev_EndedAt e)"
    using assms(2) by (auto simp: warm_final_def split: if_splits option.splits)
  obtain s t stable where cut: "clip_cut e now True = (s, t, stable)" by (cases "clip_cut e now True")
  let ?clips = "if ev_Clip e = ClipNone then [] else map (\<lambda>cam. (clip_key cam s t, ClipOf cam s t)) (event_cameras e)"
  let ?snaps = "if ev_HasSnapshot e then [(snap_key e, SnapshotOf (ev_SourceID e))] else []"
  have "r \<in> set (fst (fold (fill_one w now) (?clips @ ?snaps) ([], sv)))"
    using assms(2) now by (simp add: warm_final_def cut split: if_splits)
  with fill_one_reqs [of w now "?clips @ ?snaps" "[]" sv] have "r \<in> Pair now ` set (?clips @ ?snaps)" by auto
  moreover have "t = ev_EndedAt e + clipMargin" using cut now(2) by (auto simp: clip_cut_def Let_def)
  moreover have "ev_EndedAt e + (clipMargin + warmGrace) \<le> now" using assms(1) now(1) by (simp add: final_due_def)
  ultimately show ?thesis by (auto simp: settled_request_def split: if_splits)
qed

lemma seal_settled:
  assumes "\<And>e1. held = Some e1 \<Longrightarrow> final_due e1 woke" and "r \<in> set (fst (seal w e held woke prev sv))"
  shows "settled_request r"
proof (cases held)
  case None
  with assms(2) show ?thesis by (simp add: seal_def)
next
  case (Some e1)
  with assms(2) have "r \<in> set (fst (warm_final w woke e1 sv))"
    by (simp add: seal_def Let_def split: prod.splits)
  with warm_final_settled assms(1) [OF Some] show ?thesis by blast
qed

lemma warm_rungs_gone [simp]: "warm_rungs w ladder (Timer now None # wakes) e prev sv = ([], sv)"
  by (cases ladder) simp_all

lemma rung_camera_reqs:
  "fold (warm_rung_camera w now s t) cams (prev, reqs, sv) = (prev', reqs', sv') \<Longrightarrow>
    set reqs' \<subseteq> set reqs \<union> (\<lambda>cam. (now, clip_key cam s t, ClipOf cam s t)) ` set cams"
proof (induction cams arbitrary: prev reqs sv)
  case (Cons cam cams)
  obtain prev1 reqs1 sv1 where one: "warm_rung_camera w now s t cam (prev, reqs, sv) = (prev1, reqs1, sv1)"
    by (cases "warm_rung_camera w now s t cam (prev, reqs, sv)") auto
  then have "set reqs1 \<subseteq> insert (now, clip_key cam s t, ClipOf cam s t) (set reqs)"
    by (auto simp: warm_rung_camera_def Let_def split: option.splits prod.splits)
  with Cons.IH [of prev1 reqs1 sv1] Cons.prems show ?case by (auto simp: one)
qed simp

lemma warm_rungs_settled:
  "timely e ladder wakes \<Longrightarrow> r \<in> set (fst (warm_rungs w ladder wakes e prev sv)) \<Longrightarrow> settled_request r"
proof (induction e ladder wakes arbitrary: prev sv rule: timely.induct)
  case (1 e ladder e1 woke wakes)
  then show ?case using seal_settled [of "Some e1" woke r w e prev sv] by simp
next
  case (2 e b ladder now e1 wakes)
  let ?s = "ev_StartedAt e1 + - clipMargin" and ?t = "ev_StartedAt e1 + b"
  obtain prev' reqs sv1 where rung:
    "fold (warm_rung_camera w now ?s ?t) (event_cameras e1) (prev, [], sv) = (prev', reqs, sv1)"
    by (cases "fold (warm_rung_camera w now ?s ?t) (event_cameras e1) (prev, [], sv)") auto
  have "running e1" using 2(3) by (auto split: if_splits)
  then have "r \<in> set reqs \<or> r \<in> set (fst (warm_rungs w ladder wakes e1 prev' sv1))"
    using 2(3) rung by (simp add: Let_def split: prod.splits)
  then show ?case
  proof
    assume "r \<in> set reqs"
    then obtain cam where "r = (now, clip_key cam ?s ?t, ClipOf cam ?s ?t)"
      using rung_camera_reqs [OF rung] by auto
    then show ?case using 2(2) by (simp add: settled_request_def)
  next
    assume "r \<in> set (fst (warm_rungs w ladder wakes e1 prev' sv1))"
    with 2(1) 2(2) show ?case by simp
  qed
qed (auto simp: seal_def warm_final_def split: if_splits)

text \<open>
  Further. The warmer freezes no truncated cut either. Whatever it sees, in whatever order its rungs, the
  end of the event and its own cancelling come, every clip it asks the cache for ends at least
  five seconds before it asks, under the key of exactly that cut; so does what warmFinal asks
  for on its own.
\<close>
theorem warm_cuts_settled:
  assumes "\<And>e. store_get i (sv_store sv) = Some e \<Longrightarrow> timely e warm_ladder wakes" and "final_due e woke"
    and "r \<in> set (fst (warm_live w i wakes sv)) \<or> r \<in> set (fst (warm_final w woke e sv))"
  shows "settled_request r"
  using assms(3)
proof
  assume "r \<in> set (fst (warm_live w i wakes sv))"
  then obtain e where "store_get i (sv_store sv) = Some e" "r \<in> set (fst (warm_rungs w warm_ladder wakes e [] sv))"
    by (auto simp: warm_live_def split: option.splits)
  with assms(1) warm_rungs_settled show ?thesis by blast
next
  assume "r \<in> set (fst (warm_final w woke e sv))"
  with assms(2) warm_final_settled show ?thesis by blast
qed

section \<open>Warm means hot\<close>

lemma shed_idle: "mc_size c \<le> mc_budget c \<Longrightarrow> shed rm pick c = c"
  by (cases "length (mc_entries c)") (simp_all add: shed_def)

text \<open>How many bytes a source gives, when Frigate answers it whole.\<close>

definition source_size :: "world \<Rightarrow> cut_source \<Rightarrow> nat option" where
  "source_size w source =
     (case ask (wd_fill w) source of
        Inl _ \<Rightarrow> None
      | Inr (m, reads, broken) \<Rightarrow> if broken then None else Some (length (concat reads)))"

lemma fill_fits:
  assumes "mc_inflight c = []" and "source_size w source = Some n" and "mc_size c + int n \<le> mc_budget c"
  shows "\<exists>c'. sv_cache (snd (cache_fill w k source c sv)) = Some c' \<and> mc_inflight c' = [] \<and>
    cache_contains k c' \<and> (\<forall>j. cache_contains j c \<longrightarrow> cache_contains j c') \<and>
    mc_size c' \<le> mc_size c + int n \<and> mc_budget c' = mc_budget c"
proof (cases "gm_get (mc_entries c) k")
  case (Some e)
  then have "cache_fill w k source c sv = (Some (ce_path e), sv\<lparr>sv_cache := Some (touch k e c)\<rparr>)"
    by (simp add: cache_fill_def fill_begin_def)
  with assms(1) show ?thesis by (auto simp: touch_def cache_contains_def)
next
  case None
  obtain m reads where ask: "ask (wd_fill w) source = Inr (m, reads, False)" "n = length (concat reads)"
    using assms(2) by (auto simp: source_size_def split: sum.splits prod.splits if_splits)
  define c2 where "c2 = c\<lparr>mc_inflight := [(k, Fetching)]\<rparr>"
  have begin': "fill_begin k c = (Lead, c\<lparr>mc_inflight := [(k, Queued)]\<rparr>)"
    using None assms(1) by (simp add: fill_begin_def)
  have slot: "fill_slot k (c\<lparr>mc_inflight := [(k, Queued)]\<rparr>) = Some c2"
    by (simp add: fill_slot_def fetching_def c2_def)
  let ?e = "\<lparr>ce_path = key_path (mc_dir c) k, ce_size = int n, ce_seq = mc_seq c + 1\<rparr>"
  let ?c = "c\<lparr>mc_files := gm_set (key_path (mc_dir c) k) (int n) (mc_files c), mc_seq := mc_seq c + 1,
      mc_entries := gm_set k ?e (mc_entries c), mc_size := mc_size c + int n,
      mc_inflight := [(k, Done (Some (key_path (mc_dir c) k)))]\<rparr>"
  have "fill_store (wd_rm w) (wd_pick w) k (int n) c2 = shed (wd_rm w) (wd_pick w) ?c"
    by (simp add: fill_store_def c2_def Let_def)
  also have "\<dots> = ?c" by (rule shed_idle) (use assms(3) in simp)
  finally have store: "fill_store (wd_rm w) (wd_pick w) k (int n) c2 = ?c" .
  have "sv_cache (snd (cache_fill w k source c sv)) = Some (fill_leave k ?c)"
    using ask by (simp add: cache_fill_def begin' slot store [unfolded ask(2)] one_fetch_def tally_def)
  then show ?thesis by (auto simp: fill_leave_def cache_contains_def)
qed

lemma fills_fit:
  assumes "sv_cache sv = Some c" and "mc_inflight c = []"
    and "\<forall>(k, source) \<in> set xs. \<exists>n. source_size w source = Some n \<and> n \<le> most"
    and "mc_size c + int (length xs * most) \<le> mc_budget c"
  shows "\<exists>c'. sv_cache (snd (fold (fill_one w now) xs (reqs, sv))) = Some c' \<and> mc_inflight c' = [] \<and>
    (\<forall>k \<in> fst ` set xs. cache_contains k c') \<and> (\<forall>j. cache_contains j c \<longrightarrow> cache_contains j c')"
  using assms
proof (induction xs arbitrary: sv c reqs)
  case (Cons x xs)
  obtain k source where x: "x = (k, source)" by (cases x)
  then obtain n where n: "source_size w source = Some n" "n \<le> most" using Cons.prems(3) by auto
  have "mc_size c + int n \<le> mc_budget c" using Cons.prems(4) n(2) by simp (metis add_increasing2 add_left_mono le_add1 of_nat_add of_nat_le_iff of_nat_mult order_trans)
  from fill_fits [OF Cons.prems(2) n(1) this, of k sv] obtain c1 where
    c1: "sv_cache (snd (cache_fill w k source c sv)) = Some c1" "mc_inflight c1 = []" "cache_contains k c1"
      "\<forall>j. cache_contains j c \<longrightarrow> cache_contains j c1" "mc_size c1 \<le> mc_size c + int n"
      "mc_budget c1 = mc_budget c" by blast
  have one: "fill_one w now x (reqs, sv) = (reqs @ [(now, k, source)], snd (cache_fill w k source c sv))"
    by (simp add: fill_one_def x Cons.prems(1))
  have rest: "\<forall>(k, source) \<in> set xs. \<exists>n. source_size w source = Some n \<and> n \<le> most"
    using Cons.prems(3) by simp
  have "mc_size c1 + int (length xs * most) \<le> mc_budget c1"
    using Cons.prems(4) c1(5,6) n(2) by (simp add: algebra_simps)
  from Cons.IH [OF c1(1,2) rest this, of "reqs @ [(now, k, source)]"] obtain c' where
    "sv_cache (snd (fold (fill_one w now) xs (reqs @ [(now, k, source)], snd (cache_fill w k source c sv)))) = Some c'"
    "mc_inflight c' = []" "\<forall>k \<in> fst ` set xs. cache_contains k c'" "\<forall>j. cache_contains j c1 \<longrightarrow> cache_contains j c'"
    by blast
  with c1 show ?case by (auto simp: one [unfolded x] x)
qed simp

lemma evict_contains: "cache_contains j (evict rm k c) \<longleftrightarrow> j \<noteq> k \<and> cache_contains j c"
  by (cases "gm_get (mc_entries c) k") (auto simp: evict_def cache_contains_def)

lemma evicts_contain:
  "cache_contains j (fold (\<lambda>(cam, till). evict rm (clip_key cam s till)) prev c) \<longleftrightarrow>
    cache_contains j c \<and> j \<notin> (\<lambda>(cam, till). clip_key cam s till) ` set prev"
  by (induction prev arbitrary: c) (auto simp: evict_contains)

text \<open>An ended event whose media Frigate has, and room in the cache for all of it.\<close>

definition warmable :: "world \<Rightarrow> event \<Rightarrow> cache \<Rightarrow> bool" where
  "warmable w e c \<longleftrightarrow> \<not> is_zero (ev_EndedAt e) \<and> ev_Clip e \<noteq> ClipNone \<and> mc_inflight c = [] \<and>
     (\<exists>most. mc_size c + int ((length (event_cameras e) + 1) * most) \<le> mc_budget c \<and>
        (\<forall>cam \<in> set (event_cameras e). \<exists>n \<le> most.
           source_size w (ClipOf cam (ev_StartedAt e - clipMargin) (ev_EndedAt e + clipMargin)) = Some n) \<and>
        (ev_HasSnapshot e \<longrightarrow> (\<exists>n \<le> most. source_size w (SnapshotOf (ev_SourceID e)) = Some n)))"

abbreviation final_key :: "event \<Rightarrow> string \<Rightarrow> cache_key" where
  "final_key e cam \<equiv> clip_key cam (ev_StartedAt e - clipMargin) (ev_EndedAt e + clipMargin)"

lemma warm_final_hot:
  assumes "warmable w e c" and "sv_cache sv = Some c"
  shows "\<exists>c'. sv_cache (snd (warm_final w (Some now) e sv)) = Some c' \<and>
    (\<forall>cam \<in> set (event_cameras e). cache_contains (final_key e cam) c') \<and>
    (ev_HasSnapshot e \<longrightarrow> cache_contains (snap_key e) c')"
proof -
  let ?s = "ev_StartedAt e - clipMargin" and ?t = "ev_EndedAt e + clipMargin"
  have ended: "\<not> is_zero (ev_EndedAt e)" "ev_Clip e \<noteq> ClipNone" "mc_inflight c = []"
    using assms(1) by (simp_all add: warmable_def)
  from assms(1) obtain most where most:
    "mc_size c + int ((length (event_cameras e) + 1) * most) \<le> mc_budget c"
    "\<forall>cam \<in> set (event_cameras e). \<exists>n \<le> most. source_size w (ClipOf cam ?s ?t) = Some n"
    "ev_HasSnapshot e \<longrightarrow> (\<exists>n \<le> most. source_size w (SnapshotOf (ev_SourceID e)) = Some n)"
    unfolding warmable_def by blast
  define xs where "xs = map (\<lambda>cam. (clip_key cam ?s ?t, ClipOf cam ?s ?t)) (event_cameras e)
    @ (if ev_HasSnapshot e then [(snap_key e, SnapshotOf (ev_SourceID e))] else [])"
  have "clip_cut e now True = (?s, ?t, True)" using ended by (simp add: clip_cut_def Let_def)
  then have final: "warm_final w (Some now) e sv = fold (fill_one w now) xs ([], sv)"
    using ended by (simp add: warm_final_def xs_def)
  have "length xs * most \<le> (length (event_cameras e) + 1) * most"
    by (rule mult_le_mono1) (simp add: xs_def)
  then have fits: "mc_size c + int (length xs * most) \<le> mc_budget c"
    using most(1) by (meson add_left_mono of_nat_mono order_trans)
  have "\<forall>(k, source) \<in> set xs. \<exists>n. source_size w source = Some n \<and> n \<le> most"
    using most(2,3) by (auto simp: xs_def)
  from fills_fit [OF assms(2) ended(3) this fits, of now "[]"]
  obtain c' where "sv_cache (snd (warm_final w (Some now) e sv)) = Some c'"
    "\<forall>k \<in> fst ` set xs. cache_contains k c'" unfolding final by blast
  moreover have "final_key e cam \<in> fst ` set xs" if "cam \<in> set (event_cameras e)" for cam
    using that by (auto simp: xs_def image_Un image_image)
  moreover have "snap_key e \<in> fst ` set xs" if "ev_HasSnapshot e" using that by (simp add: xs_def)
  ultimately show ?thesis by blast
qed

text \<open>
  Further. Warm means hot. When Frigate has the cuts and the cache has room, then after warmFinal every
  key that the handler will look up for the ended event, whichever camera a link names and for
  its snapshot, is in the cache, and ClipCached says so, from the moment the cut has settled.
  After the seal of a running event the final cuts are still there, except those whose key is
  also the key of the last rung, which the seal evicts.
\<close>
theorem warm_means_hot:
  assumes "warmable w e c" and "sv_cache sv = Some c" and "ev_EndedAt e + (clipMargin + warmGrace) \<le> now'"
  shows "clip_cached e now' (snd (warm_final w (Some now) e sv)) \<and>
    (\<exists>c'. sv_cache (snd (warm_final w (Some now) e sv)) = Some c' \<and>
      (\<forall>cam \<in> set (event_cameras e). \<forall>k x. cached_cut (e\<lparr>ev_Camera := cam\<rparr>) MEDIA_CLIP now' = Some (k, x) \<longrightarrow>
        cache_contains k c') \<and>
      (ev_HasSnapshot e \<longrightarrow> (\<forall>k x. cached_cut e MEDIA_SNAPSHOT now' = Some (k, x) \<longrightarrow> cache_contains k c'))) \<and>
    (\<exists>c'. sv_cache (snd (seal w e0 (Some e) (Some now) prev sv)) = Some c' \<and>
      (\<forall>cam \<in> set (event_cameras e). cache_contains (final_key e cam) c' \<longleftrightarrow>
        final_key e cam \<notin> (\<lambda>(cam, till). clip_key cam (ev_StartedAt e - clipMargin) till) ` set prev))"
proof (intro conjI)
  have ended: "\<not> is_zero (ev_EndedAt e)" "ev_Clip e \<noteq> ClipNone"
    using assms(1) by (simp_all add: warmable_def)
  obtain c' where c': "sv_cache (snd (warm_final w (Some now) e sv)) = Some c'"
    "\<forall>cam \<in> set (event_cameras e). cache_contains (final_key e cam) c'"
    "ev_HasSnapshot e \<longrightarrow> cache_contains (snap_key e) c'"
    using warm_final_hot [OF assms(1,2), of now] by blast
  have cut: "clip_cut (e\<lparr>ev_Camera := cam\<rparr>) now' True
      = (ev_StartedAt e - clipMargin, ev_EndedAt e + clipMargin, True)" for cam
    using ended by (simp add: clip_cut_def Let_def)
  from cut [of "ev_Camera e"] show "clip_cached e now' (snd (warm_final w (Some now) e sv))"
    using ended assms(3) c' by (simp add: clip_cached_def list_all_iff)
  show "\<exists>c'. sv_cache (snd (warm_final w (Some now) e sv)) = Some c' \<and>
      (\<forall>cam \<in> set (event_cameras e). \<forall>k x. cached_cut (e\<lparr>ev_Camera := cam\<rparr>) MEDIA_CLIP now' = Some (k, x) \<longrightarrow>
        cache_contains k c') \<and>
      (ev_HasSnapshot e \<longrightarrow> (\<forall>k x. cached_cut e MEDIA_SNAPSHOT now' = Some (k, x) \<longrightarrow> cache_contains k c'))"
    using c' cut ended by (intro exI [of _ c']) (auto simp: cached_cut_def split: if_splits)
  have "sv_cache (snd (seal w e0 (Some e) (Some now) prev sv))
      = Some (fold (\<lambda>(cam, till). evict (wd_rm w) (clip_key cam (ev_StartedAt e - clipMargin) till)) prev c')"
    using c'(1) by (simp add: seal_def Let_def evict_checkpoints_def split_beta)
  then show "\<exists>c'. sv_cache (snd (seal w e0 (Some e) (Some now) prev sv)) = Some c' \<and>
      (\<forall>cam \<in> set (event_cameras e). cache_contains (final_key e cam) c' \<longleftrightarrow>
        final_key e cam \<notin> (\<lambda>(cam, till). clip_key cam (ev_StartedAt e - clipMargin) till) ` set prev)"
    using c'(2) by (intro exI conjI) (assumption, simp add: evicts_contain)
qed

section \<open>Two surprises\<close>

text \<open>
  The seal of an event whose final cut ends in the same second as its last rung evicts the cut it
  has just cached: an activity of 55 seconds, whose last rung before the gap of a minute is the
  one at 60 seconds.
\<close>

lemma seal_evicts_final:
  assumes "(cam, till) \<in> set prev" and "unix_sec till = unix_sec (ev_EndedAt e + clipMargin)"
    and "sv_cache (snd (seal w e0 (Some e) woke prev sv)) = Some c'"
  shows "\<not> cache_contains (final_key e cam) c'"
proof -
  have "final_key e cam = clip_key cam (ev_StartedAt e - clipMargin) till"
    using assms(2) by (simp add: clip_key_def)
  then have "final_key e cam \<in> (\<lambda>(cam, till). clip_key cam (ev_StartedAt e - clipMargin) till) ` set prev"
    using assms(1) by force
  moreover obtain c where "sv_cache (snd (warm_final w woke e sv)) = Some c"
    and "c' = fold (\<lambda>(cam, till). evict (wd_rm w) (clip_key cam (ev_StartedAt e - clipMargin) till)) prev c"
    using assms(3) by (auto simp: seal_def Let_def evict_checkpoints_def split_beta)
  ultimately show ?thesis by (simp add: evicts_contain)
qed

text \<open>
  A stitch is made when it is asked for: unlike warmFinal it does not wait for the cut to settle,
  so its requests end at the event's end and five seconds, whatever the time is.
\<close>

lemma stitch_fills_reqs:
  "(r, reqs, sv') = stitch_fills w now s t segs paths sv \<Longrightarrow>
    \<forall>q \<in> set reqs. \<exists>cam \<in> sg_C ` set segs. q = (now, clip_key cam s t, ClipOf cam s t)"
proof (induction segs arbitrary: paths sv r reqs sv')
  case (Cons g gs)
  show ?case
  proof (cases "gm_get paths (sg_C g) \<noteq> None \<or> sv_cache sv = None")
    case True
    with Cons show ?thesis by (auto split: if_splits option.splits)
  next
    case False
    then obtain c where c: "sv_cache sv = Some c" "gm_get paths (sg_C g) = None" by auto
    obtain p sv1 where fill: "cache_fill w (clip_key (sg_C g) s t) (ClipOf (sg_C g) s t) c sv = (p, sv1)" by fastforce
    show ?thesis
    proof (cases p)
      case None
      with Cons.prems c fill show ?thesis by simp
    next
      case (Some q)
      obtain r2 reqs2 sv2 where rest: "stitch_fills w now s t gs (gm_set (sg_C g) q paths) sv1 = (r2, reqs2, sv2)"
        by (cases "stitch_fills w now s t gs (gm_set (sg_C g) q paths) sv1")
      from Cons.IH [OF rest [symmetric]] Cons.prems c fill Some rest show ?thesis by auto
    qed
  qed
qed simp

lemma stitch_does_not_wait:
  assumes "stitch ffmpeg w pick dims now e variant sv = (end', reqs, sv')" and "(t0, k, source) \<in> set reqs"
  shows "\<exists>cam. source = ClipOf cam (ev_StartedAt e - clipMargin) (ev_EndedAt e + clipMargin) \<and> t0 = now"
proof -
  obtain render c where rc: "ffmpeg = Some render" "sv_cache sv = Some c" "\<not> is_zero (ev_EndedAt e)"
    using assms by (auto simp: stitch_def Let_def split: option.splits if_splits)
  let ?s = "ev_StartedAt e - clipMargin" and ?t = "ev_EndedAt e + clipMargin"
  have cut: "clip_cut e 0 False = (?s, ?t, True)" using rc(3) by (simp add: clip_cut_def Let_def)
  let ?segs = "build_edl pick e ?s ?t dims"
  obtain r reqs1 sv1 where fills: "stitch_fills w now ?s ?t ?segs [] sv = (r, reqs1, sv1)"
    by (cases "stitch_fills w now ?s ?t ?segs [] sv")
  have "reqs = reqs1 \<or> reqs = []"
    using assms(1) rc cut fills by (auto simp: stitch_def Let_def split: option.splits if_splits)
  with assms(2) stitch_fills_reqs [OF fills [symmetric]] show ?thesis by auto
qed

section \<open>Witnesses\<close>

definition demo_ended :: event where
  "demo_ended = demo_event\<lparr>ev_EndedAt := unix_epoch + 1010 * Second, ev_Clip := ClipFinal\<rparr>"

definition demo_warm :: media_server where
  "demo_warm = demo_server\<lparr>sv_cache := Some (new_cache (\<lambda>p. True) [] ''/c'' 100)\<rparr>"

lemma demo_ended_simps:
  "event_cameras demo_ended = [''porch'']" "\<not> ev_HasSnapshot demo_ended"
  "ev_EndedAt demo_ended = unix_epoch + 1010 * Second" "ev_Clip demo_ended = ClipFinal"
  "ev_StartedAt demo_ended = unix_epoch + 1000 * Second"
  by (simp_all add: demo_ended_def demo_event_def zero_event_def event_cameras_def)

lemma demo_final_reqs:
  "fst (warm_final demo_world (Some (unix_epoch + 1020 * Second)) demo_ended demo_warm)
    = [(unix_epoch + 1020 * Second, final_key demo_ended ''porch'',
        ClipOf ''porch'' (unix_epoch + 995 * Second) (unix_epoch + 1015 * Second))]"
  by (simp add: warm_final_def demo_ended_simps clip_cut_def Let_def fill_one_def demo_warm_def split_beta)

theorem warm_cuts_settled_witness:
  "settled_request (unix_epoch + 1020 * Second, final_key demo_ended ''porch'',
     ClipOf ''porch'' (unix_epoch + 995 * Second) (unix_epoch + 1015 * Second))"
proof -
  have "final_due demo_ended (Some (unix_epoch + 1020 * Second))" by (simp add: final_due_def demo_ended_simps)
  from warm_cuts_settled [OF _ this, of "''nobody''" demo_warm "[]" _ demo_world] demo_final_reqs
  show ?thesis by (simp add: demo_warm_def demo_get)
qed

theorem warm_means_hot_witness:
  "clip_cached demo_ended (unix_epoch + 1020 * Second)
     (snd (warm_final demo_world (Some (unix_epoch + 1020 * Second)) demo_ended demo_warm))"
proof -
  let ?c = "new_cache (\<lambda>p. True) [] ''/c'' 100"
  have size: "source_size demo_world (ClipOf ''porch'' (unix_epoch + 995 * Second) (unix_epoch + 1015 * Second)) = Some 3"
    by code_simp
  have some: "\<exists>n\<le>3. source_size demo_world (ClipOf ''porch'' (unix_epoch + 995 * Second) (unix_epoch + 1015 * Second)) = Some n"
    using size by auto
  have "warmable demo_world demo_ended ?c"
    unfolding warmable_def
    using some by (intro conjI exI [of _ 3]) (simp_all add: demo_ended_simps new_cache_def)
  moreover have "sv_cache demo_warm = Some ?c" by (simp add: demo_warm_def)
  moreover have "ev_EndedAt demo_ended + (clipMargin + warmGrace) \<le> unix_epoch + 1020 * Second"
    by (simp add: demo_ended_simps)
  ultimately show ?thesis using warm_means_hot by blast
qed

end
