(* ===== verification/Admin.thy ===== *)
theory Admin
  imports Auth
begin

text \<open>
  The admin area (\<open>internal/house/admin.go\<close>): challenges, the two passkey ceremonies over HTTP,
  sessions, and the calls that change who may use the service.

  Requests are served side by side, and none holds a lock from its start to its end: the sessions
  and challenges are behind one mutex, the registry behind its own.  A request is therefore a
  sequence of stages, one for each time it takes a lock, and an admin system runs any number of
  requests with their stages in any order.  What a stage needs of the outside, the clock, random
  bytes, the body (read only when the handler decodes it, however late it comes), whether the
  registry can be written, is its environment.

  What \<open>url.Parse\<close> makes of the configured origin is part of the configuration; signatures are an
  argument, as in the ceremonies.  Of a refusal the status is kept, not its text.
\<close>

section \<open>State\<close>

abbreviation (input) adminSessionTTL :: duration where "adminSessionTTL \<equiv> 15 * Minute"
abbreviation (input) challengeTTL :: duration where "challengeTTL \<equiv> 5 * Minute"

record admin_challenge =
  ac_purpose :: string
  ac_expires :: time

record admin_area =
  aa_origin :: string
  aa_url :: "(string \<times> string) option"
  aa_devices :: "registry option"
  aa_sessions :: "(string, time) gomap"
  aa_challenges :: "(string, admin_challenge) gomap"

text \<open>\<open>rp\<close>: None while the admin area is not configured.\<close>

definition area_rp :: "admin_area \<Rightarrow> relying_party option" where
  "area_rp a =
     (if aa_origin a = [] \<or> aa_devices a = None then None
      else case aa_url a of
        None \<Rightarrow> None
      | Some (scheme, host) \<Rightarrow>
          if scheme = [] \<or> host = [] then None else Some \<lparr>rp_Origin = aa_origin a, rp_ID = host\<rparr>)"

record admin_request =
  rq_method :: string
  rq_rest :: string
  rq_cookie :: "string option"

record admin_env =
  ae_now :: time
  ae_rand :: bytes
  ae_body :: bytes
  ae_ok :: bool
  ae_ord :: "string list"
  ae_qr :: bool

section \<open>Bodies\<close>

text \<open>
  \<open>decodeJSON\<close> into a struct of strings: the first value of at most 64 KiB, what follows it is not
  looked at.  The result is the fields that were set; None is the bad request.
\<close>

definition string_field :: "string list \<Rightarrow> string \<Rightarrow> json \<Rightarrow> (string, string) gomap \<Rightarrow> (string, string) gomap option" where
  "string_field names k v m =
     (case field_of names k of
        None \<Rightarrow> Some m
      | Some f \<Rightarrow> map_option (\<lambda>s. gm_set f s m) (into_string (case gm_get m f of None \<Rightarrow> [] | Some s \<Rightarrow> s) v))"

abbreviation (input) bodyLimit :: nat where "bodyLimit \<equiv> 65536"

definition decode_body :: "string list \<Rightarrow> bytes \<Rightarrow> (string, string) gomap option" where
  "decode_body names body =
     (let s = take bodyLimit body in
      case json_value (2 * length s + 2) 0 s of
        Some (JObj ms, r) \<Rightarrow> into_struct (string_field names) ms []
      | Some (JNull, r) \<Rightarrow> if r = [] \<and> bodyLimit < length body then None else Some []
      | _ \<Rightarrow> None)"

definition body_field :: "(string, string) gomap \<Rightarrow> string \<Rightarrow> string" where
  "body_field m f = (case gm_get m f of None \<Rightarrow> [] | Some s \<Rightarrow> s)"

section \<open>Sessions and challenges\<close>

text \<open>What happened, in the order of the locks taken; it is no part of the program's state.\<close>

datatype deed =
  Issued string string time
| Taken string string time bool
| Opened string passkey time
| Used string time bool
| Locked string
| Cold
| Added credential
| Asked
| Minted string

text \<open>\<open>authed\<close>: whether the cookie names a live session, which it then prolongs.\<close>

definition authed :: "string option \<Rightarrow> time \<Rightarrow> admin_area \<Rightarrow> bool \<times> admin_area \<times> deed list" where
  "authed cookie now a =
     (case cookie of
        None \<Rightarrow> (False, a, [])
      | Some tok \<Rightarrow>
          (case gm_get (aa_sessions a) tok of
             None \<Rightarrow> (False, a\<lparr>aa_sessions := gm_del tok (aa_sessions a)\<rparr>, [Used tok now False])
           | Some expires \<Rightarrow>
               if expires < now
               then (False, a\<lparr>aa_sessions := gm_del tok (aa_sessions a)\<rparr>, [Used tok now False])
               else (True, a\<lparr>aa_sessions := gm_set tok (now + adminSessionTTL) (aa_sessions a)\<rparr>,
                     [Used tok now True])))"

text \<open>The middle of \<open>adminChallenge\<close>: the sweep, and the new challenge.\<close>

definition issue_challenge :: "string \<Rightarrow> string \<Rightarrow> time \<Rightarrow> admin_area \<Rightarrow> admin_area" where
  "issue_challenge key purpose now a =
     a\<lparr>aa_challenges := gm_set key \<lparr>ac_purpose = purpose, ac_expires = now + challengeTTL\<rparr>
         (filter (\<lambda>(k, c). \<not> ac_expires c < now) (aa_challenges a))\<rparr>"

text \<open>\<open>takeChallenge\<close>: the bytes of a live challenge of the purpose, and in any case one challenge less.\<close>

definition challenge_field :: "string \<Rightarrow> json \<Rightarrow> string \<Rightarrow> string option" where
  "challenge_field k v s = (case field_of [''challenge''] k of None \<Rightarrow> Some s | Some f \<Rightarrow> into_string s v)"

definition named_challenge :: "bytes \<Rightarrow> string option" where
  "named_challenge raw =
     (case json_parse raw of
        Some (JObj ms) \<Rightarrow> into_struct challenge_field ms []
      | Some JNull \<Rightarrow> Some []
      | _ \<Rightarrow> None)"

definition take_challenge :: "bytes \<Rightarrow> string \<Rightarrow> time \<Rightarrow> admin_area \<Rightarrow> bytes option \<times> admin_area \<times> deed list" where
  "take_challenge cdj purpose now a =
     (case named_challenge cdj of
        None \<Rightarrow> (None, a, [])
      | Some key \<Rightarrow>
          let live = (case gm_get (aa_challenges a) key of
                        None \<Rightarrow> False
                      | Some c \<Rightarrow> ac_purpose c = purpose \<and> \<not> ac_expires c < now)
          in (if live then base64url_decode key else None,
              a\<lparr>aa_challenges := gm_del key (aa_challenges a)\<rparr>, [Taken key purpose now live]))"

section \<open>Requests\<close>

datatype mutation = RemovePasskey | RevokeDevice
datatype room = Mutate mutation | MintSecret

text \<open>Where a request stands: what it will do the next time it takes a lock.\<close>

datatype stage =
  PageKeys "string option"
| PageAuth bool "string option"
| PagePasskeys bool bool
| PageDevices bool "passkey list"
| Challenge
| ChallengeIds string
| Door "string option"
| DoorSession "string option"
| RegisterTake
| RegisterAdd string credential
| LoginFind
| LoginTake passkey bytes bytes bytes
| LoginCount passkey int
| LoginOpen passkey
| Session room "string option"
| Mutating mutation
| Minting
| Logout string

record admin_page =
  pg_configured :: bool
  pg_bootstrap :: bool
  pg_authed :: bool
  pg_nag :: bool
  pg_devices :: "device list"
  pg_passkeys :: "passkey list"

datatype admin_reply =
  Refused nat
| Done
| Page admin_page
| Challenged string string "string list option"
| Enrollment string string
| LoggedIn string
| LoggedOut

type_synonym outcome = "stage + admin_reply"

abbreviation no_page :: admin_page where
  "no_page \<equiv> \<lparr>pg_configured = False, pg_bootstrap = False, pg_authed = False, pg_nag = False,
     pg_devices = [], pg_passkeys = []\<rparr>"

text \<open>\<open>admin\<close>, and what each handler does before it first takes a lock.\<close>

definition when_configured :: "admin_area \<Rightarrow> stage \<Rightarrow> outcome" where
  "when_configured a s = (if area_rp a = None then Inr (Refused 404) else Inl s)"

definition admin_begin :: "admin_request \<Rightarrow> admin_area \<Rightarrow> outcome" where
  "admin_begin rq a =
     (let rest = trim_prefix (rq_rest rq) ''/'' in
      if rq_method rq = ''GET'' \<and> rest = [] then
        if area_rp a = None then Inr (Page no_page) else Inl (PageKeys (rq_cookie rq))
      else if rq_method rq \<noteq> ''POST'' then Inr (Refused 405)
      else if rest = ''challenge'' then when_configured a Challenge
      else if rest = ''passkey/register'' then when_configured a (Door (rq_cookie rq))
      else if rest = ''passkey/login'' then when_configured a LoginFind
      else if rest = ''passkey/remove'' then when_configured a (Session (Mutate RemovePasskey) (rq_cookie rq))
      else if rest = ''device/revoke'' then when_configured a (Session (Mutate RevokeDevice) (rq_cookie rq))
      else if rest = ''enroll'' then when_configured a (Session MintSecret (rq_cookie rq))
      else if rest = ''session/logout'' then
        (case rq_cookie rq of None \<Rightarrow> Inr LoggedOut | Some tok \<Rightarrow> Inl (Logout tok))
      else Inr (Refused 404))"

text \<open>What the handler's registry is: \<open>rp\<close> has checked that there is one.\<close>

definition on_devices :: "(registry \<Rightarrow> 'a \<times> registry) \<Rightarrow> admin_area \<Rightarrow> 'a option \<times> admin_area" where
  "on_devices f a =
     (case aa_devices a of
        None \<Rightarrow> (None, a)
      | Some r \<Rightarrow> let (x, r') = f r in (Some x, a\<lparr>aa_devices := Some r'\<rparr>))"

definition register_take :: "admin_env \<Rightarrow> admin_area \<Rightarrow> outcome \<times> admin_area \<times> deed list" where
  "register_take env a =
     (case decode_body [''Name'', ''ClientDataJSON'', ''AttestationObject''] (ae_body env) of
        None \<Rightarrow> (Inr (Refused 400), a, [])
      | Some req \<Rightarrow>
          let name = trim_space (body_field req ''Name'') in
          if name = [] \<or> 64 < length name then (Inr (Refused 400), a, [])
          else (case (base64url_decode (body_field req ''ClientDataJSON''),
                      base64url_decode (body_field req ''AttestationObject'')) of
              (Some cdj, Some att) \<Rightarrow>
                let (ch, a1, notes) = take_challenge cdj ''register'' (ae_now env) a
                in (case (ch, area_rp a) of
                     (Some ch, Some rp) \<Rightarrow>
                       (case verify_registration rp cdj att ch of
                          Inl e \<Rightarrow> Inr (Refused 403)
                        | Inr cred \<Rightarrow> Inl (RegisterAdd name cred))
                   | _ \<Rightarrow> Inr (Refused 403), a1, notes)
            | _ \<Rightarrow> (Inr (Refused 400), a, [])))"

definition register_add :: "string \<Rightarrow> credential \<Rightarrow> admin_env \<Rightarrow> admin_area \<Rightarrow> outcome \<times> admin_area \<times> deed list" where
  "register_add name cred env a =
     (case on_devices (add_passkey (ae_ok env) (ae_rand env) name cred (ae_now env)) a of
        (Some (Inr pk), a') \<Rightarrow> (Inr Done, a', [Added cred])
      | (Some (Inl Duplicate_passkey), a') \<Rightarrow> (Inr (Refused 400), a', [])
      | (_, a') \<Rightarrow> (Inr (Refused 400), a', [Added cred]))"

definition login_find :: "admin_env \<Rightarrow> admin_area \<Rightarrow> outcome \<times> admin_area \<times> deed list" where
  "login_find env a =
     ((case decode_body [''CredentialID'', ''ClientDataJSON'', ''AuthenticatorData'', ''Signature''] (ae_body env) of
         None \<Rightarrow> Inr (Refused 400)
       | Some req \<Rightarrow>
           (case (base64url_decode (body_field req ''CredentialID''),
                  base64url_decode (body_field req ''ClientDataJSON''),
                  base64url_decode (body_field req ''AuthenticatorData''),
                  base64url_decode (body_field req ''Signature'')) of
              (Some credID, Some cdj, Some ad, Some sig) \<Rightarrow>
                (case Option.bind (aa_devices a) (\<lambda>r. passkey_by_credential r credID) of
                   None \<Rightarrow> Inr (Refused 403)
                 | Some pk \<Rightarrow> Inl (LoginTake pk cdj ad sig))
            | _ \<Rightarrow> Inr (Refused 400))), a, [])"

definition login_take :: "sig_check \<Rightarrow> passkey \<Rightarrow> bytes \<Rightarrow> bytes \<Rightarrow> bytes \<Rightarrow> admin_env \<Rightarrow> admin_area
    \<Rightarrow> outcome \<times> admin_area \<times> deed list" where
  "login_take sig_ok pk cdj ad sig env a =
     (let (ch, a1, notes) = take_challenge cdj ''login'' (ae_now env) a
      in (case (ch, area_rp a) of
           (Some ch, Some rp) \<Rightarrow>
             (case verify_assertion sig_ok rp (pk_Credential pk) cdj ad sig ch of
                Inl e \<Rightarrow> Inr (Refused 403)
              | Inr cnt \<Rightarrow> Inl (LoginCount pk cnt))
         | _ \<Rightarrow> Inr (Refused 403), a1, notes))"

definition login_open :: "passkey \<Rightarrow> admin_env \<Rightarrow> admin_area \<Rightarrow> outcome \<times> admin_area \<times> deed list" where
  "login_open pk env a =
     (let tok = base64url_encode (ae_rand env)
      in (Inr (LoggedIn tok),
          a\<lparr>aa_sessions := gm_set tok (ae_now env + adminSessionTTL) (aa_sessions a)\<rparr>,
          [Opened tok pk (ae_now env)]))"

definition mutate :: "mutation \<Rightarrow> admin_env \<Rightarrow> admin_area \<Rightarrow> outcome \<times> admin_area \<times> deed list" where
  "mutate m env a =
     (case decode_body [''ID''] (ae_body env) of
        None \<Rightarrow> (Inr (Refused 400), a, [])
      | Some req \<Rightarrow>
          let i = body_field req ''ID'' in
          (case m of
             RemovePasskey \<Rightarrow>
               let (e, a1) = on_devices (remove_passkey (ae_ok env) i (ae_now env)) a
               in (Inr (if e = Some None then Done else Refused 400), a1, [Asked])
           | RevokeDevice \<Rightarrow>
               let (found, a1) = on_devices (revoke (ae_ok env) i (ae_now env)) a
               in (Inr (if found = Some True then Done else Refused 400), a1, [Asked])))"

definition mint_secret :: "admin_env \<Rightarrow> admin_area \<Rightarrow> outcome \<times> admin_area \<times> deed list" where
  "mint_secret env a =
     (case on_devices (mint_enrollment (ae_ord env) (ae_rand env) (ae_now env)) a of
        (Some secret, a1) \<Rightarrow>
          (Inr (if ae_qr env then Enrollment secret (aa_origin a @ ''/enroll#'' @ secret) else Refused 500),
           a1, [Minted secret])
      | (None, a1) \<Rightarrow> (Inr (Refused 404), a1, []))"

definition challenge_begin :: "admin_env \<Rightarrow> admin_area \<Rightarrow> outcome \<times> admin_area \<times> deed list" where
  "challenge_begin env a =
     (case decode_body [''Purpose''] (ae_body env) of
        None \<Rightarrow> (Inr (Refused 400), a, [])
      | Some req \<Rightarrow>
          let purpose = body_field req ''Purpose''; key = base64url_encode (ae_rand env) in
          if purpose \<noteq> ''register'' \<and> purpose \<noteq> ''login'' then (Inr (Refused 400), a, [])
          else (if purpose = ''login'' then Inl (ChallengeIds key)
                else Inr (Challenged key (case area_rp a of None \<Rightarrow> [] | Some rp \<Rightarrow> rp_ID rp) None),
                issue_challenge key purpose (ae_now env) a, [Issued key purpose (ae_now env)]))"

definition area_passkeys :: "admin_area \<Rightarrow> passkey list" where
  "area_passkeys a = (case aa_devices a of None \<Rightarrow> [] | Some r \<Rightarrow> list_passkeys r)"

text \<open>One stage: how the request goes on or ends.\<close>

fun admin_stage :: "sig_check \<Rightarrow> stage \<Rightarrow> admin_env \<Rightarrow> admin_area \<Rightarrow> outcome \<times> admin_area \<times> deed list" where
  "admin_stage sig_ok (PageKeys cookie) env a =
     (Inl (PageAuth (case aa_devices a of None \<Rightarrow> True | Some r \<Rightarrow> \<not> has_passkeys r) cookie), a, [])"
| "admin_stage sig_ok (PageAuth bootstrap cookie) env a =
     (let (ok, a1, notes) = authed cookie (ae_now env) a in (Inl (PagePasskeys bootstrap ok), a1, notes))"
| "admin_stage sig_ok (PagePasskeys bootstrap ok) env a =
     (let pks = area_passkeys a
      in (if ok then Inl (PageDevices bootstrap pks)
          else Inr (Page (no_page\<lparr>pg_configured := True, pg_bootstrap := bootstrap, pg_nag := (length pks = 1)\<rparr>)),
          a, []))"
| "admin_stage sig_ok (PageDevices bootstrap pks) env a =
     (Inr (Page \<lparr>pg_configured = True, pg_bootstrap = bootstrap, pg_authed = True, pg_nag = (length pks = 1),
        pg_devices = (case aa_devices a of None \<Rightarrow> [] | Some r \<Rightarrow> list_devices r), pg_passkeys = pks\<rparr>), a, [])"
| "admin_stage sig_ok Challenge env a = challenge_begin env a"
| "admin_stage sig_ok (ChallengeIds key) env a =
     (Inr (Challenged key (case area_rp a of None \<Rightarrow> [] | Some rp \<Rightarrow> rp_ID rp)
        (Some (map (\<lambda>p. base64url_encode (cr_ID (pk_Credential p))) (area_passkeys a)))), a, [])"
| "admin_stage sig_ok (Door cookie) env a =
     (case aa_devices a of
        Some r \<Rightarrow> if has_passkeys r then (Inl (DoorSession cookie), a, []) else (Inl RegisterTake, a, [Cold])
      | None \<Rightarrow> (Inr (Refused 404), a, []))"
| "admin_stage sig_ok (DoorSession cookie) env a =
     (let (ok, a1, notes) = authed cookie (ae_now env) a
      in (if ok then Inl RegisterTake else Inr (Refused 403), a1, notes))"
| "admin_stage sig_ok RegisterTake env a = register_take env a"
| "admin_stage sig_ok (RegisterAdd name cred) env a = register_add name cred env a"
| "admin_stage sig_ok LoginFind env a = login_find env a"
| "admin_stage sig_ok (LoginTake pk cdj ad sig) env a = login_take sig_ok pk cdj ad sig env a"
| "admin_stage sig_ok (LoginCount pk cnt) env a =
     (let (x, a1) = on_devices (\<lambda>r. ((), set_sign_count (ae_ok env) (pk_ID pk) cnt (ae_now env) r)) a
      in (Inl (LoginOpen pk), a1, []))"
| "admin_stage sig_ok (LoginOpen pk) env a = login_open pk env a"
| "admin_stage sig_ok (Session room cookie) env a =
     (let (ok, a1, notes) = authed cookie (ae_now env) a
      in (if \<not> ok then Inr (Refused 403)
          else (case room of Mutate m \<Rightarrow> Inl (Mutating m) | MintSecret \<Rightarrow> Inl Minting), a1, notes))"
| "admin_stage sig_ok (Mutating m) env a = mutate m env a"
| "admin_stage sig_ok Minting env a = mint_secret env a"
| "admin_stage sig_ok (Logout tok) env a =
     (Inr LoggedOut, a\<lparr>aa_sessions := gm_del tok (aa_sessions a)\<rparr>, [Locked tok])"

section \<open>Requests side by side\<close>

text \<open>
  The area with the requests in flight, numbered as they arrive, the replies given and the log.
  The registry is also called by devices, over gRPC.
\<close>

record admin_system =
  sy_area :: admin_area
  sy_flight :: "(nat, stage) gomap"
  sy_next :: nat
  sy_replies :: "(nat \<times> admin_reply) list"
  sy_log :: "(nat \<times> deed) list"

datatype admin_input = Arrive admin_request | Proceed nat admin_env | Device registry_op

fun device_op :: "registry_op \<Rightarrow> bool" where
  "device_op (Op_enroll ok tok idr secret name now) = True"
| "device_op (Op_authenticate ok token now) = True"
| "device_op (Op_forget ok token now) = True"
| "device_op _ = False"

definition settle_request :: "nat \<Rightarrow> outcome \<Rightarrow> admin_system \<Rightarrow> admin_system" where
  "settle_request n out s =
     (case out of
        Inl st \<Rightarrow> s\<lparr>sy_flight := gm_set n st (sy_flight s)\<rparr>
      | Inr reply \<Rightarrow> s\<lparr>sy_flight := gm_del n (sy_flight s), sy_replies := sy_replies s @ [(n, reply)]\<rparr>)"

fun admin_step :: "sig_check \<Rightarrow> admin_input \<Rightarrow> admin_system \<Rightarrow> admin_system" where
  "admin_step sig_ok (Arrive rq) s =
     settle_request (sy_next s) (admin_begin rq (sy_area s)) (s\<lparr>sy_next := sy_next s + 1\<rparr>)"
| "admin_step sig_ok (Proceed n env) s =
     (case gm_get (sy_flight s) n of
        None \<Rightarrow> s
      | Some st \<Rightarrow>
          let (out, a, notes) = admin_stage sig_ok st env (sy_area s)
          in settle_request n out (s\<lparr>sy_area := a, sy_log := sy_log s @ map (Pair n) notes\<rparr>))"
| "admin_step sig_ok (Device op) s =
     (if device_op op
      then s\<lparr>sy_area := (sy_area s)\<lparr>aa_devices := map_option (registry_step op) (aa_devices (sy_area s))\<rparr>\<rparr>
      else s)"

definition admin_start :: "string \<Rightarrow> (string \<times> string) option \<Rightarrow> registry option \<Rightarrow> admin_system" where
  "admin_start origin url reg =
     \<lparr>sy_area = \<lparr>aa_origin = origin, aa_url = url, aa_devices = reg, aa_sessions = [], aa_challenges = []\<rparr>,
      sy_flight = [], sy_next = 0, sy_replies = [], sy_log = []\<rparr>"

text \<open>The systems that come of a fresh one over the registry \<open>r0\<close>, whatever is asked of it.\<close>

inductive admin_reach :: "sig_check \<Rightarrow> registry \<Rightarrow> admin_system \<Rightarrow> bool" for sig_ok r0 where
  start: "passkeys_ok r0 \<Longrightarrow> admin_reach sig_ok r0 (admin_start origin url (Some r0))"
| step: "admin_reach sig_ok r0 s \<Longrightarrow> admin_reach sig_ok r0 (admin_step sig_ok i s)"

section \<open>What the log says\<close>

text \<open>The last word about a session: the time it was opened or last accepted, None once it was refused or locked.\<close>

fun session_word :: "string \<Rightarrow> nat \<times> deed \<Rightarrow> time option \<Rightarrow> time option" where
  "session_word tok (n, Opened k pk t) w = (if k = tok then Some t else w)"
| "session_word tok (n, Used k t ok) w = (if k = tok then (if ok then Some t else None) else w)"
| "session_word tok (n, Locked k) w = (if k = tok then None else w)"
| "session_word tok _ w = w"

definition last_word :: "string \<Rightarrow> (nat \<times> deed) list \<Rightarrow> time option" where
  "last_word tok L = fold (session_word tok) L None"

text \<open>The same about a challenge: its purpose and time, None once it was taken.\<close>

fun challenge_word :: "string \<Rightarrow> nat \<times> deed \<Rightarrow> (string \<times> time) option \<Rightarrow> (string \<times> time) option" where
  "challenge_word key (n, Issued k p t) w = (if k = key then Some (p, t) else w)"
| "challenge_word key (n, Taken k p t live) w = (if k = key then None else w)"
| "challenge_word key _ w = w"

definition last_issue :: "string \<Rightarrow> (nat \<times> deed) list \<Rightarrow> (string \<times> time) option" where
  "last_issue key L = fold (challenge_word key) L None"

lemma last_snoc [simp]:
  "last_word tok [] = None" "last_word tok (L @ [x]) = session_word tok x (last_word tok L)"
  "last_issue key [] = None" "last_issue key (L @ [x]) = challenge_word key x (last_issue key L)"
  by (simp_all add: last_word_def last_issue_def)

text \<open>The credentials a registry has ever known: those it began with and those added since.\<close>

definition known_ids :: "registry \<Rightarrow> (nat \<times> deed) list \<Rightarrow> bytes set" where
  "known_ids r0 L = ps_CredentialId ` set (rg_passkeys r0) \<union> {cr_ID c |c. Added c \<in> snd ` set L}"

definition session_used :: "(nat \<times> deed) list \<Rightarrow> nat \<Rightarrow> bool" where
  "session_used L n \<longleftrightarrow> (\<exists>tok t. (n, Used tok t True) \<in> set L)"

definition authority :: "(nat \<times> deed) list \<Rightarrow> nat \<Rightarrow> bool" where
  "authority L n \<longleftrightarrow> (n, Cold) \<in> set L \<or> session_used L n"

definition logged_in :: "sig_check \<Rightarrow> registry \<Rightarrow> relying_party option \<Rightarrow> (nat \<times> deed) list \<Rightarrow> nat \<Rightarrow> passkey \<Rightarrow> bool" where
  "logged_in sig_ok r0 rpo L n pk \<longleftrightarrow> cr_ID (pk_Credential pk) \<in> known_ids r0 L \<and>
     (\<exists>key t ch rp cdj ad sig cnt. (n, Taken key ''login'' t True) \<in> set L \<and> base64url_decode key = Some ch \<and>
        rpo = Some rp \<and> verify_assertion sig_ok rp (pk_Credential pk) cdj ad sig ch = Inr cnt)"

definition registered :: "relying_party option \<Rightarrow> (nat \<times> deed) list \<Rightarrow> nat \<Rightarrow> credential \<Rightarrow> bool" where
  "registered rpo L n cred \<longleftrightarrow>
     (\<exists>key t ch rp cdj att. (n, Taken key ''register'' t True) \<in> set L \<and> base64url_decode key = Some ch \<and>
        rpo = Some rp \<and> verify_registration rp cdj att ch = Inr cred)"

text \<open>What must have happened before a deed.\<close>

fun deed_ok :: "sig_check \<Rightarrow> registry \<Rightarrow> relying_party option \<Rightarrow> (nat \<times> deed) list \<Rightarrow> nat \<times> deed \<Rightarrow> bool" where
  "deed_ok sig_ok r0 rpo pre (n, Taken key p t live) \<longleftrightarrow>
     (live \<longrightarrow> (\<exists>t0. last_issue key pre = Some (p, t0) \<and> t \<le> t0 + challengeTTL))"
| "deed_ok sig_ok r0 rpo pre (n, Used tok t ok) \<longleftrightarrow>
     (ok \<longleftrightarrow> (\<exists>t0. last_word tok pre = Some t0 \<and> t \<le> t0 + adminSessionTTL))"
| "deed_ok sig_ok r0 rpo pre (n, Cold) \<longleftrightarrow> known_ids r0 pre = {}"
| "deed_ok sig_ok r0 rpo pre (n, Opened tok pk t) \<longleftrightarrow> logged_in sig_ok r0 rpo pre n pk"
| "deed_ok sig_ok r0 rpo pre (n, Added cred) \<longleftrightarrow> authority pre n \<and> registered rpo pre n cred"
| "deed_ok sig_ok r0 rpo pre (n, Asked) \<longleftrightarrow> session_used pre n"
| "deed_ok sig_ok r0 rpo pre (n, Minted secret) \<longleftrightarrow> session_used pre n"
| "deed_ok sig_ok r0 rpo pre (n, Issued key p t) \<longleftrightarrow> True"
| "deed_ok sig_ok r0 rpo pre (n, Locked tok) \<longleftrightarrow> True"

definition log_ok :: "sig_check \<Rightarrow> registry \<Rightarrow> relying_party option \<Rightarrow> (nat \<times> deed) list \<Rightarrow> bool" where
  "log_ok sig_ok r0 rpo L \<longleftrightarrow> (\<forall>pre x post. L = pre @ x # post \<longrightarrow> deed_ok sig_ok r0 rpo pre x)"

lemma log_ok_snoc [simp]:
  "log_ok sig_ok r0 rpo []"
  "log_ok sig_ok r0 rpo (L @ [x]) \<longleftrightarrow> log_ok sig_ok r0 rpo L \<and> deed_ok sig_ok r0 rpo L x"
proof -
  show "log_ok sig_ok r0 rpo []" by (simp add: log_ok_def)
  show "log_ok sig_ok r0 rpo (L @ [x]) \<longleftrightarrow> log_ok sig_ok r0 rpo L \<and> deed_ok sig_ok r0 rpo L x"
  proof
    assume *: "log_ok sig_ok r0 rpo (L @ [x])"
    then have "deed_ok sig_ok r0 rpo L x" unfolding log_ok_def by blast
    moreover have "log_ok sig_ok r0 rpo L"
      unfolding log_ok_def
    proof (intro allI impI)
      fix pre y post assume "L = pre @ y # post"
      then have "L @ [x] = pre @ y # (post @ [x])" by simp
      with * show "deed_ok sig_ok r0 rpo pre y" unfolding log_ok_def by blast
    qed
    ultimately show "log_ok sig_ok r0 rpo L \<and> deed_ok sig_ok r0 rpo L x" by blast
  next
    assume *: "log_ok sig_ok r0 rpo L \<and> deed_ok sig_ok r0 rpo L x"
    show "log_ok sig_ok r0 rpo (L @ [x])"
      unfolding log_ok_def
    proof (intro allI impI)
      fix pre y post assume split: "L @ [x] = pre @ y # post"
      show "deed_ok sig_ok r0 rpo pre y"
      proof (cases post rule: rev_cases)
        case Nil
        with split * show ?thesis by simp
      next
        case (snoc post' z)
        with split have "L = pre @ y # post'" by simp
        with * show ?thesis unfolding log_ok_def by blast
      qed
    qed
  qed
qed

text \<open>What a request in flight has behind it.\<close>

fun stage_ok :: "sig_check \<Rightarrow> registry \<Rightarrow> relying_party option \<Rightarrow> (nat \<times> deed) list \<Rightarrow> nat \<Rightarrow> stage \<Rightarrow> bool" where
  "stage_ok sig_ok r0 rpo L n RegisterTake \<longleftrightarrow> authority L n"
| "stage_ok sig_ok r0 rpo L n (RegisterAdd name cred) \<longleftrightarrow> authority L n \<and> registered rpo L n cred"
| "stage_ok sig_ok r0 rpo L n (LoginTake pk cdj ad sig) \<longleftrightarrow> cr_ID (pk_Credential pk) \<in> known_ids r0 L"
| "stage_ok sig_ok r0 rpo L n (LoginCount pk cnt) \<longleftrightarrow> logged_in sig_ok r0 rpo L n pk"
| "stage_ok sig_ok r0 rpo L n (LoginOpen pk) \<longleftrightarrow> logged_in sig_ok r0 rpo L n pk"
| "stage_ok sig_ok r0 rpo L n (Mutating m) \<longleftrightarrow> session_used L n"
| "stage_ok sig_ok r0 rpo L n Minting \<longleftrightarrow> session_used L n"
| "stage_ok sig_ok r0 rpo L n _ \<longleftrightarrow> True"

lemma known_snoc: "known_ids r0 (L @ [x]) = known_ids r0 L \<union> {cr_ID c |c. snd x = Added c}"
  by (auto simp: known_ids_def)

lemma stage_ok_mono: "stage_ok sig_ok r0 rpo L n st \<Longrightarrow> stage_ok sig_ok r0 rpo (L @ L') n st"
  by (cases st; fastforce simp: authority_def session_used_def registered_def logged_in_def known_ids_def)

definition area_ok :: "registry \<Rightarrow> admin_area \<Rightarrow> (nat \<times> deed) list \<Rightarrow> bool" where
  "area_ok r0 a L \<longleftrightarrow>
     (\<forall>tok. gm_get (aa_sessions a) tok = map_option (\<lambda>t. t + adminSessionTTL) (last_word tok L)) \<and>
     gm_wf (aa_challenges a) \<and>
     (\<forall>key c. gm_get (aa_challenges a) key = Some c \<longrightarrow>
        (\<exists>t. last_issue key L = Some (ac_purpose c, t) \<and> ac_expires c = t + challengeTTL)) \<and>
     (\<exists>r. aa_devices a = Some r \<and> passkeys_ok r \<and> (known_ids r0 L \<noteq> {} \<longrightarrow> has_passkeys r) \<and>
        ps_CredentialId ` set (rg_passkeys r) \<subseteq> known_ids r0 L)"

text \<open>The registry's calls: what they do to the passkeys a registry knows.\<close>

lemma registry_known:
  assumes "aa_devices a = Some r" and "area_ok r0 a L" and "\<And>ok idr name cred now. op \<noteq> Op_add_passkey ok idr name cred now"
  shows "area_ok r0 (a\<lparr>aa_devices := Some (registry_step op r)\<rparr>) L"
proof -
  have "passkeys_ok r" "known_ids r0 L \<noteq> {} \<longrightarrow> has_passkeys r"
    "ps_CredentialId ` set (rg_passkeys r) \<subseteq> known_ids r0 L"
    using assms(1,2) by (auto simp: area_ok_def)
  moreover have "ps_CredentialId ` set (rg_passkeys (registry_step op r)) \<subseteq> ps_CredentialId ` set (rg_passkeys r)"
  proof (cases op r rule: step_passkeys)
    case (counted i cnt)
    have "map ps_CredentialId ((rg_passkeys r)[i := (rg_passkeys r ! i)\<lparr>ps_SignCount := cnt\<rparr>])
        = map ps_CredentialId (rg_passkeys r)"
      by (rule map_update_same) simp
    then have "set (map ps_CredentialId (rg_passkeys (registry_step op r))) = set (map ps_CredentialId (rg_passkeys r))"
      unfolding counted(2) by (rule arg_cong)
    then show ?thesis by simp
  next
    case (removed i)
    then show ?thesis using remove_nth_set [of i "rg_passkeys r"] by auto
  qed (use assms(3) in auto)
  ultimately show ?thesis
    using assms(2) step_passkeys_ok [of r op] by (fastforce simp: area_ok_def)
qed

lemma area_rp_frame [simp]:
  "area_rp (a\<lparr>aa_sessions := x\<rparr>) = area_rp a" "area_rp (a\<lparr>aa_challenges := y\<rparr>) = area_rp a"
  by (simp_all add: area_rp_def split: option.split prod.split)

lemma area_rp_devices: "aa_devices a = Some r \<Longrightarrow> area_rp (a\<lparr>aa_devices := Some r'\<rparr>) = area_rp a"
  by (simp add: area_rp_def split: option.split prod.split)

lemma authed_ok:
  assumes "area_ok r0 a L" and "log_ok sig_ok r0 rpo L" and "authed cookie now a = (ok, a', ds)"
  shows "area_ok r0 a' (L @ map (Pair n) ds) \<and> log_ok sig_ok r0 rpo (L @ map (Pair n) ds)
    \<and> area_rp a' = area_rp a \<and> (ok \<longrightarrow> session_used (L @ map (Pair n) ds) n)"
proof (cases cookie)
  case None
  with assms show ?thesis by (simp add: authed_def)
next
  case (Some tok)
  have word: "gm_get (aa_sessions a) tok = map_option (\<lambda>t. t + adminSessionTTL) (last_word tok L)"
    using assms(1) by (simp add: area_ok_def)
  show ?thesis
  proof (cases "\<exists>t. last_word tok L = Some t \<and> now \<le> t + adminSessionTTL")
    case True
    then have "ok = True" "ds = [Used tok now True]"
      "a' = a\<lparr>aa_sessions := gm_set tok (now + adminSessionTTL) (aa_sessions a)\<rparr>"
      using assms(3) Some word by (auto simp: authed_def)
    with assms(1,2) True show ?thesis
      by (auto simp: area_ok_def known_snoc session_used_def)
  next
    case False
    then have "ok = False" "ds = [Used tok now False]"
      "a' = a\<lparr>aa_sessions := gm_del tok (aa_sessions a)\<rparr>"
      using assms(3) Some word by (auto simp: authed_def split: option.splits if_splits)
    with assms(1,2) False show ?thesis by (auto simp: area_ok_def known_snoc)
  qed
qed

lemma take_challenge_ok:
  assumes "area_ok r0 a L" and "log_ok sig_ok r0 rpo L" and "take_challenge cdj purpose now a = (ch, a', ds)"
  shows "area_ok r0 a' (L @ map (Pair n) ds) \<and> log_ok sig_ok r0 rpo (L @ map (Pair n) ds)
    \<and> area_rp a' = area_rp a \<and> known_ids r0 (L @ map (Pair n) ds) = known_ids r0 L
    \<and> (\<forall>c. ch = Some c \<longrightarrow> (\<exists>key. (n, Taken key purpose now True) \<in> set (L @ map (Pair n) ds) \<and> base64url_decode key = Some c))"
proof (cases "named_challenge cdj")
  case None
  with assms show ?thesis by (simp add: take_challenge_def)
next
  case (Some key)
  define live where "live = (case gm_get (aa_challenges a) key of
      None \<Rightarrow> False | Some c \<Rightarrow> ac_purpose c = purpose \<and> \<not> ac_expires c < now)"
  have result: "ch = (if live then base64url_decode key else None)"
    "a' = a\<lparr>aa_challenges := gm_del key (aa_challenges a)\<rparr>" "ds = [Taken key purpose now live]"
    using assms(3) Some by (simp_all add: take_challenge_def Let_def live_def)
  have "live \<longrightarrow> (\<exists>t0. last_issue key L = Some (purpose, t0) \<and> now \<le> t0 + challengeTTL)"
    using assms(1) by (fastforce simp: live_def area_ok_def split: option.splits)
  with assms(1,2) show ?thesis
    unfolding result by (auto simp: area_ok_def known_snoc split: if_splits)
qed

lemma issue_ok:
  assumes "area_ok r0 a L" and "log_ok sig_ok r0 rpo L"
  shows "area_ok r0 (issue_challenge key purpose now a) (L @ [(n, Issued key purpose now)])
    \<and> log_ok sig_ok r0 rpo (L @ [(n, Issued key purpose now)])
    \<and> area_rp (issue_challenge key purpose now a) = area_rp a"
proof -
  have "gm_wf (aa_challenges a)" using assms(1) by (simp add: area_ok_def)
  with assms show ?thesis
    by (auto simp: area_ok_def issue_challenge_def known_snoc gm_get_filter split: option.splits if_splits)
qed

text \<open>A call of the registry that adds no passkey, as a stage makes it.\<close>

lemma on_devices_ok:
  assumes "area_ok r0 a L" and "on_devices f a = (x, a')" and "\<And>r. snd (f r) = registry_step op r"
    and "\<And>ok idr name cred now. op \<noteq> Op_add_passkey ok idr name cred now"
  shows "area_ok r0 a' L \<and> area_rp a' = area_rp a \<and> x \<noteq> None"
proof -
  obtain r where r: "aa_devices a = Some r" using assms(1) by (auto simp: area_ok_def)
  have "a' = a\<lparr>aa_devices := Some (registry_step op r)\<rparr>" "x \<noteq> None"
    using assms(2) assms(3) [of r] r by (auto simp: on_devices_def split_beta)
  with registry_known [OF r assms(1,4)] area_rp_devices [OF r] show ?thesis by simp
qed

lemma area_ok_note:
  assumes "area_ok r0 a L" and "d = Asked \<or> d = Cold \<or> (\<exists>s. d = Minted s)"
  shows "area_ok r0 a (L @ [(n, d)])"
  using assms by (auto simp: area_ok_def known_snoc)

lemma cred_known:
  "area_ok r0 a L \<Longrightarrow> aa_devices a = Some r \<Longrightarrow> passkey_by_credential r i = Some pk
    \<Longrightarrow> cr_ID (pk_Credential pk) \<in> known_ids r0 L"
  by (force simp: area_ok_def passkey_by_credential_def passkey_of_def find_Some_iff split: option.splits sum.splits)

definition stage_result :: "sig_check \<Rightarrow> registry \<Rightarrow> admin_area \<Rightarrow> (nat \<times> deed) list \<Rightarrow> nat
    \<Rightarrow> outcome \<times> admin_area \<times> deed list \<Rightarrow> bool" where
  "stage_result sig_ok r0 a L n = (\<lambda>(out, a', ds).
     (let L' = L @ map (Pair n) ds in
      area_ok r0 a' L' \<and> log_ok sig_ok r0 (area_rp a) L' \<and> area_rp a' = area_rp a \<and>
      (\<forall>st. out = Inl st \<longrightarrow> stage_ok sig_ok r0 (area_rp a) L' n st)))"

lemma register_take_ok:
  assumes "area_ok r0 a L" and "log_ok sig_ok r0 (area_rp a) L" and "authority L n"
  shows "stage_result sig_ok r0 a L n (register_take env a)"
proof -
  have idle: "stage_result sig_ok r0 a L n (Inr reply, a, [])" for reply
    using assms(1,2) by (simp add: stage_result_def)
  have taken: "stage_result sig_ok r0 a L n
      (case (ch, area_rp a) of
         (Some ch, Some rp) \<Rightarrow>
           (case verify_registration rp cdj att ch of Inl e \<Rightarrow> Inr (Refused 403) | Inr cred \<Rightarrow> Inl (RegisterAdd name cred))
       | _ \<Rightarrow> Inr (Refused 403), a1, ds)"
    if "take_challenge cdj ''register'' (ae_now env) a = (ch, a1, ds)" for cdj att name ch a1 ds
  proof -
    note taken = take_challenge_ok [OF assms(1,2) that, where n = n]
    have "authority (L @ map (Pair n) ds) n" using assms(3) by (auto simp: authority_def session_used_def)
    with taken show ?thesis
      by (fastforce simp: stage_result_def registered_def split: option.splits sum.splits)
  qed
  have take: "stage_result sig_ok r0 a L n
      (let (ch, a1, ds) = take_challenge cdj ''register'' (ae_now env) a
       in (case (ch, area_rp a) of
            (Some ch, Some rp) \<Rightarrow>
              (case verify_registration rp cdj att ch of Inl e \<Rightarrow> Inr (Refused 403) | Inr cred \<Rightarrow> Inl (RegisterAdd name cred))
          | _ \<Rightarrow> Inr (Refused 403), a1, ds))" for cdj att name
  proof (cases "take_challenge cdj ''register'' (ae_now env) a")
    case (fields ch a1 ds)
    from taken [OF this] show ?thesis by (simp add: fields)
  qed
  show ?thesis
  proof (cases "decode_body [''Name'', ''ClientDataJSON'', ''AttestationObject''] (ae_body env)")
    case None
    with idle show ?thesis by (simp add: register_take_def)
  next
    case (Some req)
    let ?name = "trim_space (body_field req ''Name'')"
    let ?cdj = "base64url_decode (body_field req ''ClientDataJSON'')"
    let ?att = "base64url_decode (body_field req ''AttestationObject'')"
    show ?thesis
    proof (cases "(?name = [] \<or> 64 < length ?name) \<or> ?cdj = None \<or> ?att = None")
      case True
      with idle Some show ?thesis by (auto simp: register_take_def Let_def split: option.split)
    next
      case False
      then obtain cdj att where "?cdj = Some cdj" "?att = Some att" by auto
      with False Some have "register_take env a =
          (let (ch, a1, ds) = take_challenge cdj ''register'' (ae_now env) a
           in (case (ch, area_rp a) of
                (Some ch, Some rp) \<Rightarrow>
                  (case verify_registration rp cdj att ch of Inl e \<Rightarrow> Inr (Refused 403) | Inr cred \<Rightarrow> Inl (RegisterAdd ?name cred))
              | _ \<Rightarrow> Inr (Refused 403), a1, ds))"
        by (simp add: register_take_def)
      with take show ?thesis by (simp only:)
    qed
  qed
qed

lemma login_take_ok:
  assumes "area_ok r0 a L" and "log_ok sig_ok r0 (area_rp a) L" and "cr_ID (pk_Credential pk) \<in> known_ids r0 L"
  shows "stage_result sig_ok r0 a L n (login_take sig_ok pk cdj ad sig env a)"
proof -
  obtain ch a1 ds where ch: "take_challenge cdj ''login'' (ae_now env) a = (ch, a1, ds)"
    by (cases "take_challenge cdj ''login'' (ae_now env) a") auto
  from take_challenge_ok [OF assms(1,2) ch, where n = n] assms(3) show ?thesis
    by (fastforce simp: login_take_def ch stage_result_def logged_in_def split: option.splits sum.splits)
qed

lemma register_add_ok:
  assumes "area_ok r0 a L" and "log_ok sig_ok r0 (area_rp a) L"
    and "authority L n" and "registered (area_rp a) L n cred"
  shows "stage_result sig_ok r0 a L n (register_add name cred env a)"
proof -
  obtain r where r: "aa_devices a = Some r" using assms(1) by (auto simp: area_ok_def)
  show ?thesis
  proof (cases "\<exists>p \<in> set (rg_passkeys r). ps_CredentialId p = cr_ID cred")
    case True
    then have "register_add name cred env a = (Inr (Refused 400), a, [])"
      using r by (simp add: register_add_def on_devices_def add_passkey_def)
    with assms show ?thesis by (simp add: stage_result_def)
  next
    case False
    let ?op = "Op_add_passkey (ae_ok env) (ae_rand env) name cred (ae_now env)"
    let ?r = "registry_step ?op r"
    have step: "rg_passkeys ?r = rg_passkeys r @ [\<lparr>ps_Id = rand_token (ae_rand env), ps_Name = name,
        ps_CredentialId = cr_ID cred, ps_PublicKey = cr_COSE cred, ps_SignCount = cr_SignCount cred,
        ps_RegisteredAt = ae_now env\<rparr>]"
      using False by (auto simp: add_passkey_def Let_def split_beta)
    have "\<exists>reply. register_add name cred env a = (Inr reply, a\<lparr>aa_devices := Some ?r\<rparr>, [Added cred])"
      using False r by (auto simp: register_add_def on_devices_def add_passkey_def Let_def split_beta
          split: option.split)
    moreover have "area_ok r0 (a\<lparr>aa_devices := Some ?r\<rparr>) (L @ [(n, Added cred)])"
      using assms(1) r step step_passkeys_ok [of r ?op]
      by (auto simp: area_ok_def known_snoc has_passkeys_def simp del: registry_step.simps)
    ultimately show ?thesis
      using assms(2-4) area_rp_devices [OF r] by (auto simp: stage_result_def)
  qed
qed

lemma admin_stage_ok:
  assumes "area_ok r0 a L" and "log_ok sig_ok r0 (area_rp a) L" and "stage_ok sig_ok r0 (area_rp a) L n st"
  shows "stage_result sig_ok r0 a L n (admin_stage sig_ok st env a)"
proof -
  have quiet: "stage_result sig_ok r0 a L n (out, a, [])" if "\<And>st'. out = Inl st' \<Longrightarrow> stage_ok sig_ok r0 (area_rp a) L n st'" for out
    using assms(1,2) that by (simp add: stage_result_def)
  have auth: "stage_result sig_ok r0 a L n (let (ok, a1, ds) = authed cookie (ae_now env) a in (next ok, a1, ds))"
    if "\<And>ok st' L'. next ok = Inl st' \<Longrightarrow> (ok \<Longrightarrow> session_used L' n) \<Longrightarrow> stage_ok sig_ok r0 (area_rp a) L' n st'" for cookie "next"
  proof -
    obtain ok a1 ds where "authed cookie (ae_now env) a = (ok, a1, ds)" by (cases "authed cookie (ae_now env) a") auto
    with authed_ok [OF assms(1,2) this, where n = n] that show ?thesis by (auto simp: stage_result_def)
  qed
  show ?thesis
  proof (cases st)
    case (PageAuth b c)
    then show ?thesis by (simp only: admin_stage.simps) (rule auth, auto)
  next
    case (PagePasskeys b ok)
    then show ?thesis by (auto simp: Let_def intro!: quiet)
  next
    case Challenge
    show ?thesis
    proof (cases "decode_body [''Purpose''] (ae_body env)")
      case None
      then show ?thesis using Challenge by (auto simp: challenge_begin_def intro!: quiet)
    next
      case (Some req)
      show ?thesis
        using Challenge Some assms(1)
          issue_ok [OF assms(1,2), of "base64url_encode (ae_rand env)" "body_field req ''Purpose''" "ae_now env" n]
        by (cases "body_field req ''Purpose'' \<in> {''register'', ''login''}")
          (auto simp: challenge_begin_def Let_def stage_result_def intro!: quiet)
    qed
  next
    case (Door c)
    obtain r where r: "aa_devices a = Some r" "\<not> has_passkeys r \<longrightarrow> known_ids r0 L = {}"
      using assms(1) by (auto simp: area_ok_def)
    with Door show ?thesis
      using assms(1,2) quiet by (auto simp: stage_result_def authority_def intro!: area_ok_note)
  next
    case (DoorSession c)
    then show ?thesis by (simp only: admin_stage.simps) (rule auth, auto simp: authority_def split: if_splits)
  next
    case RegisterTake
    with assms register_take_ok show ?thesis by simp
  next
    case (RegisterAdd name cred)
    with assms register_add_ok show ?thesis by simp
  next
    case LoginFind
    then show ?thesis
      using cred_known [OF assms(1)]
      by (auto simp: login_find_def intro!: quiet split: option.splits bind_splits)
  next
    case (LoginTake pk cdj ad sig)
    with assms login_take_ok show ?thesis by simp
  next
    case (LoginCount pk cnt)
    obtain x a1 where *: "on_devices (\<lambda>r. ((), set_sign_count (ae_ok env) (pk_ID pk) cnt (ae_now env) r)) a = (x, a1)"
      by fastforce
    from on_devices_ok [OF assms(1) *, of "Op_set_count (ae_ok env) (pk_ID pk) cnt (ae_now env)"] assms LoginCount *
    show ?thesis by (simp add: stage_result_def)
  next
    case (LoginOpen pk)
    with assms show ?thesis
      by (auto simp: login_open_def Let_def stage_result_def area_ok_def known_snoc)
  next
    case (Session room c)
    then show ?thesis by (simp only: admin_stage.simps) (rule auth, auto split: if_splits room.splits)
  next
    case (Mutating m)
    have marked: "area_ok r0 a' (L @ [(n, Asked)])" if "area_ok r0 a' L" for a' using area_ok_note [OF that] by blast
    show ?thesis
    proof (cases "decode_body [''ID''] (ae_body env)")
      case None
      with Mutating show ?thesis by (auto simp: mutate_def intro!: quiet)
    next
      case (Some req)
      let ?i = "body_field req ''ID''"
      show ?thesis
      proof (cases m)
        case RemovePasskey
        obtain x a1 where *: "on_devices (remove_passkey (ae_ok env) ?i (ae_now env)) a = (x, a1)" by fastforce
        from on_devices_ok [OF assms(1) *, of "Op_remove_passkey (ae_ok env) ?i (ae_now env)"] assms Mutating Some RemovePasskey * marked
        show ?thesis by (simp add: stage_result_def mutate_def)
      next
        case RevokeDevice
        obtain x a1 where *: "on_devices (revoke (ae_ok env) ?i (ae_now env)) a = (x, a1)" by fastforce
        from on_devices_ok [OF assms(1) *, of "Op_revoke (ae_ok env) ?i (ae_now env)"] assms Mutating Some RevokeDevice * marked
        show ?thesis by (simp add: stage_result_def mutate_def)
      qed
    qed
  next
    case Minting
    obtain x a1 where *: "on_devices (mint_enrollment (ae_ord env) (ae_rand env) (ae_now env)) a = (x, a1)" by fastforce
    note ok = on_devices_ok [OF assms(1) *, of "Op_mint (ae_ord env) (ae_rand env) (ae_now env)"]
    have "area_ok r0 a1 (L @ [(n, Minted s)])" for s
      using ok area_ok_note [of r0 a1 L "Minted s" n] by simp
    with ok assms Minting * show ?thesis by (auto simp: stage_result_def mint_secret_def split: option.split)
  next
    case (Logout tok)
    with assms show ?thesis by (auto simp: stage_result_def area_ok_def known_snoc)
  qed (auto intro!: quiet)
qed

definition admin_inv :: "sig_check \<Rightarrow> registry \<Rightarrow> admin_system \<Rightarrow> bool" where
  "admin_inv sig_ok r0 s \<longleftrightarrow>
     area_ok r0 (sy_area s) (sy_log s) \<and> log_ok sig_ok r0 (area_rp (sy_area s)) (sy_log s) \<and>
     (\<forall>n st. gm_get (sy_flight s) n = Some st \<longrightarrow> stage_ok sig_ok r0 (area_rp (sy_area s)) (sy_log s) n st)"

lemma settle_fields [simp]:
  "sy_area (settle_request n out s) = sy_area s" "sy_log (settle_request n out s) = sy_log s"
  "gm_get (sy_flight (settle_request n out s)) m
    = (if m = n then (case out of Inl st \<Rightarrow> Some st | Inr r \<Rightarrow> None) else gm_get (sy_flight s) m)"
  by (auto simp: settle_request_def split: sum.split)

lemma begin_stage_ok: "admin_begin rq a = Inl st \<Longrightarrow> stage_ok sig_ok r0 rpo L n st"
  by (auto simp: admin_begin_def when_configured_def Let_def split: if_splits option.splits)

lemma admin_step_inv:
  assumes "admin_inv sig_ok r0 s"
  shows "admin_inv sig_ok r0 (admin_step sig_ok i s)"
proof (cases i)
  case (Arrive rq)
  with assms show ?thesis by (auto simp: admin_inv_def begin_stage_ok split: sum.splits if_splits)
next
  case (Proceed n env)
  show ?thesis
  proof (cases "gm_get (sy_flight s) n")
    case None
    with Proceed assms show ?thesis by simp
  next
    case (Some st)
    obtain out a ds where stage: "admin_stage sig_ok st env (sy_area s) = (out, a, ds)"
      by (cases "admin_stage sig_ok st env (sy_area s)") auto
    from assms Some have "stage_result sig_ok r0 (sy_area s) (sy_log s) n (out, a, ds)"
      unfolding stage [symmetric] by (intro admin_stage_ok) (auto simp: admin_inv_def)
    with assms Proceed Some stage show ?thesis
      by (auto simp: admin_inv_def stage_result_def Let_def stage_ok_mono split: sum.splits if_splits)
  qed
next
  case (Device op)
  show ?thesis
  proof (cases "device_op op")
    case True
    obtain r where r: "aa_devices (sy_area s) = Some r" using assms by (auto simp: admin_inv_def area_ok_def)
    have "op \<noteq> Op_add_passkey ok idr name cred now" for ok idr name cred now using True by auto
    with registry_known [OF r] assms have "area_ok r0 ((sy_area s)\<lparr>aa_devices := Some (registry_step op r)\<rparr>) (sy_log s)"
      by (simp add: admin_inv_def)
    with assms Device True r area_rp_devices [OF r] show ?thesis by (simp add: admin_inv_def)
  qed (use assms Device in simp)
qed

lemma admin_reach_inv: "admin_reach sig_ok r0 s \<Longrightarrow> admin_inv sig_ok r0 s"
proof (induction rule: admin_reach.induct)
  case (start origin url)
  then show ?case
    by (auto simp: admin_inv_def admin_start_def area_ok_def known_ids_def has_passkeys_def)
qed (rule admin_step_inv)

section \<open>Properties\<close>

lemma log_deed:
  assumes "admin_reach sig_ok r0 s" and "sy_log s = pre @ x # post"
  shows "deed_ok sig_ok r0 (area_rp (sy_area s)) pre x"
  using admin_reach_inv [OF assms(1)] assms(2) unfolding admin_inv_def log_ok_def by blast

lemma last_issue_Some:
  assumes "last_issue key L = Some (p, t)"
  shows "\<exists>pre m later. L = pre @ (m, Issued key p t) # later \<and> (\<forall>x \<in> set later. \<forall>q u live. snd x \<noteq> Taken key q u live)"
  using assms
proof (induction L rule: rev_induct)
  case (snoc x L)
  show ?case
  proof (cases "x \<in> range (\<lambda>m. (m, Issued key p t))")
    case True
    then show ?thesis by (intro exI [of _ L]) auto
  next
    case False
    with snoc.prems have "last_issue key L = Some (p, t)" and free: "\<And>q u live. snd x \<noteq> Taken key q u live"
      by (cases x; cases "snd x"; auto split: if_splits)+
    with snoc.IH obtain pre m later where "L = pre @ (m, Issued key p t) # later"
      "\<forall>y \<in> set later. \<forall>q u live. snd y \<noteq> Taken key q u live" by blast
    with free show ?thesis
      by (intro exI [of _ pre] exI [of _ m] exI [of _ "later @ [x]"]) auto
  qed
qed simp

lemma last_word_opened:
  assumes "log_ok sig_ok r0 rpo L" and "last_word tok L = Some t"
  shows "\<exists>pre m pk t1 later. L = pre @ (m, Opened tok pk t1) # later"
  using assms
proof (induction L arbitrary: t rule: rev_induct)
  case (snoc x L)
  show ?case
  proof (cases "\<exists>m pk t1. x = (m, Opened tok pk t1)")
    case True
    then show ?thesis by (intro exI [of _ L]) auto
  next
    case False
    with snoc.prems obtain u where "last_word tok L = Some u"
      by (cases x; cases "snd x") (auto split: if_splits)
    with snoc.IH [of u] snoc.prems(1) obtain pre m pk t1 later where "L = pre @ (m, Opened tok pk t1) # later" by auto
    then show ?thesis by (metis append.assoc append_Cons)
  qed
qed simp

text \<open>
  C18. A challenge serves once. In any run of the admin area, however its requests interleave, a
  challenge that a ceremony takes successfully was issued by this server for that very
  purpose at most five minutes earlier, and nobody has presented it since, successfully or not.
\<close>
theorem challenge_once:
  assumes "admin_reach sig_ok r0 s" and "sy_log s = pre @ (n, Taken key purpose t True) # post"
  shows "\<exists>pre0 m t0 since. pre = pre0 @ (m, Issued key purpose t0) # since \<and> t \<le> t0 + 5 * Minute \<and>
    (\<forall>x \<in> set since. \<forall>q u live. snd x \<noteq> Taken key q u live)"
proof -
  from log_deed [OF assms] obtain t0 where t0: "last_issue key pre = Some (purpose, t0)" "t \<le> t0 + challengeTTL" by auto
  with last_issue_Some [OF t0(1)] show ?thesis by blast
qed

text \<open>
  C16. A session is earned and kept alive. Whenever the admin area accepts a session cookie, the
  last thing that happened to that session was its opening or its last accepted use, at most
  fifteen minutes earlier (so not its locking, nor a refusal); and it was opened by a request
  that had taken a live login challenge and presented, over it, an assertion that verifies
  against a credential the registry knew.
\<close>
theorem session_earned:
  assumes "admin_reach sig_ok r0 s" and "sy_log s = pre @ (n, Used tok t True) # post"
  shows "(\<exists>t0. last_word tok pre = Some t0 \<and> t \<le> t0 + 15 * Minute) \<and>
    (\<exists>m pk t1. (m, Opened tok pk t1) \<in> set pre \<and> logged_in sig_ok r0 (area_rp (sy_area s)) pre m pk)"
proof -
  from log_deed [OF assms] obtain t0 where t0: "last_word tok pre = Some t0" "t \<le> t0 + adminSessionTTL" by auto
  have "log_ok sig_ok r0 (area_rp (sy_area s)) pre"
    using admin_reach_inv [OF assms(1)] unfolding admin_inv_def assms(2) by (auto simp: log_ok_def)
  with last_word_opened [OF _ t0(1)] obtain pre0 m pk t1 later where pre: "pre = pre0 @ (m, Opened tok pk t1) # later" by blast
  with assms have "deed_ok sig_ok r0 (area_rp (sy_area s)) pre0 (m, Opened tok pk t1)"
    using log_deed [OF assms(1), of pre0 "(m, Opened tok pk t1)"] by simp
  then have "stage_ok sig_ok r0 (area_rp (sy_area s)) pre0 m (LoginOpen pk)" by simp
  then have "logged_in sig_ok r0 (area_rp (sy_area s)) pre m pk"
    using stage_ok_mono [of sig_ok r0 _ pre0 m "LoginOpen pk"] by (simp add: pre)
  with t0 pre show ?thesis by auto
qed

text \<open>
  C17. Nobody changes who gets in without authority. In any run of the admin area, the request
  that revokes a device, removes a passkey or mints an enrollment secret has had its session
  accepted; the request that adds a passkey has had its session accepted or found, at its start,
  a registry that had never had a passkey, and its registration verifies over a live challenge it took;
  and the registry's passkeys are those it began with and those so added.
\<close>
theorem changes_authorized:
  assumes "admin_reach sig_ok r0 s" and "sy_log s = pre @ (n, d) # post"
  shows "(d = Asked \<or> d = Minted secret \<longrightarrow> session_used pre n) \<and>
    (d = Added cred \<longrightarrow> registered (area_rp (sy_area s)) pre n cred \<and>
       (session_used pre n \<or> (\<exists>pre0 post0. pre = pre0 @ (n, Cold) # post0 \<and> known_ids r0 pre0 = {}))) \<and>
    (\<exists>r. aa_devices (sy_area s) = Some r \<and> ps_CredentialId ` set (rg_passkeys r) \<subseteq> known_ids r0 (sy_log s))"
proof (intro conjI impI)
  note deed = log_deed [OF assms]
  show "session_used pre n" if "d = Asked \<or> d = Minted secret" using deed that by auto
  show "registered (area_rp (sy_area s)) pre n cred" if "d = Added cred" using deed that by simp
  show "session_used pre n \<or> (\<exists>pre0 post0. pre = pre0 @ (n, Cold) # post0 \<and> known_ids r0 pre0 = {})"
    if "d = Added cred"
  proof (cases "session_used pre n")
    case False
    with deed that have "(n, Cold) \<in> set pre" by (simp add: authority_def)
    then obtain pre0 post0 where pre: "pre = pre0 @ (n, Cold) # post0" by (meson split_list)
    with assms have "deed_ok sig_ok r0 (area_rp (sy_area s)) pre0 (n, Cold)"
      using log_deed [OF assms(1), of pre0 "(n, Cold)"] by simp
    with pre show ?thesis by auto
  qed simp
  show "\<exists>r. aa_devices (sy_area s) = Some r \<and> ps_CredentialId ` set (rg_passkeys r) \<subseteq> known_ids r0 (sy_log s)"
    using admin_reach_inv [OF assms(1)] by (auto simp: admin_inv_def area_ok_def)
qed

text \<open>
  The door is looked at once, before the body is read: a request that found it open registers its
  key later, however many passkeys there are by then.
\<close>

lemma door_not_rechecked:
  assumes "aa_devices a = Some r" and "cr_ID cred \<notin> ps_CredentialId ` set (rg_passkeys r)"
  shows "snd (snd (admin_stage sig_ok (RegisterAdd name cred) env a)) = [Added cred]"
proof -
  have "\<not> (\<exists>p \<in> set (rg_passkeys r). ps_CredentialId p = cr_ID cred)" using assms(2) by force
  with assms(1) show ?thesis
    by (auto simp: register_add_def on_devices_def add_passkey_def Let_def split_beta split: option.split)
qed

section \<open>Witnesses\<close>

lemma admin_reach_run: "admin_reach sig_ok r0 s \<Longrightarrow> admin_reach sig_ok r0 (fold (admin_step sig_ok) is s)"
  by (induction "is" arbitrary: s) (auto intro: admin_reach.step)

text \<open>The text of a flat object of strings, and that it decodes.\<close>

definition json_quote :: "string \<Rightarrow> string" where
  "json_quote s = CHR 0x22 # s @ [CHR 0x22]"

fun json_fields :: "(string \<times> string) list \<Rightarrow> string" where
  "json_fields [] = []"
| "json_fields [(k, v)] = json_quote k @ CHR '':'' # json_quote v @ [CHR ''}'']"
| "json_fields ((k, v) # kvs) = json_quote k @ CHR '':'' # json_quote v @ CHR '','' # json_fields kvs"

definition json_text :: "(string \<times> string) list \<Rightarrow> string" where
  "json_text kvs = CHR ''{'' # json_fields kvs"

definition plain_char :: "char \<Rightarrow> bool" where
  "plain_char c \<longleftrightarrow> in_range 0x20 0x7E c \<and> c \<noteq> CHR 0x22 \<and> c \<noteq> CHR 0x5C"

lemma json_string_plain:
  "list_all plain_char s \<Longrightarrow> length s < n \<Longrightarrow> json_string n (s @ CHR 0x22 # r) = Some (s, r)"
proof (induction s arbitrary: n)
  case Nil
  then show ?case by (cases n) simp_all
next
  case (Cons c s)
  then obtain m where "n = Suc m" by (cases n) auto
  with Cons show ?case
    by (auto simp: plain_char_def in_range_def utf8_len_def Let_def)
qed

lemma json_value_quote:
  "0 < n \<Longrightarrow> json_value n d (CHR 0x22 # r) = map_option (apfst JStr) (json_string (length r) r)"
  by (cases n) (simp_all add: skip_ws_def)

lemma json_members_text:
  assumes "kvs \<noteq> []" and "list_all (\<lambda>(k, v). list_all plain_char k \<and> list_all plain_char v) kvs"
    and "2 * length kvs \<le> n"
  shows "json_members n d (json_fields kvs @ r) = Some (map (apsnd JStr) kvs, r)"
  using assms
proof (induction kvs arbitrary: n rule: json_fields.induct)
  case (2 k v)
  then obtain m where "n = Suc m" "0 < m" by (cases n) auto
  with 2 show ?case
    by (simp add: json_quote_def skip_ws_def json_string_plain json_value_quote)
next
  case (3 k v x kvs)
  then obtain m where m: "n = Suc m" "0 < m" by (cases n) auto
  have "json_members m d (json_fields (x # kvs) @ r) = Some (map (apsnd JStr) (x # kvs), r)"
    using "3.prems" m(1) by (intro "3.IH") auto
  with 3 m show ?case
    by (simp add: json_quote_def skip_ws_def json_string_plain json_value_quote)
qed simp

lemma length_json_fields: "kvs \<noteq> [] \<Longrightarrow> 2 * length kvs < length (json_fields kvs)"
  by (induction kvs rule: json_fields.induct) (auto simp: json_quote_def)

lemma decode_text:
  assumes "kvs \<noteq> []" and "list_all (\<lambda>(k, v). list_all plain_char k \<and> list_all plain_char v) kvs"
    and "length (json_text kvs) \<le> bodyLimit"
  shows "decode_body names (json_text kvs) = into_struct (string_field names) (map (apsnd JStr) kvs) []"
proof -
  obtain c r where fields: "json_fields kvs = c # r" "c = CHR 0x22"
    using assms(1) by (cases kvs rule: json_fields.cases) (auto simp: json_quote_def)
  have "json_members (Suc (2 * length (json_fields kvs) + 2)) 1 (json_fields kvs) = Some (map (apsnd JStr) kvs, [])"
    using json_members_text [OF assms(1,2), of "Suc (2 * length (json_fields kvs) + 2)" 1 "[]"] length_json_fields [OF assms(1)]
    by (simp del: json_members.simps)
  then have "json_value (2 * length (json_text kvs) + 2) 0 (json_text kvs) = Some (JObj (map (apsnd JStr) kvs), [])"
    using fields by (simp add: json_text_def skip_ws_def del: json_members.simps)
  with assms(3) show ?thesis by (simp add: decode_body_def)
qed

lemma length_base64url: "length (base64url_encode s) \<le> 2 * length s + 1"
proof -
  have "length (base64url_encode s) * 6 = 8 * length s + (6 - 8 * length s mod 6) mod 6"
    using length_encode_bits [of 6 alphabet64url s] by (simp add: base64url_encode_def pad_bits_def)
  moreover have "(6 - 8 * length s mod 6) mod 6 < (6 :: nat)" by simp
  ultimately show ?thesis by linarith
qed

lemma plain_base64url [simp]: "list_all plain_char (base64url_encode s)"
proof -
  have "list_all plain_char alphabet64url" by code_simp
  moreover have "set (base64url_encode s) \<subseteq> set alphabet64url"
    unfolding base64url_encode_def by (rule set_encode_bits) simp
  ultimately show ?thesis by (auto simp: list_all_iff)
qed

definition demo_area_registry :: registry where
  "demo_area_registry = \<lparr>rg_path = [], rg_order = [], rg_passkeys = [], rg_pending = [], rg_saved = 0, rg_file = None\<rparr>"

definition demo_env :: "time \<Rightarrow> string \<Rightarrow> admin_env" where
  "demo_env now body = \<lparr>ae_now = now, ae_rand = replicate 3 CHR 0x00, ae_body = body, ae_ok = True, ae_ord = [], ae_qr = True\<rparr>"

definition demo_post :: "string \<Rightarrow> string option \<Rightarrow> admin_input" where
  "demo_post path cookie = Arrive \<lparr>rq_method = ''POST'', rq_rest = ''/'' @ path, rq_cookie = cookie\<rparr>"

definition demo_registering :: "admin_input list" where
  "demo_registering =
     [demo_post ''challenge'' None, Proceed 0 (demo_env 100 (json_text [(''purpose'', ''register'')])),
      demo_post ''passkey/register'' None, Proceed 1 (demo_env 200 []),
      Proceed 1 (demo_env 300 (json_text [(''name'', ''k''), (''attestationObject'', ''AAAA''),
        (''clientDataJSON'', base64url_encode (json_text [(''challenge'', ''AAAA'')]))]))]"

lemma demo_bodies:
  "decode_body [''Purpose''] (json_text [(''purpose'', ''register'')]) = Some [(''Purpose'', ''register'')]"
  "decode_body [''Name'', ''ClientDataJSON'', ''AttestationObject'']
     (json_text [(''name'', ''k''), (''attestationObject'', ''AAAA''),
        (''clientDataJSON'', base64url_encode (json_text [(''challenge'', ''AAAA'')]))])
    = Some [(''Name'', ''k''), (''AttestationObject'', ''AAAA''), (''ClientDataJSON'', base64url_encode (json_text [(''challenge'', ''AAAA'')]))]"
proof -
  have field: "field_of [''Purpose''] ''purpose'' = Some ''Purpose''"
    "field_of [''Name'', ''ClientDataJSON'', ''AttestationObject''] ''name'' = Some ''Name''"
    "field_of [''Name'', ''ClientDataJSON'', ''AttestationObject''] ''attestationObject'' = Some ''AttestationObject''"
    "field_of [''Name'', ''ClientDataJSON'', ''AttestationObject''] ''clientDataJSON'' = Some ''ClientDataJSON''"
    by code_simp+
  show "decode_body [''Purpose''] (json_text [(''purpose'', ''register'')]) = Some [(''Purpose'', ''register'')]"
    by (subst decode_text) (simp_all add: plain_char_def in_range_def json_text_def json_quote_def string_field_def field)
  have "length (base64url_encode (json_text [(''challenge'', ''AAAA'')])) \<le> 45"
    using length_base64url [of "json_text [(''challenge'', ''AAAA'')]"] by (simp add: json_text_def json_quote_def)
  then show "decode_body [''Name'', ''ClientDataJSON'', ''AttestationObject'']
     (json_text [(''name'', ''k''), (''attestationObject'', ''AAAA''),
        (''clientDataJSON'', base64url_encode (json_text [(''challenge'', ''AAAA'')]))])
    = Some [(''Name'', ''k''), (''AttestationObject'', ''AAAA''), (''ClientDataJSON'', base64url_encode (json_text [(''challenge'', ''AAAA'')]))]"
    by (subst decode_text) (simp_all add: plain_char_def in_range_def json_text_def json_quote_def string_field_def field)
qed

lemma demo_texts:
  "named_challenge (json_text [(''challenge'', ''AAAA'')]) = Some ''AAAA''"
  "base64url_encode (replicate 3 CHR 0x00) = ''AAAA''" "base64url_decode ''AAAA'' = Some (replicate 3 CHR 0x00)"
  "trim_space ''k'' = ''k''"
  by code_simp+

lemma demo_area_rp [simp]:
  "area_rp \<lparr>aa_origin = ''https://h'', aa_url = Some (''https'', ''h''), aa_devices = Some r,
     aa_sessions = ss, aa_challenges = cs\<rparr> = Some demo_rp"
  by (simp add: area_rp_def demo_rp_def)

lemma demo_registering_log:
  "sy_log (fold (admin_step (\<lambda>_ _ _. True)) demo_registering
     (admin_start ''https://h'' (Some (''https'', ''h'')) (Some demo_area_registry)))
   = [(0, Issued ''AAAA'' ''register'' 100), (1, Cold), (1, Taken ''AAAA'' ''register'' 300 True)]"
proof -
  have bad: "verify_registration demo_rp (json_text [(''challenge'', ''AAAA'')]) a ch = Inl Wrong_type" for a ch
  proof -
    have "parse_client_data (json_text [(''challenge'', ''AAAA'')]) = Some \<lparr>cd_Type = [], cd_Challenge = ''AAAA'', cd_Origin = []\<rparr>"
      by code_simp
    then show ?thesis by (simp add: verify_registration_def check_client_data_def)
  qed
  show ?thesis
    by (simp add: demo_registering_def demo_post_def demo_env_def admin_start_def admin_begin_def Let_def
        when_configured_def trim_prefix_def settle_request_def challenge_begin_def demo_bodies body_field_def
        demo_texts issue_challenge_def demo_area_registry_def has_passkeys_def register_take_def
        base64url_decode_encode take_challenge_def bad)
qed

theorem challenge_once_witness:
  "\<exists>(m :: nat) t0. (m, Issued ''AAAA'' ''register'' t0) \<in> set (sy_log (fold (admin_step (\<lambda>_ _ _. True)) demo_registering
     (admin_start ''https://h'' (Some (''https'', ''h'')) (Some demo_area_registry)))) \<and> 300 \<le> t0 + 5 * Minute"
proof -
  have "admin_reach (\<lambda>_ _ _. True) demo_area_registry (fold (admin_step (\<lambda>_ _ _. True)) demo_registering
     (admin_start ''https://h'' (Some (''https'', ''h'')) (Some demo_area_registry)))"
    by (intro admin_reach_run admin_reach.start) (simp add: passkeys_ok_def demo_area_registry_def)
  from challenge_once [OF this, of "[(0, Issued ''AAAA'' ''register'' 100), (1, Cold)]" 1 "''AAAA''" "''register''" 300 "[]"]
  show ?thesis by (auto simp: demo_registering_log)
qed

definition demo_login_registry :: registry where
  "demo_login_registry = demo_area_registry\<lparr>rg_passkeys := [\<lparr>ps_Id = ''p'', ps_Name = ''k'', ps_CredentialId = ''i'',
     ps_PublicKey = cbor_enc demo_cose, ps_SignCount = 6, ps_RegisteredAt = 50\<rparr>]\<rparr>"

definition demo_sig :: sig_check where
  "demo_sig = (\<lambda>k d s. s = ''sig'')"

definition demo_login_body :: string where
  "demo_login_body = json_text [(''credentialId'', base64url_encode ''i''),
     (''clientDataJSON'', base64url_encode (demo_client ''webauthn.get'')),
     (''authenticatorData'', base64url_encode (demo_auth 0x45 [])), (''signature'', base64url_encode ''sig'')]"

definition demo_minting :: "admin_input list" where
  "demo_minting =
     [demo_post ''challenge'' None, Proceed 0 (demo_env 100 (json_text [(''purpose'', ''login'')])),
      demo_post ''passkey/login'' None, Proceed 1 (demo_env 200 demo_login_body), Proceed 1 (demo_env 300 []),
      Proceed 1 (demo_env 350 []), Proceed 1 (demo_env 400 []),
      demo_post ''enroll'' (Some ''AAAA''), Proceed 2 (demo_env 500 []), Proceed 2 (demo_env 600 [])]"

lemma demo_login_bodies:
  "decode_body [''Purpose''] (json_text [(''purpose'', ''login'')]) = Some [(''Purpose'', ''login'')]"
  "decode_body [''CredentialID'', ''ClientDataJSON'', ''AuthenticatorData'', ''Signature''] demo_login_body
    = Some [(''CredentialID'', base64url_encode ''i''), (''ClientDataJSON'', base64url_encode (demo_client ''webauthn.get'')),
        (''AuthenticatorData'', base64url_encode (demo_auth 0x45 [])), (''Signature'', base64url_encode ''sig'')]"
  "named_challenge (demo_client ''webauthn.get'') = Some ''AAAA''"
proof -
  let ?names = "[''CredentialID'', ''ClientDataJSON'', ''AuthenticatorData'', ''Signature'']"
  have field: "field_of [''Purpose''] ''purpose'' = Some ''Purpose''"
    "field_of ?names ''credentialId'' = Some ''CredentialID''" "field_of ?names ''clientDataJSON'' = Some ''ClientDataJSON''"
    "field_of ?names ''authenticatorData'' = Some ''AuthenticatorData''" "field_of ?names ''signature'' = Some ''Signature''"
    by code_simp+
  show "decode_body [''Purpose''] (json_text [(''purpose'', ''login'')]) = Some [(''Purpose'', ''login'')]"
    by (subst decode_text) (simp_all add: plain_char_def in_range_def json_text_def json_quote_def string_field_def field)
  have "length (base64url_encode (demo_client ''webauthn.get'')) \<le> 200" "length (base64url_encode (demo_auth 0x45 [])) \<le> 100"
    "length (base64url_encode ''i'') \<le> 10" "length (base64url_encode ''sig'') \<le> 10"
    using length_base64url [of "demo_client ''webauthn.get''"] length_base64url [of "demo_auth 0x45 []"]
      length_base64url [of "''i''"] length_base64url [of "''sig''"]
    by (simp_all add: demo_client_def demo_auth_def)
  then show "decode_body ?names demo_login_body
    = Some [(''CredentialID'', base64url_encode ''i''), (''ClientDataJSON'', base64url_encode (demo_client ''webauthn.get'')),
        (''AuthenticatorData'', base64url_encode (demo_auth 0x45 [])), (''Signature'', base64url_encode ''sig'')]"
    unfolding demo_login_body_def
    by (subst decode_text) (simp_all add: plain_char_def in_range_def json_text_def json_quote_def string_field_def field)
  show "named_challenge (demo_client ''webauthn.get'') = Some ''AAAA''" by code_simp
qed

lemma demo_minting_log:
  "\<exists>pk. sy_log (fold (admin_step demo_sig) demo_minting
     (admin_start ''https://h'' (Some (''https'', ''h'')) (Some demo_login_registry)))
   = [(0, Issued ''AAAA'' ''login'' 100), (1, Taken ''AAAA'' ''login'' 300 True), (1, Opened ''AAAA'' pk 400),
      (2, Used ''AAAA'' 500 True), (2, Minted ''AAAA'')]"
proof -
  have key: "parse_cose_key (cbor_enc demo_cose) = Inr (- 257, Rsa_key (be_int (replicate 256 CHR 0x80)) 65537)"
    by (simp add: parse_cose_key_def demo_cose_parsed del: cbor_enc.simps)
  show ?thesis
    by (simp add: demo_minting_def demo_post_def demo_env_def admin_start_def admin_begin_def Let_def
        when_configured_def trim_prefix_def settle_request_def challenge_begin_def demo_login_bodies body_field_def
        demo_texts issue_challenge_def demo_login_registry_def demo_area_registry_def login_find_def
        base64url_decode_encode passkey_by_credential_def passkey_of_def key login_take_def take_challenge_def
        verify_assertion_def demo_client_checked demo_auth_checked demo_sig_def on_devices_def set_sign_count_def
        save_def login_open_def authed_def mint_secret_def mint_enrollment_def rand_token_def sweep_pending_def
        del: cbor_enc.simps)
qed

lemma demo_minting_reach:
  "admin_reach demo_sig demo_login_registry (fold (admin_step demo_sig) demo_minting
     (admin_start ''https://h'' (Some (''https'', ''h'')) (Some demo_login_registry)))"
  by (intro admin_reach_run admin_reach.start) (simp add: passkeys_ok_def demo_login_registry_def)

theorem session_earned_witness:
  "\<exists>(m :: nat) pk t1. (m, Opened ''AAAA'' pk t1) \<in> set (sy_log (fold (admin_step demo_sig) demo_minting
     (admin_start ''https://h'' (Some (''https'', ''h'')) (Some demo_login_registry))))"
proof -
  let ?s = "fold (admin_step demo_sig) demo_minting
     (admin_start ''https://h'' (Some (''https'', ''h'')) (Some demo_login_registry))"
  obtain pk where log: "sy_log ?s = [(0, Issued ''AAAA'' ''login'' 100), (1, Taken ''AAAA'' ''login'' 300 True),
      (1, Opened ''AAAA'' pk 400)] @ (2, Used ''AAAA'' 500 True) # [(2, Minted ''AAAA'')]"
    using demo_minting_log by auto
  from session_earned [OF demo_minting_reach log] show ?thesis unfolding log by auto
qed

theorem changes_authorized_witness:
  "\<exists>tok t. (2 :: nat, Used tok t True) \<in> set (sy_log (fold (admin_step demo_sig) demo_minting
     (admin_start ''https://h'' (Some (''https'', ''h'')) (Some demo_login_registry))))"
proof -
  let ?s = "fold (admin_step demo_sig) demo_minting
     (admin_start ''https://h'' (Some (''https'', ''h'')) (Some demo_login_registry))"
  obtain pk where log: "sy_log ?s = [(0, Issued ''AAAA'' ''login'' 100), (1, Taken ''AAAA'' ''login'' 300 True),
      (1, Opened ''AAAA'' pk 400), (2, Used ''AAAA'' 500 True)] @ (2, Minted ''AAAA'') # []"
    using demo_minting_log by auto
  from changes_authorized [OF demo_minting_reach log, of "''AAAA''"] show ?thesis
    unfolding log session_used_def by auto
qed

end
