(* ===== verification/Go_Net.thy ===== *)
theory Go_Net
  imports Go_Json
begin

text \<open>
  What the program uses of package \<open>net\<close>: textual addresses and prefixes (\<open>ParseIP\<close>,
  \<open>ParseCIDR\<close>, \<open>IPNet.Contains\<close>, \<open>IP.String\<close>) and \<open>SplitHostPort\<close>.  A \<open>net.IP\<close> is its bytes: the 16 that
  ParseIP gives, where an IPv4 address is mapped into IPv6, or the 4 of a masked IPv4 network.
\<close>

unbundle bit_operations_syntax

type_synonym ip = "8 word list"

section \<open>Addresses\<close>

text \<open>\<open>netip.Addr\<close> without its zone: an IPv4 address of 4 bytes or an IPv6 address of 16.\<close>

datatype addr = V4 ip | V6 ip

definition v4_prefix :: ip where
  "v4_prefix = replicate 10 0 @ [0xFF, 0xFF]"

fun as16 :: "addr \<Rightarrow> ip" where
  "as16 (V4 q) = v4_prefix @ q"
| "as16 (V6 b) = b"

fun addr_bits :: "addr \<Rightarrow> nat" where
  "addr_bits (V4 q) = 32"
| "addr_bits (V6 b) = 128"

text \<open>Four decimal fields, each at most 255 and without a leading zero.\<close>

definition octet :: "string \<Rightarrow> 8 word option" where
  "octet s =
     (if 1 < length s \<and> hd s = CHR ''0'' then None
      else case dec_value s of None \<Rightarrow> None | Some n \<Rightarrow> if n \<le> 255 then Some (word_of_int n) else None)"

definition parse_v4 :: "string \<Rightarrow> ip option" where
  "parse_v4 s = (let fs = split_on CHR ''.'' s in if length fs = 4 then sequence (map octet fs) else None)"

text \<open>
  The groups of an IPv6 address, as many as are still missing: the bytes read so far, and the
  place of the ellipsis.
\<close>

definition hex_value :: "string \<Rightarrow> int" where
  "hex_value s = fold (\<lambda>c acc. 16 * acc + (case hex_digit c of None \<Rightarrow> 0 | Some d \<Rightarrow> d)) s 0"

fun v6_groups :: "nat \<Rightarrow> ip \<Rightarrow> nat option \<Rightarrow> string \<Rightarrow> (ip \<times> nat option) option" where
  "v6_groups 0 b ell s = (if s = [] then Some (b, ell) else None)"
| "v6_groups (Suc n) b ell s =
     (let ds = takeWhile (\<lambda>c. hex_digit c \<noteq> None) s;
          r = dropWhile (\<lambda>c. hex_digit c \<noteq> None) s;
          v = hex_value ds; b' = b @ [word_of_int (v div 256), word_of_int (v mod 256)]
      in if ds = [] \<or> 4 < length ds then None
         else case r of
           [] \<Rightarrow> Some (b', ell)
         | c # r1 \<Rightarrow>
             if c = CHR ''.'' then
               if (ell = None \<and> length b \<noteq> 12) \<or> 12 < length b then None
               else (case parse_v4 s of None \<Rightarrow> None | Some q \<Rightarrow> Some (b @ q, ell))
             else if c \<noteq> CHR '':'' then None
             else (case r1 of
                 [] \<Rightarrow> None
               | d # r2 \<Rightarrow>
                   if d = CHR '':'' then
                     if ell \<noteq> None then None
                     else if r2 = [] then Some (b', Some (length b'))
                     else v6_groups n b' (Some (length b')) r2
                   else v6_groups n b' ell r1))"

definition expand_v6 :: "ip \<times> nat option \<Rightarrow> ip option" where
  "expand_v6 = (\<lambda>(b, ell).
     if length b < 16 then
       (case ell of None \<Rightarrow> None | Some k \<Rightarrow> Some (take k b @ replicate (16 - length b) 0 @ drop k b))
     else if ell \<noteq> None then None else Some b)"

definition parse_v6 :: "string \<Rightarrow> ip option" where
  "parse_v6 s =
     (case cut_prefix s ''::'' of
        Some r \<Rightarrow> if r = [] then Some (replicate 16 0) else Option.bind (v6_groups 8 [] (Some 0) r) expand_v6
      | None \<Rightarrow> Option.bind (v6_groups 8 [] None s) expand_v6)"

text \<open>\<open>netip.ParseAddr\<close>, with an address that has a zone refused as both callers do.\<close>

definition parse_addr :: "string \<Rightarrow> addr option" where
  "parse_addr s =
     (case List.find (\<lambda>c. c \<in> set ''.:%'') s of
        None \<Rightarrow> None
      | Some c \<Rightarrow>
          if c = CHR ''.'' then map_option V4 (parse_v4 s)
          else if c = CHR '':'' \<and> CHR ''%'' \<notin> set s then map_option V6 (parse_v6 s)
          else None)"

definition parse_ip :: "string \<Rightarrow> ip option" where
  "parse_ip s = map_option as16 (parse_addr s)"

definition to4 :: "ip \<Rightarrow> ip option" where
  "to4 b = (if length b = 4 then Some b
     else if length b = 16 \<and> take 12 b = v4_prefix then Some (drop 12 b) else None)"

section \<open>Prefixes\<close>

record ip_net =
  net_IP :: ip
  net_Mask :: ip

text \<open>\<open>CIDRMask\<close>: ones, then zeros.\<close>

definition cidr_mask :: "nat \<Rightarrow> nat \<Rightarrow> ip" where
  "cidr_mask ones bits = map (\<lambda>i. NOT (mask (8 - min 8 (ones - 8 * i)))) [0..<bits div 8]"

definition masked :: "ip \<Rightarrow> ip \<Rightarrow> ip" where
  "masked b m = map2 (AND) b m"

definition parse_cidr :: "string \<Rightarrow> ip_net option" where
  "parse_cidr s =
     (case cut CHR ''/'' s of
        None \<Rightarrow> None
      | Some (a, bits) \<Rightarrow>
          (case (parse_addr a, dec_value bits) of
             (Some x, Some n) \<Rightarrow>
               if n \<le> int (addr_bits x) then
                 let m = cidr_mask (nat n) (addr_bits x)
                 in Some \<lparr>net_IP = masked (case x of V4 q \<Rightarrow> q | V6 b \<Rightarrow> b) m, net_Mask = m\<rparr>
               else None
           | _ \<Rightarrow> None))"

text \<open>\<open>networkNumberAndMask\<close> and \<open>Contains\<close>.\<close>

definition network_mask :: "ip_net \<Rightarrow> (ip \<times> ip) option" where
  "network_mask n =
     (let b = (case to4 (net_IP n) of Some q \<Rightarrow> q | None \<Rightarrow> net_IP n);
          m = net_Mask n
      in if length b \<noteq> 4 \<and> length b \<noteq> 16 then None
         else if length m = 4 then (if length b = 4 then Some (b, m) else None)
         else if length m = 16 then Some (b, if length b = 4 then drop 12 m else m)
         else None)"

definition net_contains :: "ip_net \<Rightarrow> ip \<Rightarrow> bool" where
  "net_contains n x =
     (case network_mask n of
        None \<Rightarrow> x = []
      | Some (b, m) \<Rightarrow>
          let y = (case to4 x of Some q \<Rightarrow> q | None \<Rightarrow> x)
          in length y = length b \<and> masked b m = masked y m)"

section \<open>Printing\<close>

definition v4_string :: "ip \<Rightarrow> string" where
  "v4_string q = join ''.'' (map (\<lambda>b. itoa (uint b)) q)"

text \<open>\<open>IP.String\<close> of 16 bytes: the longest run of two or more zero groups, the first of several, is left out.\<close>

definition hex_string :: "int \<Rightarrow> string" where
  "hex_string n =
     (let ds = encode_bits 4 ''0123456789abcdef'' [char_of (n div 256), char_of (n mod 256)]
      in case dropWhile (\<lambda>c. c = CHR ''0'') ds of [] \<Rightarrow> ''0'' | d # r \<Rightarrow> d # r)"

definition groups16 :: "ip \<Rightarrow> int list" where
  "groups16 b = map (\<lambda>i. 256 * uint (b ! (2 * i)) + uint (b ! (2 * i + 1))) [0..<8]"

definition zero_run :: "int list \<Rightarrow> nat \<Rightarrow> nat" where
  "zero_run gs i = length (takeWhile (\<lambda>g. g = 0) (drop i gs))"

definition longest_run :: "int list \<Rightarrow> nat \<times> nat" where
  "longest_run gs =
     fold (\<lambda>i (start, n). if n < zero_run gs i \<and> 2 \<le> zero_run gs i then (i, zero_run gs i) else (start, n))
       [0..<length gs] (0, 0)"

definition v6_string :: "ip \<Rightarrow> string" where
  "v6_string b =
     (let gs = groups16 b; (start, n) = longest_run gs; text = (\<lambda>xs. join '':'' (map hex_string xs))
      in if n = 0 then text gs else text (take start gs) @ ''::'' @ text (drop (start + n) gs))"

definition ip_string :: "ip \<Rightarrow> string" where
  "ip_string b = (case to4 b of Some q \<Rightarrow> v4_string q | None \<Rightarrow> v6_string b)"

section \<open>Host and port\<close>

definition last_cut :: "char \<Rightarrow> string \<Rightarrow> (string \<times> string) option" where
  "last_cut c s = map_option (\<lambda>(a, b). (rev b, rev a)) (cut c (rev s))"

definition split_host_port :: "string \<Rightarrow> (string \<times> string) option" where
  "split_host_port s =
     (case last_cut CHR '':'' s of
        None \<Rightarrow> None
      | Some (front, port) \<Rightarrow>
          if hd s = CHR ''['' then
            (case cut CHR '']'' s of
               None \<Rightarrow> None
             | Some (opening, back) \<Rightarrow>
                 if front = opening @ '']'' \<and> CHR ''['' \<notin> set (tl s) \<and> CHR '']'' \<notin> set back
                 then Some (tl opening, port) else None)
          else if CHR '':'' \<in> set front \<or> CHR ''['' \<in> set s \<or> CHR '']'' \<in> set s then None
          else Some (front, port))"

section \<open>What a prefix contains\<close>

text \<open>The bits of an address, the most significant first.\<close>

definition ip_bits :: "ip \<Rightarrow> bool list" where
  "ip_bits b = concat (map (\<lambda>w. map (\<lambda>i. bit w (7 - i)) [0..<8]) b)"

lemma length_ip_bits [simp]: "length (ip_bits b) = 8 * length b"
  by (simp add: ip_bits_def length_concat comp_def sum_list_triv)

lemma byte_masked:
  fixes x y :: "8 word"
  assumes "j \<le> 8"
  shows "x AND NOT (mask (8 - j)) = y AND NOT (mask (8 - j)) \<longleftrightarrow>
    take j (map (\<lambda>i. bit x (7 - i)) [0..<8]) = take j (map (\<lambda>i. bit y (7 - i)) [0..<8])"
proof -
  have "x AND NOT (mask (8 - j)) = y AND NOT (mask (8 - j)) \<longleftrightarrow> (\<forall>n<8. 8 - j \<le> n \<longrightarrow> bit x n = bit y n)"
    by (auto simp: bit_eq_iff bit_simps)
  also have "\<dots> \<longleftrightarrow> (\<forall>i<j. bit x (7 - i) = bit y (7 - i))"
  proof
    assume *: "\<forall>n<8. 8 - j \<le> n \<longrightarrow> bit x n = bit y n"
    show "\<forall>i<j. bit x (7 - i) = bit y (7 - i)" using * assms by simp
  next
    assume *: "\<forall>i<j. bit x (7 - i) = bit y (7 - i)"
    show "\<forall>n<8. 8 - j \<le> n \<longrightarrow> bit x n = bit y n"
    proof (intro allI impI)
      fix n :: nat assume "n < 8" "8 - j \<le> n"
      then have "7 - (7 - n) = n" "7 - n < j" by simp_all
      with * show "bit x n = bit y n" by metis
    qed
  qed
  also have "\<dots> \<longleftrightarrow> take j (map (\<lambda>i. bit x (7 - i)) [0..<8]) = take j (map (\<lambda>i. bit y (7 - i)) [0..<8])"
    using assms by (auto simp: list_eq_iff_nth_eq)
  finally show ?thesis .
qed

lemma cidr_mask_Suc:
  "cidr_mask k (8 * Suc n) = NOT (mask (8 - min 8 k)) # cidr_mask (k - 8) (8 * n)"
proof -
  have "[0..<Suc n] = 0 # map Suc [0..<n]" by (simp add: map_Suc_upt upt_conv_Cons)
  then show ?thesis by (simp add: cidr_mask_def comp_def del: upt_Suc)
qed

lemma masked_eq:
  "length x = length y \<Longrightarrow> masked x (cidr_mask k (8 * length x)) = masked y (cidr_mask k (8 * length x))
    \<longleftrightarrow> take k (ip_bits x) = take k (ip_bits y)"
proof (induction x y arbitrary: k rule: list_induct2)
  case Nil
  then show ?case by (simp add: masked_def ip_bits_def)
next
  case (Cons a x b y)
  have "take k (ip_bits (c # z)) = take (min 8 k) (map (\<lambda>i. bit c (7 - i)) [0..<8]) @ take (k - 8) (ip_bits z)" for c z
    by (cases "k \<le> 8") (simp_all add: ip_bits_def min_def del: upt_rec_numeral)
  with Cons.IH [of "k - 8"] byte_masked [of "min 8 k" a b] show ?case
    by (simp only: length_Cons cidr_mask_Suc masked_def list.map zip_Cons_Cons prod.case list.inject append_eq_append_conv)
      (auto simp: masked_def)
qed

lemma masked_twice: "masked (masked b m) m = masked b m"
proof (induction b arbitrary: m)
  case (Cons a b)
  then show ?case by (cases m) (simp_all add: masked_def ac_simps)
qed (simp add: masked_def)

lemma length_masked [simp]: "length (masked b m) = min (length b) (length m)"
  by (simp add: masked_def)

lemma length_cidr_mask [simp]: "length (cidr_mask k bits) = bits div 8"
  by (simp add: cidr_mask_def)

lemma sequence_length: "sequence xs = Some ys \<Longrightarrow> length ys = length xs"
  by (induction xs arbitrary: ys) (auto split: option.splits)

lemma parse_v4_length: "parse_v4 s = Some q \<Longrightarrow> length q = 4"
  by (auto simp: parse_v4_def Let_def dest!: sequence_length split: if_splits)

text \<open>An IPv4 network contains the addresses that agree with it in its first bits, however they are written.\<close>

lemma v4_contains:
  assumes "parse_cidr s = Some n" and "cut CHR ''/'' s = Some (a, bits)" and "parse_addr a = Some (V4 q)"
    and "dec_value bits = Some k"
  shows "net_contains n x \<longleftrightarrow> (\<exists>y. to4 x = Some y \<and> length y = 4 \<and> take (nat k) (ip_bits y) = take (nat k) (ip_bits q))"
proof -
  have "length q = 4"
    using assms(3) by (auto simp: parse_addr_def split: option.splits if_splits dest: parse_v4_length)
  have n: "n = \<lparr>net_IP = masked q (cidr_mask (nat k) 32), net_Mask = cidr_mask (nat k) 32\<rparr>"
    using assms by (auto simp: parse_cidr_def Let_def split: if_splits)
  let ?m = "cidr_mask (nat k) 32"
  have "network_mask n = Some (masked q ?m, ?m)"
    using \<open>length q = 4\<close> by (simp add: network_mask_def n to4_def Let_def)
  then have contains: "net_contains n x \<longleftrightarrow>
      (let y = (case to4 x of Some q \<Rightarrow> q | None \<Rightarrow> x) in length y = 4 \<and> masked q ?m = masked y ?m)"
    using \<open>length q = 4\<close> by (simp add: net_contains_def masked_twice)
  have "masked q ?m = masked y ?m \<longleftrightarrow> take (nat k) (ip_bits y) = take (nat k) (ip_bits q)" if "length y = 4" for y
    using masked_eq [of q y "nat k"] that \<open>length q = 4\<close> by auto
  with contains show ?thesis
    by (auto simp: Let_def to4_def split: option.splits if_splits)
qed

end
