(* ===== verification/Describe.thy ===== *)
theory Describe
  imports Policy
begin

text \<open>
  The one sentence for an event (\<open>internal/policy/describe.go\<close>, and \<open>Humanize\<close> of \<open>states.go\<close>), with what
  it uses of package \<open>time\<close>: \<open>Duration.Round\<close> and \<open>Duration.String\<close>.
\<close>

section \<open>Durations as text\<close>

text \<open>\<open>Duration.Round\<close> to a positive multiple: halves away from zero, clamped on overflow.\<close>

definition dur_round :: "duration \<Rightarrow> duration \<Rightarrow> duration" where
  "dur_round d m =
     (let r = \<bar>d\<bar> mod m; n = (if 2 * r < m then \<bar>d\<bar> - r else \<bar>d\<bar> + m - r)
      in max min_duration (min max_duration (sgn d * n)))"

text \<open>The fraction of \<open>u\<close> after its last \<open>prec\<close> digits, without the zeros at its end.\<close>

definition frac_string :: "nat \<Rightarrow> int \<Rightarrow> string" where
  "frac_string prec u =
     (let ds = map (\<lambda>i. digit_char (u div 10 ^ i mod 10)) (rev [0..<prec]);
          short = rev (dropWhile (\<lambda>c. c = CHR ''0'') (rev ds))
      in if short = [] then [] else CHR ''.'' # short)"

definition dur_string :: "duration \<Rightarrow> string" where
  "dur_string d =
     (let u = \<bar>d\<bar>;
          text = (if u = 0 then ''0s''
            else if u < 1000 then dec u @ ''ns''
            else if u < 1000000 then dec (u div 1000) @ frac_string 3 u @ [CHR 0xC2, CHR 0xB5, CHR ''s'']
            else if u < Second then dec (u div 1000000) @ frac_string 6 u @ ''ms''
            else let s = u div Second;
                     seconds = dec (s mod 60) @ frac_string 9 u @ ''s'';
                     minutes = dec (s div 60 mod 60) @ ''m'' @ seconds
                 in if s < 60 then seconds
                    else if s < 3600 then minutes
                    else dec (s div 3600) @ ''h'' @ minutes)
      in if d < 0 then CHR ''-'' # text else text)"

section \<open>Words\<close>

definition place :: "string \<Rightarrow> string" where
  "place zone = replace_all CHR ''_'' CHR '' '' zone"

definition at_place :: "string \<Rightarrow> string" where
  "at_place zone =
     (let p = place zone in
      if contains p ''porch'' \<or> contains p ''deck'' \<or> contains p ''step'' then ''on the '' @ p else ''in the '' @ p)"

definition capitalize :: "string \<Rightarrow> string" where
  "capitalize s = (case s of [] \<Rightarrow> [] | c # r \<Rightarrow> to_upper_byte c @ r)"

definition noun :: "string \<Rightarrow> int \<Rightarrow> string" where
  "noun label n =
     (if n = 1 then (if label = ''person'' then ''person'' else ''a '' @ label)
      else itoa n @ '' '' @ label @ ''s'')"

text \<open>The labels, person first: a sort by a total order of distinct labels, so the range does not matter.\<close>

definition sorted_labels :: "(string, int) gomap \<Rightarrow> string list" where
  "sorted_labels objects =
     (let labels = map fst (filter (\<lambda>(l, n). 0 < n) objects)
      in filter (\<lambda>l. l = ''person'') labels @ sort (filter (\<lambda>l. l \<noteq> ''person'') labels))"

definition object_count :: "(string, int) gomap \<Rightarrow> string \<Rightarrow> int" where
  "object_count m l = (case gm_get m l of None \<Rightarrow> 0 | Some n \<Rightarrow> n)"

definition subject :: "(string, int) gomap \<Rightarrow> string" where
  "subject objects =
     (let parts = map (\<lambda>l. noun l (object_count objects l)) (sorted_labels objects)
      in case parts of
           [] \<Rightarrow> ''something''
         | [p] \<Rightarrow> p
         | _ \<Rightarrow> join '', '' (butlast parts) @ '' and '' @ last parts)"

definition ident :: "event \<Rightarrow> string" where
  "ident e =
     (if ev_SubLabel e \<noteq> [] then ev_SubLabel e
      else if ev_Plate e \<noteq> [] then ''plate '' @ ev_Plate e else [])"

definition humanize :: "string \<Rightarrow> string \<Rightarrow> string" where
  "humanize model cls =
     (let c = trim ''_ '' (trim_prefix cls model)
      in replace_all CHR ''_'' CHR '' '' (if c = [] then cls else c))"

section \<open>Describe\<close>

definition describe_sighting :: "event \<Rightarrow> string" where
  "describe_sighting e =
     ''a '' @ ev_Label e @ '' sighted'' @
       (if ev_Zones e \<noteq> [] then '' '' @ at_place (hd (ev_Zones e))
        else if ev_Camera e \<noteq> [] then '' ('' @ ev_Camera e @ '')'' else [])"

definition describe_state :: "event \<Rightarrow> string" where
  "describe_state e =
     (let d = time_sub (ev_EndedAt e) (ev_StartedAt e)
      in replace_all CHR ''_'' CHR '' '' (ev_Label e) @ '': '' @ humanize (ev_Label e) (ev_SubLabel e)
         @ (if 0 < d then '' for '' @ dur_string (dur_round d Minute) else []))"

definition describe_presence :: "event \<Rightarrow> string" where
  "describe_presence e =
     (let named = (ev_Zones e \<noteq> [] \<and> place (hd (ev_Zones e)) \<noteq> ev_Label e @ ''s'');
          here = (if named then '' '' @ at_place (hd (ev_Zones e))
                  else if ev_Camera e \<noteq> [] then '' ('' @ ev_Camera e @ '')'' else []);
          who = ''A '' @ ev_Label e @ (if ident e \<noteq> [] then '' ('' @ ident e @ '')'' else []);
          n = object_count (ev_Objects e) (ev_Label e)
      in if ev_Kind e = KindArrival then
           who @ '' arrived'' @ here @ (if 1 < n then '' ('' @ itoa n @ '' present)'' else [])
         else
           who @ '' left'' @ (if named then '' the '' @ place (hd (ev_Zones e)) else here)
           @ (if n = 0 then '' (empty now)'' else if n = 1 then '' (1 remains)'' else '' ('' @ itoa n @ '' remain)''))"

definition describe_other :: "event \<Rightarrow> string" where
  "describe_other e =
     (let notes = (if ev_SubLabel e \<noteq> [] then [ev_SubLabel e] else [])
            @ (if ev_Plate e \<noteq> [] then [''plate '' @ ev_Plate e] else [])
      in ev_Label e @ (if notes \<noteq> [] then '' ('' @ join ''; '' notes @ '')'' else [])
         @ (if ev_Zones e \<noteq> [] then '' in '' @ join '', '' (ev_Zones e) else []))"

definition describe_activity :: "event \<Rightarrow> string" where
  "describe_activity e =
     subject (ev_Objects e) @
     (case ev_Path e of
        [] \<Rightarrow> '' seen''
      | [z] \<Rightarrow> '' '' @ at_place z
      | z # y # zs \<Rightarrow>
          '' started '' @ at_place z @ '', moved to the '' @ place y
          @ concat (map (\<lambda>x. '', then the '' @ place x) zs)) @
     (if running e then []
      else '' ('' @ dur_string (dur_round (time_sub (ev_EndedAt e) (ev_StartedAt e)) Second) @ '')'')"

definition describe :: "event \<Rightarrow> string" where
  "describe e = capitalize
     (case ev_Kind e of
        KindSighting \<Rightarrow> describe_sighting e
      | KindState \<Rightarrow> describe_state e
      | KindArrival \<Rightarrow> describe_presence e
      | KindDeparture \<Rightarrow> describe_presence e
      | KindActivity \<Rightarrow> describe_activity e
      | _ \<Rightarrow> describe_other e)"

section \<open>The sentence depends on the event alone\<close>

lemma sorted_labels_cong:
  assumes "mset m = mset m'"
  shows "sorted_labels m = sorted_labels m'"
proof -
  have "mset (map fst (filter (\<lambda>(l, n). 0 < n) m)) = mset (map fst (filter (\<lambda>(l, n). 0 < n) m'))"
    using assms by (simp add: mset_filter)
  then have labels: "mset (filter P (map fst (filter (\<lambda>(l, n). 0 < n) m)))
      = mset (filter P (map fst (filter (\<lambda>(l, n). 0 < n) m')))" for P
    by (simp only: mset_filter)
  have same: "filter (\<lambda>l. l = x) xs = replicate (count (mset xs) x) x" for x :: string and xs
    by (induction xs) auto
  have "sort (filter (\<lambda>l. l \<noteq> ''person'') (map fst (filter (\<lambda>(l, n). 0 < n) m)))
      = sort (filter (\<lambda>l. l \<noteq> ''person'') (map fst (filter (\<lambda>(l, n). 0 < n) m')))"
    using labels by (intro properties_for_sort) simp_all
  moreover have "filter (\<lambda>l. l = ''person'') (map fst (filter (\<lambda>(l, n). 0 < n) m))
      = filter (\<lambda>l. l = ''person'') (map fst (filter (\<lambda>(l, n). 0 < n) m'))"
    unfolding same using labels [of "\<lambda>_. True"] by simp
  ultimately show ?thesis by (simp add: sorted_labels_def Let_def)
qed

lemma object_count_cong: "gm_wf m \<Longrightarrow> mset m = mset m' \<Longrightarrow> object_count m = object_count m'"
proof
  fix l assume wf: "gm_wf m" and eq: "mset m = mset m'"
  then have "gm_wf m'" by (metis distinct_map mset_eq_imp_distinct_iff mset_eq_setD)
  with wf eq have "gm_get m l = gm_get m' l" by (metis gm_in_set mset_eq_setD not_None_eq)
  then show "object_count m l = object_count m' l" by (simp add: object_count_def)
qed

text \<open>
  Further. An event has one sentence. Describe gives the same words whatever order the run-time keeps
  or ranges the map of object counts in.
\<close>
theorem describe_once:
  assumes "gm_wf (ev_Objects e)" and "mset (ev_Objects e) = mset objects"
  shows "describe (e\<lparr>ev_Objects := objects\<rparr>) = describe e"
proof -
  have "subject objects = subject (ev_Objects e)"
    using sorted_labels_cong [OF assms(2)] object_count_cong [OF assms] by (simp add: subject_def)
  moreover have "object_count objects = object_count (ev_Objects e)" using object_count_cong [OF assms] by simp
  ultimately show ?thesis
    by (simp add: describe_def describe_sighting_def describe_state_def describe_presence_def describe_activity_def
        describe_other_def ident_def running_def split: kind.split)
qed

theorem describe_once_witness:
  "describe (zero_event\<lparr>ev_Kind := KindActivity, ev_Objects := [(''dog'', 1), (''person'', 2)]\<rparr>)
    = describe (zero_event\<lparr>ev_Kind := KindActivity, ev_Objects := [(''person'', 2), (''dog'', 1)]\<rparr>)"
  using describe_once [of "zero_event\<lparr>ev_Kind := KindActivity, ev_Objects := [(''person'', 2), (''dog'', 1)]\<rparr>"
      "[(''dog'', 1), (''person'', 2)]"] by simp

text \<open>
  The first byte is not the first letter: a sentence that starts with a letter beyond ASCII starts
  with the replacement character instead, followed by what is left of the letter.
\<close>

lemma capitalize_breaks:
  "capitalize (CHR 0xC3 # CHR 0xA9 # s) = [CHR 0xEF, CHR 0xBF, CHR 0xBD, CHR 0xA9] @ s"
  by (simp add: capitalize_def to_upper_byte_def)

end
