(* ===== verification/House.thy ===== *)
theory House
  imports Warm Describe Go_Net Occupancy States
begin

text \<open>
  The page in the house (\<open>internal/house/house.go\<close>): who may see it, the list of the last hours with
  the engine's verdicts, and the page of one event.

  A time is shown as \<open>face layout t\<close>: what \<open>t.In(loc).Format(layout)\<close> gives in the household's zone, whose
  rules are data.  The values the templates are executed with are the result; the templates are
  text.  The cache, the links and the store are those of the service.
\<close>

section \<open>Who is calling\<close>

record house =
  hs_Allow :: "ip_net list"
  hs_Proxies :: "ip_net list"
  hs_DisplayName :: string
  hs_Version :: string
  hs_PR :: string
  hs_Built :: string
  hs_Location :: "string option"

text \<open>The name of the zone; no zone is UTC.\<close>

definition loc :: "house \<Rightarrow> string" where
  "loc h = (case hs_Location h of None \<Rightarrow> ''UTC'' | Some l \<Rightarrow> l)"

record house_request =
  hr_RemoteAddr :: string
  hr_Forwarded :: "string list"
  hr_Method :: string
  hr_Path :: string

definition in_any :: "ip \<Rightarrow> ip_net list \<Rightarrow> bool" where
  "in_any x nets \<longleftrightarrow> (\<exists>n \<in> set nets. net_contains n x)"

text \<open>The walk along the chain from the right: None is nobody, Some None that only proxies are in it.\<close>

fun walk_chain :: "ip_net list \<Rightarrow> string list \<Rightarrow> ip option option" where
  "walk_chain proxies [] = Some None"
| "walk_chain proxies (v # vs) =
     (case parse_ip (trim_space v) of
        None \<Rightarrow> None
      | Some x \<Rightarrow> if in_any x proxies then walk_chain proxies vs else Some (Some x))"

definition forwarded_chain :: "string list \<Rightarrow> string list" where
  "forwarded_chain vs = concat (map (split_on CHR '','') vs)"

definition caller :: "house \<Rightarrow> house_request \<Rightarrow> ip option" where
  "caller h r =
     (let host = (case split_host_port (hr_RemoteAddr r) of None \<Rightarrow> hr_RemoteAddr r | Some (a, port) \<Rightarrow> a)
      in case parse_ip host of
           None \<Rightarrow> None
         | Some peer \<Rightarrow>
             if \<not> in_any peer (hs_Proxies h) then Some peer
             else (case walk_chain (hs_Proxies h) (rev (forwarded_chain (hr_Forwarded r))) of
                     None \<Rightarrow> None
                   | Some None \<Rightarrow> Some peer
                   | Some (Some x) \<Rightarrow> Some x))"

definition allowed :: "house \<Rightarrow> house_request \<Rightarrow> bool" where
  "allowed h r =
     (if hs_Allow h = [] then False
      else case caller h r of None \<Rightarrow> False | Some x \<Rightarrow> in_any x (hs_Allow h))"

text \<open>\<open>ServeHTTP\<close> up to the page.\<close>

datatype house_route = HNotFound | HAdmin string | HMethod | HEvent string | HStitch string | HPage

definition house_route :: "house \<Rightarrow> house_request \<Rightarrow> house_route" where
  "house_route h r =
     (if \<not> allowed h r then HNotFound
      else case cut_prefix (hr_Path r) ''/house/admin'' of
        Some rest \<Rightarrow> HAdmin rest
      | None \<Rightarrow>
          if hr_Method r \<noteq> ''GET'' \<and> hr_Method r \<noteq> ''HEAD'' then HMethod
          else (case cut_prefix (hr_Path r) ''/house/event/'' of
            Some i \<Rightarrow> HEvent i
          | None \<Rightarrow>
              (case cut_prefix (hr_Path r) ''/house/stitch/'' of Some i \<Rightarrow> HStitch i | None \<Rightarrow> HPage)))"

section \<open>The badge, the window, the counts\<close>

record build_badge =
  bb_Short :: string
  bb_URL :: string
  bb_PR :: string
  bb_PRURL :: string
  bb_Built :: string

definition badge :: "house \<Rightarrow> build_badge" where
  "badge h =
     \<lparr>bb_Short = (if length (hs_Version h) = 40 then take 9 (hs_Version h) else hs_Version h),
      bb_URL = (if length (hs_Version h) = 40
        then ''https://github.com/jeffbstewart/curtilage/commit/'' @ hs_Version h else []),
      bb_PR = hs_PR h,
      bb_PRURL = (if hs_PR h \<noteq> [] then ''https://github.com/jeffbstewart/curtilage/pull/'' @ hs_PR h else []),
      bb_Built = hs_Built h\<rparr>"

abbreviation (input) DefaultWindow :: duration where "DefaultWindow \<equiv> 24 * Hour"

text \<open>The product with an hour is one of 64 bits.\<close>

definition house_window :: "string \<Rightarrow> duration \<Rightarrow> duration" where
  "house_window hours retention =
     (let window = (if hours = [] then DefaultWindow
            else case parse_int hours of
              None \<Rightarrow> DefaultWindow
            | Some n \<Rightarrow> if 0 < n then int64 (n * Hour) else DefaultWindow)
      in if retention < window then retention else window)"

record count_line =
  cl_Name :: string
  cl_N :: int

definition count_lines :: "(string, int) gomap \<Rightarrow> count_line list" where
  "count_lines m = sort_key (\<lambda>c. (- cl_N c, cl_Name c)) (map (\<lambda>(k, v). \<lparr>cl_Name = k, cl_N = v\<rparr>) m)"

section \<open>One row\<close>

record house_row =
  rw_ID :: string
  rw_When :: string
  rw_Camera :: string
  rw_Label :: string
  rw_Zones :: string
  rw_Duration :: string
  rw_Verdict :: string
  rw_Audience :: string
  rw_Clip :: string
  rw_Thumb :: string
  rw_Live :: bool
  rw_Cached :: bool
  rw_Stitched :: bool
  rw_SourceID :: string
  rw_What :: string
  rw_History :: "string list"

text \<open>The earlier wordings, newest first: the loop over the revisions before the last, from the newest.\<close>

fun row_history :: "string \<Rightarrow> (string \<times> string) list \<Rightarrow> string list \<Rightarrow> string list" where
  "row_history prev [] acc = acc"
| "row_history prev ((wh, txt) # rs) acc =
     (if txt = prev then row_history prev rs (if acc = [] then [] else butlast acc @ [wh @ ''  '' @ txt])
      else row_history txt rs (acc @ [wh @ ''  '' @ txt]))"

definition worded :: "(string \<Rightarrow> time \<Rightarrow> string) \<Rightarrow> revision list \<Rightarrow> (string \<times> string) list" where
  "worded face hist = map (\<lambda>r. (face ''15:04:05'' (rv_At r), describe (rv_Event r))) hist"

definition shown_end :: "event \<Rightarrow> time \<Rightarrow> time" where
  "shown_end e now = (if is_zero (ev_EndedAt e) then now else ev_EndedAt e)"

definition house_row :: "(string \<Rightarrow> time \<Rightarrow> string) \<Rightarrow> store \<Rightarrow> time \<Rightarrow> event \<Rightarrow> media_server option
    \<Rightarrow> house_row \<times> media_server option" where
  "house_row face st now e api =
     (let what = describe e;
          activity = (ev_Kind e = KindActivity);
          (thumb, api1) =
            (case api of
               None \<Rightarrow> ([], api)
             | Some sv \<Rightarrow>
                 if ev_HasSnapshot e \<and> sv_keys sv \<noteq> None then
                   let (l, sv1) = link e MEDIA_SNAPSHOT now sv in (case l of None \<Rightarrow> [] | Some s \<Rightarrow> s, Some sv1)
                 else ([], api))
      in (\<lparr>rw_ID = ev_ID e,
           rw_When = face ''Mon 15:04:05'' (ev_StartedAt e),
           rw_Camera = (if activity then join '', '' (ev_Cameras e) else ev_Camera e),
           rw_Label = (if activity then itoa (int (length (ev_SourceIDs e))) @ '' objects''
                       else ev_Label e @ (if ev_SubLabel e \<noteq> [] then '' ('' @ ev_SubLabel e @ '')'' else [])),
           rw_Zones = join '', '' (ev_Zones e),
           rw_Duration = dur_string (dur_round (time_sub (shown_end e now) (ev_StartedAt e)) Second),
           rw_Verdict = kind_string (ev_Kind e),
           rw_Audience = event_audience e,
           rw_Clip = clip_string (ev_Clip e),
           rw_Thumb = thumb,
           rw_Live = running e,
           rw_Cached = (case api1 of None \<Rightarrow> False | Some sv \<Rightarrow> clip_cached e now sv),
           rw_Stitched = (case api1 of None \<Rightarrow> False | Some sv \<Rightarrow> stitch_cached e ''lo'' (sv_cache sv)),
           rw_SourceID = ev_SourceID e,
           rw_What = what,
           rw_History = (if activity
             then row_history what (rev (butlast (worded face (store_history (ev_ID e) st)))) [] else [])\<rparr>,
          api1))"

section \<open>The page\<close>

record house_tally =
  ht_Total :: int
  ht_Live :: int
  ht_Hidden :: int
  ht_Audiences :: "(string, int) gomap"
  ht_Verdicts :: "(string, int) gomap"
  ht_Rows :: "house_row list"
  ht_api :: "media_server option"

definition house_hides :: "bool \<Rightarrow> event \<Rightarrow> bool" where
  "house_hides all_events e \<longleftrightarrow>
     (ev_Kind e = KindDetection \<and> ev_Zones e = []) \<or> (\<not> all_events \<and> \<not> event_sent e)"

definition tally_event :: "(string \<Rightarrow> time \<Rightarrow> string) \<Rightarrow> store \<Rightarrow> time \<Rightarrow> bool \<Rightarrow> event \<Rightarrow> house_tally \<Rightarrow> house_tally" where
  "tally_event face st now all_events e p =
     (let p1 = p\<lparr>ht_Total := ht_Total p + 1, ht_Live := ht_Live p + (if running e then 1 else 0),
                 ht_Audiences := bump (event_audience e) (ht_Audiences p),
                 ht_Verdicts := bump (kind_string (ev_Kind e)) (ht_Verdicts p)\<rparr>
      in if house_hides all_events e then p1\<lparr>ht_Hidden := ht_Hidden p + 1\<rparr>
         else let (rw, api) = house_row face st now e (ht_api p)
              in p1\<lparr>ht_Rows := ht_Rows p @ [rw], ht_api := api\<rparr>)"

text \<open>The loop over one page of events, and whether it reached one from before the window.\<close>

fun tally_events :: "(string \<Rightarrow> time \<Rightarrow> string) \<Rightarrow> store \<Rightarrow> time \<Rightarrow> time \<Rightarrow> bool \<Rightarrow> event list \<Rightarrow> house_tally
    \<Rightarrow> house_tally \<times> bool" where
  "tally_events face st now since all_events [] p = (p, False)"
| "tally_events face st now since all_events (e # es) p =
     (if ev_StartedAt e < since then (p, True)
      else tally_events face st now since all_events es (tally_event face st now all_events e p))"

text \<open>The loop over the pages; None would be a loop that does not end.\<close>

partial_function (option) tally_pages ::
  "(string \<Rightarrow> time \<Rightarrow> string) \<Rightarrow> store \<Rightarrow> time \<Rightarrow> time \<Rightarrow> bool \<Rightarrow> string \<Rightarrow> house_tally \<Rightarrow> house_tally option" where
  "tally_pages face st now since all_events token p =
     (case store_list [] 500 token st of
        Inl e \<Rightarrow> Some p
      | Inr (events, next_token) \<Rightarrow>
          if events = [] then Some p
          else (case tally_events face st now since all_events events p of
            (p1, stop) \<Rightarrow> if stop then Some p1 else tally_pages face st now since all_events next_token p1))"

record presence_line =
  pl_Zone :: string
  pl_State :: string

definition presence_line :: "(string \<Rightarrow> time \<Rightarrow> string) \<Rightarrow> zone_state \<Rightarrow> presence_line" where
  "presence_line face z =
     \<lparr>pl_Zone = replace_all CHR ''_'' CHR '' '' (zs_Zone z),
      pl_State =
        (if zs_Count z = 0 \<and> is_zero (zs_LastSeen z) then ''empty''
         else if zs_Count z = 0 then
           ''empty (last '' @ zs_Label z @ '' seen '' @ face ''Mon 15:04'' (zs_LastSeen z) @ '')''
         else itoa (zs_Count z) @ '' '' @ zs_Label z @ ''(s) since '' @ face ''Mon 15:04'' (zs_Since z)
           @ '', last seen '' @ face ''Mon 15:04'' (zs_LastSeen z))\<rparr>"

definition state_line :: "(string \<Rightarrow> time \<Rightarrow> string) \<Rightarrow> model_state \<Rightarrow> presence_line" where
  "state_line face m =
     \<lparr>pl_Zone = replace_all CHR ''_'' CHR '' '' (ms_Model m),
      pl_State =
        (if ms_Held m = [] then ''no verdict yet''
         else humanize (ms_Model m) (ms_Held m) @ '' since '' @ face ''Mon 15:04'' (ms_HeldSince m)
           @ (if ms_Raw m \<noteq> ms_Held m
              then '' (unproven: '' @ humanize (ms_Model m) (ms_Raw m) @ '' since '' @ face ''15:04'' (ms_RawSince m) @ '')''
              else []))\<rparr>"

record house_page =
  hp_DisplayName :: string
  hp_Hours :: int
  hp_All :: bool
  hp_Since :: string
  hp_Now :: string
  hp_Zone :: string
  hp_Rows :: "house_row list"
  hp_Total :: int
  hp_Hidden :: int
  hp_Live :: int
  hp_ByAudience :: "count_line list"
  hp_ByVerdict :: "count_line list"
  hp_Badge :: build_badge
  hp_Presence :: "presence_line list"
  hp_StateLines :: "presence_line list"

abbreviation no_tally :: "media_server option \<Rightarrow> house_tally" where
  "no_tally api \<equiv> \<lparr>ht_Total = 0, ht_Live = 0, ht_Hidden = 0, ht_Audiences = [], ht_Verdicts = [],
     ht_Rows = [], ht_api = api\<rparr>"

abbreviation (input) RFC1123 :: string where "RFC1123 \<equiv> ''Mon, 02 Jan 2006 15:04:05 MST''"

definition serve_page :: "house \<Rightarrow> (string \<Rightarrow> time \<Rightarrow> string) \<Rightarrow> store \<Rightarrow> time \<Rightarrow> string \<Rightarrow> string
    \<Rightarrow> occupancy option \<Rightarrow> states option \<Rightarrow> media_server option \<Rightarrow> (house_page \<times> media_server option) option" where
  "serve_page h face st now hours asked oc ss api =
     (let window = house_window hours (ss_retention st); since = now + - window; all_events = (asked = ''all'')
      in case tally_pages face st now since all_events [] (no_tally api) of
           None \<Rightarrow> None
         | Some p \<Rightarrow> Some
             (\<lparr>hp_DisplayName = hs_DisplayName h, hp_Hours = sgn window * (\<bar>window\<bar> div Hour), hp_All = all_events,
               hp_Since = face RFC1123 since, hp_Now = face RFC1123 now, hp_Zone = loc h,
               hp_Rows = ht_Rows p, hp_Total = ht_Total p, hp_Hidden = ht_Hidden p, hp_Live = ht_Live p,
               hp_ByAudience = count_lines (ht_Audiences p), hp_ByVerdict = count_lines (ht_Verdicts p),
               hp_Badge = badge h,
               hp_Presence = (case oc of None \<Rightarrow> [] | Some oc \<Rightarrow> map (presence_line face) (presence oc)),
               hp_StateLines = (case ss of None \<Rightarrow> [] | Some s \<Rightarrow> map (state_line face) (states_snapshot s))\<rparr>,
              ht_api p))"

section \<open>The page of one event\<close>

text \<open>The wordings, oldest first: each revision that reads differently from the one before.\<close>

fun event_history :: "string \<Rightarrow> (string \<times> string) list \<Rightarrow> string list" where
  "event_history prev [] = []"
| "event_history prev ((wh, txt) # rs) =
     (if txt \<noteq> prev then (wh @ ''  '' @ txt) # event_history txt rs else event_history prev rs)"

record span_line =
  sl_C :: string
  sl_S :: f64
  sl_E :: f64

definition sighting_lines :: "event \<Rightarrow> time \<Rightarrow> time \<Rightarrow> span_line list" where
  "sighting_lines e till clipStart =
     List.map_filter (\<lambda>sp. let se = (if is_zero (sp_End sp) then till else sp_End sp)
        in if \<not> clipStart < se then None
           else Some \<lparr>sl_C = sp_Camera sp, sl_S = dur_seconds (time_sub (sp_Start sp) clipStart),
                      sl_E = dur_seconds (time_sub se clipStart)\<rparr>) (ev_Spans e)"

definition event_spans :: "event \<Rightarrow> time \<Rightarrow> time \<Rightarrow> string list \<Rightarrow> span_line list" where
  "event_spans e till clipStart cams =
     (let spans = sighting_lines e till clipStart
      in if spans = [] then
           map (\<lambda>c. \<lparr>sl_C = c, sl_S = 0, sl_E = dur_seconds (time_sub (till + 5 * Second) clipStart)\<rparr>) cams
         else spans)"

record event_page =
  ep_ID :: string
  ep_What :: string
  ep_When :: string
  ep_Duration :: string
  ep_Live :: bool
  ep_StitchLo :: bool
  ep_StitchHi :: bool
  ep_Stitching :: bool
  ep_Panes :: "(string \<times> string) list"
  ep_History :: "string list"
  ep_Spans :: "span_line list"
  ep_EDL :: "segment list"
  ep_Window :: f64

text \<open>The loop over the cameras: a pane for each, with a link of its own.\<close>

fun event_panes :: "event \<Rightarrow> time \<Rightarrow> string list \<Rightarrow> media_server \<Rightarrow> (string \<times> string) list \<times> media_server" where
  "event_panes e now [] sv = ([], sv)"
| "event_panes e now (c # cs) sv =
     (let (l, sv1) = camera_link e MEDIA_CLIP c now sv; (panes, sv2) = event_panes e now cs sv1
      in (case l of None \<Rightarrow> panes | Some s \<Rightarrow> (c, s) # panes, sv2))"

definition page_cameras :: "event \<Rightarrow> string list" where
  "page_cameras e = (if ev_Cameras e = [] then [ev_Camera e] else ev_Cameras e)"

text \<open>
  \<open>event\<close>, None for the page not found.  \<open>dims\<close> is what DetectDims answers, \<open>pick\<close> the orders of Build's
  ranges; the stitch queues are part of what it changes.
\<close>

definition serve_event :: "(string \<Rightarrow> time \<Rightarrow> string) \<Rightarrow> store \<Rightarrow> time \<Rightarrow> detect_dims \<Rightarrow> (time \<Rightarrow> string list) \<Rightarrow> string
    \<Rightarrow> media_server option \<times> stitch_queues option \<Rightarrow> event_page option \<times> media_server option \<times> stitch_queues option" where
  "serve_event face st now dims pick i = (\<lambda>(api, qs).
     (case store_get i st of
        None \<Rightarrow> (None, api, qs)
      | Some e \<Rightarrow>
          let cams = page_cameras e;
              cache = Option.bind api sv_cache;
              till = shown_end e now;
              clipStart = ev_StartedAt e + - (5 * Second);
              lo = (\<not> running e \<and> stitch_cached e ''lo'' cache);
              (panes, api1) = (case api of
                  None \<Rightarrow> ([], api)
                | Some sv \<Rightarrow> if sv_keys sv = None then ([], api)
                    else let (ps, sv1) = event_panes e now cams sv in (ps, Some sv1));
              edl = (if \<not> running e \<and> ev_Boxes e \<noteq> [] \<and> api \<noteq> None
                     then build_edl pick e clipStart (till + 5 * Second) dims else []);
              stitching = (edl \<noteq> [] \<and> \<not> lo \<and> cache \<noteq> None)
          in (Some \<lparr>ep_ID = ev_ID e, ep_What = describe e,
                ep_When = face ''Mon Jan 2 15:04:05'' (ev_StartedAt e),
                ep_Duration = dur_string (dur_round (time_sub till (ev_StartedAt e)) Second),
                ep_Live = running e, ep_StitchLo = lo,
                ep_StitchHi = (\<not> running e \<and> stitch_cached e ''hi'' cache), ep_Stitching = stitching,
                ep_Panes = panes, ep_History = event_history [] (worded face (store_history (ev_ID e) st)),
                ep_Spans = event_spans e till clipStart cams, ep_EDL = edl,
                ep_Window = (if running e then 0
                  else dur_seconds (time_sub (till + 5 * Second) (ev_StartedAt e + - (5 * Second))))\<rparr>,
              api1, if stitching then request_stitch e ''lo'' qs else qs)))"

text \<open>\<open>stitch\<close>, up to the opening of the file: its path, or None for not found.\<close>

definition serve_stitch :: "store \<Rightarrow> string \<Rightarrow> string \<Rightarrow> media_server option \<times> stitch_queues option
    \<Rightarrow> string option \<times> media_server option \<times> stitch_queues option" where
  "serve_stitch st i v = (\<lambda>(api, qs).
     (case (store_get i st, api) of
        (Some e, Some sv) \<Rightarrow>
          if running e then (None, api, qs)
          else let variant = (if v = ''hi'' then ''hi'' else ''lo'');
                   (p, c) = stitch_path e variant (sv_cache sv);
                   api1 = Some (sv\<lparr>sv_cache := c\<rparr>)
               in (case p of
                     None \<Rightarrow> (None, api1, request_stitch e variant qs)
                   | Some path \<Rightarrow> (Some path, api1, qs))
      | _ \<Rightarrow> (None, api, qs)))"

section \<open>Nobody forges an address\<close>

lemma walk_chain_append:
  "walk_chain proxies (xs @ ys) =
    (case walk_chain proxies xs of None \<Rightarrow> None | Some None \<Rightarrow> walk_chain proxies ys | Some (Some x) \<Rightarrow> Some (Some x))"
  by (induction xs) (auto split: option.splits)

lemma walk_chain_proxies:
  "(\<And>t. t \<in> set ts \<Longrightarrow> \<exists>y. parse_ip (trim_space t) = Some y \<and> in_any y proxies) \<Longrightarrow> walk_chain proxies ts = Some None"
proof (induction ts)
  case (Cons t ts)
  obtain y where "parse_ip (trim_space t) = Some y" "in_any y proxies" using Cons.prems [of t] by auto
  with Cons.IH Cons.prems show ?case by simp
qed simp

definition peer_of :: "house_request \<Rightarrow> ip option" where
  "peer_of r = parse_ip (case split_host_port (hr_RemoteAddr r) of None \<Rightarrow> hr_RemoteAddr r | Some (a, port) \<Rightarrow> a)"

lemma caller_peer:
  "caller h r = (case peer_of r of
     None \<Rightarrow> None
   | Some peer \<Rightarrow>
       if \<not> in_any peer (hs_Proxies h) then Some peer
       else (case walk_chain (hs_Proxies h) (rev (forwarded_chain (hr_Forwarded r))) of
               None \<Rightarrow> None | Some None \<Rightarrow> Some peer | Some (Some x) \<Rightarrow> Some x))"
  by (simp add: caller_def peer_of_def Let_def)

text \<open>
  C19. A client cannot forge its way in. Of a request whose peer has no address there is no caller. When the
  direct peer is not a trusted proxy, the caller is the peer, whatever headers are sent. When it
  is one, take the addresses of all the forwarded lines in order: if all of them are trusted
  proxies, or there are none, the caller is the proxy itself; otherwise the caller is the last that is not
  a trusted proxy, and nothing in front of it counts, not even that there is nothing; if that
  one is not an address (an empty header, say) there is no caller. And a page of any kind
  is served exactly to a caller inside the allowed networks.
\<close>
theorem caller_unforgeable:
  fixes h :: house and r :: house_request
  defines "trusted \<equiv> \<lambda>t. \<exists>y. parse_ip (trim_space t) = Some y \<and> in_any y (hs_Proxies h)"
    and "chain \<equiv> concat (map (split_on CHR '','') (hr_Forwarded r))"
  shows "(peer_of r = None \<longrightarrow> caller h r = None)
    \<and> (\<forall>peer. peer_of r = Some peer \<longrightarrow>
        (\<not> in_any peer (hs_Proxies h) \<longrightarrow> caller h r = Some peer)
        \<and> (in_any peer (hs_Proxies h) \<and> (\<forall>t \<in> set chain. trusted t) \<longrightarrow> caller h r = Some peer)
        \<and> (\<forall>front a ts. in_any peer (hs_Proxies h) \<and> chain = front @ a # ts \<and> \<not> trusted a \<and> (\<forall>t \<in> set ts. trusted t)
             \<longrightarrow> caller h r = parse_ip (trim_space a)))
    \<and> (house_route h r \<noteq> HNotFound \<longleftrightarrow> hs_Allow h \<noteq> [] \<and> (\<exists>x. caller h r = Some x \<and> in_any x (hs_Allow h)))"
proof -
  have chain: "forwarded_chain (hr_Forwarded r) = chain" by (simp add: chain_def forwarded_chain_def)
  have skip: "walk_chain (hs_Proxies h) (rev ts @ xs) = walk_chain (hs_Proxies h) xs" if "\<forall>t \<in> set ts. trusted t" for ts xs
    using walk_chain_proxies [of "rev ts" "hs_Proxies h"] that by (simp add: walk_chain_append trusted_def)
  have stop: "walk_chain (hs_Proxies h) (a # xs) = map_option Some (parse_ip (trim_space a))" if "\<not> trusted a" for a xs
    using that by (auto simp: trusted_def split: option.split)
  have all: "caller h r = Some peer" if "peer_of r = Some peer" "\<forall>t \<in> set chain. trusted t" for peer
    using skip [OF that(2), of "[]"] by (simp add: caller_peer that(1) chain)
  have some: "caller h r = parse_ip (trim_space a)" if "peer_of r = Some peer" "in_any peer (hs_Proxies h)"
    "chain = front @ a # ts" "\<not> trusted a" "\<forall>t \<in> set ts. trusted t" for peer front a ts
    using skip [OF that(5), of "a # rev front"] stop [OF that(4), of "rev front"]
    by (simp add: caller_peer that(1,2,3) chain split: option.split)
  have served: "house_route h r \<noteq> HNotFound \<longleftrightarrow> hs_Allow h \<noteq> [] \<and> (\<exists>x. caller h r = Some x \<and> in_any x (hs_Allow h))"
    by (simp add: house_route_def allowed_def split: option.split)
  show ?thesis
  proof (intro conjI allI impI)
    fix peer front a ts assume "peer_of r = Some peer"
    then show "\<not> in_any peer (hs_Proxies h) \<Longrightarrow> caller h r = Some peer" by (simp add: caller_peer)
    from \<open>peer_of r = Some peer\<close> show "in_any peer (hs_Proxies h) \<and> (\<forall>t \<in> set chain. trusted t) \<Longrightarrow> caller h r = Some peer"
      using all by simp
    assume "in_any peer (hs_Proxies h) \<and> chain = front @ a # ts \<and> \<not> trusted a \<and> (\<forall>t \<in> set ts. trusted t)"
    with \<open>peer_of r = Some peer\<close> show "caller h r = parse_ip (trim_space a)" by (intro some) (elim conjE; assumption)+
  qed (simp_all only: served, simp add: caller_peer)
qed

definition small_house :: house where
  "small_house = \<lparr>hs_Allow = [\<lparr>net_IP = [192, 168, 1, 0], net_Mask = [255, 255, 255, 0]\<rparr>],
     hs_Proxies = [\<lparr>net_IP = [10, 0, 0, 0], net_Mask = [255, 0, 0, 0]\<rparr>],
     hs_DisplayName = [], hs_Version = [], hs_PR = [], hs_Built = [], hs_Location = None\<rparr>"

definition proxied :: "string list \<Rightarrow> house_request" where
  "proxied vs = \<lparr>hr_RemoteAddr = ''10.0.0.2:4444'', hr_Forwarded = vs, hr_Method = ''GET'', hr_Path = ''/house/''\<rparr>"

lemma caller_unforgeable_witness:
  "caller small_house (proxied [''127.0.0.1'', ''192.168.1.9, 203.0.113.5, 10.0.0.3'']) = Some (v4_prefix @ [203, 0, 113, 5])
    \<and> caller small_house (proxied [''203.0.113.5'']) = Some (v4_prefix @ [203, 0, 113, 5])
    \<and> caller small_house (proxied [[]]) = None
    \<and> caller small_house (proxied []) = Some (v4_prefix @ [10, 0, 0, 2])"
proof -
  have peer: "peer_of (proxied vs) = Some (v4_prefix @ [10, 0, 0, 2])" for vs
  proof -
    have "peer_of (proxied vs) = peer_of (proxied [])" by (simp add: peer_of_def proxied_def cong: option.case_cong)
    moreover have "peer_of (proxied []) = Some (v4_prefix @ [10, 0, 0, 2])" by code_simp
    ultimately show ?thesis by simp
  qed
  have proxy: "in_any (v4_prefix @ [10, 0, 0, 2]) (hs_Proxies small_house)" by code_simp
  have at: "caller small_house (proxied vs) = parse_ip (trim_space a)"
    if "concat (map (split_on CHR '','') vs) = front @ a # ts"
      "\<forall>y. parse_ip (trim_space a) = Some y \<longrightarrow> \<not> in_any y (hs_Proxies small_house)"
      "\<forall>t \<in> set ts. \<exists>y. parse_ip (trim_space t) = Some y \<and> in_any y (hs_Proxies small_house)" for vs front a ts
  proof -
    have "hr_Forwarded (proxied vs) = vs" by (simp add: proxied_def)
    note all = caller_unforgeable [of "proxied vs" small_house, unfolded this]
    note one = conjunct2 [OF all [THEN conjunct2, THEN conjunct1, rule_format, OF peer [of vs]]]
    show ?thesis by (rule one [THEN conjunct2, rule_format]) (use that proxy in blast)
  qed
  have far: "parse_ip (trim_space '' 203.0.113.5'') = Some (v4_prefix @ [203, 0, 113, 5])"
    "parse_ip (trim_space ''203.0.113.5'') = Some (v4_prefix @ [203, 0, 113, 5])"
    "\<not> in_any (v4_prefix @ [203, 0, 113, 5]) (hs_Proxies small_house)" "parse_ip (trim_space []) = None"
    "parse_ip (trim_space '' 10.0.0.3'') = Some (v4_prefix @ [10, 0, 0, 3])"
    "in_any (v4_prefix @ [10, 0, 0, 3]) (hs_Proxies small_house)" by code_simp+
  have "caller small_house (proxied [''127.0.0.1'', ''192.168.1.9, 203.0.113.5, 10.0.0.3'']) = parse_ip (trim_space '' 203.0.113.5'')"
    by (rule at [of _ "[''127.0.0.1'', ''192.168.1.9'']" _ "['' 10.0.0.3'']"]) (simp_all add: far)
  moreover have "caller small_house (proxied [''203.0.113.5'']) = parse_ip (trim_space ''203.0.113.5'')"
    by (rule at [of _ "[]" _ "[]"]) (simp_all add: far)
  moreover have "caller small_house (proxied [[]]) = parse_ip (trim_space [])"
    by (rule at [of _ "[]" _ "[]"]) (simp_all add: far)
  moreover have "caller small_house (proxied []) = Some (v4_prefix @ [10, 0, 0, 2])"
    using caller_unforgeable [of "proxied []" small_house] peer [of "[]"] proxy by (simp add: proxied_def)
  ultimately show ?thesis by (simp only: far)
qed

section \<open>The page counts everything\<close>

lemma tally_events_eq:
  "tally_events face st now since all_events es p =
    (fold (tally_event face st now all_events) (takeWhile (\<lambda>e. since \<le> ev_StartedAt e) es) p,
     \<exists>e \<in> set es. ev_StartedAt e < since)"
  by (induction es arbitrary: p) auto

lemma takeWhile_newest_first:
  "newest_first xs \<Longrightarrow> takeWhile (\<lambda>e. since \<le> ev_StartedAt (en_ev e)) xs = filter (\<lambda>e. since \<le> ev_StartedAt (en_ev e)) xs"
proof (induction xs)
  case (Cons x xs)
  then have "newest_first xs" and "\<forall>y \<in> set xs. ev_StartedAt (en_ev y) \<le> ev_StartedAt (en_ev x)"
    by (auto simp: newest_first_def key_def)
  note prems = this
  show ?case
  proof (cases "since \<le> ev_StartedAt (en_ev x)")
    case True
    with prems Cons.IH show ?thesis by simp
  next
    case False
    then have "filter (\<lambda>e. since \<le> ev_StartedAt (en_ev e)) xs = []"
      using prems(2) by (force simp: filter_empty_conv)
    with False show ?thesis by simp
  qed
qed simp

lemma tally_pages_left:
  assumes "store_inv st" and "listable st"
    and "token = [] \<and> left = ss_ordered st
      \<or> (\<exists>c. token \<noteq> [] \<and> parse_cursor token = Inr c \<and> left = filter (\<lambda>e. older e c) (ss_ordered st))"
  shows "tally_pages face st now since all_events token p
    = Some (fold (tally_event face st now all_events) (takeWhile (\<lambda>e. since \<le> ev_StartedAt e) (map en_ev left)) p)"
  using assms(3)
proof (induction "length left" arbitrary: token left p rule: less_induct)
  case less
  have all: "wanted [] xs = xs" for xs by (simp add: wanted_def camera_set_def wants_def)
  obtain after where list: "store_list [] 500 token st = Inr (list_page (camera_set []) 500 after st)"
    and rest: "(case after of None \<Rightarrow> wanted [] (ss_ordered st)
               | Some c \<Rightarrow> filter (\<lambda>e. older e c) (wanted [] (ss_ordered st))) = left"
    using less.prems by (auto simp: store_list_def all)
  obtain pg token' where page: "list_page (camera_set []) 500 after st = (pg, token')" by fastforce
  have step: "pg = map en_ev (take 500 left)"
    using list_page_step(1) [OF assms(1,2) _ rest page] by simp
  show ?case
  proof (cases "left = []")
    case True
    with step show ?thesis by (subst tally_pages.simps) (simp add: list page)
  next
    case False
    then obtain c where c: "token' \<noteq> []" "parse_cursor token' = Inr c"
      "filter (\<lambda>e. older e c) (ss_ordered st) = drop 500 left"
      using list_page_step(2) [OF assms(1,2) _ rest page] by (auto simp: all)
    have "length (drop 500 left) < length left" using False by simp
    from less.hyps [OF this, of token'] c
    have IH: "tally_pages face st now since all_events token' q
        = Some (fold (tally_event face st now all_events)
            (takeWhile (\<lambda>e. since \<le> ev_StartedAt e) (map en_ev (drop 500 left))) q)" for q by auto
    have "pg \<noteq> []" using step False by simp
    show ?thesis
    proof (cases "\<exists>e \<in> set pg. ev_StartedAt e < since")
      case True
      have "map en_ev left = pg @ map en_ev (drop 500 left)" by (simp add: step flip: map_append)
      moreover have "takeWhile (\<lambda>e. since \<le> ev_StartedAt e) (pg @ zs) = takeWhile (\<lambda>e. since \<le> ev_StartedAt e) pg" for zs
        using True by (metis not_less takeWhile_append1)
      ultimately show ?thesis
        using True \<open>pg \<noteq> []\<close> by (subst tally_pages.simps) (simp add: list page tally_events_eq)
    next
      case False
      have "map en_ev left = pg @ map en_ev (drop 500 left)" by (simp add: step flip: map_append)
      moreover have "takeWhile (\<lambda>e. since \<le> ev_StartedAt e) (pg @ zs) = pg @ takeWhile (\<lambda>e. since \<le> ev_StartedAt e) zs"
        for zs
        using False by (auto simp: not_less intro!: takeWhile_append2)
      moreover have shown: "takeWhile (\<lambda>e. since \<le> ev_StartedAt e) pg = pg"
        using False unfolding takeWhile_eq_all_conv by (simp add: not_less)
      then have "tally_events face st now since all_events pg p = (fold (tally_event face st now all_events) pg p, False)"
        using False unfolding tally_events_eq shown by simp
      ultimately show ?thesis
        using \<open>pg \<noteq> []\<close> by (subst tally_pages.simps) (simp add: list page IH)
    qed
  qed
qed

text \<open>A store with an activity of two revisions.\<close>

definition seen_twice :: store where
  "seen_twice =
     (let e = zero_event\<lparr>ev_ID := ''a'', ev_Kind := KindActivity, ev_StartedAt := unix_epoch + 60 * Second\<rparr>
      in store_apply (unix_epoch + 70 * Second) (Change OpUpdated (e\<lparr>ev_Path := [''porch'']\<rparr>))
          (store_apply (unix_epoch + 61 * Second) (Change OpStarted e) (new_store (336 * Hour))))"

text \<open>What a fold over events adds up to.\<close>

lemma sum_bump: "sum_list (map snd (bump c m)) = sum_list (map snd m) + 1"
proof -
  have "sum_list (map snd (gm_set c v m)) = sum_list (map snd m) + v - (case gm_get m c of None \<Rightarrow> 0 | Some n \<Rightarrow> n)"
    for v :: int
    by (induction m) auto
  then show ?thesis by (simp add: bump_def split: option.split)
qed

definition tallied :: "string \<Rightarrow> (string, int) gomap \<Rightarrow> int" where
  "tallied c m = (case gm_get m c of None \<Rightarrow> 0 | Some n \<Rightarrow> n)"

lemma tallied_bump: "tallied c (bump d m) = tallied c m + (if c = d then 1 else 0)"
  by (simp add: tallied_def bump_def)

lemma bump_wf: "gm_wf m \<Longrightarrow> gm_wf (bump c m)"
  by (simp add: bump_def)

lemma house_row_fields: "rw_ID (fst (house_row face st now e api)) = ev_ID e"
  by (simp add: house_row_def Let_def split_beta)

lemma tally_fold:
  "\<exists>q. fold (tally_event face st now al) es p = q \<and>
     ht_Total q = ht_Total p + int (length es) \<and>
     ht_Live q = ht_Live p + int (length (filter running es)) \<and>
     ht_Hidden q = ht_Hidden p + int (length (filter (house_hides al) es)) \<and>
     map rw_ID (ht_Rows q) = map rw_ID (ht_Rows p) @ map ev_ID (filter (\<lambda>e. \<not> house_hides al e) es) \<and>
     (gm_wf (ht_Audiences p) \<longrightarrow> gm_wf (ht_Audiences q)) \<and> (gm_wf (ht_Verdicts p) \<longrightarrow> gm_wf (ht_Verdicts q)) \<and>
     sum_list (map snd (ht_Audiences q)) = sum_list (map snd (ht_Audiences p)) + int (length es) \<and>
     sum_list (map snd (ht_Verdicts q)) = sum_list (map snd (ht_Verdicts p)) + int (length es) \<and>
     (\<forall>a. tallied a (ht_Audiences q) = tallied a (ht_Audiences p) + int (length (filter (\<lambda>e. event_audience e = a) es)))"
proof (induction es arbitrary: p)
  case (Cons e es)
  define p1 where "p1 = tally_event face st now al e p"
  have p1: "ht_Total p1 = ht_Total p + 1" "ht_Live p1 = ht_Live p + (if running e then 1 else 0)"
    "ht_Hidden p1 = ht_Hidden p + (if house_hides al e then 1 else 0)"
    "map rw_ID (ht_Rows p1) = map rw_ID (ht_Rows p) @ (if house_hides al e then [] else [ev_ID e])"
    "ht_Audiences p1 = bump (event_audience e) (ht_Audiences p)"
    "ht_Verdicts p1 = bump (kind_string (ev_Kind e)) (ht_Verdicts p)"
    by (simp_all add: p1_def tally_event_def Let_def split_beta house_row_fields)
  from Cons.IH [of p1] show ?case
    by (simp add: p1 sum_bump tallied_bump bump_wf flip: p1_def)
qed simp

lemma count_lines_sum: "sum_list (map cl_N (count_lines m)) = sum_list (map snd m)"
proof -
  have "map cl_N (map (\<lambda>(k, v). \<lparr>cl_Name = k, cl_N = v\<rparr>) m) = map snd m" by (simp add: split_beta)
  then have "mset (map cl_N (count_lines m)) = mset (map snd m)"
    unfolding count_lines_def mset_map mset_sort by (metis mset_map)
  then show ?thesis by (metis sum_mset_sum_list)
qed

lemma count_lines_at:
  assumes "gm_wf m" and "c \<in> set (count_lines m)"
  shows "cl_N c = tallied (cl_Name c) m"
proof -
  from assms(2) obtain k v where "(k, v) \<in> set m" "c = \<lparr>cl_Name = k, cl_N = v\<rparr>" by (auto simp: count_lines_def)
  with assms(1) show ?thesis by (simp add: tallied_def)
qed

text \<open>
  C33. The page counts everything and hides only what it says. The loop over the store's pages ends,
  and the summary is of exactly the events that started in the window: how many, how many still
  running, and for each audience how many; the rows are those of them that are not hidden,
  newest first; and hidden and shown together are all.
\<close>
theorem page_counts_all:
  fixes now :: time and hours :: string and st :: store
  assumes "store_inv st" and "listable st"
  defines "es \<equiv> filter (\<lambda>e. now - house_window hours (ss_retention st) \<le> ev_StartedAt e) (map en_ev (ss_ordered st))"
  shows "\<exists>p api'. serve_page h face st now hours asked oc ss api = Some (p, api') \<and>
    hp_Total p = int (length es) \<and> hp_Live p = int (length (filter running es)) \<and>
    map rw_ID (hp_Rows p) = map ev_ID (filter (\<lambda>e. \<not> house_hides (asked = ''all'') e) es) \<and>
    hp_Hidden p + int (length (hp_Rows p)) = hp_Total p \<and>
    sum_list (map cl_N (hp_ByAudience p)) = hp_Total p \<and> sum_list (map cl_N (hp_ByVerdict p)) = hp_Total p \<and>
    (\<forall>c \<in> set (hp_ByAudience p). cl_N c = int (length (filter (\<lambda>e. event_audience e = cl_Name c) es)))"
proof -
  let ?since = "now + - house_window hours (ss_retention st)"
  have "takeWhile (\<lambda>e. ?since \<le> ev_StartedAt e) (map en_ev (ss_ordered st)) = es"
    using takeWhile_newest_first [of "ss_ordered st" ?since] assms(1)
    by (simp add: es_def takeWhile_map filter_map comp_def store_inv_def)
  then have tally: "tally_pages face st now ?since (asked = ''all'') [] (no_tally api)
      = Some (fold (tally_event face st now (asked = ''all'')) es (no_tally api))"
    using tally_pages_left [OF assms(1,2), of "[]" "ss_ordered st"] by simp
  obtain q where q: "fold (tally_event face st now (asked = ''all'')) es (no_tally api) = q"
    "ht_Total q = int (length es)" "ht_Live q = int (length (filter running es))"
    "ht_Hidden q = int (length (filter (house_hides (asked = ''all'')) es))"
    "map rw_ID (ht_Rows q) = map ev_ID (filter (\<lambda>e. \<not> house_hides (asked = ''all'') e) es)"
    "gm_wf (ht_Audiences q)" "sum_list (map snd (ht_Audiences q)) = int (length es)"
    "sum_list (map snd (ht_Verdicts q)) = int (length es)"
    "\<forall>a. tallied a (ht_Audiences q) = int (length (filter (\<lambda>e. event_audience e = a) es))"
    using tally_fold [of face st now "asked = ''all''" es "no_tally api"] by (auto simp: tallied_def)
  have "length (ht_Rows q) = length (filter (\<lambda>e. \<not> house_hides (asked = ''all'') e) es)"
    using arg_cong [OF q(5), of length] by simp
  then have "ht_Hidden q + int (length (ht_Rows q)) = int (length es)"
    using sum_length_filter_compl [of "house_hides (asked = ''all'')" es] q(4) by simp
  then show ?thesis
    unfolding serve_page_def Let_def tally q(1) option.case
    using q(2,3,5-9) by (intro exI conjI) (auto simp: count_lines_sum count_lines_at)
qed

lemma seen_twice:
  "store_inv seen_twice \<and> listable seen_twice"
proof -
  have "store_inv seen_twice" by (simp add: seen_twice_def Let_def store_apply_inv store_inv_new)
  moreover have "listable seen_twice" by code_simp
  ultimately show ?thesis by simp
qed

lemma page_counts_all_witness:
  "\<exists>p api. serve_page \<lparr>hs_Allow = [], hs_Proxies = [], hs_DisplayName = [], hs_Version = [], hs_PR = [], hs_Built = [], hs_Location = None\<rparr>
      (\<lambda>layout t. []) seen_twice (unix_epoch + 200 * Second) ''1'' [] None None None = Some (p, api)
    \<and> hp_Total p = 1"
proof -
  have es: "filter (\<lambda>e. unix_epoch + 200 * Second - house_window ''1'' (ss_retention seen_twice) \<le> ev_StartedAt e)
      (map en_ev (ss_ordered seen_twice)) = map en_ev (ss_ordered seen_twice)"
    and one: "length (map en_ev (ss_ordered seen_twice)) = 1" by code_simp+
  from page_counts_all [OF conjunct1 [OF seen_twice] conjunct2 [OF seen_twice],
      of "\<lparr>hs_Allow = [], hs_Proxies = [], hs_DisplayName = [], hs_Version = [], hs_PR = [], hs_Built = [], hs_Location = None\<rparr>"
      "\<lambda>layout t. []" "unix_epoch + 200 * Second" "''1''" "[]" None None None, unfolded es one]
  show ?thesis by (elim exE conjE, intro exI conjI) simp_all
qed

section \<open>Two histories of one event\<close>

text \<open>The oldest revision of each run of one wording, but for the newest wording.\<close>

lemma event_history_append:
  "event_history prev (xs @ ys) = event_history prev xs @ event_history (if xs = [] then prev else snd (last xs)) ys"
  by (induction xs arbitrary: prev) auto


lemma event_history_snoc:
  "event_history prev (xs @ [(w, q)]) =
    event_history prev xs @ (if (if xs = [] then prev else snd (last xs)) = q then [] else [w @ ''  '' @ q])"
  by (simp add: event_history_append)

lemma row_history_listed:
  "snd (hd (xs @ [(w, q)])) \<noteq> prev \<Longrightarrow>
    rev (row_history q (rev xs) (acc @ [w @ ''  '' @ q])) = event_history prev (xs @ [(w, q)]) @ rev acc"
proof (induction xs arbitrary: w q acc rule: rev_induct)
  case (snoc x xs)
  obtain v t where x: "x = (v, t)" by fastforce
  have "snd (hd (xs @ [(v, t)])) \<noteq> prev" using snoc.prems by (auto simp: x hd_append split: if_splits)
  from snoc.IH [OF this] show ?case
    using event_history_snoc [of prev "xs @ [(v, t)]" w q]
      snoc.IH [OF \<open>snd (hd (xs @ [(v, t)])) \<noteq> prev\<close>, of "acc @ [w @ ''  '' @ q]"]
    by (cases "t = q") (simp_all add: x)
qed simp

lemma row_history_unlisted:
  "snd (hd (xs @ [(w, q)])) \<noteq> prev \<Longrightarrow>
    rev (row_history q (rev xs) []) = butlast (event_history prev (xs @ [(w, q)]))"
proof (induction xs arbitrary: w q rule: rev_induct)
  case (snoc x xs)
  obtain v t where x: "x = (v, t)" by fastforce
  have hd: "snd (hd (xs @ [(v, t)])) \<noteq> prev" using snoc.prems by (auto simp: x hd_append split: if_splits)
  from snoc.IH [OF this] row_history_listed [OF hd, of "[]"] show ?case
    using event_history_snoc [of prev "xs @ [(v, t)]" w q] by (cases "t = q") (simp_all add: x)
qed simp

lemma describe_activity_nonempty: "ev_Kind e = KindActivity \<Longrightarrow> describe e \<noteq> []"
  by (auto simp: describe_def describe_activity_def capitalize_def at_place_def Let_def split: list.splits)

lemma event_page_history:
  "store_get i st = Some e \<Longrightarrow> \<exists>p api' qs'. serve_event face st now dims pick i (api, qs) = (Some p, api', qs')
    \<and> ep_History p = event_history [] (worded face (store_history (ev_ID e) st))"
  unfolding serve_event_def Let_def split_beta by (simp del: event_history.simps)

text \<open>
  C32. The list and the page of an event tell one history. The row scans the revisions from the
  newest, folding each run of equal wordings into its oldest revision and leaving the current
  wording out; the page scans them from the oldest, keeping each revision that reads differently
  from the one before. For an activity of the store they show the same lines, in opposite
  orders, but for the current wording, which only the page lists.
\<close>
theorem two_histories_agree:
  assumes "store_inv st" and "store_get i st = Some e" and "ev_Kind e = KindActivity"
    and "ev_Kind (rv_Event (hd (store_history i st))) = KindActivity"
  shows "\<exists>p api' qs'. serve_event face st now dims pick i (api, qs) = (Some p, api', qs') \<and> ep_History p \<noteq> []
    \<and> rev (rw_History (fst (house_row face st now e media))) = butlast (ep_History p)"
proof -
  obtain x where x: "gm_get (ss_byID st) i = Some x" "e = en_ev x"
    using assms(2) by (auto simp: store_get_def split: option.splits)
  then have "ev_ID e = i" and "entry_ok x" using assms(1) unfolding store_inv_def by metis+
  then have nonempty: "store_history i st \<noteq> []" and newest: "rv_Event (last (store_history i st)) = e"
    by (simp_all add: entry_ok_def store_history_def x)
  let ?w = "worded face (store_history i st)"
  have w: "?w \<noteq> []" "snd (last ?w) = describe e" "snd (hd ?w) \<noteq> []"
    using nonempty newest describe_activity_nonempty [OF assms(4)]
    by (simp_all add: worded_def last_map hd_map)
  then have split: "?w = butlast ?w @ [(fst (last ?w), describe e)]"
    by (metis append_butlast_last_id prod.collapse)
  have "event_history [] ?w \<noteq> []" using w(1,3) by (cases ?w) auto
  moreover have "rev (row_history (describe e) (rev (butlast ?w)) []) = butlast (event_history [] ?w)"
    using row_history_unlisted [of "butlast ?w" "fst (last ?w)" "describe e" "[]"] w(3) split by simp
  moreover have "rw_History (fst (house_row face st now e media)) = row_history (describe e) (rev (butlast ?w)) []"
    by (simp add: house_row_def Let_def split_beta assms(3) \<open>ev_ID e = i\<close>)
  ultimately show ?thesis
    using event_page_history [OF assms(2)] \<open>ev_ID e = i\<close> by metis
qed

lemma two_histories_agree_witness:
  "rev (rw_History (fst (house_row (\<lambda>layout t. ''12:00:00'') seen_twice (unix_epoch + 80 * Second)
     (zero_event\<lparr>ev_ID := ''a'', ev_Kind := KindActivity, ev_StartedAt := unix_epoch + 60 * Second,
       ev_Path := [''porch'']\<rparr>) None))) = [''12:00:00  Something seen'']"
proof -
  let ?e = "zero_event\<lparr>ev_ID := ''a'', ev_Kind := KindActivity, ev_StartedAt := unix_epoch + 60 * Second,
       ev_Path := [''porch'']\<rparr>"
  have get: "store_get ''a'' seen_twice = Some ?e"
    and activity: "ev_Kind ?e = KindActivity"
    and first: "ev_Kind (rv_Event (hd (store_history ''a'' seen_twice))) = KindActivity"
    and words: "butlast (event_history [] (worded (\<lambda>layout t. ''12:00:00'') (store_history ''a'' seen_twice)))
      = [''12:00:00  Something seen'']"
    by code_simp+
  obtain p api' qs' where p: "serve_event (\<lambda>layout t. ''12:00:00'') seen_twice (unix_epoch + 80 * Second)
      [] (\<lambda>t. []) ''a'' (None, None) = (Some p, api', qs')"
    and "rev (rw_History (fst (house_row (\<lambda>layout t. ''12:00:00'') seen_twice (unix_epoch + 80 * Second) ?e None)))
      = butlast (ep_History p)"
    using two_histories_agree [OF conjunct1 [OF seen_twice] get activity first,
      of "\<lambda>layout t. ''12:00:00''" "unix_epoch + 80 * Second" "[]" "\<lambda>t. []" None None None] by blast
  moreover have "ep_History p = event_history [] (worded (\<lambda>layout t. ''12:00:00'') (store_history ''a'' seen_twice))"
    using event_page_history [OF get, of "\<lambda>layout t. ''12:00:00''" "unix_epoch + 80 * Second" "[]" "\<lambda>t. []" None None] p
    by auto
  ultimately show ?thesis using words by simp
qed

section \<open>The window\<close>

text \<open>
  Further. The window asked for is the window shown, up to the retention: for every number of hours whose
  product with an hour has 64 bits; a text that is no positive number asks for a day.
\<close>
theorem house_window_clamped:
  assumes "0 < retention"
  shows "0 < n \<and> n \<le> 2562047 \<Longrightarrow> parse_int hours = Some n \<Longrightarrow> house_window hours retention = min (n * Hour) retention"
    and "hours = [] \<or> parse_int hours = None \<or> (\<exists>n \<le> 0. parse_int hours = Some n)
      \<Longrightarrow> house_window hours retention = min (24 * Hour) retention"
proof -
  show "house_window hours retention = min (24 * Hour) retention"
    if "hours = [] \<or> parse_int hours = None \<or> (\<exists>n \<le> 0. parse_int hours = Some n)"
    using that by (auto simp: house_window_def min_def)
  assume "0 < n \<and> n \<le> 2562047" and "parse_int hours = Some n"
  moreover have "int64 (n * Hour) = n * Hour" using calculation(1) by (intro int64_id) auto
  ultimately show "house_window hours retention = min (n * Hour) retention"
    by (auto simp: house_window_def min_def parse_int_def simp del: int64_def)
qed

lemma house_window_overflows: "house_window ''2562048'' (14 * 24 * Hour) < 0"
  by code_simp

end
