(* ===== verification/Config.thy ===== *)
theory Config
  imports Go_Net Captoken
begin

text \<open>
  The configuration (\<open>internal/config/config.go\<close>): the messages of \<open>config.proto\<close>, their validation and
  defaults, the networks of the house page and the credentials of the environment.

  The messages are records: a field that may be absent is an option, a duration is what
  \<open>AsDuration\<close> gives.  The reading of the text format is \<open>unmarshal\<close>, the zone database is \<open>zones\<close>, the
  names it holds.  The pointers of a message are its own, so that filling it in place is giving
  the filled one.
\<close>

section \<open>The messages\<close>

record mqtt_config =
  mq_Host :: string
  mq_Port :: "32 word"
  mq_ClientId :: string
  mq_Subscriptions :: "string list"
  mq_PublishPrefix :: string
  mq_Keepalive :: "duration option"

record recording_config =
  rc_Dir :: string
  rc_RotateEvery :: "duration option"
  rc_Retention :: "duration option"

record model_config =
  md_Model :: string
  md_Hold :: "duration option"
  md_News :: bool
  md_AlarmClass :: string
  md_AlarmAfter :: "duration option"

record watch_config =
  wc_Zone :: string
  wc_Labels :: "string list"
  wc_ArriveAfter :: "duration option"
  wc_DepartAfter :: "duration option"
  wc_Quiet :: bool

record house_config =
  hc_AllowCidrs :: "string list"
  hc_TrustedProxies :: "string list"
  hc_AdminOrigin :: string

record config =
  cf_Mqtt :: "mqtt_config option"
  cf_Recording :: "recording_config option"
  cf_Listen :: string
  cf_DisplayName :: string
  cf_FrigateUrl :: string
  cf_Ttl :: "duration option"
  cf_House :: house_config
  cf_Timezone :: string
  cf_Occupancy :: "watch_config list"
  cf_StateModels :: "model_config list"
  cf_NotableLabels :: "string list"
  cf_Adjacency :: "(string \<times> string list) list"

datatype net_error = Not_address string | Bad_cidr string

datatype config_error =
    Unreadable | Mqtt_required | Host_required | Port_range int | Subscriptions_required
  | Keepalive_range duration | Rotate_short duration | Retention_short duration | Bad_timezone string
  | Model_required nat | Hold_range nat string duration | Alarm_pair nat string | Alarm_range nat string duration
  | Zone_required nat | Timers_range nat string | Allow_cidrs net_error | Trusted_proxies net_error | Ttl_range duration

section \<open>Networks\<close>

definition cidr_of :: "string \<Rightarrow> net_error + ip_net" where
  "cidr_of e =
     (case (if contains e ''/'' then Inr e
            else case parse_ip e of
              None \<Rightarrow> Inl (Not_address e)
            | Some x \<Rightarrow> Inr (ip_string x @ ''/'' @ itoa (if to4 x = None then 128 else 32))) of
        Inl err \<Rightarrow> Inl err
      | Inr s \<Rightarrow> (case parse_cidr s of None \<Rightarrow> Inl (Bad_cidr s) | Some n \<Rightarrow> Inr n))"

fun parse_cidrs :: "string list \<Rightarrow> net_error + ip_net list" where
  "parse_cidrs [] = Inr []"
| "parse_cidrs (e # es) =
     (case cidr_of e of
        Inl err \<Rightarrow> Inl err
      | Inr n \<Rightarrow> (case parse_cidrs es of Inl err \<Rightarrow> Inl err | Inr ns \<Rightarrow> Inr (n # ns)))"

section \<open>Defaults\<close>

abbreviation (input) DefaultPort :: "32 word" where "DefaultPort \<equiv> 1883"
abbreviation (input) DefaultKeepalive :: duration where "DefaultKeepalive \<equiv> 30 * Second"
abbreviation (input) DefaultRotateEvery :: duration where "DefaultRotateEvery \<equiv> 24 * Hour"
abbreviation (input) DefaultRetention :: duration where "DefaultRetention \<equiv> 168 * Hour"
abbreviation (input) DefaultLinkTTL :: duration where "DefaultLinkTTL \<equiv> 4 * Hour"

definition default_text :: "string \<Rightarrow> string \<Rightarrow> string" where
  "default_text d s = (if s = [] then d else s)"

definition default_mqtt :: "mqtt_config \<Rightarrow> config_error + mqtt_config" where
  "default_mqtt m0 =
     (if mq_Host m0 = [] then Inl Host_required
      else let m = m0\<lparr>mq_Port := (if mq_Port m0 = 0 then DefaultPort else mq_Port m0)\<rparr>
      in if 65535 < mq_Port m then Inl (Port_range (uint (mq_Port m)))
      else if mq_Subscriptions m = [] then Inl Subscriptions_required
      else let m1 = m\<lparr>mq_ClientId := default_text ''curtilage'' (mq_ClientId m),
                      mq_PublishPrefix := default_text ''curtilage'' (mq_PublishPrefix m)\<rparr>
      in case mq_Keepalive m1 of
           None \<Rightarrow> Inr (m1\<lparr>mq_Keepalive := Some DefaultKeepalive\<rparr>)
         | Some d \<Rightarrow> if d < Second \<or> Hour < d then Inl (Keepalive_range d) else Inr m1)"

definition default_recording :: "recording_config option \<Rightarrow> config_error + recording_config" where
  "default_recording r0 =
     (let r = (case r0 of None \<Rightarrow> \<lparr>rc_Dir = [], rc_RotateEvery = None, rc_Retention = None\<rparr> | Some r \<Rightarrow> r);
          rotate = (case rc_RotateEvery r of None \<Rightarrow> DefaultRotateEvery | Some d \<Rightarrow> d);
          retention = (case rc_Retention r of None \<Rightarrow> DefaultRetention | Some d \<Rightarrow> d)
      in if rotate < Minute then Inl (Rotate_short rotate)
         else if retention < Hour then Inl (Retention_short retention)
         else Inr (r\<lparr>rc_RotateEvery := Some rotate, rc_Retention := Some retention\<rparr>))"

text \<open>\<open>time.LoadLocation\<close>, up to the database.\<close>

definition load_location :: "string list \<Rightarrow> string \<Rightarrow> string option" where
  "load_location zones name =
     (if name = [] \<or> name = ''UTC'' then Some ''UTC''
      else if name = ''Local'' then Some ''Local''
      else if contains name ''..'' \<or> hd name = CHR ''/'' \<or> hd name = CHR 0x5C then None
      else if name \<in> set zones then Some name else None)"

definition default_model :: "nat \<Rightarrow> model_config \<Rightarrow> config_error + model_config" where
  "default_model i sm =
     (if md_Model sm = [] then Inl (Model_required i)
      else let hold = (case md_Hold sm of None \<Rightarrow> 10 * Minute | Some d \<Rightarrow> d)
      in if hold < Second \<or> Hour < hold then Inl (Hold_range i (md_Model sm) hold)
      else if (md_AlarmClass sm = []) \<noteq> (md_AlarmAfter sm = None) then Inl (Alarm_pair i (md_Model sm))
      else case md_AlarmAfter sm of
          None \<Rightarrow> Inr (sm\<lparr>md_Hold := Some hold\<rparr>)
        | Some d \<Rightarrow> if d < Minute \<or> 168 * Hour < d then Inl (Alarm_range i (md_Model sm) d)
                    else Inr (sm\<lparr>md_Hold := Some hold\<rparr>))"

definition default_watch :: "nat \<Rightarrow> watch_config \<Rightarrow> config_error + watch_config" where
  "default_watch i o0 =
     (if wc_Zone o0 = [] then Inl (Zone_required i)
      else let a = (case wc_ArriveAfter o0 of None \<Rightarrow> Minute | Some d \<Rightarrow> d);
               d = (case wc_DepartAfter o0 of None \<Rightarrow> 5 * Minute | Some d \<Rightarrow> d)
      in if a < Second \<or> d < Second \<or> Hour < a \<or> 24 * Hour < d then Inl (Timers_range i (wc_Zone o0))
         else Inr (o0\<lparr>wc_Labels := (if wc_Labels o0 = [] then [''car''] else wc_Labels o0),
                      wc_ArriveAfter := Some a, wc_DepartAfter := Some d\<rparr>))"

text \<open>A loop over the entries of a list, with their index: the first error, or all of them filled in.\<close>

fun default_each :: "(nat \<Rightarrow> 'a \<Rightarrow> config_error + 'a) \<Rightarrow> nat \<Rightarrow> 'a list \<Rightarrow> config_error + 'a list" where
  "default_each f i [] = Inr []"
| "default_each f i (x # xs) =
     (case f i x of
        Inl e \<Rightarrow> Inl e
      | Inr y \<Rightarrow> (case default_each f (Suc i) xs of Inl e \<Rightarrow> Inl e | Inr ys \<Rightarrow> Inr (y # ys)))"

definition apply_defaults :: "string list \<Rightarrow> config \<Rightarrow> config_error + config" where
  "apply_defaults zones c =
     (case cf_Mqtt c of None \<Rightarrow> Inl Mqtt_required | Some m0 \<Rightarrow>
      (case default_mqtt m0 of Inl e \<Rightarrow> Inl e | Inr m \<Rightarrow>
      (case default_recording (cf_Recording c) of Inl e \<Rightarrow> Inl e | Inr r \<Rightarrow>
       let tz = default_text ''UTC'' (cf_Timezone c)
       in if load_location zones tz = None then Inl (Bad_timezone tz)
      else
      (case default_each default_model 0 (cf_StateModels c) of Inl e \<Rightarrow> Inl e | Inr models \<Rightarrow>
      (case default_each default_watch 0 (cf_Occupancy c) of Inl e \<Rightarrow> Inl e | Inr watches \<Rightarrow>
      (case parse_cidrs (hc_AllowCidrs (cf_House c)) of Inl e \<Rightarrow> Inl (Allow_cidrs e) | Inr _ \<Rightarrow>
      (case parse_cidrs (hc_TrustedProxies (cf_House c)) of Inl e \<Rightarrow> Inl (Trusted_proxies e) | Inr _ \<Rightarrow>
       let ttl = (case cf_Ttl c of None \<Rightarrow> DefaultLinkTTL | Some d \<Rightarrow> d)
       in if ttl < Minute \<or> 168 * Hour < ttl then Inl (Ttl_range ttl)
          else Inr (c\<lparr>cf_Mqtt := Some m, cf_Recording := Some r,
                      cf_Listen := default_text '':9118'' (cf_Listen c),
                      cf_DisplayName := default_text ''curtilage'' (cf_DisplayName c),
                      cf_Timezone := tz, cf_StateModels := models, cf_Occupancy := watches,
                      cf_Ttl := Some ttl\<rparr>))))))))"

definition parse_config :: "(bytes \<Rightarrow> config option) \<Rightarrow> string list \<Rightarrow> bytes \<Rightarrow> config_error + config" where
  "parse_config unmarshal zones b =
     (case unmarshal b of None \<Rightarrow> Inl Unreadable | Some c \<Rightarrow> apply_defaults zones c)"

definition location :: "string list \<Rightarrow> config \<Rightarrow> string" where
  "location zones c = (case load_location zones (cf_Timezone c) of None \<Rightarrow> ''UTC'' | Some l \<Rightarrow> l)"

section \<open>Credentials\<close>

record credentials =
  cd_User :: string
  cd_Password :: string
  cd_MediaKey :: bytes
  cd_MediaKeyPrior :: bytes

datatype credentials_error = Not_together | Bad_media_key key_error | Bad_prior_key key_error | Prior_alone

text \<open>No key is no bytes: \<open>ParseKey\<close> gives none for the empty text only.\<close>

definition credentials_from_env :: "(string \<Rightarrow> string) \<Rightarrow> credentials_error + credentials" where
  "credentials_from_env env =
     (let u = env ''CURTILAGE_MQTT_USER''; p = env ''CURTILAGE_MQTT_PASSWORD''
      in if (u = []) \<noteq> (p = []) then Inl Not_together
         else case parse_key (env ''CURTILAGE_MEDIA_KEY'') of
           Inl e \<Rightarrow> Inl (Bad_media_key e)
         | Inr k \<Rightarrow>
             (case parse_key (env ''CURTILAGE_MEDIA_KEY_PRIOR'') of
                Inl e \<Rightarrow> Inl (Bad_prior_key e)
              | Inr prior \<Rightarrow>
                  if k = [] \<and> prior \<noteq> [] then Inl Prior_alone
                  else Inr \<lparr>cd_User = u, cd_Password = p, cd_MediaKey = k, cd_MediaKeyPrior = prior\<rparr>))"

section \<open>A configuration that was accepted\<close>

definition between :: "duration \<Rightarrow> duration \<Rightarrow> duration option \<Rightarrow> bool" where
  "between lo hi d \<longleftrightarrow> (\<exists>v. d = Some v \<and> lo \<le> v \<and> v \<le> hi)"

definition mqtt_ok :: "mqtt_config \<Rightarrow> bool" where
  "mqtt_ok m \<longleftrightarrow> mq_Host m \<noteq> [] \<and> 1 \<le> uint (mq_Port m) \<and> uint (mq_Port m) \<le> 65535 \<and> mq_ClientId m \<noteq> []
     \<and> mq_Subscriptions m \<noteq> [] \<and> mq_PublishPrefix m \<noteq> [] \<and> between Second Hour (mq_Keepalive m)"

definition model_ok :: "model_config \<Rightarrow> bool" where
  "model_ok sm \<longleftrightarrow> md_Model sm \<noteq> [] \<and> between Second Hour (md_Hold sm)
     \<and> (md_AlarmClass sm = [] \<and> md_AlarmAfter sm = None
        \<or> md_AlarmClass sm \<noteq> [] \<and> between Minute (168 * Hour) (md_AlarmAfter sm))"

definition watch_ok :: "watch_config \<Rightarrow> bool" where
  "watch_ok w \<longleftrightarrow> wc_Zone w \<noteq> [] \<and> wc_Labels w \<noteq> [] \<and> between Second Hour (wc_ArriveAfter w)
     \<and> between Second (24 * Hour) (wc_DepartAfter w)"

definition config_ok :: "string list \<Rightarrow> config \<Rightarrow> bool" where
  "config_ok zones c \<longleftrightarrow>
     (\<exists>m. cf_Mqtt c = Some m \<and> mqtt_ok m) \<and>
     (\<exists>r t u. cf_Recording c = Some r \<and> rc_RotateEvery r = Some t \<and> Minute \<le> t \<and> rc_Retention r = Some u \<and> Hour \<le> u) \<and>
     cf_Listen c \<noteq> [] \<and> cf_DisplayName c \<noteq> [] \<and> cf_Timezone c \<noteq> [] \<and> load_location zones (cf_Timezone c) \<noteq> None \<and>
     list_all model_ok (cf_StateModels c) \<and> list_all watch_ok (cf_Occupancy c) \<and>
     (\<exists>ns. parse_cidrs (hc_AllowCidrs (cf_House c)) = Inr ns) \<and>
     (\<exists>ns. parse_cidrs (hc_TrustedProxies (cf_House c)) = Inr ns) \<and> between Minute (168 * Hour) (cf_Ttl c)"

lemma port_positive: "p \<noteq> 0 \<Longrightarrow> 1 \<le> uint (p :: 32 word)"
proof -
  assume "p \<noteq> 0"
  then have "uint p \<noteq> 0" using unsigned_eq_0_iff by blast
  then show ?thesis using uint_ge_0 [of p] by arith
qed

lemma default_mqtt_ok: "default_mqtt m = Inr m' \<Longrightarrow> mqtt_ok m'"
  by (auto simp: default_mqtt_def mqtt_ok_def default_text_def between_def Let_def word_less_def port_positive
      split: if_splits option.splits)

lemma default_mqtt_fixed: "mqtt_ok m \<Longrightarrow> default_mqtt m = Inr m"
  by (auto simp: default_mqtt_def mqtt_ok_def default_text_def between_def Let_def word_less_def)

lemma default_model_ok: "default_model i m = Inr m' \<Longrightarrow> model_ok m'"
  by (auto simp: default_model_def model_ok_def between_def Let_def split: if_splits option.splits)

lemma default_model_fixed: "model_ok m \<Longrightarrow> default_model i m = Inr m"
  by (auto simp: default_model_def model_ok_def between_def Let_def)

lemma default_watch_ok: "default_watch i w = Inr w' \<Longrightarrow> watch_ok w'"
  by (auto simp: default_watch_def watch_ok_def between_def Let_def split: if_splits option.splits)

lemma default_watch_fixed: "watch_ok w \<Longrightarrow> default_watch i w = Inr w"
  by (auto simp: default_watch_def watch_ok_def between_def Let_def)

lemma default_each_ok:
  "(\<And>i x y. f i x = Inr y \<Longrightarrow> P y) \<Longrightarrow> default_each f i xs = Inr ys \<Longrightarrow> list_all P ys"
  by (induction f i xs arbitrary: ys rule: default_each.induct) (auto split: sum.splits)

lemma default_each_fixed:
  "(\<And>i x. P x \<Longrightarrow> f i x = Inr x) \<Longrightarrow> list_all P xs \<Longrightarrow> default_each f i xs = Inr xs"
  by (induction xs arbitrary: i) auto


lemma accepted_config:
  assumes "apply_defaults zones c = Inr c'"
  shows "config_ok zones c' \<and> apply_defaults zones c' = Inr c'"
proof -
  from assms obtain m0 m r models watches allow proxies where
    mqtt: "cf_Mqtt c = Some m0" "default_mqtt m0 = Inr m"
    and rec: "default_recording (cf_Recording c) = Inr r"
    and zone: "load_location zones (default_text ''UTC'' (cf_Timezone c)) \<noteq> None"
    and models: "default_each default_model 0 (cf_StateModels c) = Inr models"
    and watches: "default_each default_watch 0 (cf_Occupancy c) = Inr watches"
    and nets: "parse_cidrs (hc_AllowCidrs (cf_House c)) = Inr allow"
      "parse_cidrs (hc_TrustedProxies (cf_House c)) = Inr proxies"
    and ttl: "\<not> (case cf_Ttl c of None \<Rightarrow> DefaultLinkTTL | Some d \<Rightarrow> d) < Minute"
      "\<not> 168 * Hour < (case cf_Ttl c of None \<Rightarrow> DefaultLinkTTL | Some d \<Rightarrow> d)"
    and c': "c' = c\<lparr>cf_Mqtt := Some m, cf_Recording := Some r,
        cf_Listen := default_text '':9118'' (cf_Listen c), cf_DisplayName := default_text ''curtilage'' (cf_DisplayName c),
        cf_Timezone := default_text ''UTC'' (cf_Timezone c), cf_StateModels := models, cf_Occupancy := watches,
        cf_Ttl := Some (case cf_Ttl c of None \<Rightarrow> DefaultLinkTTL | Some d \<Rightarrow> d)\<rparr>"
    unfolding apply_defaults_def Let_def by (simp split: option.splits sum.splits if_splits)
  note ok = default_mqtt_ok [OF mqtt(2)] default_each_ok [OF default_model_ok models]
    default_each_ok [OF default_watch_ok watches]
  from rec obtain t u where r: "rc_RotateEvery r = Some t" "Minute \<le> t" "rc_Retention r = Some u" "Hour \<le> u"
    by (auto simp: default_recording_def Let_def not_less split: if_splits)
  have "config_ok zones c'"
    using ok r zone nets ttl by (simp add: config_ok_def c' default_text_def between_def not_less)
  moreover have "apply_defaults zones c' = Inr c'"
    using ok r zone nets ttl
    by (simp add: apply_defaults_def c' default_mqtt_fixed default_each_fixed [OF default_model_fixed]
        default_each_fixed [OF default_watch_fixed] default_recording_def default_text_def Let_def split: option.splits)
  ultimately show ?thesis ..
qed

text \<open>
  C20. An accepted configuration is complete and in range. Whatever the file says, what Load returns
  has a broker host, a port from 1 to 65535, subscriptions, a keepalive of a second to an hour, a
  rotation of at least a minute and a retention of at least an hour, a zone of the database, state
  models and occupancies with their timers in range, networks that parse and a link lifetime of a
  minute to a week; and applying the defaults once more changes nothing.
\<close>
theorem config_valid:
  assumes "apply_defaults zones c = Inr c'"
  shows "config_ok zones c' \<and> apply_defaults zones c' = Inr c'"
  by (rule accepted_config [OF assms])

section \<open>A bare address\<close>

lemma dec_head: "0 < n \<Longrightarrow> hd (dec n) \<noteq> CHR ''0''"
proof (induction n rule: dec.induct)
  case (1 n)
  show ?case
  proof (cases "n < 10")
    case True
    then have "hd (dec n) = digit_char n" by (subst dec.simps) simp
    with True "1.prems" char_digit_digit_char [of n] show ?thesis by (auto simp: char_digit_def)
  next
    case False
    then have "hd (dec n) = hd (dec (n div 10))" by (subst dec.simps) simp
    with 1 False show ?thesis by simp
  qed
qed

lemma dec_long: "1 < length (dec n) \<Longrightarrow> 10 \<le> n"
  by (subst (asm) dec.simps) (auto split: if_splits)

lemma octet_itoa: "octet (itoa (uint b)) = Some b"
proof -
  have b: "0 \<le> uint b" "uint b \<le> 255" using uint_bounded [of b] by simp_all
  then have "itoa (uint b) = dec (uint b)" by (simp add: itoa_def)
  with b dec_head [of "uint b"] dec_long [of "uint b"] show ?thesis
    by (auto simp: octet_def dec_value_def dec_digits_dec)
qed


lemma digit_chars_separators: "CHR ''.'' \<notin> digit_chars" "CHR '':'' \<notin> digit_chars" "CHR ''%'' \<notin> digit_chars"
  by (auto simp: digit_chars_def digit_char_def dest!: arg_cong [where f = "of_char :: char \<Rightarrow> int"])

lemma set_itoa_byte: "set (itoa (uint (b :: 8 word))) \<subseteq> digit_chars"
  using set_dec [of "uint b"] by (simp add: itoa_def)

lemma find_after: "\<forall>c \<in> set a. \<not> P c \<Longrightarrow> P c \<Longrightarrow> List.find P (a @ c # r) = Some c"
  by (induction a) auto

text \<open>What \<open>IP.String\<close> prints for an IPv4 address, \<open>ParseAddr\<close> reads back.\<close>

lemma parse_v4_string:
  assumes "length q = 4"
  shows "parse_addr (v4_string q) = Some (V4 q)" and "CHR ''/'' \<notin> set (v4_string q)"
proof -
  obtain a b c d where q: "q = [a, b, c, d]" using assms by (auto simp: numeral_eq_Suc length_Suc_conv)
  have digits: "\<forall>x \<in> set (itoa (uint w)). x \<in> digit_chars" for w :: "8 word" using set_itoa_byte by blast
  have nodot: "CHR ''.'' \<notin> set (itoa (uint w))" for w :: "8 word" using digits digit_chars_separators by blast
  have string: "v4_string q = itoa (uint a) @ CHR ''.'' # join ''.'' (map (\<lambda>b. itoa (uint b)) [b, c, d])"
    by (simp add: v4_string_def q)
  have "split_on CHR ''.'' (v4_string q) = map (\<lambda>b. itoa (uint b)) q"
    unfolding v4_string_def using nodot by (intro split_on_join) (auto simp: q)
  then have "parse_v4 (v4_string q) = Some q"
    by (simp add: parse_v4_def q octet_itoa)
  moreover have "\<forall>x \<in> set (itoa (uint a)). x \<notin> set ''.:%''"
    using digits digit_chars_separators by auto
  then have "List.find (\<lambda>c. c \<in> set ''.:%'') (v4_string q) = Some CHR ''.''"
    unfolding string by (intro find_after) auto
  ultimately show "parse_addr (v4_string q) = Some (V4 q)" by (simp add: parse_addr_def)
  have "CHR ''/'' \<notin> set (itoa (uint w))" for w :: "8 word" using digits digit_chars_neq(4) by blast
  then show "CHR ''/'' \<notin> set (v4_string q)" by (simp add: v4_string_def q)
qed

lemma ip_bits_inject: "length x = length y \<Longrightarrow> ip_bits x = ip_bits y \<Longrightarrow> x = y"
proof (induction x y rule: list_induct2)
  case (Cons a x b y)
  have "ip_bits (c # z) = map (\<lambda>i. bit c (7 - i)) [0..<8] @ ip_bits z" for c z by (simp add: ip_bits_def)
  with Cons.prems have "map (\<lambda>i. bit a (7 - i)) [0..<8] @ ip_bits x = map (\<lambda>i. bit b (7 - i)) [0..<8] @ ip_bits y"
    by (simp only:)
  then have "map (\<lambda>i. bit a (7 - i)) [0..<8] = map (\<lambda>i. bit b (7 - i)) [0..<8]" "ip_bits x = ip_bits y"
    by (simp_all only: append_eq_append_conv length_map simp_thms)
  with byte_masked [of 8 a b] Cons.IH show ?case by simp
qed simp

lemma contains_byte: "contains s [c] \<longleftrightarrow> c \<in> set s"
  by (induction s) auto

text \<open>
  Further. A bare IPv4 address admits itself only. An entry of allow_cidrs or trusted_proxies without a
  slash that reads as an IPv4 address, in whatever spelling, becomes the network of exactly that
  address: no other address is contained in it, and the address is, as 4 bytes or mapped to 16.
\<close>
theorem bare_address:
  assumes "CHR ''/'' \<notin> set e" and "parse_ip e = Some x" and "to4 x = Some q"
  shows "\<exists>n. parse_cidrs [e] = Inr [n] \<and> (\<forall>y. net_contains n y \<longleftrightarrow> to4 y = Some q)"
proof -
  have q: "length q = 4" using assms(3) by (auto simp: to4_def split: if_splits)
  let ?s = "v4_string q @ CHR ''/'' # ''32''"
  have cut: "cut CHR ''/'' ?s = Some (v4_string q, ''32'')" using parse_v4_string(2) [OF q] by (rule cut_append)
  have addr: "parse_addr (v4_string q) = Some (V4 q)" by (rule parse_v4_string(1) [OF q])
  have bits: "dec_value ''32'' = Some 32" by code_simp
  obtain n where n: "parse_cidr ?s = Some n" by (simp add: parse_cidr_def cut addr bits Let_def)
  have "itoa 32 = ''32''" by code_simp
  then have "cidr_of e = Inr n"
    using assms n by (simp add: cidr_of_def contains_byte ip_string_def)
  moreover have "net_contains n y \<longleftrightarrow> to4 y = Some q" for y
    using v4_contains [OF n cut addr bits, of y] q ip_bits_inject [of _ q] by auto
  ultimately show ?thesis by simp
qed


lemma bare_address_witness:
  "\<exists>n. parse_cidrs [''192.168.1.7''] = Inr [n] \<and> (\<forall>y. net_contains n y \<longleftrightarrow> to4 y = Some [192, 168, 1, 7])"
proof (rule bare_address)
  show "parse_ip ''192.168.1.7'' = Some (v4_prefix @ [192, 168, 1, 7])" by code_simp
  show "to4 (v4_prefix @ [192, 168, 1, 7]) = Some [192, 168, 1, 7]" by (simp add: to4_def v4_prefix_def)
qed simp

definition sample_config :: config where
  "sample_config =
     \<lparr>cf_Mqtt = Some \<lparr>mq_Host = ''broker'', mq_Port = 0, mq_ClientId = [], mq_Subscriptions = [''frigate/#''],
        mq_PublishPrefix = [], mq_Keepalive = None\<rparr>,
      cf_Recording = None, cf_Listen = [], cf_DisplayName = [], cf_FrigateUrl = [], cf_Ttl = None,
      cf_House = \<lparr>hc_AllowCidrs = [''192.168.1.0/24''], hc_TrustedProxies = [''10.0.0.1''], hc_AdminOrigin = []\<rparr>,
      cf_Timezone = [],
      cf_Occupancy = [\<lparr>wc_Zone = ''driveway'', wc_Labels = [], wc_ArriveAfter = None, wc_DepartAfter = None, wc_Quiet = False\<rparr>],
      cf_StateModels = [\<lparr>md_Model = ''door'', md_Hold = None, md_News = True, md_AlarmClass = ''open'',
        md_AlarmAfter = Some (30 * Minute)\<rparr>],
      cf_NotableLabels = [''bear''], cf_Adjacency = []\<rparr>"

lemma sample_accepted: "\<exists>c. apply_defaults [] sample_config = Inr c"
proof -
  have "parse_cidrs [''192.168.1.0/24''] = Inr [\<lparr>net_IP = [192, 168, 1, 0], net_Mask = [255, 255, 255, 0]\<rparr>]"
    and "parse_cidrs [''10.0.0.1''] = Inr [\<lparr>net_IP = [10, 0, 0, 1], net_Mask = [255, 255, 255, 255]\<rparr>]"
    by code_simp+
  then show ?thesis
    by (simp add: apply_defaults_def sample_config_def default_mqtt_def default_recording_def default_model_def
        default_watch_def load_location_def default_text_def Let_def)
qed

lemma config_valid_witness:
  "\<exists>c. apply_defaults [] sample_config = Inr c \<and> config_ok [] c \<and> apply_defaults [] c = Inr c"
  using sample_accepted config_valid by blast

end
