(* ===== verification/Go_Time.thy ===== *)
theory Go_Time
  imports Go_Strings
begin

text \<open>
  What the program uses of package \<open>time\<close> to name files: the date and the clock of an instant in
  UTC, \<open>Format\<close> and \<open>Parse\<close> with the layout \<open>20060102T150405Z\<close>.
\<close>

section \<open>Dates\<close>

definition is_leap :: "int \<Rightarrow> bool" where
  "is_leap y \<longleftrightarrow> y mod 4 = 0 \<and> (y mod 100 \<noteq> 0 \<or> y mod 400 = 0)"

definition month_lengths :: "int \<Rightarrow> int list" where
  "month_lengths y = [31, if is_leap y then 29 else 28, 31, 30, 31, 30, 31, 31, 30, 31, 30, 31]"

text \<open>The days from January 1 of year 1 to January 1 of a year.\<close>

definition year_start :: "int \<Rightarrow> int" where
  "year_start y = 365 * (y - 1) + (y - 1) div 4 - (y - 1) div 100 + (y - 1) div 400"

definition days_of :: "int \<Rightarrow> int \<Rightarrow> int \<Rightarrow> int" where
  "days_of y m d = year_start y + sum_list (take (nat (m - 1)) (month_lengths y)) + d - 1"

text \<open>
  The year of a day, by the cycles of 400, 100, 4 and 1 years, and the month and the day of the
  month of a day of the year.
\<close>

definition year_of :: "int \<Rightarrow> int" where
  "year_of d =
     (let r400 = d mod 146097; n100 = min 3 (r400 div 36524); r100 = r400 - 36524 * n100;
          n4 = r100 div 1461; r4 = r100 mod 1461; n1 = min 3 (r4 div 365)
      in 400 * (d div 146097) + 100 * n100 + 4 * n4 + n1 + 1)"

fun month_day :: "int \<Rightarrow> int list \<Rightarrow> int \<Rightarrow> int \<times> int" where
  "month_day m [] d = (m, d + 1)"
| "month_day m (l # ls) d = (if d < l then (m, d + 1) else month_day (m + 1) ls (d - l))"

abbreviation Day :: duration where "Day \<equiv> 24 * Hour"

definition date :: "time \<Rightarrow> int \<times> int \<times> int" where
  "date t = (let d = t div Day; y = year_of d in (y, month_day 1 (month_lengths y) (d - year_start y)))"

section \<open>Format and Parse\<close>

fun fixed :: "nat \<Rightarrow> int \<Rightarrow> string" where
  "fixed 0 n = []"
| "fixed (Suc w) n = fixed w (n div 10) @ [digit_char (n mod 10)]"

text \<open>A number in at least \<open>w\<close> digits.\<close>

definition padded :: "nat \<Rightarrow> int \<Rightarrow> string" where
  "padded w n = (if n < 0 then CHR ''-'' # (if - n < 10 ^ w then fixed w (- n) else dec (- n))
     else if n < 10 ^ w then fixed w n else dec n)"

definition stamp :: "time \<Rightarrow> string" where
  "stamp t =
     (let (y, m, d) = date t; s = t mod Day div Second
      in padded 4 y @ padded 2 m @ padded 2 d @ ''T'' @ padded 2 (s div 3600) @ padded 2 (s div 60 mod 60)
         @ padded 2 (s mod 60) @ ''Z'')"

text \<open>A number of exactly \<open>w\<close> digits, and what follows it.\<close>

fun take_number :: "nat \<Rightarrow> int \<Rightarrow> string \<Rightarrow> (int \<times> string) option" where
  "take_number 0 acc s = Some (acc, s)"
| "take_number (Suc w) acc [] = None"
| "take_number (Suc w) acc (c # s) =
     (case char_digit c of None \<Rightarrow> None | Some d \<Rightarrow> take_number w (10 * acc + d) s)"

text \<open>A fraction after the seconds, which Parse accepts without its being in the layout: nine digits of it count.\<close>

definition take_fraction :: "string \<Rightarrow> int \<times> string" where
  "take_fraction s =
     (case s of
        p # c # r \<Rightarrow>
          if (p = CHR ''.'' \<or> p = CHR '','') \<and> char_digit c \<noteq> None then
            let ds = takeWhile (\<lambda>c. char_digit c \<noteq> None) (c # r); kept = take 9 ds
            in (the (dec_digits kept 0) * 10 ^ (9 - length kept), drop (length ds) (c # r))
          else (0, s)
      | _ \<Rightarrow> (0, s))"

definition parse_stamp :: "string \<Rightarrow> time option" where
  "parse_stamp s =
     (case take_number 4 0 s of None \<Rightarrow> None | Some (y, s1) \<Rightarrow>
     (case take_number 2 0 s1 of None \<Rightarrow> None | Some (m, s2) \<Rightarrow>
     (case take_number 2 0 s2 of None \<Rightarrow> None | Some (d, s3) \<Rightarrow>
     (case cut_prefix s3 ''T'' of None \<Rightarrow> None | Some s4 \<Rightarrow>
     (case take_number 2 0 s4 of None \<Rightarrow> None | Some (h, s5) \<Rightarrow>
     (case take_number 2 0 s5 of None \<Rightarrow> None | Some (mi, s6) \<Rightarrow>
     (case take_number 2 0 s6 of None \<Rightarrow> None | Some (sec, s7) \<Rightarrow>
     (case take_fraction s7 of (nsec, s8) \<Rightarrow>
        if s8 \<noteq> ''Z'' \<or> m < 1 \<or> 12 < m \<or> d < 1 \<or> month_lengths y ! nat (m - 1) < d \<or> 23 < h \<or> 59 < mi \<or> 59 < sec then None
        else Some (days_of y m d * Day + h * Hour + mi * Minute + sec * Second + nsec)))))))))"

section \<open>The date of a day\<close>

lemma div_pred:
  fixes k y :: int
  assumes "0 < k"
  shows "(y - 1) div k = y div k - of_bool (y mod k = 0)"
proof (cases "y mod k = 0")
  case True
  then have "y - 1 = k * (y div k - 1) + (k - 1)"
    using mult_div_mod_eq [of k y] by (simp add: right_diff_distrib)
  then have "(y - 1) div k = y div k - 1"
    using assms int_div_pos_eq [of "y - 1" k "y div k - 1" "k - 1"] by simp
  with True show ?thesis by simp
next
  case False
  have "y - 1 = k * (y div k) + (y mod k - 1)" by simp
  moreover have "0 < y mod k" "y mod k < k"
    using False pos_mod_sign [OF assms, of y] pos_mod_bound [OF assms, of y] by linarith+
  ultimately have "(y - 1) div k = y div k" using int_div_pos_eq [of "y - 1" k "y div k" "y mod k - 1"] by linarith
  with False show ?thesis by simp
qed

lemma leap_years: "y mod 400 = 0 \<Longrightarrow> y mod 100 = 0" "y mod 100 = 0 \<Longrightarrow> y mod 4 = 0" for y :: int
  using mod_mod_cancel [of 100 400 y] mod_mod_cancel [of 4 100 y] by simp_all

lemma year_start_Suc: "year_start (y + 1) = year_start y + 365 + of_bool (is_leap y)"
  using leap_years [of y] by (auto simp: year_start_def is_leap_def div_pred)

lemma year_start_mono: "y \<le> z \<Longrightarrow> year_start y \<le> year_start z"
  by (induction z rule: int_ge_induct) (auto simp: year_start_Suc)

lemma sum_month_lengths: "sum_list (month_lengths y) = 365 + of_bool (is_leap y)"
  by (simp add: month_lengths_def)

lemma mod_full: "0 < x \<Longrightarrow> x \<le> n \<Longrightarrow> x mod n = 0 \<longleftrightarrow> x = n" for x n :: int
  by (cases "x = n") auto

lemma year_of_bounds: "year_start (year_of d) \<le> d" "d < year_start (year_of d + 1)"
proof -
  define a where "a = d div 146097"
  define r where "r = d mod 146097"
  define b where "b = min 3 (r div 36524)"
  define r1 where "r1 = r - 36524 * b"
  define c where "c = r1 div 1461"
  define r2 where "r2 = r1 mod 1461"
  define e where "e = min 3 (r2 div 365)"
  have y: "year_of d = 400 * a + 100 * b + 4 * c + e + 1"
    unfolding year_of_def Let_def e_def r2_def c_def r1_def b_def r_def a_def by (rule refl)
  have r: "d = 146097 * a + r" "0 \<le> r" "r < 146097" by (simp_all add: a_def r_def)
  then have b: "0 \<le> b" "b \<le> 3" "r1 \<ge> 0" "r1 \<le> 36524" "b < 3 \<Longrightarrow> r1 < 36524"
    unfolding b_def r1_def by (auto simp: min_def)
  then have c: "0 \<le> c" "c \<le> 24" "r1 = 1461 * c + r2" "0 \<le> r2" "r2 < 1461"
    unfolding c_def r2_def by auto
  then have e: "0 \<le> e" "e \<le> 3" "365 * e \<le> r2" "r2 \<le> 365 * e + 365" "e < 3 \<Longrightarrow> r2 < 365 * e + 365"
    unfolding e_def by (auto simp: min_def)
  let ?z = "400 * a + 100 * b + 4 * c + e"
  have "?z = 4 * (100 * a + 25 * b + c) + e" "?z = 100 * (4 * a + b) + (4 * c + e)"
    "?z = 400 * a + (100 * b + 4 * c + e)" by simp_all
  then have div: "?z div 4 = 100 * a + 25 * b + c" "?z div 100 = 4 * a + b" "?z div 400 = a"
    using b c e by (auto intro!: int_div_pos_eq)
  have start: "year_start (year_of d) = 146097 * a + 36524 * b + 1461 * c + 365 * e"
    unfolding year_start_def y using div by simp
  then show "year_start (year_of d) \<le> d" using r e c unfolding r1_def by simp
  have "year_of d = 4 * (100 * a + 25 * b + c) + (e + 1)" "year_of d = 100 * (4 * a + b) + (4 * c + e + 1)"
    "year_of d = 400 * a + (100 * b + 4 * c + e + 1)" by (simp_all add: y)
  then have "year_of d mod 4 = (e + 1) mod 4" "year_of d mod 100 = (4 * c + e + 1) mod 100"
    "year_of d mod 400 = (100 * b + 4 * c + e + 1) mod 400" by (metis mod_mult_self4)+
  moreover have "(e + 1) mod 4 = 0 \<longleftrightarrow> e = 3" "(4 * c + e + 1) mod 100 = 0 \<longleftrightarrow> c = 24 \<and> e = 3"
    "(100 * b + 4 * c + e + 1) mod 400 = 0 \<longleftrightarrow> b = 3 \<and> c = 24 \<and> e = 3"
    using b(1,2) c(1,2) e(1,2) by (subst mod_full; linarith)+
  moreover have "c < 24 \<longleftrightarrow> c \<noteq> 24" using c(2) by linarith
  ultimately have "is_leap (year_of d) \<longleftrightarrow> e = 3 \<and> (c < 24 \<or> b = 3)"
    unfolding is_leap_def by (simp only:) blast
  moreover have "c = 24 \<Longrightarrow> b < 3 \<Longrightarrow> r2 < 1460" using b c by simp
  ultimately show "d < year_start (year_of d + 1)"
    using start r b c e unfolding year_start_Suc r1_def by (auto simp: not_less)
qed


section \<open>The day of a date\<close>

lemma month_day_bounds:
  "0 \<le> d \<Longrightarrow> d < sum_list ls \<Longrightarrow> \<forall>l \<in> set ls. 0 < l \<Longrightarrow>
    \<exists>i n. month_day m ls d = (m + int i, n) \<and> i < length ls \<and> 1 \<le> n \<and> n \<le> ls ! i \<and> d = sum_list (take i ls) + n - 1"
proof (induction m ls d rule: month_day.induct)
  case (2 m l ls d)
  show ?case
  proof (cases "d < l")
    case True
    with "2.prems" show ?thesis by (intro exI [of _ 0] exI [of _ "d + 1"]) auto
  next
    case False
    with 2 obtain i n where "month_day (m + 1) ls (d - l) = (m + 1 + int i, n)" "i < length ls" "1 \<le> n" "n \<le> ls ! i"
      "d - l = sum_list (take i ls) + n - 1" by auto
    with False show ?thesis by (intro exI [of _ "Suc i"] exI [of _ n]) auto
  qed
qed simp

lemma month_lengths_pos: "\<forall>l \<in> set (month_lengths y). 0 < l"
  by (simp add: month_lengths_def)

lemma length_month_lengths [simp]: "length (month_lengths y) = 12"
  by (simp add: month_lengths_def)

lemma date_day:
  assumes "date t = (y, m, d)"
  shows "y = year_of (t div Day)" and "1 \<le> m" and "m \<le> 12" and "1 \<le> d" and "d \<le> month_lengths y ! nat (m - 1)"
    and "days_of y m d = t div Day"
proof -
  let ?d = "t div Day"
  show y: "y = year_of ?d" using assms by (simp add: date_def Let_def)
  have "0 \<le> ?d - year_start y" "?d - year_start y < sum_list (month_lengths y)"
    using year_of_bounds [of ?d] by (simp_all add: y year_start_Suc sum_month_lengths)
  then obtain i n where i: "month_day 1 (month_lengths y) (?d - year_start y) = (1 + int i, n)" "i < 12" "1 \<le> n"
    "n \<le> month_lengths y ! i" "?d - year_start y = sum_list (take i (month_lengths y)) + n - 1"
    using month_day_bounds [of "?d - year_start y" "month_lengths y" 1] month_lengths_pos by auto
  then have "m = 1 + int i" "d = n" using assms y by (auto simp: date_def Let_def)
  with i show "1 \<le> m" "m \<le> 12" "1 \<le> d" "d \<le> month_lengths y ! nat (m - 1)" "days_of y m d = ?d"
    by (simp_all add: days_of_def)
qed

lemma month_length_two_digits: "m < 12 \<Longrightarrow> month_lengths y ! m \<le> 31"
proof -
  assume "m < 12"
  have "list_all (\<lambda>l. l \<le> 31) (month_lengths y)" by (simp add: month_lengths_def)
  with \<open>m < 12\<close> show ?thesis by (simp add: list_all_length)
qed

text \<open>Years 1 to 9999 are the days before the day 3652059.\<close>

lemma year_range: "0 \<le> d \<Longrightarrow> 1 \<le> year_of d" "d < 3652059 \<Longrightarrow> year_of d \<le> 9999"
proof -
  have starts: "year_start 1 = 0" "year_start 10000 = 3652059" by (simp_all add: year_start_def)
  show "1 \<le> year_of d" if "0 \<le> d"
    using year_start_mono [of "year_of d + 1" 1] year_of_bounds(2) [of d] that starts by (cases "1 \<le> year_of d") auto
  show "year_of d \<le> 9999" if "d < 3652059"
    using year_start_mono [of 10000 "year_of d"] year_of_bounds(1) [of d] that starts by (cases "year_of d \<le> 9999") auto
qed

section \<open>What Format prints, Parse reads\<close>

lemma take_number_fixed:
  "0 \<le> n \<Longrightarrow> take_number w acc (fixed w n @ s) = Some (acc * 10 ^ w + n mod 10 ^ w, s)"
proof -
  have ext: "take_number (v + w) acc (x @ s) = (case take_number v acc x of None \<Rightarrow> None | Some (a, r) \<Rightarrow> take_number w a (r @ s))"
    if "length x = v" for v w acc s and x :: string
    using that by (induction v acc x arbitrary: s rule: take_number.induct) (auto split: option.split)
  have len: "length (fixed w n) = w" for w n by (induction w n rule: fixed.induct) auto
  assume "0 \<le> n"
  then show ?thesis
  proof (induction w arbitrary: n acc s)
    case (Suc w)
    have "take_number (w + 1) acc (fixed w (n div 10) @ digit_char (n mod 10) # s)
        = Some (10 * (acc * 10 ^ w + n div 10 mod 10 ^ w) + n mod 10, s)"
      using Suc.IH [of "n div 10" acc "[]"] Suc.prems by (subst ext) (simp_all add: len)
    moreover have "n mod 10 ^ Suc w = 10 * (n div 10 mod 10 ^ w) + n mod 10"
      using mod_mult2_eq' [of n 10 "10 ^ w"] by simp
    ultimately show ?case by (simp add: algebra_simps)
  qed simp
qed

lemma div_below: "0 < k \<Longrightarrow> x < n * k \<Longrightarrow> x div k < n" for x k n :: int
  by (smt (verit) div_mult_mod_eq mult_right_mono pos_mod_sign)

lemma parse_stamp_stamp:
  assumes "0 \<le> t" and "t < 3652059 * Day"
  shows "parse_stamp (stamp t) = Some (t - t mod Second)"
proof -
  obtain y m d where date: "date t = (y, m, d)" by (metis prod_cases3)
  note day = date_day [OF date]
  define s where "s = t mod Day div Second"
  have s: "0 \<le> s" "s < 86400" using div_below [of Second "t mod Day" 86400] by (simp_all add: s_def)
  have y: "1 \<le> y" "y \<le> 9999" using day(1) year_range [of "t div Day"] assms div_below [of Day t 3652059] by (simp_all add: pos_imp_zdiv_nonneg_iff)
  have "nat (m - 1) < 12" using day(2,3) by simp
  then have d: "d \<le> 31" using day(5) month_length_two_digits [of "nat (m - 1)" y] by simp
  have number: "take_number 4 0 (padded 4 y @ r) = Some (y, r)"
    "0 \<le> n \<Longrightarrow> n < 100 \<Longrightarrow> take_number 2 0 (padded 2 n @ r) = Some (n, r)" for n r
    using take_number_fixed [of y 4 0 r] take_number_fixed [of n 2 0 r] y by (simp_all add: padded_def)
  define h where "h = s div 3600"
  define mi where "mi = s div 60 mod 60"
  define sec where "sec = s mod 60"
  have clock: "0 \<le> h" "h < 24" "0 \<le> mi" "mi < 60" "0 \<le> sec" "sec < 60"
    using s div_below [of 3600 s 24] by (simp_all add: h_def mi_def sec_def pos_imp_zdiv_nonneg_iff)
  have "s div 60 = 60 * h + mi"
    unfolding h_def mi_def using zdiv_zmult2_eq [of 60 s 60] mult_div_mod_eq [of 60 "s div 60"] by simp
  then have "s = 3600 * h + 60 * mi + sec" using mult_div_mod_eq [of 60 s] by (simp add: sec_def)
  moreover have "t mod Day mod Second = t mod Second" by (rule mod_mod_cancel) simp
  then have "t mod Day = Second * s + t mod Second" unfolding s_def by (metis mult_div_mod_eq)
  ultimately have total: "t div Day * Day + h * Hour + mi * Minute + sec * Second = t - t mod Second"
    using mult_div_mod_eq [of Day t] by simp
  have "stamp t = padded 4 y @ padded 2 m @ padded 2 d @ ''T'' @ padded 2 h @ padded 2 mi @ padded 2 sec @ ''Z''"
    by (simp add: stamp_def date Let_def h_def mi_def sec_def s_def)
  moreover have "cut_prefix (''T'' @ r) ''T'' = Some r" "take_fraction ''Z'' = (0, ''Z'')" for r
    by (simp_all add: cut_prefix_append take_fraction_def del: append_Cons)
  moreover have "take_number 2 0 (padded 2 m @ r) = Some (m, r)" "take_number 2 0 (padded 2 d @ r) = Some (d, r)"
    "take_number 2 0 (padded 2 h @ r) = Some (h, r)" "take_number 2 0 (padded 2 mi @ r) = Some (mi, r)"
    "take_number 2 0 (padded 2 sec @ r) = Some (sec, r)" for r
    using day(2-4) d clock by (simp_all add: number(2))
  ultimately show ?thesis
    unfolding parse_stamp_def using number(1) clock day(2-6)
    by (simp only: option.case prod.case if_False total not_less simp_thms) (simp add: total not_le)
qed


section \<open>Stamps are in the order of time\<close>

lemma length_fixed [simp]: "length (fixed w n) = w"
  by (induction w n rule: fixed.induct) auto

lemma lex_append: "length a = length b \<Longrightarrow> a < b \<Longrightarrow> a @ x < b @ y" for a b :: "'a :: linorder list"
  by (induction a b rule: list_induct2) auto

lemma lex_same_prefix: "x < y \<Longrightarrow> a @ x < a @ y" for a :: "'a :: linorder list"
  by (induction a) auto

lemma digit_char_less: "0 \<le> m \<Longrightarrow> m < n \<Longrightarrow> n < 10 \<Longrightarrow> digit_char m < digit_char n"
proof -
  assume "0 \<le> m" "m < n" "n < 10"
  then have "(of_char (digit_char m) :: int) < of_char (digit_char n)" by (simp add: digit_char_def)
  then have "int (of_char (digit_char m)) < int (of_char (digit_char n))" by (simp only: of_nat_of_char)
  then show ?thesis by (simp add: less_char_def)
qed

lemma fixed_less: "0 \<le> m \<Longrightarrow> m < n \<Longrightarrow> n < 10 ^ w \<Longrightarrow> fixed w m < fixed w n"
proof (induction w arbitrary: m n)
  case (Suc w)
  have "m div 10 < n div 10 \<or> m div 10 = n div 10 \<and> m mod 10 < n mod 10"
    using Suc.prems(2) zdiv_mono1 [of m n 10] mult_div_mod_eq [of 10 m] mult_div_mod_eq [of 10 n] by linarith
  then show ?case
  proof
    assume "m div 10 < n div 10"
    then have "fixed w (m div 10) < fixed w (n div 10)"
      using Suc.prems div_below [of 10 n "10 ^ w"] by (intro Suc.IH) (simp_all add: pos_imp_zdiv_nonneg_iff)
    then show ?thesis by (simp add: lex_append)
  next
    assume "m div 10 = n div 10 \<and> m mod 10 < n mod 10"
    then have "digit_char (m mod 10) < digit_char (n mod 10)" by (intro digit_char_less) simp_all
    with \<open>m div 10 = n div 10 \<and> m mod 10 < n mod 10\<close> show ?thesis by (simp add: lex_same_prefix)
  qed
qed simp

lemma fixed_append: "0 \<le> b \<Longrightarrow> b < 10 ^ w \<Longrightarrow> fixed v a @ fixed w b = fixed (v + w) (a * 10 ^ w + b)"
proof (induction w arbitrary: b)
  case (Suc w)
  have "(a * 10 ^ Suc w + b) div 10 = a * 10 ^ w + b div 10" "(a * 10 ^ Suc w + b) mod 10 = b mod 10"
    using div_mult_self3 [of 10 "a * 10 ^ w" b] mod_mult_self3 [of "a * 10 ^ w" 10 b] by (simp_all add: algebra_simps)
  moreover have "fixed v a @ fixed w (b div 10) = fixed (v + w) (a * 10 ^ w + b div 10)"
    using Suc.prems div_below [of 10 b "10 ^ w"] by (intro Suc.IH) (simp_all add: pos_imp_zdiv_nonneg_iff)
  ultimately show ?case by (simp flip: append_assoc)
next
  case 0
  then have "b = 0" by simp
  then show ?case by simp
qed

lemma month_day_mono:
  "d < d' \<Longrightarrow> month_day m ls d = (a, n) \<Longrightarrow> month_day m ls d' = (a', n') \<Longrightarrow> a < a' \<or> a = a' \<and> n < n'"
proof (induction m ls d arbitrary: d' rule: month_day.induct)
  case (2 m l ls d)
  have "m \<le> fst (month_day m ls d)" for m ls d by (induction m ls d rule: month_day.induct) fastforce+
  from this [of "m + 1" ls "d' - l"] 2(2-4) 2(1) [of "d' - l"] show ?case by (auto split: if_splits)
qed auto

lemma year_of_mono: "d \<le> d' \<Longrightarrow> year_of d \<le> year_of d'"
  using year_of_bounds [of d] year_of_bounds [of d'] year_start_mono [of "year_of d' + 1" "year_of d"]
  by (cases "year_of d \<le> year_of d'") auto

lemma date_mono:
  assumes "t div Day < t' div Day" and "date t = (y, m, d)" and "date t' = (y', m', d')"
  shows "y < y' \<or> y = y' \<and> (m < m' \<or> m = m' \<and> d < d')"
proof -
  note a = date_day [OF assms(2)] date_day [OF assms(3)]
  have "y \<le> y'" using year_of_mono [of "t div Day" "t' div Day"] assms(1) a(1,7) by simp
  then show ?thesis
    using month_day_mono [of "t div Day - year_start y" "t' div Day - year_start y" 1 "month_lengths y" m d m' d'] assms a(1,7)
    by (auto simp: date_def Let_def)
qed

lemma padded_fixed: "0 \<le> n \<Longrightarrow> n < 10 ^ w \<Longrightarrow> padded w n = fixed w n"
  by (simp add: padded_def)

text \<open>A stamp is one number of eight digits, the letter, and one of six.\<close>

lemma stamp_numbers:
  assumes "0 \<le> t" and "t < 3652059 * Day" and "date t = (y, m, d)"
  shows "stamp t = fixed 8 (10000 * y + 100 * m + d)
      @ CHR ''T'' # fixed 6 (10000 * (t mod Day div Second div 3600) + 100 * (t mod Day div Second div 60 mod 60)
          + t mod Day div Second mod 60) @ ''Z''"
    and "1 \<le> y \<and> y \<le> 9999 \<and> 1 \<le> m \<and> m \<le> 12 \<and> 1 \<le> d \<and> d \<le> 31"
proof -
  note day = date_day [OF assms(3)]
  have y: "1 \<le> y" "y \<le> 9999"
    using day(1) year_range [of "t div Day"] assms div_below [of Day t 3652059] by (simp_all add: pos_imp_zdiv_nonneg_iff)
  have "nat (m - 1) < 12" using day(2,3) by simp
  then have d: "d \<le> 31" using day(5) month_length_two_digits [of "nat (m - 1)" y] by simp
  with y day show "1 \<le> y \<and> y \<le> 9999 \<and> 1 \<le> m \<and> m \<le> 12 \<and> 1 \<le> d \<and> d \<le> 31" by simp
  define s where "s = t mod Day div Second"
  have s: "0 \<le> s" "s div 3600 < 24" "0 \<le> s div 3600"
    using div_below [of Second "t mod Day" 86400] div_below [of 3600 s 24] unfolding s_def by (auto simp: pos_imp_zdiv_nonneg_iff)
  have "padded 4 y @ padded 2 m @ padded 2 d = fixed 8 (10000 * y + 100 * m + d)"
    using fixed_append [of m 2 4 y] fixed_append [of d 2 6 "y * 100 + m"] y d day(2-4) by (simp add: padded_def algebra_simps flip: append_assoc)
  moreover have "padded 2 (s div 3600) @ padded 2 (s div 60 mod 60) @ padded 2 (s mod 60)
      = fixed 6 (10000 * (s div 3600) + 100 * (s div 60 mod 60) + s mod 60)"
  proof -
    have "fixed 2 (s div 3600) @ fixed 2 (s div 60 mod 60) = fixed 4 (s div 3600 * 100 + s div 60 mod 60)"
      using fixed_append [of "s div 60 mod 60" 2 2 "s div 3600"] pos_mod_bound [of 60 "s div 60"] by simp
    moreover have "fixed 4 (s div 3600 * 100 + s div 60 mod 60) @ fixed 2 (s mod 60)
        = fixed 6 ((s div 3600 * 100 + s div 60 mod 60) * 100 + s mod 60)"
      using fixed_append [of "s mod 60" 2 4 "s div 3600 * 100 + s div 60 mod 60"] pos_mod_bound [of 60 s] by simp
    moreover have "padded 2 (s div 3600) = fixed 2 (s div 3600)" "padded 2 (s div 60 mod 60) = fixed 2 (s div 60 mod 60)"
      "padded 2 (s mod 60) = fixed 2 (s mod 60)"
      using s pos_mod_bound [of 60 s] pos_mod_bound [of 60 "s div 60"] pos_mod_sign [of 60 s] pos_mod_sign [of 60 "s div 60"]
      by (auto intro!: padded_fixed)
    ultimately show ?thesis by (simp add: algebra_simps flip: append_assoc)
  qed
  ultimately show "stamp t = fixed 8 (10000 * y + 100 * m + d)
      @ CHR ''T'' # fixed 6 (10000 * (t mod Day div Second div 3600) + 100 * (t mod Day div Second div 60 mod 60)
          + t mod Day div Second mod 60) @ ''Z''"
    unfolding stamp_def assms(3) s_def [symmetric] by (simp add: Let_def flip: append_assoc)
qed


lemma stamp_less:
  assumes "0 \<le> t" and "t' < 3652059 * Day" and "t div Second < t' div Second"
  shows "stamp t < stamp t'"
proof -
  have "t < t'" using assms(3) zdiv_mono1 [of t' t Second] by linarith
  then have range: "0 \<le> t" "t < 3652059 * Day" "0 \<le> t'" "t' < 3652059 * Day" using assms by linarith+
  obtain y m d where date: "date t = (y, m, d)" by (metis prod_cases3)
  obtain y' m' d' where date': "date t' = (y', m', d')" by (metis prod_cases3)
  note a = stamp_numbers [OF range(1,2) date] and b = stamp_numbers [OF range(3,4) date']
  show ?thesis
  proof (cases "t div Day < t' div Day")
    case True
    then have "10000 * y + 100 * m + d < 10000 * y' + 100 * m' + d'"
      using date_mono [OF True date date'] a(2) b(2) by auto
    then have "fixed 8 (10000 * y + 100 * m + d) < fixed 8 (10000 * y' + 100 * m' + d')"
      using a(2) b(2) by (intro fixed_less) auto
    then show ?thesis unfolding a(1) b(1) by (intro lex_append) simp_all
  next
    case False
    then have same: "t div Day = t' div Day" using \<open>t < t'\<close> zdiv_mono1 [of t t' Day] by linarith
    then have "date t = date t'" by (simp add: date_def Let_def)
    then have "(y, m, d) = (y', m', d')" using date date' by simp
    define s where "s = t mod Day div Second"
    define s' where "s' = t' mod Day div Second"
    have secs: "x mod Day div Second = x div Second - 86400 * (x div Day)" for x :: int
    proof -
      have "x = (86400 * (x div Day)) * Second + x mod Day" using mult_div_mod_eq [of Day x] by simp
      then have "x div Second = 86400 * (x div Day) + x mod Day div Second"
        using div_mult_self3 [of Second "86400 * (x div Day)" "x mod Day"] by simp
      then show ?thesis by simp
    qed
    have "s < s'" unfolding s_def s'_def secs using assms(3) same by linarith
    have s: "0 \<le> s" "s' < 86400" using div_below [of Second "t' mod Day" 86400] by (simp_all add: s_def s'_def pos_imp_zdiv_nonneg_iff)
    have split: "x div 3600 = x div 60 div 60" for x :: int using zdiv_zmult2_eq [of 60 x 60] by simp
    have number: "10000 * (x div 3600) + 100 * (x div 60 mod 60) + x mod 60 = x + 40 * (x div 60) + 4000 * (x div 3600)" for x :: int
      using mult_div_mod_eq [of 60 x] mult_div_mod_eq [of 60 "x div 60"] split [of x] by linarith
    have "s div 60 \<le> s' div 60" "s div 3600 \<le> s' div 3600" "s' div 60 < 1440" "s' div 3600 < 24" "0 \<le> s div 60" "0 \<le> s div 3600"
      using \<open>s < s'\<close> s div_below [of 60 s' 1440] div_below [of 3600 s' 24]
      by (simp_all add: zdiv_mono1 pos_imp_zdiv_nonneg_iff)
    moreover have ten6: "(10 :: int) ^ 6 = 1000000" by simp
    ultimately have "fixed 6 (10000 * (s div 3600) + 100 * (s div 60 mod 60) + s mod 60)
        < fixed 6 (10000 * (s' div 3600) + 100 * (s' div 60 mod 60) + s' mod 60)"
      unfolding number using \<open>s < s'\<close> s ten6 by (intro fixed_less) linarith+
    then have clock: "fixed 6 (10000 * (s div 3600) + 100 * (s div 60 mod 60) + s mod 60) @ ''Z''
        < fixed 6 (10000 * (s' div 3600) + 100 * (s' div 60 mod 60) + s' mod 60) @ ''Z''"
      by (rule lex_append [rotated]) (simp only: length_fixed)
    have "y = y'" "m = m'" "d = d'" using \<open>(y, m, d) = (y', m', d')\<close> by blast+
    with lex_same_prefix [OF lex_same_prefix [OF clock, of "''T''"], of "fixed 8 (10000 * y' + 100 * m' + d')"] show ?thesis
      unfolding a(1) b(1) s_def s'_def by (simp only: append_Cons append_Nil)
  qed
qed


lemma stamp_length:
  assumes "0 \<le> t" and "t < 3652059 * Day"
  shows "length (stamp t) = 16"
proof -
  obtain y m d where date: "date t = (y, m, d)" by (metis prod_cases3)
  show ?thesis unfolding stamp_numbers(1) [OF assms date] by simp
qed

end
