(* ===== verification/Recorder.thy ===== *)
theory Recorder
  imports Go_Time
begin

text \<open>
  The recorder (\<open>internal/record/record.go\<close>): messages go to MCAP files that rotate, and are read
  back.  The MCAP and protobuf libraries are parameters (\<open>library\<close> for writing, \<open>mcap_reader\<close> for
  reading); a file is the sequence of operations its MCAP writer was given.  An operation that
  fails leaves no trace.  The file system is one directory: a path is a prefix followed by a name.
\<close>

unbundle bit_operations_syntax

section \<open>Checksum\<close>

text \<open>CRC-32C, least significant bit first.\<close>

definition crc_bit :: "32 word \<Rightarrow> 32 word" where
  "crc_bit s = (if bit s 0 then drop_bit 1 s XOR 0x82F63B78 else drop_bit 1 s)"

definition crc_byte :: "char \<Rightarrow> 32 word \<Rightarrow> 32 word" where
  "crc_byte c s = (crc_bit ^^ 8) (s XOR word_of_nat (of_char c))"

definition checksum :: "bytes \<Rightarrow> 32 word" where
  "checksum payload = NOT (fold crc_byte payload (NOT 0))"

section \<open>Records and files\<close>

record mqtt_record =
  mr_ReceivedAt :: time
  mr_Topic :: string
  mr_Retained :: bool
  mr_Qos :: int
  mr_Payload :: bytes
  mr_Crc :: "32 word"

datatype mcap_op =
    Op_Header string string
  | Op_Schema "16 word" string string bytes
  | Op_Channel "16 word" "16 word" string string
  | Op_Message "16 word" "32 word" "64 word" "64 word" bytes

record disk_file =
  df_Ops :: "mcap_op list"
  df_Complete :: bool

type_synonym disk = "(string, disk_file) gomap"

text \<open>
  The libraries and the operating system, as the writer meets them: whether a file that does not exist is
  created, whether an operation or the closing of a file succeeds, the bytes of a record, the
  descriptors of its schema, and the text of the header.
\<close>

record world =
  wd_create :: "string \<Rightarrow> bool"
  wd_op :: "string \<Rightarrow> mcap_op \<Rightarrow> bool"
  wd_close :: "string \<Rightarrow> bool"
  wd_marshal :: "mqtt_record \<Rightarrow> bytes option"
  wd_descriptors :: "bytes option"
  wd_Library :: string

record open_file =
  of_started :: time
  of_name :: string
  of_channels :: "(string, 16 word) gomap"
  of_seq :: "(16 word, 32 word) gomap"

record recorder =
  rr_disk :: disk
  rr_file :: "open_file option"
  rr_written :: nat
  rr_opened :: nat
  rr_errors :: nat

record write_options =
  wo_Prefix :: string
  wo_RotateEvery :: duration

abbreviation (input) schemaName :: string where "schemaName \<equiv> ''curtilage.v1.Record''"

section \<open>File names\<close>

definition file_name :: "time \<Rightarrow> string" where
  "file_name t = ''curtilage-'' @ stamp t @ ''.mcap''"

definition parse_file_name :: "string \<Rightarrow> time option" where
  "parse_file_name name =
     (if \<not> has_prefix name ''curtilage-'' \<or> \<not> has_suffix name ''.mcap'' then None
      else let s = trim_suffix (trim_prefix name ''curtilage-'') ''.mcap''
           in parse_stamp (takeWhile (\<lambda>c. c \<noteq> CHR ''-'') s))"

text \<open>The name tried at the i-th attempt: the base, then the base with a number.\<close>

definition numbered :: "string \<Rightarrow> nat \<Rightarrow> string" where
  "numbered base i =
     (if i = 0 then base else take (length base - 5) base @ ''-'' @ itoa (int i) @ ''.mcap'')"

section \<open>Opening\<close>

text \<open>The attempts, up to the number 1000: the name of the file created.\<close>

function try_names :: "world \<Rightarrow> disk \<Rightarrow> string \<Rightarrow> nat \<Rightarrow> string option" where
  "try_names w d base i =
     (if gm_get d (numbered base i) \<noteq> None then (if 1000 \<le> i then None else try_names w d base (Suc i))
      else if wd_create w (numbered base i) then Some (numbered base i) else None)"
  by pat_completeness auto
termination
  by (relation "measure (\<lambda>(w, d, base, i). 1001 - i)") auto

declare try_names.simps [simp del]

text \<open>An operation of the MCAP writer of a file: the disk after it, None when it fails.\<close>

definition put_op :: "world \<Rightarrow> string \<Rightarrow> mcap_op \<Rightarrow> disk \<Rightarrow> disk option" where
  "put_op w name x d =
     (case gm_get d name of
        None \<Rightarrow> None
      | Some f \<Rightarrow> if wd_op w name x then Some (gm_set name (f\<lparr>df_Ops := df_Ops f @ [x]\<rparr>) d) else None)"

text \<open>\<open>newFile\<close>: the disk, changed even when it fails, and the open file.\<close>

definition new_file :: "world \<Rightarrow> string \<Rightarrow> time \<Rightarrow> disk \<Rightarrow> disk \<times> open_file option" where
  "new_file w name now d =
     (case put_op w name (Op_Header [] (wd_Library w)) d of
        None \<Rightarrow> (d, None)
      | Some d1 \<Rightarrow>
          (case wd_descriptors w of
             None \<Rightarrow> (d1, None)
           | Some fds \<Rightarrow>
               (case put_op w name (Op_Schema 1 schemaName ''protobuf'' fds) d1 of
                  None \<Rightarrow> (d1, None)
                | Some d2 \<Rightarrow> (d2, Some \<lparr>of_started = now, of_name = name, of_channels = [], of_seq = []\<rparr>))))"

abbreviation empty_file :: disk_file where "empty_file \<equiv> \<lparr>df_Ops = [], df_Complete = False\<rparr>"

definition open_recording :: "world \<Rightarrow> time \<Rightarrow> disk \<Rightarrow> disk \<times> open_file option" where
  "open_recording w now d =
     (case try_names w d (file_name now) 0 of
        None \<Rightarrow> (d, None)
      | Some name \<Rightarrow> new_file w name now (gm_set name empty_file d))"

section \<open>Writing\<close>

text \<open>\<open>channel\<close>: the id is the number of channels plus one, in 16 bits.\<close>

definition channel :: "world \<Rightarrow> string \<Rightarrow> open_file \<Rightarrow> disk \<Rightarrow> (16 word \<times> open_file \<times> disk) option" where
  "channel w topic f d =
     (case gm_get (of_channels f) topic of
        Some i \<Rightarrow> Some (i, f, d)
      | None \<Rightarrow>
          let i = word_of_nat (length (of_channels f) + 1)
          in map_option (\<lambda>d1. (i, f\<lparr>of_channels := gm_set topic i (of_channels f)\<rparr>, d1))
               (put_op w (of_name f) (Op_Channel i 1 topic ''protobuf'') d))"

definition next_seq :: "16 word \<Rightarrow> open_file \<Rightarrow> 32 word" where
  "next_seq i f = (case gm_get (of_seq f) i of None \<Rightarrow> 0 | Some n \<Rightarrow> n) + 1"

definition log_time :: "mqtt_record \<Rightarrow> 64 word" where
  "log_time r = word_of_int (unix_nano (mr_ReceivedAt r))"

text \<open>\<open>file.write\<close>: the file and the disk after it, and whether it succeeded.\<close>

definition write_record :: "world \<Rightarrow> mqtt_record \<Rightarrow> open_file \<Rightarrow> disk \<Rightarrow> open_file \<times> disk \<times> bool" where
  "write_record w r f d =
     (case wd_marshal w r of
        None \<Rightarrow> (f, d, False)
      | Some b \<Rightarrow>
          (case channel w (mr_Topic r) f d of
             None \<Rightarrow> (f, d, False)
           | Some (i, f1, d1) \<Rightarrow>
               let f2 = f1\<lparr>of_seq := gm_set i (next_seq i f1) (of_seq f1)\<rparr>
               in case put_op w (of_name f1) (Op_Message i (next_seq i f1) (log_time r) (log_time r) b) d1 of
                    None \<Rightarrow> (f2, d1, False)
                  | Some d2 \<Rightarrow> (f2, d2, True)))"

definition sealed :: "mqtt_record \<Rightarrow> mqtt_record" where
  "sealed r = r\<lparr>mr_Crc := checksum (mr_Payload r)\<rparr>"

text \<open>\<open>file.close\<close>, and \<open>closeCurrent\<close>: whether it succeeded.\<close>

definition close_file :: "world \<Rightarrow> string \<Rightarrow> disk \<Rightarrow> disk \<times> bool" where
  "close_file w name d =
     (case gm_get d name of
        None \<Rightarrow> (d, False)
      | Some f \<Rightarrow> if wd_close w name then (gm_set name (f\<lparr>df_Complete := True\<rparr>) d, True) else (d, False))"

definition close_current :: "world \<Rightarrow> recorder \<Rightarrow> recorder \<times> bool" where
  "close_current w s =
     (case rr_file s of
        None \<Rightarrow> (s, True)
      | Some f \<Rightarrow> (case close_file w (of_name f) (rr_disk s) of (d, good) \<Rightarrow> (s\<lparr>rr_disk := d, rr_file := None\<rparr>, good)))"

section \<open>The loop of Write\<close>

text \<open>What the select receives; the arrival of a record comes with the time it is handled at.\<close>

datatype recorder_event = Cancelled | Rotate_asked | Ticked time | Received mqtt_record time | Input_closed

datatype recorder_result = Going | Answered string | Finished | Failed

definition over_age :: "write_options \<Rightarrow> time \<Rightarrow> recorder \<Rightarrow> bool" where
  "over_age opts now s =
     (case rr_file s of None \<Rightarrow> False | Some f \<Rightarrow> wo_RotateEvery opts \<le> time_sub now (of_started f))"

definition ensure_open :: "world \<Rightarrow> time \<Rightarrow> recorder \<Rightarrow> recorder \<times> bool" where
  "ensure_open w now s =
     (if rr_file s \<noteq> None then (s, True)
      else case open_recording w now (rr_disk s) of
        (d, None) \<Rightarrow> (s\<lparr>rr_disk := d\<rparr>, False)
      | (d, Some f) \<Rightarrow> (s\<lparr>rr_disk := d, rr_file := Some f, rr_opened := rr_opened s + 1\<rparr>, True))"

definition store_record :: "world \<Rightarrow> mqtt_record \<Rightarrow> recorder \<Rightarrow> recorder" where
  "store_record w r s =
     (case rr_file s of
        None \<Rightarrow> s
      | Some f \<Rightarrow>
          (case write_record w (sealed r) f (rr_disk s) of
             (f', d, good) \<Rightarrow>
               let s' = s\<lparr>rr_file := Some f', rr_disk := d\<rparr>
               in if good then s'\<lparr>rr_written := rr_written s + 1\<rparr> else s'\<lparr>rr_errors := rr_errors s + 1\<rparr>))"

fun write_step :: "world \<Rightarrow> write_options \<Rightarrow> recorder_event \<Rightarrow> recorder \<Rightarrow> recorder \<times> recorder_result" where
  "write_step w opts Cancelled s = (case close_current w s of (s1, good) \<Rightarrow> (s1, if good then Finished else Failed))"
| "write_step w opts Input_closed s = (case close_current w s of (s1, good) \<Rightarrow> (s1, if good then Finished else Failed))"
| "write_step w opts Rotate_asked s =
     (let path = (case rr_file s of None \<Rightarrow> [] | Some f \<Rightarrow> wo_Prefix opts @ of_name f)
      in case close_current w s of (s1, good) \<Rightarrow> (s1, if good then Answered path else Failed))"
| "write_step w opts (Ticked now) s =
     (if over_age opts now s then (case close_current w s of (s1, good) \<Rightarrow> (s1, if good then Going else Failed))
      else (s, Going))"
| "write_step w opts (Received r now) s =
     (case (if over_age opts now s then close_current w s else (s, True)) of
        (s1, False) \<Rightarrow> (s1, Failed)
      | (s1, True) \<Rightarrow>
          (case ensure_open w now s1 of
             (s2, False) \<Rightarrow> (s2, Failed)
           | (s2, True) \<Rightarrow> (store_record w r s2, Going)))"

text \<open>The loop over what is received, to the return of Write: its last result, and the answers given.\<close>

fun write_run :: "world \<Rightarrow> write_options \<Rightarrow> recorder_event list \<Rightarrow> recorder \<Rightarrow> recorder \<times> recorder_result \<times> string list" where
  "write_run w opts [] s = (s, Going, [])"
| "write_run w opts (e # es) s =
     (case write_step w opts e s of
        (s1, Going) \<Rightarrow> write_run w opts es s1
      | (s1, Answered p) \<Rightarrow> (case write_run w opts es s1 of (s2, r, ps) \<Rightarrow> (s2, r, p # ps))
      | (s1, r) \<Rightarrow> (s1, r, []))"

definition idle_check_every :: "duration \<Rightarrow> duration" where
  "idle_check_every every =
     (let d = sgn every * (\<bar>every\<bar> div 10); d1 = (if d < 10 * Millisecond then 10 * Millisecond else d)
      in if Minute < d1 then Minute else d1)"

section \<open>WriteFile\<close>

fun write_records :: "world \<Rightarrow> mqtt_record list \<Rightarrow> open_file \<Rightarrow> disk \<Rightarrow> disk \<times> bool" where
  "write_records w [] f d = close_file w (of_name f) d"
| "write_records w (r # rs) f d =
     (case write_record w (sealed r) f d of
        (f', d', False) \<Rightarrow> (fst (close_file w (of_name f') d'), False)
      | (f', d', True) \<Rightarrow> write_records w rs f' d')"

definition write_file :: "world \<Rightarrow> string \<Rightarrow> time \<Rightarrow> mqtt_record list \<Rightarrow> disk \<Rightarrow> disk \<times> bool" where
  "write_file w name now rs d =
     (if \<not> wd_create w name then (d, False)
      else case new_file w name now (gm_set name empty_file d) of
        (d1, None) \<Rightarrow> (d1, False)
      | (d1, Some f) \<Rightarrow> write_records w rs f d1)"

section \<open>Reading\<close>

text \<open>
  The MCAP reader: whether a file opens, what its messages are by the index in the order of their log times and
  from the start in the order of the file (None when there is no iterator), as the name of the
  schema and the data of each, and whether the end is the end of the file or an error.
\<close>

record mcap_reader =
  mc_opens :: "disk_file \<Rightarrow> bool"
  mc_indexed :: "disk_file \<Rightarrow> ((string option \<times> bytes) list \<times> bool) option"
  mc_linear :: "disk_file \<Rightarrow> ((string option \<times> bytes) list \<times> bool) option"
  mc_unmarshal :: "bytes \<Rightarrow> mqtt_record option"

datatype read_result = Read_ok | Read_truncated | Read_corrupt nat | Read_corrupt_truncated nat | Read_failed

definition finish :: "bool \<Rightarrow> nat \<Rightarrow> read_result" where
  "finish truncated corrupt =
     (if 0 < corrupt \<and> truncated then Read_corrupt_truncated corrupt
      else if 0 < corrupt then Read_corrupt corrupt
      else if truncated then Read_truncated else Read_ok)"

text \<open>The loop over the messages: what is delivered and how it ends, when nobody cancels it.\<close>

fun read_loop :: "(bytes \<Rightarrow> mqtt_record option) \<Rightarrow> bool \<Rightarrow> bool \<Rightarrow> nat \<Rightarrow> (string option \<times> bytes) list
    \<Rightarrow> mqtt_record list \<times> read_result" where
  "read_loop unmarshal truncated eof corrupt [] =
     ([], if eof then finish truncated corrupt else if truncated then finish True corrupt else Read_failed)"
| "read_loop unmarshal truncated eof corrupt ((schema, data) # ms) =
     (if schema \<noteq> Some schemaName then read_loop unmarshal truncated eof corrupt ms
      else case unmarshal data of
        None \<Rightarrow> ([], Read_failed)
      | Some r \<Rightarrow>
          if checksum (mr_Payload r) \<noteq> mr_Crc r then read_loop unmarshal truncated eof (corrupt + 1) ms
          else (case read_loop unmarshal truncated eof corrupt ms of (rs, res) \<Rightarrow> (r # rs, res)))"

definition read_file :: "mcap_reader \<Rightarrow> disk_file option \<Rightarrow> mqtt_record list \<times> read_result" where
  "read_file m f =
     (case f of
        None \<Rightarrow> ([], Read_failed)
      | Some f \<Rightarrow>
          if \<not> mc_opens m f then ([], Read_failed)
          else (case mc_indexed m f of
             Some (ms, eof) \<Rightarrow> read_loop (mc_unmarshal m) False eof 0 ms
           | None \<Rightarrow>
               (case mc_linear m f of
                  None \<Rightarrow> ([], Read_failed)
                | Some (ms, eof) \<Rightarrow> read_loop (mc_unmarshal m) True eof 0 ms)))"


section \<open>The checksum catches a changed byte\<close>

lemma xor_cancel: "a XOR c = b XOR c \<longleftrightarrow> a = b" "c XOR a = c XOR b \<longleftrightarrow> a = b" for a b c :: "32 word"
  by (auto simp: bit_eq_iff bit_xor_iff)

lemma crc_bit_inject: "crc_bit a = crc_bit b \<longleftrightarrow> a = b"
proof
  assume eq: "crc_bit a = crc_bit b"
  have top: "bit (crc_bit s) 31 \<longleftrightarrow> bit s 0" for s
  proof -
    have "\<not> bit (drop_bit 1 s) 31" using bit_imp_le_length [of s 32] by (auto simp: bit_drop_bit_eq)
    moreover have "bit (0x82F63B78 :: 32 word) 31" by code_simp
    ultimately show ?thesis by (simp add: crc_bit_def bit_xor_iff)
  qed
  have low: "bit a 0 = bit b 0" using eq top by metis
  then have "drop_bit 1 a = drop_bit 1 b"
    using eq by (auto simp: crc_bit_def xor_cancel split: if_splits)
  then have "bit a (Suc n) = bit b (Suc n)" for n by (metis bit_drop_bit_eq comp_apply plus_1_eq_Suc)
  then have "bit a n = bit b n" for n using low by (cases n) auto
  then show "a = b" by (simp add: bit_eq_iff)
qed simp

lemma crc_byte_inject: "crc_byte c s = crc_byte c s' \<longleftrightarrow> s = s'"
proof -
  have "(crc_bit ^^ n) a = (crc_bit ^^ n) b \<longleftrightarrow> a = b" for n a b
    by (induction n) (simp_all add: crc_bit_inject)
  then show ?thesis by (simp add: crc_byte_def xor_cancel)
qed

lemma crc_byte_inject_byte: "crc_byte c s = crc_byte c' s \<longleftrightarrow> c = c'"
proof
  have iter: "(crc_bit ^^ n) a = (crc_bit ^^ n) b \<longleftrightarrow> a = b" for n a b
    by (induction n) (simp_all add: crc_bit_inject)
  assume "crc_byte c s = crc_byte c' s"
  then have "s XOR word_of_nat (of_char c) = s XOR word_of_nat (of_char c')"
    unfolding crc_byte_def iter .
  then have "(word_of_nat (of_char c) :: 32 word) = word_of_nat (of_char c')"
    by (simp only: xor_cancel)
  moreover have "unat (word_of_nat (of_char d) :: 32 word) = of_char d" for d :: char
    using less_trans [OF nat_of_char_less_256 [of d], of 4294967296] by (simp add: unat_of_nat del: nat_of_char_less_256)
  ultimately have "(of_char c :: nat) = of_char c'" by metis
  then show "c = c'" by simp
qed simp

lemma fold_crc_inject: "fold crc_byte xs s = fold crc_byte xs s' \<longleftrightarrow> s = s'"
  by (induction xs arbitrary: s s') (simp_all add: crc_byte_inject)

lemma checksum_one_byte: "checksum (xs @ a # ys) = checksum (xs @ b # ys) \<longleftrightarrow> a = b"
  by (simp add: checksum_def fold_crc_inject crc_byte_inject_byte)

section \<open>Names\<close>

lemma stamp_chars:
  assumes "0 \<le> t" and "t < 3652059 * Day"
  shows "CHR ''-'' \<notin> set (stamp t)"
proof -
  obtain y m d where date: "date t = (y, m, d)" by (metis prod_cases3)
  have digits: "c \<in> set (fixed w n) \<Longrightarrow> c \<in> digit_chars" for c w n
    by (induction w n rule: fixed.induct) (auto simp: digit_chars_def)
  have nodash: "CHR ''-'' \<notin> set (fixed w n)" for w n using digits digit_chars_neq(1) by blast
  show ?thesis
    unfolding stamp_numbers(1) [OF assms date] using nodash by simp
qed

lemma has_suffix_append [simp]: "has_suffix (x @ s) s"
  by (simp add: has_suffix_def)

lemma trim_suffix_append [simp]: "trim_suffix (x @ s) s = x"
  by (simp add: trim_suffix_def)

lemma trim_prefix_append [simp]: "trim_prefix (p @ s) p = s"
  by (simp add: trim_prefix_def)

lemma numbered_file_name:
  "numbered (file_name t) i = ''curtilage-'' @ (stamp t @ (if i = 0 then [] else ''-'' @ itoa (int i))) @ ''.mcap''"
proof -
  have "take (length (x @ ''.mcap'') - 5) (x @ ''.mcap'') = x" for x :: string by simp
  from this [of "''curtilage-'' @ stamp t"] show ?thesis
    by (simp add: numbered_def file_name_def)
qed

lemma parse_framed:
  "parse_file_name (''curtilage-'' @ s @ ''.mcap'') = parse_stamp (takeWhile (\<lambda>c. c \<noteq> CHR ''-'') s)"
proof -
  have "has_suffix (''curtilage-'' @ s @ ''.mcap'') ''.mcap''"
    using has_suffix_append [of "''curtilage-'' @ s" "''.mcap''"] by (simp only: append_assoc)
  then show ?thesis
    unfolding parse_file_name_def Let_def by (simp only: has_prefix_append trim_prefix_append trim_suffix_append simp_thms if_False)
qed

lemma parse_numbered:
  assumes "0 \<le> t" and "t < 3652059 * Day"
  shows "parse_file_name (numbered (file_name t) i) = Some (t - t mod Second)"
proof -
  have "takeWhile (\<lambda>c. c \<noteq> CHR ''-'') (stamp t @ (if i = 0 then [] else ''-'' @ itoa (int i))) = stamp t"
    using stamp_chars [OF assms] by (auto simp: takeWhile_append)
  then show ?thesis
    unfolding numbered_file_name parse_framed by (simp add: parse_stamp_stamp [OF assms])
qed

text \<open>
  C40. The name of a recording says when it started. For an instant of the years 1 to 9999, the name
  FileName gives it, and each of the names with a number that a second file of the same second
  gets, parses back to that instant, to the second.
\<close>
theorem name_roundtrip:
  assumes "0 \<le> t" and "t < 3652059 * Day"
  shows "parse_file_name (numbered (file_name t) i) = Some (t - t mod Second)"
  by (rule parse_numbered [OF assms])

lemma name_roundtrip_base:
  assumes "0 \<le> t" and "t < 3652059 * Day"
  shows "parse_file_name (file_name t) = Some (t - t mod Second)"
proof -
  have "takeWhile (\<lambda>c. c \<noteq> CHR ''-'') (stamp t) = stamp t"
    using stamp_chars [OF assms] by (auto intro: takeWhile_eq_all_conv [THEN iffD2])
  then show ?thesis unfolding file_name_def parse_framed by (simp only: parse_stamp_stamp [OF assms])
qed

lemma name_roundtrip_witness:
  "parse_file_name (numbered (file_name (unix_epoch + 1787918400 * Second + 7)) 2) = Some (unix_epoch + 1787918400 * Second)"
  using name_roundtrip [of "unix_epoch + 1787918400 * Second + 7" 2] by simp

lemma file_name_value: "file_name (unix_epoch + 1787918400 * Second) = ''curtilage-20260828T120000Z.mcap''"
  by code_simp

text \<open>The names of one second are not in the order of their files: a number sorts before the base.\<close>

lemma numbered_sorts_first: "0 < i \<Longrightarrow> numbered (file_name t) i < file_name t"
proof -
  assume "0 < i"
  have "''-'' @ itoa (int i) @ ''.mcap'' < ''.mcap''" by (simp add: less_char_def)
  then have "(''curtilage-'' @ stamp t) @ ''-'' @ itoa (int i) @ ''.mcap'' < (''curtilage-'' @ stamp t) @ ''.mcap''"
    by (rule lex_same_prefix)
  with \<open>0 < i\<close> show ?thesis unfolding numbered_file_name unfolding file_name_def by simp
qed


section \<open>The writer without faults\<close>

text \<open>What a file holds of the records, in order.\<close>

definition op_message :: "mcap_op \<Rightarrow> (64 word \<times> bytes) option" where
  "op_message x = (case x of Op_Message i n l p b \<Rightarrow> Some (l, b) | _ \<Rightarrow> None)"

definition file_messages :: "disk_file \<Rightarrow> (64 word \<times> bytes) list" where
  "file_messages f = List.map_filter op_message (df_Ops f)"

definition disk_messages :: "disk \<Rightarrow> (64 word \<times> bytes) list" where
  "disk_messages d = concat (map (file_messages \<circ> snd) d)"

text \<open>The operations of a file that make sense: its channels are of the schema, its messages of its channels.\<close>

fun ops_ok :: "16 word set \<Rightarrow> mcap_op list \<Rightarrow> bool" where
  "ops_ok C [] = True"
| "ops_ok C (Op_Channel i k t e # xs) = (k = 1 \<and> ops_ok (insert i C) xs)"
| "ops_ok C (Op_Message i n l p b # xs) = (i \<in> C \<and> ops_ok C xs)"
| "ops_ok C (x # xs) = False"

fun declared :: "mcap_op list \<Rightarrow> 16 word set" where
  "declared [] = {}"
| "declared (Op_Channel i k t e # xs) = insert i (declared xs)"
| "declared (x # xs) = declared xs"

definition well_framed :: "disk_file \<Rightarrow> bool" where
  "well_framed f \<longleftrightarrow> (\<exists>l fds xs. df_Ops f = Op_Header [] l # Op_Schema 1 schemaName ''protobuf'' fds # xs \<and> ops_ok {} xs)"

definition faultless :: "world \<Rightarrow> bool" where
  "faultless w \<longleftrightarrow> (\<forall>n. wd_create w n) \<and> (\<forall>n x. wd_op w n x) \<and> (\<forall>n. wd_close w n) \<and>
     (\<forall>r. wd_marshal w r \<noteq> None) \<and> wd_descriptors w \<noteq> None"

text \<open>
  The recorder over a disk it started on: every file it has made is complete, but the last one
  while it is open.
\<close>

definition recording :: "disk \<Rightarrow> recorder \<Rightarrow> disk \<Rightarrow> bool" where
  "recording d0 s new \<longleftrightarrow> rr_disk s = d0 @ new \<and> gm_wf (rr_disk s) \<and>
     (\<forall>(n, f) \<in> set new. well_framed f) \<and>
     (case rr_file s of
        None \<Rightarrow> \<forall>(n, f) \<in> set new. df_Complete f
      | Some g \<Rightarrow> \<exists>full f. new = full @ [(of_name g, f)] \<and> \<not> df_Complete f \<and> (\<forall>(n, f) \<in> set full. df_Complete f)
          \<and> snd ` set (of_channels g) \<subseteq> declared (df_Ops f))"

lemma map_filter_append: "List.map_filter g (xs @ ys) = List.map_filter g xs @ List.map_filter g ys"
  by (simp add: List.map_filter_def)

lemma ops_ok_append: "ops_ok C (xs @ ys) \<longleftrightarrow> ops_ok C xs \<and> ops_ok (C \<union> declared xs) ys"
  by (induction C xs rule: ops_ok.induct) auto

lemma declared_append [simp]: "declared (xs @ ys) = declared xs \<union> declared ys"
  by (induction xs rule: declared.induct) auto

lemma well_framed_snoc:
  assumes "well_framed f" and "ops_ok (declared (df_Ops f)) [x]"
  shows "well_framed (f\<lparr>df_Ops := df_Ops f @ [x]\<rparr>)"
  using assms by (auto simp: well_framed_def ops_ok_append)

lemma gm_set_value_of: "(a, b) \<in> set (gm_set k v m) \<Longrightarrow> b = v \<or> (\<exists>c. (c, b) \<in> set m)"
  by (induction m) (auto split: if_splits)

lemma gm_set_last: "k \<notin> set (gm_keys m) \<Longrightarrow> gm_set k v (m @ [(k, u)]) = m @ [(k, v)]"
  by (induction m) auto

lemma gm_get_last: "k \<notin> set (gm_keys m) \<Longrightarrow> gm_get (m @ [(k, v)]) k = Some v"
  by (induction m) auto

lemma put_op_last:
  "faultless w \<Longrightarrow> n \<notin> set (gm_keys d) \<Longrightarrow>
    put_op w n x (d @ [(n, f)]) = Some (d @ [(n, f\<lparr>df_Ops := df_Ops f @ [x]\<rparr>)])"
  by (simp add: put_op_def faultless_def gm_get_last gm_set_last del: map_of_append)

lemma new_file_last:
  assumes "faultless w" and "n \<notin> set (gm_keys d)"
  shows "\<exists>f. new_file w n now (d @ [(n, empty_file)])
    = (d @ [(n, f)], Some \<lparr>of_started = now, of_name = n, of_channels = [], of_seq = []\<rparr>)
    \<and> file_messages f = [] \<and> \<not> df_Complete f \<and> well_framed f"
proof -
  obtain fds where "wd_descriptors w = Some fds" using assms(1) by (auto simp: faultless_def)
  then show ?thesis
    by (simp add: new_file_def put_op_last [OF assms] file_messages_def op_message_def map_filter_simps well_framed_def)
qed

lemma try_names_new: "try_names w d base i = Some n \<Longrightarrow> gm_get d n = None \<and> (\<exists>j \<ge> i. n = numbered base j)"
proof (induction w d base i rule: try_names.induct)
  case (1 w d base i)
  have step: "try_names w d base i =
      (if gm_get d (numbered base i) \<noteq> None then (if 1000 \<le> i then None else try_names w d base (Suc i))
       else if wd_create w (numbered base i) then Some (numbered base i) else None)"
    by (rule try_names.simps)
  show ?case
  proof (cases "gm_get d (numbered base i) = None")
    case True
    with "1.prems" show ?thesis unfolding step by (auto split: if_splits)
  next
    case False
    with "1.prems" have "\<not> 1000 \<le> i" "try_names w d base (Suc i) = Some n"
      unfolding step by (auto split: if_splits)
    with "1.IH" False show ?thesis by (meson Suc_leD)
  qed
qed

lemma ensure_open_recording:
  assumes "faultless w" and "recording d0 s new" and "ensure_open w now s = (s1, True)"
  shows "\<exists>new1. recording d0 s1 new1 \<and> disk_messages new1 = disk_messages new \<and> rr_file s1 \<noteq> None
    \<and> rr_errors s1 = rr_errors s \<and> rr_written s1 = rr_written s"
proof (cases "rr_file s")
  case (Some f)
  with assms(2,3) show ?thesis by (auto simp: ensure_open_def)
next
  case None
  with assms(3) obtain n where n: "try_names w (rr_disk s) (file_name now) 0 = Some n"
    by (auto simp: ensure_open_def open_recording_def split: option.splits)
  then have "n \<notin> set (gm_keys (rr_disk s))" using try_names_new by (fastforce simp: map_of_eq_None_iff)
  then obtain f where "new_file w n now (rr_disk s @ [(n, empty_file)])
      = (rr_disk s @ [(n, f)], Some \<lparr>of_started = now, of_name = n, of_channels = [], of_seq = []\<rparr>)"
    and f: "file_messages f = []" "\<not> df_Complete f" "well_framed f"
    using new_file_last [OF assms(1)] by blast
  then have "s1 = s\<lparr>rr_disk := rr_disk s @ [(n, f)],
      rr_file := Some \<lparr>of_started = now, of_name = n, of_channels = [], of_seq = []\<rparr>, rr_opened := rr_opened s + 1\<rparr>"
    using assms(3) None n \<open>n \<notin> set (gm_keys (rr_disk s))\<close>
    by (simp add: ensure_open_def open_recording_def gm_set_new)
  moreover have "gm_wf (rr_disk s)" using assms(2) unfolding recording_def by blast
  then have "gm_wf (rr_disk s @ [(n, f)])" using \<open>n \<notin> set (gm_keys (rr_disk s))\<close> by simp
  ultimately have "recording d0 s1 (new @ [(n, f)])"
    using assms(2) None f(2,3) by (simp add: recording_def image_Un)
  moreover have "disk_messages (new @ [(n, f)]) = disk_messages new" by (simp add: disk_messages_def f(1))
  ultimately show ?thesis using \<open>s1 = _\<close> by auto
qed


definition file_of :: "open_file \<Rightarrow> disk_file \<Rightarrow> bool" where
  "file_of g f \<longleftrightarrow> \<not> df_Complete f \<and> well_framed f \<and> snd ` set (of_channels g) \<subseteq> declared (df_Ops f)"

lemma channel_last:
  assumes "faultless w" and "n \<notin> set (gm_keys d)" and "of_name f = n" and "file_of f g"
  shows "\<exists>i f1 g1. channel w topic f (d @ [(n, g)]) = Some (i, f1, d @ [(n, g1)]) \<and> of_name f1 = n
    \<and> file_messages g1 = file_messages g \<and> file_of f1 g1 \<and> i \<in> declared (df_Ops g1)"
proof (cases "gm_get (of_channels f) topic")
  case None
  then show ?thesis
    using None assms(4) well_framed_snoc [of g]
    by (auto simp: channel_def Let_def assms(3) put_op_last [OF assms(1,2)] file_messages_def op_message_def
        map_filter_append map_filter_simps file_of_def dest!: gm_set_value_of)
next
  case (Some i)
  with assms(4) have "i \<in> declared (df_Ops g)" by (force simp: file_of_def dest: map_of_SomeD)
  with Some assms(3,4) show ?thesis by (simp add: channel_def)
qed

lemma write_record_last:
  assumes "faultless w" and "n \<notin> set (gm_keys d)" and "of_name f = n" and "wd_marshal w r = Some b" and "file_of f g"
  shows "\<exists>f1 g1. write_record w r f (d @ [(n, g)]) = (f1, d @ [(n, g1)], True) \<and> of_name f1 = n
    \<and> file_messages g1 = file_messages g @ [(log_time r, b)] \<and> file_of f1 g1"
proof -
  obtain i f1 g1 where ch: "channel w (mr_Topic r) f (d @ [(n, g)]) = Some (i, f1, d @ [(n, g1)])" "of_name f1 = n"
    "file_messages g1 = file_messages g" "file_of f1 g1" "i \<in> declared (df_Ops g1)"
    using channel_last [OF assms(1-3,5)] by blast
  let ?g2 = "g1\<lparr>df_Ops := df_Ops g1 @ [Op_Message i (next_seq i f1) (log_time r) (log_time r) b]\<rparr>"
  have "file_of (f1\<lparr>of_seq := gm_set i (next_seq i f1) (of_seq f1)\<rparr>) ?g2"
    using ch(4,5) well_framed_snoc [of g1] by (auto simp: file_of_def)
  moreover have "file_messages ?g2 = file_messages g @ [(log_time r, b)]"
    using ch(3) by (simp add: file_messages_def op_message_def map_filter_append map_filter_simps)
  ultimately show ?thesis
    using ch by (simp add: write_record_def assms(4) put_op_last [OF assms(1,2)] Let_def)
qed

definition as_message :: "world \<Rightarrow> mqtt_record \<Rightarrow> 64 word \<times> bytes" where
  "as_message w r = (log_time r, the (wd_marshal w (sealed r)))"

lemma log_time_sealed [simp]: "log_time (sealed r) = log_time r"
  by (simp add: log_time_def sealed_def)

lemma store_record_recording:
  assumes "faultless w" and "recording d0 s new" and "rr_file s \<noteq> None"
  shows "\<exists>new1. recording d0 (store_record w r s) new1 \<and> disk_messages new1 = disk_messages new @ [as_message w r]
    \<and> rr_errors (store_record w r s) = rr_errors s \<and> rr_written (store_record w r s) = rr_written s + 1"
proof -
  obtain f where f: "rr_file s = Some f" using assms(3) by blast
  with assms(2) obtain full g where new: "new = full @ [(of_name f, g)]" "\<not> df_Complete g"
    "\<forall>(n, f) \<in> set full. df_Complete f" "rr_disk s = d0 @ full @ [(of_name f, g)]" "gm_wf (rr_disk s)"
    "\<forall>(n, f) \<in> set full. well_framed f" "file_of f g"
    by (auto simp: recording_def file_of_def)
  then have fresh: "of_name f \<notin> set (gm_keys (d0 @ full))" by auto
  obtain b where b: "wd_marshal w (sealed r) = Some b" using assms(1) unfolding faultless_def by blast
  obtain f1 g1 where w: "write_record w (sealed r) f ((d0 @ full) @ [(of_name f, g)])
      = (f1, (d0 @ full) @ [(of_name f, g1)], True)" "of_name f1 = of_name f"
    "file_messages g1 = file_messages g @ [(log_time r, b)]" "file_of f1 g1"
    using write_record_last [OF assms(1) fresh refl b new(7)] by auto
  have step: "store_record w r s = s\<lparr>rr_file := Some f1, rr_disk := (d0 @ full) @ [(of_name f, g1)], rr_written := rr_written s + 1\<rparr>"
    using w(1) new(4) by (simp add: store_record_def f Let_def)
  have "recording d0 (store_record w r s) (full @ [(of_name f, g1)])"
    using new w(2,4) by (simp add: step recording_def file_of_def)
  moreover have "disk_messages (full @ [(of_name f, g1)]) = disk_messages new @ [as_message w r]"
    by (simp add: disk_messages_def new(1) w(3) as_message_def b)
  ultimately show ?thesis by (auto simp: step)
qed

lemma close_current_recording:
  assumes "faultless w" and "recording d0 s new"
  shows "\<exists>s1 new1. close_current w s = (s1, True) \<and> recording d0 s1 new1 \<and> disk_messages new1 = disk_messages new
    \<and> rr_file s1 = None \<and> rr_errors s1 = rr_errors s \<and> rr_written s1 = rr_written s"
proof (cases "rr_file s")
  case None
  with assms(2) show ?thesis by (auto simp: close_current_def)
next
  case (Some f)
  with assms(2) obtain full g where new: "new = full @ [(of_name f, g)]" "\<not> df_Complete g"
    "\<forall>(n, f) \<in> set full. df_Complete f" "rr_disk s = d0 @ full @ [(of_name f, g)]" "gm_wf (rr_disk s)"
    "\<forall>(n, f) \<in> set new. well_framed f"
    by (auto simp: recording_def)
  then have fresh: "of_name f \<notin> set (gm_keys (d0 @ full))" by auto
  have "close_file w (of_name f) ((d0 @ full) @ [(of_name f, g)])
      = ((d0 @ full) @ [(of_name f, g\<lparr>df_Complete := True\<rparr>)], True)"
    using assms(1) gm_get_last [OF fresh] gm_set_last [OF fresh] by (simp add: close_file_def faultless_def del: map_of_append)
  then have step: "close_current w s
      = (s\<lparr>rr_disk := (d0 @ full) @ [(of_name f, g\<lparr>df_Complete := True\<rparr>)], rr_file := None\<rparr>, True)"
    using new(4) by (simp add: close_current_def Some)
  have "recording d0 (fst (close_current w s)) (full @ [(of_name f, g\<lparr>df_Complete := True\<rparr>)])"
    using new by (auto simp: step recording_def well_framed_def)
  moreover have "disk_messages (full @ [(of_name f, g\<lparr>df_Complete := True\<rparr>)]) = disk_messages new"
    by (simp add: disk_messages_def new(1) file_messages_def)
  ultimately show ?thesis by (auto simp: step)
qed

text \<open>The records a run takes: those that arrive before it is cancelled or its input is closed.\<close>

fun taken :: "recorder_event list \<Rightarrow> mqtt_record list" where
  "taken [] = []"
| "taken (Received r now # es) = r # taken es"
| "taken (Cancelled # es) = []"
| "taken (Input_closed # es) = []"
| "taken (e # es) = taken es"

lemma step_recording:
  assumes "faultless w" and "recording d0 s new" and "write_step w opts e s = (s1, res)" and "res \<noteq> Failed"
  shows "\<exists>new1. recording d0 s1 new1 \<and> disk_messages new1 = disk_messages new @ map (as_message w) (taken [e])
    \<and> rr_errors s1 = rr_errors s \<and> rr_written s1 = rr_written s + length (taken [e])
    \<and> (res = Finished \<longrightarrow> rr_file s1 = None) \<and> (res = Finished \<longleftrightarrow> e = Cancelled \<or> e = Input_closed)"
proof -
  obtain s2 new2 where close: "close_current w s = (s2, True)" "recording d0 s2 new2" "disk_messages new2 = disk_messages new"
    "rr_file s2 = None" "rr_errors s2 = rr_errors s" "rr_written s2 = rr_written s"
    using close_current_recording [OF assms(1,2)] by blast
  show ?thesis
  proof (cases e)
    case (Received r now)
    obtain s3 new3 where aged: "(if over_age opts now s then close_current w s else (s, True)) = (s3, True)"
      "recording d0 s3 new3" "disk_messages new3 = disk_messages new" "rr_errors s3 = rr_errors s" "rr_written s3 = rr_written s"
      using close assms(2) by (cases "over_age opts now s") auto
    obtain s4 good where open': "ensure_open w now s3 = (s4, good)" by fastforce
    with assms(3,4) aged(1) Received have good: "good" "s1 = store_record w r s4" "res = Going"
      by (auto simp del: split_paired_Ex split: bool.splits if_splits)
    from open' good(1) have "ensure_open w now s3 = (s4, True)" by simp
    then obtain new4 where "recording d0 s4 new4" "disk_messages new4 = disk_messages new3" "rr_file s4 \<noteq> None"
      "rr_errors s4 = rr_errors s3" "rr_written s4 = rr_written s3"
      using ensure_open_recording [OF assms(1) aged(2)] by blast
    with store_record_recording [OF assms(1) this(1,3), of r] aged good Received show ?thesis by auto
  qed (use close assms in \<open>auto split: if_splits prod.splits simp: Let_def\<close>)
qed

lemma recording_run:
  assumes "recording d0 s0 new0" and "write_run w opts es s0 = (s, res, answers)" and "res \<noteq> Failed" and "faultless w"
  shows "\<exists>new. recording d0 s new \<and> disk_messages new = disk_messages new0 @ map (as_message w) (taken es)
      \<and> rr_errors s = rr_errors s0 \<and> rr_written s = rr_written s0 + length (taken es) \<and> (res = Finished \<longrightarrow> rr_file s = None)"
  using assms
proof (induction es arbitrary: s0 new0 answers)
  case (Cons e es)
  obtain s1 r1 where step: "write_step w opts e s0 = (s1, r1)" by fastforce
  have "r1 \<noteq> Failed" using Cons.prems(2,3) step by auto
  then obtain new1 where new1: "recording d0 s1 new1" "disk_messages new1 = disk_messages new0 @ map (as_message w) (taken [e])"
    "rr_errors s1 = rr_errors s0" "rr_written s1 = rr_written s0 + length (taken [e])"
    "r1 = Finished \<longrightarrow> rr_file s1 = None" "r1 = Finished \<longleftrightarrow> e = Cancelled \<or> e = Input_closed"
    using step_recording [OF Cons.prems(4,1) step] by blast
  show ?case
  proof (cases "r1 = Finished")
    case True
    with Cons.prems(2) step new1 show ?thesis by (auto intro!: exI [of _ new1])
  next
    case False
    then obtain answers' where rest: "write_run w opts es s1 = (s, res, answers')"
      using Cons.prems(2) step \<open>r1 \<noteq> Failed\<close> by (cases r1) (auto split: prod.splits)
    have "taken (e # es) = taken [e] @ taken es" using False new1(6) by (cases e) auto
    with Cons.IH [OF new1(1) rest Cons.prems(3,4)] new1 show ?thesis by auto
  qed
next
  case Nil
  then show ?case by (intro exI [of _ new0]) auto
qed

lemma fresh_recording_run:
  assumes "faultless w" and "gm_wf d0"
    and "write_run w opts es \<lparr>rr_disk = d0, rr_file = None, rr_written = 0, rr_opened = 0, rr_errors = 0\<rparr> = (s, res, answers)"
    and "res \<noteq> Failed"
  shows "\<exists>new. rr_disk s = d0 @ new \<and> gm_wf (rr_disk s) \<and> disk_messages new = map (as_message w) (taken es)
    \<and> rr_written s = length (taken es) \<and> rr_errors s = 0
    \<and> (\<forall>(n, f) \<in> set new. well_framed f) \<and> (res = Finished \<longrightarrow> (\<forall>(n, f) \<in> set new. df_Complete f))"
proof -
  obtain new where new: "recording d0 s new" "disk_messages new = map (as_message w) (taken es)" "rr_errors s = 0"
    "rr_written s = length (taken es)" "res = Finished \<longrightarrow> rr_file s = None"
    using recording_run [OF _ assms(3,4,1), of d0 "[]"] assms(2) by (auto simp: recording_def disk_messages_def)
  have "rr_disk s = d0 @ new \<and> gm_wf (rr_disk s) \<and> (\<forall>(n, f) \<in> set new. well_framed f)"
    using new(1) unfolding recording_def by blast
  moreover have "res = Finished \<longrightarrow> (\<forall>(n, f) \<in> set new. df_Complete f)"
    using new(1,5) by (auto simp: recording_def)
  ultimately show ?thesis using new(2-4) by blast
qed

text \<open>
  C15. The recorder loses nothing. On a file system and libraries without faults, whatever the
  order of messages, ticks and rotation requests, and whatever the disk held, as long as Write
  does not fail it has added to the files that were there well-formed files whose messages, file after
  file, are exactly the records received, in order, each with its log time and its checksum set;
  none is counted as an error; and when Write has returned, every file it made is complete.
\<close>
theorem recorder_loses_nothing:
  assumes "faultless w" and "gm_wf d0"
    and "write_run w opts es \<lparr>rr_disk = d0, rr_file = None, rr_written = 0, rr_opened = 0, rr_errors = 0\<rparr> = (s, res, answers)"
    and "res \<noteq> Failed"
  shows "\<exists>new. rr_disk s = d0 @ new \<and> gm_wf (rr_disk s) \<and> disk_messages new = map (as_message w) (taken es)
    \<and> rr_written s = length (taken es) \<and> rr_errors s = 0
    \<and> (\<forall>(n, f) \<in> set new. well_framed f) \<and> (res = Finished \<longrightarrow> (\<forall>(n, f) \<in> set new. df_Complete f))"
  by (rule fresh_recording_run [OF assms])

text \<open>A faultless world of records whose bytes are their payloads.\<close>

definition plain_world :: world where
  "plain_world = \<lparr>wd_create = (\<lambda>_. True), wd_op = (\<lambda>_ _. True), wd_close = (\<lambda>_. True),
     wd_marshal = (\<lambda>r. Some (mr_Payload r)), wd_descriptors = Some [], wd_Library = ''curtilage dev''\<rparr>"

abbreviation new_recorder :: "disk \<Rightarrow> recorder" where
  "new_recorder d \<equiv> \<lparr>rr_disk = d, rr_file = None, rr_written = 0, rr_opened = 0, rr_errors = 0\<rparr>"

definition plain_record :: "string \<Rightarrow> mqtt_record" where
  "plain_record b = \<lparr>mr_ReceivedAt = unix_epoch + 1787918400 * Second, mr_Topic = ''frigate/events'', mr_Retained = False,
     mr_Qos = 1, mr_Payload = b, mr_Crc = 0\<rparr>"

lemma faultless_plain: "faultless plain_world"
  by (simp add: faultless_def plain_world_def)

section \<open>Reading back\<close>

text \<open>
  What the MCAP reader promises: the index of a complete, well-formed file whose log times do not
  decrease gives its messages in the order of the file, with the schema of their channels.
\<close>

definition reader_ok :: "mcap_reader \<Rightarrow> bool" where
  "reader_ok m \<longleftrightarrow> (\<forall>f. df_Complete f \<and> well_framed f \<and> sorted (map fst (file_messages f)) \<longrightarrow>
     mc_opens m f \<and> mc_indexed m f = Some (map (\<lambda>(l, b). (Some schemaName, b)) (file_messages f), True))"

text \<open>Unmarshalling a record that was marshalled gives it back.\<close>

definition codec_ok :: "world \<Rightarrow> mcap_reader \<Rightarrow> mqtt_record list \<Rightarrow> bool" where
  "codec_ok w m rs \<longleftrightarrow> (\<forall>r \<in> set rs. Option.bind (wd_marshal w (sealed r)) (mc_unmarshal m) = Some (sealed r))"

lemma checksum_sealed [simp]: "checksum (mr_Payload (sealed r)) = mr_Crc (sealed r)"
  by (simp add: sealed_def)

lemma read_loop_append:
  assumes "\<forall>b \<in> set bs. \<exists>r. unmarshal b = Some r \<and> checksum (mr_Payload r) = mr_Crc r"
  shows "read_loop unmarshal truncated eof corrupt (map (Pair (Some schemaName)) bs @ ms)
    = (case read_loop unmarshal truncated eof corrupt ms of (rs, res) \<Rightarrow> (map (\<lambda>b. the (unmarshal b)) bs @ rs, res))"
  using assms
proof (induction bs)
  case (Cons b bs)
  then obtain r where "unmarshal b = Some r" "checksum (mr_Payload r) = mr_Crc r" by auto
  with Cons show ?case by (simp split: prod.split)
qed (simp split: prod.split)

lemma read_back:
  assumes "reader_ok m" and "df_Complete f" and "well_framed f" and "file_messages f = map (as_message w) rs"
    and "codec_ok w m rs" and "sorted (map log_time rs)"
  shows "read_file m (Some f) = (map sealed rs, Read_ok)"
proof -
  have log: "map fst (file_messages f) = map log_time rs" by (simp add: assms(4) as_message_def)
  let ?bs = "map (\<lambda>r. the (wd_marshal w (sealed r))) rs"
  have "map (\<lambda>(l, b). (Some schemaName, b)) (file_messages f) = map (Pair (Some schemaName)) ?bs @ []"
    by (simp add: assms(4) as_message_def)
  with assms(1-3,6) log have reads: "mc_opens m f"
    and listed: "mc_indexed m f = Some (map (Pair (Some schemaName)) ?bs @ [], True)"
    unfolding reader_ok_def by simp_all
  have decoded: "mc_unmarshal m (the (wd_marshal w (sealed r))) = Some (sealed r)" if "r \<in> set rs" for r
    using assms(5) that by (auto simp: codec_ok_def bind_eq_Some_conv)
  then have "\<forall>b \<in> set ?bs. \<exists>r. mc_unmarshal m b = Some r \<and> checksum (mr_Payload r) = mr_Crc r" by auto
  moreover have "map (\<lambda>b. the (mc_unmarshal m b)) ?bs = map sealed rs" using decoded by simp
  ultimately show ?thesis
    using read_loop_append [of ?bs "mc_unmarshal m" False True 0 "[]"] reads listed by (simp add: read_file_def finish_def)
qed

text \<open>
  C35. A changed byte is noticed, and costs one record. When one byte of one payload of a recording
  is not the one the recorder was given, reading the file delivers all the other records, in
  order, and neither the damaged one nor anything in its place, and the result says that one
  record is corrupt.
\<close>
theorem changed_byte_skipped:
  assumes "mc_opens m f" and "mc_indexed m f = Some (map (Pair (Some schemaName)) (fore @ b # aft), True)"
    and "map (mc_unmarshal m) fore = map (Some \<circ> sealed) rs" and "map (mc_unmarshal m) aft = map (Some \<circ> sealed) rs'"
    and "mr_Payload r = xs @ c # ys" and "mc_unmarshal m b = Some (sealed r\<lparr>mr_Payload := xs @ c' # ys\<rparr>)" and "c' \<noteq> c"
  shows "read_file m (Some f) = (map sealed rs @ map sealed rs', Read_corrupt 1)"
proof -
  have good: "(\<forall>b \<in> set zs. \<exists>r. mc_unmarshal m b = Some r \<and> checksum (mr_Payload r) = mr_Crc r)
      \<and> map (\<lambda>b. the (mc_unmarshal m b)) zs = map sealed qs"
    if "map (mc_unmarshal m) zs = map (Some \<circ> sealed) qs" for zs qs
    using that by (induction zs arbitrary: qs) (auto simp: Cons_eq_map_conv)
  have "checksum (xs @ c' # ys) \<noteq> mr_Crc (sealed r)"
    using assms(5,7) checksum_one_byte [of xs c' ys c] by (simp add: sealed_def)
  then have bad: "read_loop (mc_unmarshal m) False True 0 ((Some schemaName, b) # ms)
      = read_loop (mc_unmarshal m) False True 1 ms" for ms
    by (simp add: assms(6))
  have rest: "read_loop (mc_unmarshal m) False True 1 (map (Pair (Some schemaName)) aft) = (map sealed rs', Read_corrupt 1)"
    using read_loop_append [of aft "mc_unmarshal m" False True 1 "[]"] good [OF assms(4)] by (simp add: finish_def)
  have "read_loop (mc_unmarshal m) False True 0 (map (Pair (Some schemaName)) fore @ (Some schemaName, b) # map (Pair (Some schemaName)) aft)
      = (map sealed rs @ map sealed rs', Read_corrupt 1)"
    using read_loop_append [of fore "mc_unmarshal m" False True 0] good [OF assms(3)] by (simp add: bad rest [unfolded One_nat_def] del: read_loop.simps)
  with assms(1,2) show ?thesis by (simp add: read_file_def)
qed

lemma changed_byte_skipped_witness:
  "read_file \<lparr>mc_opens = (\<lambda>_. True), mc_indexed = (\<lambda>_. Some (map (Pair (Some schemaName)) ([''a''] @ ''b'' # []), True)),
     mc_linear = (\<lambda>_. None),
     mc_unmarshal = (\<lambda>b. if b = ''a'' then Some (sealed (plain_record ''a''))
       else Some (sealed (plain_record ''xcy'')\<lparr>mr_Payload := ''x'' @ CHR ''d'' # ''y''\<rparr>))\<rparr>
    (Some empty_file) = (map sealed [plain_record ''a''] @ map sealed [], Read_corrupt 1)"
  by (rule changed_byte_skipped [where fore = "[''a'']" and b = "''b''" and aft = "[]" and r = "plain_record ''xcy''" and xs = "''x''" and c = "CHR ''c''" and ys = "''y''"
        and c' = "CHR ''d''"]) (simp_all add: plain_record_def)

text \<open>Channel ids have 16 bits: with 65535 topics in a file the next id is 0, which MCAP has for none, and then they repeat.\<close>

lemma channel_ids_wrap:
  assumes "wd_op w n (Op_Channel 0 1 topic ''protobuf'')" and "gm_get d n = Some g" and "of_name f = n"
    and "gm_get (of_channels f) topic = None" and "length (of_channels f) = 65535"
  shows "\<exists>f1 d1. channel w topic f d = Some (0, f1, d1)"
proof -
  have "(word_of_nat 65536 :: 16 word) = 0" by (simp only: of_nat_numeral) simp
  then have "(word_of_nat (65535 + 1) :: 16 word) = 0" by (simp only: numeral_plus_one add_num_simps)
  then have "word_of_nat (length (of_channels f) + 1) = (0 :: 16 word)" unfolding assms(5) .
  with assms(1-4) show ?thesis by (simp only: channel_def Let_def put_op_def) simp
qed


section \<open>Names in the order of time\<close>

lemma gm_keys_overwrite: "gm_get m k = Some u \<Longrightarrow> gm_keys (gm_set k v m) = gm_keys m"
  by (induction m) (auto split: if_splits)

lemma put_op_keys: "put_op w n x d = Some d' \<Longrightarrow> gm_keys d' = gm_keys d"
  by (auto simp: put_op_def gm_keys_overwrite split: option.splits if_splits)

lemma write_record_keys:
  "write_record w r f d = (f', d', good) \<Longrightarrow> gm_keys d' = gm_keys d \<and> of_started f' = of_started f"
  by (auto simp: write_record_def channel_def Let_def dest!: put_op_keys split: option.splits)

lemma close_file_keys: "close_file w n d = (d', good) \<Longrightarrow> gm_keys d' = gm_keys d"
  by (auto simp: close_file_def gm_keys_overwrite split: option.splits if_splits)

lemma new_file_keys: "new_file w n now d = (d', f) \<Longrightarrow> gm_keys d' = gm_keys d"
  by (auto simp: new_file_def dest!: put_op_keys split: option.splits)

text \<open>Events in the order of a clock of the years 1 to 9999, without rotations on request.\<close>

fun steady :: "time \<Rightarrow> recorder_event list \<Rightarrow> bool" where
  "steady c [] = True"
| "steady c (Ticked t # es) = (c \<le> t \<and> steady t es)"
| "steady c (Received r t # es) = (c \<le> t \<and> 0 \<le> t \<and> t < 3652059 * Day \<and> steady t es)"
| "steady c (Rotate_asked # es) = False"
| "steady c (e # es) = True"

text \<open>The files were opened at seconds that increase, and the open one is the last.\<close>

definition in_time :: "time \<Rightarrow> recorder \<Rightarrow> time list \<Rightarrow> bool" where
  "in_time c s ts \<longleftrightarrow> gm_keys (rr_disk s) = map file_name ts \<and>
     sorted_wrt (\<lambda>a b. a div Second < b div Second) ts \<and> (\<forall>t \<in> set ts. 0 \<le> t \<and> t < 3652059 * Day) \<and>
     (case rr_file s of
        None \<Rightarrow> \<forall>t \<in> set ts. t + Second \<le> c
      | Some f \<Rightarrow> ts \<noteq> [] \<and> of_started f = last ts \<and> last ts \<le> c)"

lemma file_name_less: "0 \<le> t \<Longrightarrow> t' < 3652059 * Day \<Longrightarrow> t div Second < t' div Second \<Longrightarrow> file_name t < file_name t'"
  unfolding file_name_def by (intro lex_same_prefix lex_append) (use stamp_less stamp_length in auto)

lemma in_time_later: "in_time c s ts \<Longrightarrow> c \<le> c' \<Longrightarrow> in_time c' s ts"
  by (auto simp: in_time_def split: option.splits)

lemma in_time_close:
  assumes "in_time c s ts" and "over_age opts t s" and "Second \<le> wo_RotateEvery opts" and "wo_RotateEvery opts \<le> max_duration"
    and "close_current w s = (s1, good)"
  shows "in_time t s1 ts"
proof -
  obtain f where f: "rr_file s = Some f" "wo_RotateEvery opts \<le> time_sub t (of_started f)"
    using assms(2) by (auto simp: over_age_def split: option.splits)
  then have ts: "ts \<noteq> []" "last ts + Second \<le> t"
    using assms(1,3,4) by (auto simp: in_time_def time_sub_ge)
  have "x + Second \<le> t" if "x \<in> set ts" for x
  proof -
    have "ts = butlast ts @ [last ts]" using ts(1) by simp
    with assms(1) have "\<forall>y \<in> set (butlast ts). y div Second < last ts div Second"
      by (metis (no_types, lifting) in_time_def list.set_intros(1) sorted_wrt_append)
    moreover have "x \<in> set (butlast ts @ [last ts])" using that ts(1) by simp
    then have "x = last ts \<or> x \<in> set (butlast ts)" by auto
    ultimately have "x \<le> last ts" using zdiv_mono1 [of "last ts" x Second] by (cases "x = last ts") force+
    with ts(2) show ?thesis by simp
  qed
  with assms(1,5) f show ?thesis
    by (auto simp: in_time_def close_current_def dest!: close_file_keys split: prod.splits)
qed


lemma in_time_open:
  assumes "faultless w" and "in_time t s ts" and "0 \<le> t" and "t < 3652059 * Day" and "ensure_open w t s = (s1, True)"
  shows "\<exists>ts1. in_time t s1 ts1 \<and> rr_file s1 \<noteq> None \<and> set ts1 \<subseteq> insert t (set ts)"
proof (cases "rr_file s")
  case (Some f)
  with assms(2,5) show ?thesis by (auto simp: ensure_open_def)
next
  case None
  then have before: "x div Second < t div Second" if "x \<in> set ts" for x
    using assms(2) that zdiv_mono1 [of "x + Second" t Second] by (force simp: in_time_def)
  have less: "file_name x < file_name t" if "x \<in> set ts" for x
    using assms(2,4) that before [OF that] by (intro file_name_less) (auto simp: in_time_def)
  have "file_name t \<noteq> file_name x" if "x \<in> set ts" for x using less [OF that] by simp
  then have "file_name t \<notin> set (gm_keys (rr_disk s))" using assms(2) unfolding in_time_def by auto
  then have "gm_get (rr_disk s) (numbered (file_name t) 0) = None" by (simp add: map_of_eq_None_iff numbered_def)
  then have "try_names w (rr_disk s) (file_name t) 0 = Some (file_name t)"
    using assms(1) by (subst try_names.simps) (simp add: faultless_def numbered_def)
  then obtain d f where nf: "new_file w (file_name t) t (gm_set (file_name t) empty_file (rr_disk s)) = (d, Some f)"
    and s1: "s1 = s\<lparr>rr_disk := d, rr_file := Some f, rr_opened := rr_opened s + 1\<rparr>"
    using assms(5) None by (auto simp: ensure_open_def open_recording_def split: prod.splits option.splits)
  have "of_started f = t" using nf by (auto simp: new_file_def split: option.splits)
  moreover have "gm_keys d = map file_name (ts @ [t])"
    using new_file_keys [OF nf] gm_set_new [OF \<open>file_name t \<notin> _\<close>] assms(2) by (simp add: in_time_def)
  moreover have "sorted_wrt (\<lambda>a b. a div Second < b div Second) (ts @ [t])"
    using assms(2) before by (simp add: in_time_def sorted_wrt_append)
  ultimately have "in_time t s1 (ts @ [t])"
    using assms(2-4) by (auto simp: in_time_def s1)
  with s1 show ?thesis by (intro exI [of _ "ts @ [t]"]) simp
qed

lemma in_time_store: "in_time t s ts \<Longrightarrow> in_time t (store_record w r s) ts"
  by (auto simp: in_time_def store_record_def Let_def dest!: write_record_keys split: option.splits prod.splits)

lemma in_time_run:
  assumes "faultless w" and "Second \<le> wo_RotateEvery opts" and "wo_RotateEvery opts \<le> max_duration"
  shows "in_time c s ts \<Longrightarrow> steady c es \<Longrightarrow> write_run w opts es s = (s1, res, answers) \<Longrightarrow> res \<noteq> Failed \<Longrightarrow>
    \<exists>c1 ts1. (in_time c1 s1 ts1 \<or> gm_keys (rr_disk s1) = map file_name ts1 \<and>
        sorted_wrt (\<lambda>a b. a div Second < b div Second) ts1 \<and> (\<forall>t \<in> set ts1. 0 \<le> t \<and> t < 3652059 * Day))
      \<and> set ts1 \<subseteq> set ts \<union> {t. \<exists>r. Received r t \<in> set es}"
proof (induction es arbitrary: c s ts answers)
  case Nil
  then show ?case by auto
next
  case (Cons e es)
  obtain s2 r2 where step: "write_step w opts e s = (s2, r2)" by fastforce
  have "r2 \<noteq> Failed" using Cons.prems(3,4) step by auto
  show ?case
  proof (cases e)
    case (Ticked t)
    have "in_time t s2 ts \<and> r2 = Going"
      using step Ticked Cons.prems(1,2) \<open>r2 \<noteq> Failed\<close> in_time_close [OF Cons.prems(1) _ assms(2,3)] in_time_later [OF Cons.prems(1)]
      by (auto split: if_splits prod.splits)
    with Cons.IH [of t s2 ts answers] Cons.prems(2-4) Ticked step show ?thesis by auto
  next
    case (Received r t)
    then have t: "c \<le> t" "0 \<le> t" "t < 3652059 * Day" "steady t es" using Cons.prems(2) by auto
    obtain s3 good where aged: "(if over_age opts t s then close_current w s else (s, True)) = (s3, good)" by fastforce
    then have s3: "in_time t s3 ts"
      using in_time_close [OF Cons.prems(1) _ assms(2,3)] in_time_later [OF Cons.prems(1) t(1)] by (auto split: if_splits)
    obtain s4 good' where opened: "ensure_open w t s3 = (s4, good')" by fastforce
    have step': "good" "good'" "s2 = store_record w r s4" "r2 = Going"
      using step Received aged opened \<open>r2 \<noteq> Failed\<close> by (auto split: bool.splits if_splits)
    then obtain ts4 where ts4: "in_time t s4 ts4" "set ts4 \<subseteq> insert t (set ts)"
      using in_time_open [OF assms(1) s3 t(2,3)] opened by auto
    have rest: "write_run w opts es s2 = (s1, res, answers)" using Cons.prems(3) step step' by simp
    show ?thesis
      using Cons.IH [OF in_time_store [OF ts4(1)] t(4) rest [unfolded step'(3)] Cons.prems(4)] ts4(2) Received by (fastforce simp: step'(3))
  next
    case Rotate_asked
    with Cons.prems(2) show ?thesis by simp
  next
    case Cancelled
    then have "s1 = s2" using Cons.prems(3) step by (auto split: prod.splits if_splits)
    then have "gm_keys (rr_disk s1) = gm_keys (rr_disk s)"
      using step Cancelled by (auto simp: close_current_def dest!: close_file_keys split: prod.splits option.splits)
    with Cons.prems(1) show ?thesis by (auto simp: in_time_def intro!: exI [of _ ts])
  next
    case Input_closed
    then have "s1 = s2" using Cons.prems(3) step by (auto split: prod.splits if_splits)
    then have "gm_keys (rr_disk s1) = gm_keys (rr_disk s)"
      using step Input_closed by (auto simp: close_current_def dest!: close_file_keys split: prod.splits option.splits)
    with Cons.prems(1) show ?thesis by (auto simp: in_time_def intro!: exI [of _ ts])
  qed
qed


section \<open>The recorder never fails\<close>

lemma ensure_open_succeeds:
  assumes "faultless w" and "in_time t s ts" and "0 \<le> t" and "t < 3652059 * Day"
  shows "snd (ensure_open w t s)"
proof (cases "rr_file s")
  case None
  have "file_name x < file_name t" if "x \<in> set ts" for x
  proof (rule file_name_less)
    show "0 \<le> x" "t < 3652059 * Day" using assms(2,4) that by (auto simp: in_time_def)
    show "x div Second < t div Second"
      using assms(2) that None zdiv_mono1 [of "x + Second" t Second] by (force simp: in_time_def)
  qed
  then have "file_name t \<noteq> file_name x" if "x \<in> set ts" for x using that by (metis less_irrefl)
  then have fresh: "file_name t \<notin> set (gm_keys (rr_disk s))" using assms(2) unfolding in_time_def by auto
  then have "gm_get (rr_disk s) (numbered (file_name t) 0) = None" by (simp add: map_of_eq_None_iff numbered_def)
  then have "try_names w (rr_disk s) (file_name t) 0 = Some (file_name t)"
    using assms(1) by (subst try_names.simps) (simp add: faultless_def numbered_def)
  moreover obtain f where "new_file w (file_name t) t (rr_disk s @ [(file_name t, empty_file)])
      = (rr_disk s @ [(file_name t, f)], Some \<lparr>of_started = t, of_name = file_name t, of_channels = [], of_seq = []\<rparr>)"
    using new_file_last [OF assms(1) fresh] by blast
  ultimately show ?thesis using None fresh by (simp add: ensure_open_def open_recording_def gm_set_new)
qed (simp add: ensure_open_def)

lemma run_closes:
  "write_run w opts es s = (s1, res, answers) \<Longrightarrow> res \<noteq> Failed \<Longrightarrow> Input_closed \<in> set es \<or> Cancelled \<in> set es \<Longrightarrow> res = Finished"
proof (induction es arbitrary: s answers)
  case (Cons e es)
  obtain s2 r2 where step: "write_step w opts e s = (s2, r2)" by fastforce
  have "e = Input_closed \<or> e = Cancelled \<Longrightarrow> r2 = Finished \<or> r2 = Failed"
    using step by (auto split: prod.splits if_splits)
  with Cons step show ?case by (cases r2) (auto split: prod.splits)
qed simp

lemma steady_never_fails:
  assumes "faultless w" and "Second \<le> wo_RotateEvery opts" and "wo_RotateEvery opts \<le> max_duration"
  shows "recording [] s (rr_disk s) \<Longrightarrow> in_time c s ts \<Longrightarrow> steady c es \<Longrightarrow> fst (snd (write_run w opts es s)) \<noteq> Failed"
proof (induction es arbitrary: c s ts)
  case (Cons e es)
  obtain s1 new1 where close: "close_current w s = (s1, True)" "recording [] s1 new1"
    using close_current_recording [OF assms(1) Cons.prems(1)] by blast
  obtain s2 r2 where step: "write_step w opts e s = (s2, r2)" by fastforce
  have going: ?case if again: "r2 = Going" "in_time c' s2 ts'" "steady c' es" for c' ts'
  proof -
    obtain new2 where "recording [] s2 new2" using step_recording [OF assms(1) Cons.prems(1) step] again(1) by auto
    moreover have "rr_disk s2 = new2" using calculation by (simp add: recording_def)
    ultimately have "recording [] s2 (rr_disk s2)" by simp
    from Cons.IH [OF this again(2,3)] show ?thesis using step again(1) by simp
  qed
  show ?case
  proof (cases e)
    case (Ticked t)
    then have "in_time t s2 ts \<and> r2 = Going"
      using step Cons.prems(3) close(1) in_time_close [OF Cons.prems(2) _ assms(2,3)] in_time_later [OF Cons.prems(2)]
      by (auto split: if_splits prod.splits)
    with going [of t ts] Cons.prems(3) Ticked show ?thesis by simp
  next
    case (Received r t)
    then have t: "c \<le> t" "0 \<le> t" "t < 3652059 * Day" "steady t es" using Cons.prems(3) by auto
    obtain s3 where aged: "(if over_age opts t s then close_current w s else (s, True)) = (s3, True)"
      using close(1) by (cases "over_age opts t s") auto
    then have s3: "in_time t s3 ts"
      using in_time_close [OF Cons.prems(2) _ assms(2,3)] in_time_later [OF Cons.prems(2) t(1)] by (auto split: if_splits)
    then obtain s4 where s4: "ensure_open w t s3 = (s4, True)"
      using ensure_open_succeeds [OF assms(1) s3 t(2,3)] by (metis prod.collapse)
    then obtain ts4 where "in_time t s4 ts4" using in_time_open [OF assms(1) s3 t(2,3)] by blast
    moreover have "s2 = store_record w r s4" "r2 = Going" using step Received aged s4 by auto
    ultimately show ?thesis using going [of t ts4] in_time_store t(4) by simp
  next
    case Rotate_asked
    with Cons.prems(3) show ?thesis by simp
  qed (use step close(1) in auto)
qed simp

lemma steady_run:
  assumes "faultless w" and "Second \<le> wo_RotateEvery opts" and "wo_RotateEvery opts \<le> max_duration" and "steady c es"
  shows "\<exists>s res answers. write_run w opts es (new_recorder []) = (s, res, answers) \<and> res \<noteq> Failed
    \<and> (Input_closed \<in> set es \<or> Cancelled \<in> set es \<longrightarrow> res = Finished)"
proof -
  have "recording [] (new_recorder []) []" "in_time c (new_recorder []) []"
    by (simp_all add: recording_def in_time_def)
  with steady_never_fails [OF assms(1-3), of "new_recorder []" c "[]" es] assms(4) run_closes [of w opts es "new_recorder []"] show ?thesis
    by (metis prod.collapse recorder.select_convs(1))
qed

text \<open>
  Further. The recorder never fails by itself. On a file system and libraries without faults, with a
  steady clock, a rotation period of at least a second and no rotation on request, Write never returns
  an error: there is always a free name for the next file; and when its input is closed or it is
  cancelled, it returns without one.
\<close>
theorem recorder_never_fails:
  assumes "faultless w" and "Second \<le> wo_RotateEvery opts" and "wo_RotateEvery opts \<le> max_duration" and "steady c es"
  shows "\<exists>s res answers. write_run w opts es (new_recorder []) = (s, res, answers) \<and> res \<noteq> Failed
    \<and> (Input_closed \<in> set es \<or> Cancelled \<in> set es \<longrightarrow> res = Finished)"
  using steady_run [OF assms] .

definition two_hours :: "recorder_event list" where
  "two_hours = [Received (plain_record ''a'') (unix_epoch + 1787918400 * Second), Ticked (unix_epoch + 1787925600 * Second),
     Received (plain_record ''b'') (unix_epoch + 1787926000 * Second), Input_closed]"

abbreviation hourly :: write_options where "hourly \<equiv> \<lparr>wo_Prefix = ''rec/'', wo_RotateEvery = Hour\<rparr>"

lemma recorder_never_fails_witness:
  "\<exists>s answers. write_run plain_world hourly two_hours (new_recorder []) = (s, Finished, answers)"
  using recorder_never_fails [OF faultless_plain, of hourly 0 two_hours] by (auto simp: two_hours_def)

lemma two_hours_run: "\<exists>s answers. write_run plain_world hourly two_hours (new_recorder []) = (s, Finished, answers)"
  using steady_run [OF faultless_plain, of hourly 0 two_hours] by (auto simp: two_hours_def)

lemma recorder_loses_nothing_witness:
  "\<exists>s answers. write_run plain_world hourly two_hours (new_recorder []) = (s, Finished, answers)
    \<and> map snd (disk_messages (rr_disk s)) = [''a'', ''b'']"
proof -
  obtain s answers where run: "write_run plain_world hourly two_hours (new_recorder []) = (s, Finished, answers)"
    using two_hours_run by blast
  with recorder_loses_nothing [OF faultless_plain _ run] show ?thesis
    by (auto simp: as_message_def plain_world_def sealed_def plain_record_def two_hours_def)
qed

end
