(* ===== verification/Rebuild.thy ===== *)
theory Rebuild
  imports Recorder Store Config
begin

text \<open>
  The path of a message into the store and the rebuilding of the store from the recordings
  (\<open>internal/store/rebuild.go\<close>).  The engine is an observer, as in package policy; the directory is
  what \<open>ReadDir\<close> answers, the files are given by their paths, and whether a file can be removed is
  given.
\<close>

section \<open>Feed\<close>

definition feed :: "'e observer \<Rightarrow> mqtt_record \<Rightarrow> store \<times> 'e \<Rightarrow> (store \<times> 'e) option" where
  "feed observe r = (\<lambda>(s, e).
     (let received = mr_ReceivedAt r; top = parse_topic (mr_Topic r);
          s1 = (if top_kind top = KindCount then saw_camera (top_camera top) s else s)
      in case observe e received (mr_Topic r) (mr_Payload r) of
           None \<Rightarrow> None
         | Some (e1, cs) \<Rightarrow> Some (fold (store_apply received) cs s1, e1)))"

fun feed_all :: "'e observer \<Rightarrow> mqtt_record list \<Rightarrow> store \<times> 'e \<Rightarrow> (store \<times> 'e) option" where
  "feed_all observe [] p = Some p"
| "feed_all observe (r # rs) p = Option.bind (feed observe r p) (feed_all observe rs)"

section \<open>The directory\<close>

text \<open>What \<open>os.ReadDir\<close> answers: there is no such directory, an error, or names that may be directories.\<close>

datatype listing = No_directory | Unreadable_directory | Listed "(string \<times> bool) list"

record recording_file =
  rg_path :: string
  rg_start :: time

definition recordings :: "string \<Rightarrow> listing \<Rightarrow> recording_file list option" where
  "recordings prefix l =
     (case l of
        No_directory \<Rightarrow> Some []
      | Unreadable_directory \<Rightarrow> None
      | Listed entries \<Rightarrow> Some (sort_key rg_path
          (List.map_filter (\<lambda>(name, dir). if dir then None
             else map_option (\<lambda>t. \<lparr>rg_path = prefix @ name, rg_start = t\<rparr>) (parse_file_name name)) entries)))"

section \<open>Rebuild\<close>

record rebuilt =
  rb_Files :: nat
  rb_Records :: nat
  rb_Deleted :: nat
  rb_Truncated :: nat

datatype rebuild_error = Not_listed | Not_removed string | Not_read string

record 'e rebuilding =
  rx_result :: rebuilt
  rx_errors :: "rebuild_error list"
  rx_removed :: "string list"
  rx_state :: "store \<times> 'e"

text \<open>One recording of the loop; None is a panic of the engine.\<close>

definition rebuild_one :: "'e observer \<Rightarrow> mcap_reader \<Rightarrow> (string \<Rightarrow> disk_file option) \<Rightarrow> (string \<Rightarrow> bool) \<Rightarrow> time
    \<Rightarrow> recording_file \<Rightarrow> 'e rebuilding \<Rightarrow> 'e rebuilding option" where
  "rebuild_one observe m files removable cutoff n x =
     (if rg_start n < cutoff then
        Some (if removable (rg_path n)
          then x\<lparr>rx_result := (rx_result x)\<lparr>rb_Deleted := rb_Deleted (rx_result x) + 1\<rparr>, rx_removed := rx_removed x @ [rg_path n]\<rparr>
          else x\<lparr>rx_errors := rx_errors x @ [Not_removed (rg_path n)]\<rparr>)
      else case read_file m (files (rg_path n)) of (rs, res) \<Rightarrow>
        (case feed_all observe rs (rx_state x) of
           None \<Rightarrow> None
         | Some p \<Rightarrow>
             let y = x\<lparr>rx_state := p, rx_result := (rx_result x)\<lparr>rb_Records := rb_Records (rx_result x) + length rs\<rparr>\<rparr>
             in Some (case res of
                  Read_ok \<Rightarrow> y\<lparr>rx_result := (rx_result y)\<lparr>rb_Files := rb_Files (rx_result y) + 1\<rparr>\<rparr>
                | Read_failed \<Rightarrow> y\<lparr>rx_errors := rx_errors y @ [Not_read (rg_path n)]\<rparr>
                | _ \<Rightarrow> y\<lparr>rx_result := (rx_result y)\<lparr>rb_Truncated := rb_Truncated (rx_result y) + 1,
                          rb_Files := rb_Files (rx_result y) + 1\<rparr>\<rparr>)))"

fun rebuild_loop :: "'e observer \<Rightarrow> mcap_reader \<Rightarrow> (string \<Rightarrow> disk_file option) \<Rightarrow> (string \<Rightarrow> bool) \<Rightarrow> time
    \<Rightarrow> recording_file list \<Rightarrow> 'e rebuilding \<Rightarrow> 'e rebuilding option" where
  "rebuild_loop observe m files removable cutoff [] x = Some x"
| "rebuild_loop observe m files removable cutoff (n # ns) x =
     Option.bind (rebuild_one observe m files removable cutoff n x) (rebuild_loop observe m files removable cutoff ns)"

definition rebuild :: "'e observer \<Rightarrow> mcap_reader \<Rightarrow> (string \<Rightarrow> disk_file option) \<Rightarrow> (string \<Rightarrow> bool) \<Rightarrow> string
    \<Rightarrow> listing \<Rightarrow> time \<Rightarrow> store \<times> 'e \<Rightarrow> 'e rebuilding option" where
  "rebuild observe m files removable prefix l now p =
     (let x = \<lparr>rx_result = \<lparr>rb_Files = 0, rb_Records = 0, rb_Deleted = 0, rb_Truncated = 0\<rparr>, rx_errors = [],
               rx_removed = [], rx_state = p\<rparr>
      in case recordings prefix l of
           None \<Rightarrow> Some (x\<lparr>rx_errors := [Not_listed]\<rparr>)
         | Some ns \<Rightarrow> rebuild_loop observe m files removable (now + - ss_retention (fst p)) ns x)"

section \<open>PruneFiles\<close>

text \<open>The paths removed, in order, and the errors.\<close>

definition prune_files :: "(string \<Rightarrow> bool) \<Rightarrow> string \<Rightarrow> listing \<Rightarrow> duration \<Rightarrow> time \<Rightarrow> string list \<times> rebuild_error list" where
  "prune_files removable prefix l retention now =
     (case recordings prefix l of
        None \<Rightarrow> ([], [Not_listed])
      | Some ns \<Rightarrow>
          let old = map rg_path (filter (\<lambda>n. rg_start n < now + - retention) ns)
          in (filter removable old, map Not_removed (filter (\<lambda>p. \<not> removable p) old)))"


section \<open>Rebuilding gives the store there was\<close>

lemma feed_sealed: "feed observe (sealed r) = feed observe r"
  by (simp add: feed_def sealed_def)

lemma feed_all_sealed: "feed_all observe (map sealed rs) p = feed_all observe rs p"
proof (induction rs arbitrary: p)
  case (Cons r rs)
  then show ?case by (cases "feed observe r p") (simp_all add: feed_sealed)
qed simp

lemma feed_all_append: "feed_all observe (xs @ ys) p = Option.bind (feed_all observe xs p) (feed_all observe ys)"
proof (induction xs arbitrary: p)
  case (Cons x xs)
  then show ?case by (cases "feed observe x p") simp_all
qed simp

lemma concat_eq_map:
  "concat xss = map f ys \<Longrightarrow> \<exists>yss. concat yss = ys \<and> xss = map (map f) yss"
proof (induction xss arbitrary: ys)
  case Nil
  then show ?case by (intro exI [of _ "[]"]) simp
next
  case (Cons xs xss)
  then obtain us vs where ys: "ys = us @ vs" "xs = map f us" "concat xss = map f vs"
    by (auto simp: append_eq_map_conv)
  with Cons.IH [OF ys(3)] obtain yss where "concat yss = vs" "xss = map (map f) yss" by blast
  with ys show ?case by (intro exI [of _ "us # yss"]) simp
qed

text \<open>The loop over complete recordings that are young enough.\<close>

lemma rebuild_loop_complete:
  assumes "list_all2 (\<lambda>n rs. cutoff \<le> rg_start n \<and> read_file m (files (rg_path n)) = (map sealed rs, Read_ok)) ns rss"
    and "feed_all observe (concat rss) (rx_state x) = Some p"
  shows "\<exists>y. rebuild_loop observe m files removable cutoff ns x = Some y \<and> rx_state y = p \<and> rx_errors y = rx_errors x
    \<and> rx_removed y = rx_removed x \<and> rx_result y = (rx_result x)\<lparr>rb_Files := rb_Files (rx_result x) + length ns,
        rb_Records := rb_Records (rx_result x) + length (concat rss)\<rparr>"
  using assms
proof (induction arbitrary: x rule: list_all2_induct)
  case (Cons n ns rs rss)
  from Cons.prems obtain q where q: "feed_all observe rs (rx_state x) = Some q" "feed_all observe (concat rss) q = Some p"
    by (auto simp: feed_all_append bind_eq_Some_conv)
  define x1 where "x1 = x\<lparr>rx_state := q, rx_result := (rx_result x)\<lparr>rb_Records := rb_Records (rx_result x) + length rs,
      rb_Files := rb_Files (rx_result x) + 1\<rparr>\<rparr>"
  have "rebuild_one observe m files removable cutoff n x = Some x1"
    using Cons.hyps(1) q(1) by (simp add: rebuild_one_def x1_def feed_all_sealed)
  moreover obtain y where "rebuild_loop observe m files removable cutoff ns x1 = Some y" "rx_state y = p"
    "rx_errors y = rx_errors x1" "rx_removed y = rx_removed x1"
    "rx_result y = (rx_result x1)\<lparr>rb_Files := rb_Files (rx_result x1) + length ns,
        rb_Records := rb_Records (rx_result x1) + length (concat rss)\<rparr>"
    using Cons.IH [of x1] q(2) by (auto simp: x1_def)
  ultimately show ?case by (simp add: x1_def)
qed simp

lemma recordings_in_time:
  assumes "gm_keys d = map file_name ts" and "sorted_wrt (\<lambda>a b. a div Second < b div Second) ts"
    and "\<forall>t \<in> set ts. 0 \<le> t \<and> t < 3652059 * Day"
  shows "recordings prefix (Listed (map (\<lambda>n. (n, False)) (gm_keys d)))
    = Some (map (\<lambda>t. \<lparr>rg_path = prefix @ file_name t, rg_start = t - t mod Second\<rparr>) ts)"
proof -
  have name: "parse_file_name (file_name t) = Some (t - t mod Second)" if "t \<in> set ts" for t
    using name_roundtrip_base [of t] assms(3) that by blast
  have "List.map_filter (\<lambda>(name, dir). if dir then None
      else map_option (\<lambda>t. \<lparr>rg_path = prefix @ name, rg_start = t\<rparr>) (parse_file_name name)) (map (\<lambda>n. (n, False)) (map file_name xs))
    = map (\<lambda>t. \<lparr>rg_path = prefix @ file_name t, rg_start = t - t mod Second\<rparr>) xs" if "set xs \<subseteq> set ts" for xs
    using that by (induction xs) (simp_all add: map_filter_simps name)
  moreover have "sorted (map (\<lambda>t. prefix @ file_name t) xs)" if "set xs \<subseteq> set ts" "sorted_wrt (\<lambda>a b. a div Second < b div Second) xs" for xs
    using that
  proof (induction xs)
    case (Cons a xs)
    have "prefix @ file_name a \<le> prefix @ file_name b" if "b \<in> set xs" for b
      using lex_same_prefix [OF file_name_less, of a b prefix] Cons.prems assms(3) that by fastforce
    with Cons show ?case by auto
  qed simp
  ultimately show ?thesis
    unfolding assms(1) recordings_def using assms(2) by (simp add: sort_key_id_if_sorted comp_def)
qed

lemma rebuild_live:
  assumes "faultless w" and "reader_ok m" and "codec_ok w m (taken es)" and "sorted (map log_time (taken es))"
    and "Second \<le> wo_RotateEvery opts" and "wo_RotateEvery opts \<le> max_duration" and "steady 0 es"
    and "write_run w opts es (new_recorder []) = (s, Finished, answers)"
    and "\<forall>r t. Received r t \<in> set es \<longrightarrow> now - ss_retention st \<le> t - t mod Second"
    and "feed_all observe (taken es) (st, eng) = Some live"
  shows "\<exists>x. rebuild observe m (\<lambda>path. gm_get (rr_disk s) (drop (length prefix) path)) removable prefix
      (Listed (map (\<lambda>n. (n, False)) (gm_keys (rr_disk s)))) now (st, eng) = Some x
    \<and> rx_state x = live \<and> rx_errors x = [] \<and> rx_removed x = []
    \<and> rx_result x = \<lparr>rb_Files = length (rr_disk s), rb_Records = length (taken es), rb_Deleted = 0, rb_Truncated = 0\<rparr>"
proof -
  from fresh_recording_run [OF assms(1) _ assms(8)]
  have disk: "gm_wf (rr_disk s)" "disk_messages (rr_disk s) = map (as_message w) (taken es)"
    "\<forall>(n, f) \<in> set (rr_disk s). well_framed f" "\<forall>(n, f) \<in> set (rr_disk s). df_Complete f" by auto
  have "in_time 0 (new_recorder []) []" by (simp add: in_time_def)
  from in_time_run [OF assms(1,5,6) this assms(7,8)] obtain ts where ts: "gm_keys (rr_disk s) = map file_name ts"
    "sorted_wrt (\<lambda>a b. a div Second < b div Second) ts" "\<forall>t \<in> set ts. 0 \<le> t \<and> t < 3652059 * Day"
    "set ts \<subseteq> {t. \<exists>r. Received r t \<in> set es}"
    unfolding in_time_def by auto
  let ?files = "\<lambda>path. gm_get (rr_disk s) (drop (length prefix) path)"
  let ?ns = "map (\<lambda>t. \<lparr>rg_path = prefix @ file_name t, rg_start = t - t mod Second\<rparr>) ts"
  obtain rss where rss: "concat rss = taken es" "map (file_messages \<circ> snd) (rr_disk s) = map (map (as_message w)) rss"
    using concat_eq_map disk(2) unfolding disk_messages_def by blast
  have len: "length ts = length (rr_disk s)" "length rss = length (rr_disk s)"
    using arg_cong [OF ts(1), of length] arg_cong [OF rss(2), of length] by simp_all
  have "now + - ss_retention st \<le> rg_start (?ns ! i) \<and> read_file m (?files (rg_path (?ns ! i))) = (map sealed (rss ! i), Read_ok)"
    if i: "i < length ts" for i
  proof
    obtain r where "Received r (ts ! i) \<in> set es" using nth_mem [OF i] ts(4) by blast
    then show "now + - ss_retention st \<le> rg_start (?ns ! i)" using i assms(9) by simp
    obtain n f where nf: "rr_disk s ! i = (n, f)" by fastforce
    then have mem: "(n, f) \<in> set (rr_disk s)" using i len(1) by (metis nth_mem)
    have "n = file_name (ts ! i)" using arg_cong [OF ts(1), of "\<lambda>xs. xs ! i"] i len(1) nf by simp
    then have looked: "?files (rg_path (?ns ! i)) = Some f" using i mem disk(1) by simp
    have messages: "file_messages f = map (as_message w) (rss ! i)"
      using arg_cong [OF rss(2), of "\<lambda>xs. xs ! i"] i len nf by simp
    have "rss ! i \<in> set rss" using i len by simp
    then have part: "set (rss ! i) \<subseteq> set (taken es)" unfolding rss(1) [symmetric] by auto
    have "sorted (map log_time (rss ! i))"
    proof -
      have "concat (map (map log_time) rss) = map log_time (taken es)" by (simp add: map_concat flip: rss(1))
      moreover have "rss = take i rss @ rss ! i # drop (Suc i) rss" using i len by (simp add: id_take_nth_drop)
      ultimately show ?thesis using assms(4) by (metis (no_types, lifting) concat.simps(2) concat_append list.simps(9) map_append sorted_append)
    qed
    moreover have "codec_ok w m (rss ! i)" using assms(3) part by (auto simp: codec_ok_def)
    ultimately show "read_file m (?files (rg_path (?ns ! i))) = (map sealed (rss ! i), Read_ok)"
      unfolding looked using disk(3,4) mem by (intro read_back [OF assms(2) _ _ messages]) auto
  qed
  then have "list_all2 (\<lambda>n rs. now + - ss_retention st \<le> rg_start n \<and> read_file m (?files (rg_path n)) = (map sealed rs, Read_ok)) ?ns rss"
    using len by (simp add: list_all2_conv_all_nth)
  from rebuild_loop_complete [OF this, of observe "\<lparr>rx_result = \<lparr>rb_Files = 0, rb_Records = 0, rb_Deleted = 0, rb_Truncated = 0\<rparr>,
      rx_errors = [], rx_removed = [], rx_state = (st, eng)\<rparr>" live removable]
  show ?thesis
    unfolding rebuild_def Let_def recordings_in_time [OF ts(1-3)] option.case
    using assms(10) rss(1) len by auto
qed

text \<open>
  Further. Restarting forgets nothing. Let a recorder on an empty directory take messages while the live
  path feeds the same messages to the engine and the store. If nothing fails, the clock is steady,
  nobody asks for a rotation and no recording is past the retention, then rebuilding from the
  directory, with the engine and the store as they began, ends with exactly the store and the
  engine of the live path; it read every record of every file, found none damaged and deleted
  none.
\<close>
theorem rebuild_equals_live:
  assumes "faultless w" and "reader_ok m" and "codec_ok w m (taken es)" and "sorted (map log_time (taken es))"
    and "Second \<le> wo_RotateEvery opts" and "wo_RotateEvery opts \<le> max_duration" and "steady 0 es"
    and "write_run w opts es (new_recorder []) = (s, Finished, answers)"
    and "\<forall>r t. Received r t \<in> set es \<longrightarrow> now - ss_retention st \<le> t - t mod Second"
    and "feed_all observe (taken es) (st, eng) = Some live"
  shows "\<exists>x. rebuild observe m (\<lambda>path. gm_get (rr_disk s) (drop (length prefix) path)) removable prefix
      (Listed (map (\<lambda>n. (n, False)) (gm_keys (rr_disk s)))) now (st, eng) = Some x
    \<and> rx_state x = live \<and> rx_errors x = [] \<and> rx_removed x = []
    \<and> rx_result x = \<lparr>rb_Files = length (rr_disk s), rb_Records = length (taken es), rb_Deleted = 0, rb_Truncated = 0\<rparr>"
  by (rule rebuild_live [OF assms])

definition plain_reader :: mcap_reader where
  "plain_reader = \<lparr>mc_opens = (\<lambda>_. True),
     mc_indexed = (\<lambda>f. Some (map (\<lambda>(l, b). (Some schemaName, b)) (file_messages f), True)), mc_linear = (\<lambda>_. None),
     mc_unmarshal = (\<lambda>b. Some (sealed (plain_record b)))\<rparr>"

lemma rebuild_equals_live_witness:
  "\<exists>s answers x live. write_run plain_world hourly two_hours (new_recorder []) = (s, Finished, answers)
    \<and> rebuild passthrough_observer plain_reader (\<lambda>path. gm_get (rr_disk s) (drop (length ''rec/'') path)) (\<lambda>_. True) ''rec/''
        (Listed (map (\<lambda>n. (n, False)) (gm_keys (rr_disk s)))) (unix_epoch + 1787927000 * Second)
        (new_store (336 * Hour), new_passthrough) = Some x
    \<and> feed_all passthrough_observer [plain_record ''a'', plain_record ''b''] (new_store (336 * Hour), new_passthrough) = Some live
    \<and> rx_state x = live"
proof -
  obtain s answers where run: "write_run plain_world hourly two_hours (new_recorder []) = (s, Finished, answers)"
    using two_hours_run by blast
  have taken: "taken two_hours = [plain_record ''a'', plain_record ''b'']" by (simp add: two_hours_def)
  have total: "feed_all passthrough_observer rs p \<noteq> None" for rs p
    by (induction rs arbitrary: p) (auto simp: feed_def passthrough_observer_def Let_def split: prod.splits)
  obtain live where live: "feed_all passthrough_observer (taken two_hours) (new_store (336 * Hour), new_passthrough) = Some live"
    using total by blast
  have "reader_ok plain_reader" by (simp add: reader_ok_def plain_reader_def)
  moreover have "codec_ok plain_world plain_reader (taken two_hours)"
    by (simp add: codec_ok_def plain_world_def plain_reader_def sealed_def plain_record_def taken)
  moreover have "sorted (map log_time (taken two_hours))" by (simp add: log_time_def plain_record_def taken)
  moreover have "steady 0 two_hours" by (simp add: two_hours_def)
  moreover have "\<forall>r t. Received r t \<in> set two_hours \<longrightarrow>
      unix_epoch + 1787927000 * Second - ss_retention (new_store (336 * Hour)) \<le> t - t mod Second"
    by (auto simp: new_store_def two_hours_def)
  ultimately show ?thesis
    using rebuild_equals_live [OF faultless_plain _ _ _ _ _ _ run _ live, of plain_reader "unix_epoch + 1787927000 * Second" "''rec/''" "\<lambda>_. True"]
      run live unfolding taken by fastforce
qed

section \<open>Pruning and the open file\<close>

lemma opened_name:
  assumes "open_recording w t d = (d', Some f)"
  shows "of_started f = t \<and> (\<exists>i. of_name f = numbered (file_name t) i)"
proof -
  obtain n where n: "try_names w d (file_name t) 0 = Some n" "new_file w n t (gm_set n empty_file d) = (d', Some f)"
    using assms by (auto simp: open_recording_def split: option.splits)
  then have "of_started f = t" "of_name f = n" by (auto simp: new_file_def split: option.splits)
  with try_names_new [OF n(1)] show ?thesis by auto
qed

text \<open>
  C36. Pruning spares the file being written, when the rotation fits into the retention. If a file
  was opened less than a rotation ago and a rotation and a second are not more than the retention,
  then PruneFiles does not remove it, whatever else is in the directory.
\<close>
theorem prune_spares_open:
  assumes "open_recording w t d = (d', Some f)" and "0 \<le> t" and "t < 3652059 * Day"
    and "now - t < wo_RotateEvery opts" and "wo_RotateEvery opts + Second \<le> retention"
  shows "prefix @ of_name f \<notin> set (fst (prune_files removable prefix l retention now))"
proof -
  obtain i where i: "of_name f = numbered (file_name t) i" using opened_name [OF assms(1)] by blast
  have "\<not> rg_start n < now + - retention"
    if listed: "recordings prefix l = Some ns" "n \<in> set ns" and path: "rg_path n = prefix @ of_name f" for n ns
  proof -
    obtain name where name: "n = \<lparr>rg_path = prefix @ name, rg_start = the (parse_file_name name)\<rparr>" "parse_file_name name \<noteq> None"
      using listed by (auto simp: recordings_def List.map_filter_def split: listing.splits if_splits)
    then have "parse_file_name name = Some (t - t mod Second)"
      using path i parse_numbered [OF assms(2,3), of i] by simp
    moreover have "t mod Second < Second" by simp
    ultimately show ?thesis using name(1) assms(4,5) by simp
  qed
  then show ?thesis by (auto simp: prune_files_def Let_def split: option.splits)
qed

text \<open>Nothing makes it fit: a retention of an hour is accepted beside the default rotation of a day.\<close>

lemma short_retention_accepted:
  "\<exists>c r. apply_defaults [] (sample_config\<lparr>cf_Recording := Some \<lparr>rc_Dir = ''rec'', rc_RotateEvery = None, rc_Retention = Some Hour\<rparr>\<rparr>) = Inr c
    \<and> cf_Recording c = Some r \<and> rc_RotateEvery r = Some (24 * Hour) \<and> rc_Retention r = Some Hour"
proof -
  have "parse_cidrs [''192.168.1.0/24''] = Inr [\<lparr>net_IP = [192, 168, 1, 0], net_Mask = [255, 255, 255, 0]\<rparr>]"
    and "parse_cidrs [''10.0.0.1''] = Inr [\<lparr>net_IP = [10, 0, 0, 1], net_Mask = [255, 255, 255, 255]\<rparr>]"
    by code_simp+
  then show ?thesis
    by (simp add: apply_defaults_def sample_config_def default_mqtt_def default_recording_def default_model_def
        default_watch_def load_location_def default_text_def Let_def)
qed

lemma prune_removes_open:
  "fst (prune_files (\<lambda>_. True) ''rec/'' (Listed [(file_name (unix_epoch + 1787918400 * Second), False)]) Hour
     (unix_epoch + 1787926000 * Second)) = [''rec/'' @ file_name (unix_epoch + 1787918400 * Second)]"
  by code_simp

lemma prune_spares_open_witness:
  "\<exists>d f. open_recording plain_world (unix_epoch + 1787918400 * Second) [] = (d, Some f)
    \<and> ''rec/'' @ of_name f \<notin> set (fst (prune_files (\<lambda>_. True) ''rec/'' (Listed [(of_name f, False)]) (168 * Hour)
        (unix_epoch + 1787926000 * Second)))"
proof -
  have "snd (open_recording plain_world (unix_epoch + 1787918400 * Second) []) \<noteq> None" by code_simp
  then obtain d f where "open_recording plain_world (unix_epoch + 1787918400 * Second) [] = (d, Some f)"
    by (metis not_None_eq prod.collapse)
  with prune_spares_open [OF this, of "unix_epoch + 1787926000 * Second" "\<lparr>wo_Prefix = ''rec/'', wo_RotateEvery = 24 * Hour\<rparr>" "168 * Hour"
      "''rec/''" "\<lambda>_. True" "Listed [(of_name f, False)]"]
  show ?thesis by (intro exI [of _ d] exI [of _ f]) simp
qed

end
