(* ===== verification/Ingest.thy ===== *)
theory Ingest
  imports Rebuild "HOL-Library.Sublist"
begin

text \<open>
  The way in (\<open>internal/mqtt/client.go\<close> and the pipeline of \<open>cmdRun\<close> in \<open>cmd/curtilage/main.go\<close>): the
  broker's messages become records on a bounded channel, a goroutine feeds each to the engine and
  the store and hands it to the recorder over a second bounded channel.  The MQTT library is the
  order in which it calls the handlers; the steps of the goroutines interleave freely.
\<close>

section \<open>The broker session\<close>

record mqtt_options =
  mo_Host :: string
  mo_Port :: "32 word"
  mo_ClientID :: string
  mo_User :: string
  mo_Password :: string
  mo_Keepalive :: duration
  mo_Subscriptions :: "string list"
  mo_PublishPrefix :: string

definition run_defaults :: "mqtt_options \<Rightarrow> mqtt_options" where
  "run_defaults opts =
     opts\<lparr>mo_Port := (if mo_Port opts = 0 then 1883 else mo_Port opts),
          mo_Keepalive := (if mo_Keepalive opts = 0 then 30 * Second else mo_Keepalive opts),
          mo_PublishPrefix := (if mo_PublishPrefix opts = [] then ''curtilage'' else mo_PublishPrefix opts)\<rparr>"

definition avail_topic :: "mqtt_options \<Rightarrow> string" where
  "avail_topic opts = mo_PublishPrefix (run_defaults opts) @ ''/available''"

record broker_session =
  bs_connected :: bool
  bs_reconnects :: nat
  bs_first :: bool
  bs_filters :: "string list"
  bs_published :: "(string \<times> string) list"

text \<open>The handlers of a connection: what they change, and what they publish, retained.\<close>

definition on_connect :: "mqtt_options \<Rightarrow> broker_session \<Rightarrow> broker_session" where
  "on_connect opts b =
     b\<lparr>bs_connected := True, bs_reconnects := bs_reconnects b + (if bs_first b then 0 else 1), bs_first := False,
       bs_filters := remdups (mo_Subscriptions opts),
       bs_published := bs_published b @ [(avail_topic opts, ''online'')]\<rparr>"

definition on_lost :: "broker_session \<Rightarrow> broker_session" where
  "on_lost b = b\<lparr>bs_connected := False\<rparr>"

definition on_done :: "mqtt_options \<Rightarrow> bool \<Rightarrow> broker_session \<Rightarrow> broker_session" where
  "on_done opts still_open b =
     b\<lparr>bs_connected := False,
       bs_published := bs_published b @ (if still_open then [(avail_topic opts, ''offline'')] else [])\<rparr>"

text \<open>A session is the connections made and lost, and the end of \<open>Run\<close>.\<close>

datatype session_event = Connected | Lost

fun session_step :: "mqtt_options \<Rightarrow> session_event \<Rightarrow> broker_session \<Rightarrow> broker_session" where
  "session_step opts Connected b = on_connect opts b"
| "session_step opts Lost b = on_lost b"

abbreviation new_session :: broker_session where
  "new_session \<equiv> \<lparr>bs_connected = False, bs_reconnects = 0, bs_first = True, bs_filters = [], bs_published = []\<rparr>"

lemma session_counts:
  "fold (session_step opts) es b = b' \<Longrightarrow>
     bs_first b' = (bs_first b \<and> Connected \<notin> set es)
     \<and> bs_reconnects b' + (if bs_first b \<and> Connected \<in> set es then 1 else 0) = bs_reconnects b + count_list es Connected
     \<and> bs_published b' = bs_published b @ replicate (count_list es Connected) (avail_topic opts, ''online'')
     \<and> bs_connected b' = (if es = [] then bs_connected b else last es = Connected)"
proof (induction es arbitrary: b)
  case (Cons e es)
  then have "fold (session_step opts) es (session_step opts e b) = b'" by simp
  from Cons.IH [OF this] show ?case
    by (cases e) (auto simp: on_connect_def on_lost_def)
qed simp

text \<open>
  Further. What the broker and the metrics are told. After any connections and losses, every connection but
  the first is counted as a reconnection and each has published that the service is available; when
  Run ends with the connection open, the last thing published is that it is not.
\<close>
theorem session_availability:
  "bs_reconnects (fold (session_step opts) es new_session) = count_list es Connected - 1
   \<and> bs_connected (fold (session_step opts) es new_session) = (es \<noteq> [] \<and> last es = Connected)
   \<and> bs_published (on_done opts still_open (fold (session_step opts) es new_session)) =
       replicate (count_list es Connected) (avail_topic opts, ''online'')
       @ (if still_open then [(avail_topic opts, ''offline'')] else [])"
proof -
  have "Connected \<in> set es \<longleftrightarrow> 0 < count_list es Connected" by (induction es) auto
  with session_counts [OF refl, of opts es new_session] show ?thesis
    by (auto simp: on_done_def split: if_splits)
qed

section \<open>A message\<close>

record mqtt_message =
  mm_Topic :: string
  mm_Retained :: bool
  mm_Qos :: "8 word"
  mm_Payload :: bytes

definition qos_enum :: "8 word \<Rightarrow> int" where
  "qos_enum q = (if q = 0 then 1 else if q = 1 then 2 else if q = 2 then 3 else 0)"

definition first_segment :: "string \<Rightarrow> string" where
  "first_segment topic = takeWhile (\<lambda>c. c \<noteq> CHR ''/'') topic"

definition count_topic :: "string \<Rightarrow> (string, nat) gomap \<Rightarrow> (string, nat) gomap" where
  "count_topic topic m =
     (let seg = first_segment topic in gm_set seg ((case gm_get m seg of None \<Rightarrow> 0 | Some n \<Rightarrow> n) + 1) m)"

definition as_record :: "time \<Rightarrow> mqtt_message \<Rightarrow> mqtt_record" where
  "as_record now m =
     \<lparr>mr_ReceivedAt = now, mr_Topic = mm_Topic m, mr_Retained = mm_Retained m, mr_Qos = qos_enum (mm_Qos m),
      mr_Payload = mm_Payload m, mr_Crc = checksum (mm_Payload m)\<rparr>"

section \<open>The pipeline\<close>

abbreviation (input) channel_capacity :: nat where "channel_capacity \<equiv> 1024"

text \<open>
  The channels, the engine with its store, the record between the two sends, whether \<open>Run\<close> has closed
  the first channel and whether \<open>record.Write\<close> (or, without a directory, the loop that discards) still
  receives from the second.
\<close>

record 'e ingest =
  ig_byPrefix :: "(string, nat) gomap"
  ig_dropped :: nat
  ig_records :: "mqtt_record list"
  ig_closed :: bool
  ig_engine :: "store \<times> 'e"
  ig_pending :: "mqtt_record option"
  ig_toRecorder :: "mqtt_record list"
  ig_recording :: bool
  ig_recorded :: "mqtt_record list"

abbreviation new_ingest :: "store \<times> 'e \<Rightarrow> 'e ingest" where
  "new_ingest p \<equiv> \<lparr>ig_byPrefix = [], ig_dropped = 0, ig_records = [], ig_closed = False, ig_engine = p,
     ig_pending = None, ig_toRecorder = [], ig_recording = True, ig_recorded = []\<rparr>"

text \<open>The handler: a full channel drops the message and counts it.\<close>

definition handle_message :: "time \<Rightarrow> mqtt_message \<Rightarrow> 'e ingest \<Rightarrow> 'e ingest" where
  "handle_message now m g =
     (let g1 = g\<lparr>ig_byPrefix := count_topic (mm_Topic m) (ig_byPrefix g)\<rparr>
      in if length (ig_records g) < channel_capacity then g1\<lparr>ig_records := ig_records g @ [as_record now m]\<rparr>
         else g1\<lparr>ig_dropped := ig_dropped g + 1\<rparr>)"

text \<open>The goroutine: it takes a record, feeds it, and waits for room to hand it on.\<close>

definition feed_next :: "'e observer \<Rightarrow> 'e ingest \<Rightarrow> 'e ingest option" where
  "feed_next observe g =
     (case (ig_pending g, ig_records g) of
        (None, r # rs) \<Rightarrow>
          map_option (\<lambda>p. g\<lparr>ig_records := rs, ig_engine := p, ig_pending := Some r\<rparr>) (feed observe r (ig_engine g))
      | _ \<Rightarrow> None)"

definition hand_on :: "'e ingest \<Rightarrow> 'e ingest option" where
  "hand_on g =
     (case ig_pending g of
        None \<Rightarrow> None
      | Some r \<Rightarrow> if length (ig_toRecorder g) < channel_capacity
          then Some (g\<lparr>ig_pending := None, ig_toRecorder := ig_toRecorder g @ [r]\<rparr>) else None)"

definition take_record :: "'e ingest \<Rightarrow> 'e ingest option" where
  "take_record g =
     (case ig_toRecorder g of
        [] \<Rightarrow> None
      | r # rs \<Rightarrow> if ig_recording g then Some (g\<lparr>ig_toRecorder := rs, ig_recorded := ig_recorded g @ [r]\<rparr>) else None)"

text \<open>
  What happens: a message from the broker while \<open>Run\<close> has not returned, its return, the return of the
  recorder with an error, or a step of the goroutines that nobody outside sees.
\<close>

datatype happening = Message time mqtt_message | Run_returns | Write_fails | Silent

inductive ingest_step :: "'e observer \<Rightarrow> 'e ingest \<Rightarrow> happening \<Rightarrow> 'e ingest \<Rightarrow> bool"
  for observe :: "'e observer" where
  arrives: "\<not> ig_closed g \<Longrightarrow> ingest_step observe g (Message now m) (handle_message now m g)"
| closes: "ingest_step observe g Run_returns (g\<lparr>ig_closed := True\<rparr>)"
| fails: "ingest_step observe g Write_fails (g\<lparr>ig_recording := False\<rparr>)"
| feeds: "feed_next observe g = Some g' \<Longrightarrow> ingest_step observe g Silent g'"
| hands_on: "hand_on g = Some g' \<Longrightarrow> ingest_step observe g Silent g'"
| takes: "take_record g = Some g' \<Longrightarrow> ingest_step observe g Silent g'"

inductive ingest_run :: "'e observer \<Rightarrow> 'e ingest \<Rightarrow> happening list \<Rightarrow> 'e ingest \<Rightarrow> bool"
  for observe :: "'e observer" where
  nothing: "ingest_run observe g [] g"
| one_more: "ingest_run observe g hs g1 \<Longrightarrow> ingest_step observe g1 h g2 \<Longrightarrow> ingest_run observe g (hs @ [h]) g2"

inductive_cases silent_stepE: "ingest_step observe g Silent g'"
inductive_cases message_stepE: "ingest_step observe g (Message now m) g'"
inductive_cases closes_stepE: "ingest_step observe g Run_returns g'"
inductive_cases fails_stepE: "ingest_step observe g Write_fails g'"

lemmas ingest_stepEs = message_stepE closes_stepE fails_stepE

fun sent :: "happening list \<Rightarrow> mqtt_record list" where
  "sent [] = []"
| "sent (Message now m # hs) = as_record now m # sent hs"
| "sent (h # hs) = sent hs"

lemma sent_append: "sent (hs @ hs') = sent hs @ sent hs'"
  by (induction hs rule: sent.induct) auto

section \<open>What the recorder gets is what the engine was fed\<close>

text \<open>The records that have been fed: those recorded, those on their way and the one in hand.\<close>

definition fed :: "'e ingest \<Rightarrow> mqtt_record list" where
  "fed g = ig_recorded g @ ig_toRecorder g @ (case ig_pending g of None \<Rightarrow> [] | Some r \<Rightarrow> [r])"

definition ingest_inv :: "'e observer \<Rightarrow> store \<times> 'e \<Rightarrow> mqtt_record list \<Rightarrow> 'e ingest \<Rightarrow> bool" where
  "ingest_inv observe p rs g \<longleftrightarrow>
     feed_all observe (fed g) p = Some (ig_engine g) \<and>
     subseq (fed g @ ig_records g) rs \<and>
     length (fed g @ ig_records g) + ig_dropped g = length rs \<and>
     length (ig_records g) \<le> channel_capacity \<and> length (ig_toRecorder g) \<le> channel_capacity \<and>
     sum_list (map snd (ig_byPrefix g)) = length rs"

lemma gm_set_sum:
  fixes v :: nat
  shows "sum_list (map snd (gm_set k v m)) + (case gm_get m k of None \<Rightarrow> 0 | Some n \<Rightarrow> n) = sum_list (map snd m) + v"
  by (induction m) auto

lemma count_topic_sum: "sum_list (map snd (count_topic t m)) = sum_list (map snd m) + 1"
  using gm_set_sum [of "first_segment t" "(case gm_get m (first_segment t) of None \<Rightarrow> 0 | Some n \<Rightarrow> n) + 1" m]
  by (simp add: count_topic_def Let_def split: option.splits)

lemma ingest_inv_message:
  assumes "ingest_inv observe p rs g"
  shows "ingest_inv observe p (rs @ [as_record now m]) (handle_message now m g)"
proof -
  let ?r = "as_record now m"
  have "fed (handle_message now m g) = fed g" by (simp add: handle_message_def fed_def Let_def)
  moreover have "subseq ((fed g @ ig_records g) @ [?r]) (rs @ [?r])"
    using assms by (simp only: ingest_inv_def subseq_append)
  then have "subseq (fed g @ ig_records g @ [?r]) (rs @ [?r])" by simp
  moreover have "subseq (fed g @ ig_records g) (rs @ [?r])"
    using assms subseq_rev_drop_many [of "fed g @ ig_records g" rs "[?r]"] by (simp only: ingest_inv_def)
  ultimately show ?thesis
    using assms by (auto simp: ingest_inv_def handle_message_def Let_def count_topic_sum)
qed

lemma ingest_inv_silent:
  assumes "ingest_inv observe p rs g" and "ingest_step observe g Silent g'"
  shows "ingest_inv observe p rs g'"
proof -
  from assms(2) consider (feeds) "feed_next observe g = Some g'" | (hands_on) "hand_on g = Some g'"
    | (takes) "take_record g = Some g'"
    by (elim silent_stepE) auto
  then show ?thesis
  proof cases
    case feeds
    then obtain r rest st e where g: "ig_pending g = None" "ig_records g = r # rest"
      "feed observe r (ig_engine g) = Some (st, e)"
      "g' = g\<lparr>ig_records := rest, ig_engine := (st, e), ig_pending := Some r\<rparr>"
      by (auto simp: feed_next_def split: option.splits list.splits)
    then have "fed g' = fed g @ [r]" by (simp add: fed_def)
    with assms(1) g show ?thesis by (simp add: ingest_inv_def feed_all_append)
  next
    case hands_on
    then have "fed g' = fed g" "ig_records g' = ig_records g" "length (ig_toRecorder g') \<le> channel_capacity"
      "ig_engine g' = ig_engine g" "ig_dropped g' = ig_dropped g" "ig_byPrefix g' = ig_byPrefix g"
      by (auto simp: hand_on_def fed_def split: option.splits if_splits)
    with assms(1) show ?thesis by (simp add: ingest_inv_def)
  next
    case takes
    then have "fed g' = fed g" "ig_records g' = ig_records g" "length (ig_toRecorder g') \<le> length (ig_toRecorder g)"
      "ig_engine g' = ig_engine g" "ig_dropped g' = ig_dropped g" "ig_byPrefix g' = ig_byPrefix g"
      by (auto simp: take_record_def fed_def split: list.splits if_splits)
    with assms(1) show ?thesis by (simp add: ingest_inv_def)
  qed
qed

lemma ingest_inv_step:
  assumes "ingest_inv observe p (sent hs) g" and "ingest_step observe g h g'"
  shows "ingest_inv observe p (sent (hs @ [h])) g'"
proof (cases h)
  case Silent
  with assms ingest_inv_silent [of observe p] show ?thesis by (simp add: sent_append)
next
  case Message
  with assms ingest_inv_message [of observe p] show ?thesis by (auto simp: sent_append elim!: message_stepE)
qed (use assms in \<open>auto simp: sent_append ingest_inv_def fed_def elim: ingest_stepEs\<close>)

lemma ingest_run_inv: "ingest_run observe (new_ingest p) hs g \<Longrightarrow> ingest_inv observe p (sent hs) g"
  by (induction "new_ingest p" hs g rule: ingest_run.induct) (auto simp: ingest_inv_def [of _ _ "[]"] fed_def ingest_inv_step)

text \<open>
  C14. The recorder and the engine see the same messages. In every interleaving of the broker, the
  feeding goroutine and the recorder: the store and the engine are what feeding the fed records, in
  order, gives; the recorder has been given a beginning of those, and has all of them once the
  pipeline is drained; the fed records are messages of the broker in the order they came, and
  every message is fed, waiting or counted as dropped, with at most 1024 in each channel.
\<close>
theorem recorder_sees_what_is_fed:
  assumes "ingest_run observe (new_ingest p) hs g"
  shows "feed_all observe (fed g) p = Some (ig_engine g)
    \<and> prefix (ig_recorded g) (fed g) \<and> (ig_pending g = None \<and> ig_toRecorder g = [] \<longrightarrow> ig_recorded g = fed g)
    \<and> subseq (fed g @ ig_records g) (sent hs)
    \<and> length (fed g) + length (ig_records g) + ig_dropped g = length (sent hs)
    \<and> length (ig_records g) \<le> 1024 \<and> length (ig_toRecorder g) \<le> 1024"
  using ingest_run_inv [OF assms] by (auto simp: ingest_inv_def fed_def)

section \<open>Shutting down drains the pipeline\<close>

definition backlog :: "'e ingest \<Rightarrow> nat" where
  "backlog g = 3 * length (ig_records g) + (case ig_pending g of None \<Rightarrow> 0 | Some _ \<Rightarrow> 2) + length (ig_toRecorder g)"

definition drained :: "'e ingest \<Rightarrow> bool" where
  "drained g \<longleftrightarrow> ig_records g = [] \<and> ig_pending g = None \<and> ig_toRecorder g = []"

lemma silent_backlog: "ingest_step observe g Silent g' \<Longrightarrow> backlog g' < backlog g"
  by (erule silent_stepE)
    (auto simp: feed_next_def hand_on_def take_record_def backlog_def split: option.splits list.splits if_splits)

lemma silent_keeps: "ingest_step observe g Silent g' \<Longrightarrow> ig_recording g' = ig_recording g \<and> ig_closed g' = ig_closed g"
  by (erule silent_stepE)
    (auto simp: feed_next_def hand_on_def take_record_def split: option.splits list.splits if_splits)

text \<open>The engine does not panic on the record that is next.\<close>

definition can_feed :: "'e observer \<Rightarrow> 'e ingest \<Rightarrow> bool" where
  "can_feed observe g \<longleftrightarrow> (\<forall>r rs. ig_pending g = None \<and> ig_records g = r # rs \<longrightarrow> feed observe r (ig_engine g) \<noteq> None)"

lemma progress:
  assumes "can_feed observe g" and "ig_recording g" and "\<not> drained g"
  shows "\<exists>g'. ingest_step observe g Silent g'"
proof (cases "ig_toRecorder g")
  case (Cons r rs)
  with assms(2) have "take_record g \<noteq> None" by (simp add: take_record_def)
  then show ?thesis using takes by blast
next
  case Nil
  show ?thesis
  proof (cases "ig_pending g")
    case (Some r)
    with Nil have "hand_on g \<noteq> None" by (simp add: hand_on_def)
    then show ?thesis using hands_on by blast
  next
    case None
    with Nil assms(3) obtain r rs where "ig_records g = r # rs" by (cases "ig_records g") (auto simp: drained_def)
    with None assms(1) have "feed_next observe g \<noteq> None" by (simp add: feed_next_def can_feed_def)
    then show ?thesis using feeds by blast
  qed
qed

lemma run_append:
  assumes "ingest_run observe g1 hs' g2" and "ingest_run observe g hs g1"
  shows "ingest_run observe g (hs @ hs') g2"
  using assms
proof (induction g1 hs' g2 rule: ingest_run.induct)
  case (one_more g1 hs' g2 h g3)
  then show ?case using ingest_run.one_more [of observe g "hs @ hs'" g2 h g3] by simp
qed simp

lemma run_one: "ingest_step observe g h g' \<Longrightarrow> ingest_run observe g [h] g'"
  using one_more [OF ingest_run.nothing, of observe g h g'] by simp

lemma drain_run:
  assumes "\<And>g. Q g \<Longrightarrow> can_feed observe g" and "\<And>g g'. Q g \<Longrightarrow> ingest_step observe g Silent g' \<Longrightarrow> Q g'"
    and "Q g" and "ig_recording g"
  shows "\<exists>n g'. n \<le> backlog g \<and> ingest_run observe g (replicate n Silent) g' \<and> drained g'
    \<and> ig_recorded g' = fed g @ ig_records g"
  using assms(3,4)
proof (induction "backlog g" arbitrary: g rule: less_induct)
  case less
  show ?case
  proof (cases "drained g")
    case True
    then have "ig_recorded g = fed g @ ig_records g" by (simp add: drained_def fed_def)
    then show ?thesis using True by (intro exI [of _ 0] exI [of _ g]) (auto intro: ingest_run.nothing)
  next
    case False
    from progress [OF assms(1) [OF less.prems(1)] less.prems(2) this] obtain g1 where s: "ingest_step observe g Silent g1" by blast
    from less.hyps [OF silent_backlog [OF s] assms(2) [OF less.prems(1) s]] silent_keeps [OF s] less.prems(2)
    obtain n g' where n: "n \<le> backlog g1" "ingest_run observe g1 (replicate n Silent) g'" "drained g'"
      "ig_recorded g' = fed g1 @ ig_records g1" by blast
    have "fed g1 @ ig_records g1 = fed g @ ig_records g"
      using s by (auto elim!: silent_stepE simp: feed_next_def hand_on_def take_record_def fed_def
        split: option.splits list.splits if_splits)
    moreover have "ingest_run observe g (replicate (Suc n) Silent) g'" using run_append [OF n(2) run_one [OF s]] by simp
    ultimately show ?thesis using n silent_backlog [OF s] by (intro exI [of _ "Suc n"] exI [of _ g']) auto
  qed
qed

text \<open>
  Further. Shutting down loses nothing that was accepted. While the recorder receives and the engine
  does not panic, the goroutines alone drain the pipeline: there is a run of their steps, and no run
  of them is longer than the backlog, that ends with both channels empty and with everything that
  was accepted fed and recorded.
\<close>
theorem pipeline_drains:
  assumes "\<And>r p. feed observe r p \<noteq> None" and "ig_recording g"
  shows "\<exists>n g'. n \<le> backlog g \<and> ingest_run observe g (replicate n Silent) g' \<and> drained g'
    \<and> ig_recorded g' = fed g @ ig_records g"
  using drain_run [of "\<lambda>_. True" observe g] assms by (simp add: can_feed_def)

text \<open>A run of two messages, to its end.\<close>

definition quiet_message :: "bytes \<Rightarrow> mqtt_message" where
  "quiet_message b = \<lparr>mm_Topic = ''frigate/events'', mm_Retained = False, mm_Qos = 0, mm_Payload = b\<rparr>"

abbreviation noon :: time where "noon \<equiv> unix_epoch + 1787918400 * Second"

abbreviation two_messages :: "happening list" where
  "two_messages \<equiv> [Message noon (quiet_message ''a''), Message noon (quiet_message ''b''), Run_returns]"

abbreviation two_records :: "mqtt_record list" where
  "two_records \<equiv> [as_record noon (quiet_message ''a''), as_record noon (quiet_message ''b'')]"

lemma passthrough_total: "feed passthrough_observer r p \<noteq> None"
  by (cases p) (auto simp: feed_def passthrough_observer_def Let_def split: prod.splits)

lemma two_messages_arrive:
  "\<exists>g. ingest_run observe (new_ingest p) two_messages g \<and> ig_recording g \<and> fed g @ ig_records g = two_records"
proof -
  let ?g1 = "handle_message noon (quiet_message ''a'') (new_ingest p)"
  let ?g2 = "handle_message noon (quiet_message ''b'') ?g1"
  have "ingest_step observe (new_ingest p) (Message noon (quiet_message ''a'')) ?g1"
    "ingest_step observe ?g1 (Message noon (quiet_message ''b'')) ?g2"
    by (rule arrives, simp add: handle_message_def Let_def)+
  from one_more [OF one_more [OF run_one [OF this(1)] this(2)] closes]
  have "ingest_run observe (new_ingest p) two_messages (?g2\<lparr>ig_closed := True\<rparr>)" by simp
  then show ?thesis by (intro exI [of _ "?g2\<lparr>ig_closed := True\<rparr>"]) (simp add: fed_def handle_message_def Let_def)
qed

lemma pipeline_drains_witness:
  "\<exists>n g g'. ingest_run passthrough_observer (new_ingest (new_store (336 * Hour), new_passthrough)) two_messages g
    \<and> ingest_run passthrough_observer g (replicate n Silent) g' \<and> drained g' \<and> ig_recorded g' = two_records"
proof -
  obtain g where g: "ingest_run passthrough_observer (new_ingest (new_store (336 * Hour), new_passthrough)) two_messages g"
    "ig_recording g" "fed g @ ig_records g = two_records" using two_messages_arrive by blast
  from pipeline_drains [OF passthrough_total g(2)] g(1,3) show ?thesis by metis
qed

lemma two_messages_drained:
  "\<exists>n g. ingest_run passthrough_observer (new_ingest p) (two_messages @ replicate n Silent) g \<and> drained g
    \<and> ig_recorded g = two_records"
proof -
  obtain g where g: "ingest_run passthrough_observer (new_ingest p) two_messages g" "ig_recording g"
    "fed g @ ig_records g = two_records" using two_messages_arrive by blast
  have "can_feed passthrough_observer g'" for g' by (simp add: can_feed_def passthrough_total)
  from drain_run [of "\<lambda>_. True", OF this _ _ g(2)] run_append [OF _ g(1)] g(3) show ?thesis by metis
qed

lemma recorder_sees_what_is_fed_witness:
  "\<exists>n g. ingest_run passthrough_observer (new_ingest (new_store (336 * Hour), new_passthrough)) (two_messages @ replicate n Silent) g
    \<and> feed_all passthrough_observer (ig_recorded g) (new_store (336 * Hour), new_passthrough) = Some (ig_engine g)"
proof -
  obtain n g where g: "ingest_run passthrough_observer (new_ingest (new_store (336 * Hour), new_passthrough)) (two_messages @ replicate n Silent) g"
    "drained g" using two_messages_drained by blast
  with recorder_sees_what_is_fed [OF g(1)] have "feed_all passthrough_observer (ig_recorded g) (new_store (336 * Hour), new_passthrough) = Some (ig_engine g)"
    by (simp add: drained_def)
  with g(1) show ?thesis by blast
qed


definition two_received :: "recorder_event list" where
  "two_received = map (\<lambda>r. Received r noon) two_records @ [Input_closed]"


section \<open>An engine that keeps its promise\<close>

text \<open>The state of the pipeline with an engine that never panics: the store and the engine are sound.\<close>

definition safe_ingest :: "('e \<Rightarrow> bool) \<Rightarrow> 'e ingest \<Rightarrow> bool" where
  "safe_ingest good g \<longleftrightarrow> store_inv (fst (ig_engine g)) \<and> good (snd (ig_engine g)) \<and> (\<forall>r \<in> set (ig_records g). 0 < mr_ReceivedAt r)"

context engine begin

lemma feed_ok:
  assumes "store_inv (fst p)" and "inv (snd p)" and "0 < mr_ReceivedAt r"
  shows "\<exists>q. feed observe r p = Some q \<and> store_inv (fst q) \<and> inv (snd q)"
proof -
  obtain e cs where step: "observe (snd p) (mr_ReceivedAt r) (mr_Topic r) (mr_Payload r) = Some (e, cs)" "inv e"
    using step_ok [OF assms(2,3)] by blast
  have "store_inv st \<Longrightarrow> store_inv (fold (store_apply now) cs st)" for st now
    by (induction cs arbitrary: st) (simp_all add: store_apply_inv)
  with step assms(1) show ?thesis
    by (cases p) (simp add: feed_def Let_def saw_camera_inv)
qed

lemma safe_feeds: "safe_ingest inv g \<Longrightarrow> can_feed observe g"
  using feed_ok by (fastforce simp: safe_ingest_def can_feed_def)

lemma safe_silent:
  assumes "safe_ingest inv g" and "ingest_step observe g Silent g'"
  shows "safe_ingest inv g'"
proof -
  from assms(2) consider (feeds) "feed_next observe g = Some g'" | (hands_on) "hand_on g = Some g'"
    | (takes) "take_record g = Some g'"
    by (elim silent_stepE) auto
  then show ?thesis
  proof cases
    case feeds
    then obtain r rest st e where g: "ig_records g = r # rest" "feed observe r (ig_engine g) = Some (st, e)"
      "g' = g\<lparr>ig_records := rest, ig_engine := (st, e), ig_pending := Some r\<rparr>"
      by (auto simp: feed_next_def split: option.splits list.splits)
    then have "store_inv st \<and> inv e"
      using assms(1) feed_ok [of "ig_engine g" r] by (auto simp: safe_ingest_def)
    with assms(1) g show ?thesis by (simp add: safe_ingest_def)
  qed (use assms(1) in \<open>auto simp: safe_ingest_def hand_on_def take_record_def split: option.splits list.splits if_splits\<close>)
qed

lemma safe_step:
  assumes "safe_ingest inv g" and "ingest_step observe g h g'" and "\<forall>now m. h = Message now m \<longrightarrow> 0 < now"
  shows "safe_ingest inv g'"
proof (cases h)
  case Silent
  with assms safe_silent show ?thesis by blast
qed (use assms in \<open>auto elim!: ingest_stepEs simp: safe_ingest_def handle_message_def as_record_def Let_def split: if_splits\<close>)

lemma safe_run:
  assumes "ingest_run observe g hs g'" and "safe_ingest inv g" and "\<forall>now m. Message now m \<in> set hs \<longrightarrow> 0 < now"
  shows "safe_ingest inv g'"
  using assms
proof (induction rule: ingest_run.induct)
  case (one_more g hs g1 h g2)
  then show ?case using safe_step [of g1 h g2] by auto
qed

lemma safe_drains:
  assumes "safe_ingest inv g" and "ig_recording g"
  shows "\<exists>n g'. n \<le> backlog g \<and> ingest_run observe g (replicate n Silent) g' \<and> drained g'
    \<and> ig_recorded g' = fed g @ ig_records g"
  using safe_feeds safe_silent assms by (intro drain_run [of "safe_ingest inv"]) blast+

end

section \<open>A recorder that has returned\<close>

text \<open>
  A run that starts when the recorder has gone: the records rs were fed since, and none of them has left the goroutine's
  hand and the second channel.
\<close>

definition in_hand :: "'e ingest \<Rightarrow> nat" where
  "in_hand g = length (ig_toRecorder g) + (case ig_pending g of None \<Rightarrow> 0 | Some _ \<Rightarrow> 1)"

definition dead_inv :: "'e observer \<Rightarrow> 'e ingest \<Rightarrow> mqtt_record list \<Rightarrow> mqtt_record list \<Rightarrow> 'e ingest \<Rightarrow> bool" where
  "dead_inv observe g ms rs g' \<longleftrightarrow>
     feed_all observe rs (ig_engine g) = Some (ig_engine g') \<and> length rs + in_hand g = in_hand g'
     \<and> length (ig_toRecorder g') \<le> 1024 \<and> \<not> ig_recording g'
     \<and> subseq (rs @ ig_records g') (ig_records g @ ms)
     \<and> length rs + length (ig_records g') + ig_dropped g' = length (ig_records g) + ig_dropped g + length ms
     \<and> ig_recorded g' = ig_recorded g"

lemma dead_start: "\<not> ig_recording g \<Longrightarrow> length (ig_toRecorder g) \<le> 1024 \<Longrightarrow> dead_inv observe g [] [] g"
  by (simp add: dead_inv_def)

lemma dead_message:
  assumes "dead_inv observe g ms rs g1"
  shows "dead_inv observe g (ms @ [as_record now m]) rs (handle_message now m g1)"
proof -
  let ?r = "as_record now m"
  from assms have sub: "subseq (rs @ ig_records g1) (ig_records g @ ms)" by (simp add: dead_inv_def)
  then have "subseq ((rs @ ig_records g1) @ [?r]) ((ig_records g @ ms) @ [?r])" by (simp only: subseq_append)
  moreover have "subseq (rs @ ig_records g1) ((ig_records g @ ms) @ [?r])" using sub by (rule subseq_rev_drop_many)
  ultimately show ?thesis using assms by (auto simp: dead_inv_def in_hand_def handle_message_def Let_def)
qed

lemma dead_silent:
  assumes "dead_inv observe g ms rs g1" and "ingest_step observe g1 Silent g2"
  shows "\<exists>rs'. dead_inv observe g ms rs' g2"
proof -
  from assms(2) consider (feeds) "feed_next observe g1 = Some g2" | (hands_on) "hand_on g1 = Some g2"
    | (takes) "take_record g1 = Some g2"
    by (elim silent_stepE) auto
  then show ?thesis
  proof cases
    case feeds
    then obtain r rest st e where g: "ig_pending g1 = None" "ig_records g1 = r # rest"
      "feed observe r (ig_engine g1) = Some (st, e)"
      "g2 = g1\<lparr>ig_records := rest, ig_engine := (st, e), ig_pending := Some r\<rparr>"
      by (auto simp: feed_next_def split: option.splits list.splits)
    with assms(1) have "dead_inv observe g ms (rs @ [r]) g2"
      by (simp add: dead_inv_def in_hand_def feed_all_append)
    then show ?thesis by blast
  next
    case hands_on
    then obtain r where "ig_pending g1 = Some r" "length (ig_toRecorder g1) < 1024"
      "g2 = g1\<lparr>ig_pending := None, ig_toRecorder := ig_toRecorder g1 @ [r]\<rparr>"
      by (auto simp: hand_on_def split: option.splits if_splits)
    with assms(1) have "dead_inv observe g ms rs g2" by (simp add: dead_inv_def in_hand_def)
    then show ?thesis by blast
  next
    case takes
    with assms(1) show ?thesis by (auto simp: take_record_def dead_inv_def split: list.splits if_splits)
  qed
qed

lemma dead_run:
  "ingest_run observe g hs g' \<Longrightarrow> dead_inv observe g [] [] g \<Longrightarrow> \<exists>rs. dead_inv observe g (sent hs) rs g'"
proof (induction rule: ingest_run.induct)
  case (one_more g hs g1 h g2)
  then obtain rs where rs: "dead_inv observe g (sent hs) rs g1" by blast
  show ?case
  proof (cases h)
    case (Message now m)
    with one_more.hyps(2) have "g2 = handle_message now m g1" by (auto elim: message_stepE)
    with dead_message [OF rs] Message show ?thesis by (auto simp: sent_append)
  next
    case Silent
    with dead_silent [OF rs] one_more.hyps(2) show ?thesis by (simp add: sent_append)
  qed (use rs one_more.hyps(2) in \<open>auto simp: dead_inv_def in_hand_def sent_append elim!: ingest_stepEs\<close>)
qed auto

text \<open>
  C34. When the recorder returns early the engine stops with it. Once \<open>record.Write\<close> has returned an
  error (a new file that cannot be created, a file that cannot be closed), whatever messages arrive and
  however many, and whatever the steps are: what the store and the engine become is what feeding some
  of the waiting or arriving records, in order, makes of them, and those are at most as many as the hand
  of the feeding goroutine and the second channel had room for, never more than 1025. So from a full
  channel and a full hand on neither changes any more. Every other record waits in the first
  channel or was dropped and counted, and the recorder gets none.
\<close>
theorem dead_recorder_stops_engine:
  assumes "ingest_run observe g hs g'" and "\<not> ig_recording g" and "length (ig_toRecorder g) \<le> 1024"
  shows "\<exists>rs. feed_all observe rs (ig_engine g) = Some (ig_engine g')
    \<and> length rs + length (ig_toRecorder g) + (if ig_pending g = None then 0 else 1) \<le> 1025
    \<and> subseq (rs @ ig_records g') (ig_records g @ sent hs)
    \<and> length rs + length (ig_records g') + ig_dropped g' = length (ig_records g) + ig_dropped g + length (sent hs)
    \<and> ig_recorded g' = ig_recorded g"
proof -
  obtain rs where "dead_inv observe g (sent hs) rs g'" using dead_run [OF assms(1)] dead_start assms(2,3) by blast
  then show ?thesis
    by (intro exI [of _ rs]) (auto simp: dead_inv_def in_hand_def split: option.splits if_splits)
qed

lemma dead_recorder_stops_engine_witness:
  "\<exists>g' rs. ingest_run passthrough_observer ((new_ingest (new_store (336 * Hour), new_passthrough))\<lparr>ig_recording := False\<rparr>)
      [Message noon (quiet_message ''b'')] g'
    \<and> feed_all passthrough_observer rs (new_store (336 * Hour), new_passthrough) = Some (ig_engine g') \<and> length rs \<le> 1025"
proof -
  let ?g = "(new_ingest (new_store (336 * Hour), new_passthrough))\<lparr>ig_recording := False\<rparr>"
  have run: "ingest_run passthrough_observer ?g [Message noon (quiet_message ''b'')] (handle_message noon (quiet_message ''b'') ?g)"
    by (intro run_one arrives) simp
  from dead_recorder_stops_engine [OF this] run show ?thesis by fastforce
qed

end
