(* ===== verification/Command.thy ===== *)
theory Command
  imports Ingest Config Incidents Occupancy States
begin

text \<open>
  The commands (\<open>cmd/curtilage/main.go\<close>): how \<open>cmdRun\<close> makes the engines and the media client of the
  configuration and the credentials, \<open>runReplay\<close>, the summary of \<open>cmdReplay\<close>, the cut of \<open>cmdTrim\<close>
  and the answer of \<open>POST /admin/rotate\<close>.  Flags, logging and listening are not modelled.
\<close>

section \<open>The engines of a configuration\<close>

text \<open>\<open>AsDuration\<close> of a message that may be absent.\<close>

definition as_duration :: "duration option \<Rightarrow> duration" where
  "as_duration d = (case d of None \<Rightarrow> 0 | Some v \<Rightarrow> v)"

definition watch_of :: "watch_config \<Rightarrow> watch" where
  "watch_of oc =
     \<lparr>w_Zone = wc_Zone oc, w_Labels = wc_Labels oc, w_ArriveAfter = as_duration (wc_ArriveAfter oc),
      w_DepartAfter = as_duration (wc_DepartAfter oc), w_Quiet = wc_Quiet oc\<rparr>"

definition model_of :: "model_config \<Rightarrow> state_config" where
  "model_of sm =
     \<lparr>sc_Model = md_Model sm, sc_Hold = as_duration (md_Hold sm), sc_News = md_News sm,
      sc_AlarmClass = md_AlarmClass sm, sc_AlarmAfter = as_duration (md_AlarmAfter sm)\<rparr>"

definition adjacency_of :: "(string \<times> string list) list \<Rightarrow> (string, string list) gomap" where
  "adjacency_of adj =
     fold (\<lambda>(camera, neighbors) m.
       gm_set camera ((case gm_get m camera of None \<Rightarrow> [] | Some ns \<Rightarrow> ns) @ neighbors) m) adj []"

definition incidents_of :: "config \<Rightarrow> incident_config" where
  "incidents_of cfg =
     (let ic = default_incident_config\<lparr>ic_Notable := cf_NotableLabels cfg\<rparr>
      in if cf_Adjacency cfg \<noteq> [] then ic\<lparr>ic_Adjacent := adjacency_of (cf_Adjacency cfg)\<rparr> else ic)"

text \<open>\<open>policy.Multi\<close> of the three engines: what it observes, and how it begins.\<close>

definition household_observe ::
  "(occupancy \<Rightarrow> occ_orders) \<Rightarrow> (states \<Rightarrow> string list) \<Rightarrow> (incidents \<times> occupancy \<times> states \<times> unit) observer"
where
  "household_observe pick_occ pick_states =
     multi_cons incidents_observe
       (multi_cons (occ_observer pick_occ) (multi_cons (states_observer pick_states) multi_nil))"

definition household_of :: "config \<Rightarrow> incidents \<times> occupancy \<times> states \<times> unit" where
  "household_of cfg =
     (new_incidents (incidents_of cfg), new_occupancy (map watch_of (cf_Occupancy cfg)),
      new_states (map model_of (cf_StateModels cfg)), ())"

text \<open>An engine's own defaults leave what the configuration accepted alone.\<close>

lemma default_watch_of: "watch_ok oc \<Longrightarrow> Occupancy.default_watch (watch_of oc) = watch_of oc"
  by (auto simp: Occupancy.default_watch_def watch_of_def watch_ok_def between_def as_duration_def Let_def)

lemma model_of_kept: "model_ok sm \<Longrightarrow> sm_cfg (new_state_model (model_of sm)) = model_of sm"
  by (auto simp: new_state_model_def model_of_def model_ok_def between_def as_duration_def)

lemma ledgers_set:
  "(k, l) \<in> set (fold (\<lambda>x. gm_set (f x) (new_ledger w x)) xs m) \<Longrightarrow> lg_watch l = w \<or> (k, l) \<in> set m"
proof (induction xs arbitrary: m)
  case (Cons x xs)
  then have "lg_watch l = w \<or> (k, l) \<in> set (gm_set (f x) (new_ledger w x) m)" by simp
  moreover have "lg_watch (new_ledger w x) = w" by (simp add: new_ledger_def)
  ultimately show ?case using gm_set_values [of k l "f x" "new_ledger w x" m] by auto
qed simp

lemma watches_ledgers:
  "(k, l) \<in> set (oc_ledgers (fold add_watch ws oc)) \<Longrightarrow>
     lg_watch l \<in> Occupancy.default_watch ` set ws \<or> (k, l) \<in> set (oc_ledgers oc)"
proof (induction ws arbitrary: oc)
  case (Cons w ws)
  then have "lg_watch l \<in> Occupancy.default_watch ` set ws \<or> (k, l) \<in> set (oc_ledgers (add_watch w oc))" by simp
  then show ?case by (auto simp: add_watch_def Let_def dest!: ledgers_set)
qed simp

lemma states_set:
  "(k, m) \<in> set (fold (\<lambda>c s. gm_set (sc_Model c) (new_state_model c) s) cs s) \<Longrightarrow>
     (\<exists>c \<in> set cs. m = new_state_model c) \<or> (k, m) \<in> set s"
proof (induction cs arbitrary: s)
  case (Cons c cs)
  then have "(\<exists>c \<in> set cs. m = new_state_model c) \<or> (k, m) \<in> set (gm_set (sc_Model c) (new_state_model c) s)" by simp
  then show ?case by (auto dest!: gm_set_values)
qed simp

lemma adjacency_accumulates:
  "(case gm_get (adjacency_of adj) c of None \<Rightarrow> [] | Some ns \<Rightarrow> ns) = concat (map snd (filter (\<lambda>(a, _). a = c) adj))"
proof -
  have "(case gm_get (fold (\<lambda>(camera, neighbors) m.
      gm_set camera ((case gm_get m camera of None \<Rightarrow> [] | Some ns \<Rightarrow> ns) @ neighbors) m) adj m) c of None \<Rightarrow> [] | Some ns \<Rightarrow> ns)
    = (case gm_get m c of None \<Rightarrow> [] | Some ns \<Rightarrow> ns) @ concat (map snd (filter (\<lambda>(a, _). a = c) adj))" for m
    by (induction adj arbitrary: m) (auto simp: split: option.splits)
  from this [of "[]"] show ?thesis by (simp add: adjacency_of_def)
qed

text \<open>
  Further. The engines run on the timers that were accepted. For a configuration that Load accepts, every
  ledger of the occupancy engine and every model of the states engine carries an entry of the
  configuration unchanged, with its arrival delay of a second to an hour, its departure delay of a
  second to a day, its hold of a second to an hour; no default of an engine replaces one of them.
\<close>
theorem accepted_timers:
  assumes "apply_defaults zones c = Inr cfg" and "household_of cfg = (ic, oc, st, u)"
  shows "(\<forall>(k, l) \<in> set (oc_ledgers oc). \<exists>w \<in> set (cf_Occupancy cfg). lg_watch l = watch_of w \<and>
        w_ArriveAfter (lg_watch l) \<in> {Second..Hour} \<and> w_DepartAfter (lg_watch l) \<in> {Second..24 * Hour})
    \<and> (\<forall>(k, m) \<in> set st. \<exists>sm \<in> set (cf_StateModels cfg). sm_cfg m = model_of sm \<and> sc_Hold (sm_cfg m) \<in> {Second..Hour})"
proof -
  have ok: "list_all model_ok (cf_StateModels cfg)" "list_all watch_ok (cf_Occupancy cfg)"
    using accepted_config [OF assms(1)] by (auto simp: config_ok_def)
  have "\<exists>w \<in> set (cf_Occupancy cfg). lg_watch l = watch_of w \<and>
      w_ArriveAfter (lg_watch l) \<in> {Second..Hour} \<and> w_DepartAfter (lg_watch l) \<in> {Second..24 * Hour}"
    if mem: "(k, l) \<in> set (oc_ledgers oc)" for k l
  proof -
    obtain w where w: "w \<in> set (cf_Occupancy cfg)" "lg_watch l = Occupancy.default_watch (watch_of w)"
      using watches_ledgers [of k l "map watch_of (cf_Occupancy cfg)" "\<lparr>oc_watches = [], oc_ledgers = [], oc_tracks = []\<rparr>"]
        assms(2) mem by (auto simp: household_of_def new_occupancy_def)
    then have "watch_ok w" using ok(2) by (simp add: list_all_iff)
    with w default_watch_of [OF this] show ?thesis
      by (intro bexI [of _ w]) (auto simp: watch_of_def watch_ok_def between_def as_duration_def)
  qed
  moreover have "\<exists>sm \<in> set (cf_StateModels cfg). sm_cfg m = model_of sm \<and> sc_Hold (sm_cfg m) \<in> {Second..Hour}"
    if mem: "(k, m) \<in> set st" for k m
  proof -
    obtain sm where sm: "sm \<in> set (cf_StateModels cfg)" "m = new_state_model (model_of sm)"
      using states_set [of k m "map model_of (cf_StateModels cfg)" "[]"] assms(2) mem
      by (auto simp: household_of_def new_states_def)
    then have "model_ok sm" using ok(1) by (simp add: list_all_iff)
    with sm model_of_kept [OF this] show ?thesis
      by (intro bexI [of _ sm]) (auto simp: model_of_def model_ok_def between_def as_duration_def)
  qed
  ultimately show ?thesis by auto
qed

lemma accepted_timers_witness:
  "\<exists>cfg ic oc st. apply_defaults [] sample_config = Inr cfg \<and> household_of cfg = (ic, oc, st, ())
    \<and> (\<forall>(k, m) \<in> set st. sc_Hold (sm_cfg m) \<in> {Second..Hour})"
proof -
  obtain cfg where cfg: "apply_defaults [] sample_config = Inr cfg" using sample_accepted by blast
  obtain ic oc st where h: "household_of cfg = (ic, oc, st, ())" by (simp add: household_of_def)
  have "\<forall>(k, m) \<in> set st. sc_Hold (sm_cfg m) \<in> {Second..Hour}" using accepted_timers [OF cfg h] by fastforce
  with cfg h show ?thesis by blast
qed

section \<open>Media: the client and the keys\<close>

text \<open>A URL as \<open>url.Parse\<close> gives it, and \<open>frigate.NewClient\<close> on it.\<close>

record url =
  url_Scheme :: string
  url_Host :: string
  url_Path :: string
  url_RawQuery :: string
  url_Fragment :: string

datatype media_error = Bad_url string | Not_http string | Bad_ring key_error

definition new_client :: "(string \<Rightarrow> url option) \<Rightarrow> string \<Rightarrow> media_error + url" where
  "new_client parse base =
     (case parse base of
        None \<Rightarrow> Inl (Bad_url base)
      | Some u \<Rightarrow>
          if url_Scheme u \<noteq> ''http'' \<and> url_Scheme u \<noteq> ''https'' \<or> url_Host u = [] then Inl (Not_http base)
          else Inr (u\<lparr>url_Path := rev (dropWhile (\<lambda>c. c = CHR ''/'') (rev (url_Path u))), url_RawQuery := [], url_Fragment := []\<rparr>))"

definition media_setup :: "(string \<Rightarrow> url option) \<Rightarrow> config \<Rightarrow> credentials \<Rightarrow> media_error + url option \<times> keyring option" where
  "media_setup parse cfg creds =
     (if cf_FrigateUrl cfg = [] then Inr (None, None)
      else case new_client parse (cf_FrigateUrl cfg) of
        Inl e \<Rightarrow> Inl e
      | Inr fc \<Rightarrow>
          if cd_MediaKey creds = [] then Inr (Some fc, None)
          else (case new_keyring (cd_MediaKey creds) (cd_MediaKeyPrior creds) of
             Inl e \<Rightarrow> Inl (Bad_ring e)
           | Inr kr \<Rightarrow> Inr (Some fc, Some kr)))"

lemma parse_key_long: "parse_key s = Inr b \<Longrightarrow> b = [] \<or> MinKeyLen \<le> length b"
  by (auto simp: parse_key_def split: if_splits option.splits)

text \<open>
  Further. The credentials that are read are the keys that are used. When the environment is accepted and
  the address of Frigate is one, media starts unless the prior key has the id of the current one:
  there are links exactly when there is a media key, signed with it, and the prior key is taken as
  well exactly when there is one; without an address there is no client and there are no links.
\<close>
theorem media_starts:
  assumes "credentials_from_env env = Inr creds"
  shows "(cf_FrigateUrl cfg = [] \<longrightarrow> media_setup parse cfg creds = Inr (None, None))
    \<and> (\<forall>fc. cf_FrigateUrl cfg \<noteq> [] \<and> new_client parse (cf_FrigateUrl cfg) = Inr fc \<longrightarrow>
        media_setup parse cfg creds = Inl (Bad_ring Prior_is_current)
          \<and> k_id (mk_key (cd_MediaKey creds)) = k_id (mk_key (cd_MediaKeyPrior creds))
        \<or> (\<exists>kr. media_setup parse cfg creds = Inr (Some fc, kr) \<and> (kr = None \<longleftrightarrow> cd_MediaKey creds = [])
            \<and> (\<forall>k. kr = Some k \<longrightarrow> kr_current k = mk_key (cd_MediaKey creds)
                \<and> kr_prior k = (if cd_MediaKeyPrior creds = [] then None else Some (mk_key (cd_MediaKeyPrior creds))))))"
proof -
  have "cd_MediaKey creds = [] \<or> MinKeyLen \<le> length (cd_MediaKey creds)"
    "cd_MediaKeyPrior creds = [] \<or> MinKeyLen \<le> length (cd_MediaKeyPrior creds)"
    using assms by (auto simp: credentials_from_env_def Let_def split: if_splits sum.splits dest!: parse_key_long)
  then show ?thesis by (auto simp: media_setup_def new_keyring_def Let_def)
qed

lemma media_starts_witness:
  "media_setup (\<lambda>_. Some \<lparr>url_Scheme = ''http'', url_Host = ''frigate:5000'', url_Path = ''/'', url_RawQuery = [], url_Fragment = []\<rparr>)
     (sample_config\<lparr>cf_FrigateUrl := ''http://frigate:5000/''\<rparr>) \<lparr>cd_User = [], cd_Password = [], cd_MediaKey = [], cd_MediaKeyPrior = []\<rparr>
   = Inr (Some \<lparr>url_Scheme = ''http'', url_Host = ''frigate:5000'', url_Path = [], url_RawQuery = [], url_Fragment = []\<rparr>, None)"
proof -
  let ?parse = "\<lambda>_. Some \<lparr>url_Scheme = ''http'', url_Host = ''frigate:5000'', url_Path = ''/'', url_RawQuery = [], url_Fragment = []\<rparr>"
  have "credentials_from_env (\<lambda>_. []) = Inr \<lparr>cd_User = [], cd_Password = [], cd_MediaKey = [], cd_MediaKeyPrior = []\<rparr>"
    by (simp add: credentials_from_env_def parse_key_def)
  from media_starts [OF this, of "sample_config\<lparr>cf_FrigateUrl := ''http://frigate:5000/''\<rparr>" ?parse]
  show ?thesis by (auto simp: new_client_def media_setup_def new_keyring_def)
qed

section \<open>Cutting a recording down\<close>

text \<open>The bounds, the zero time where none is given, and what the two expressions match.\<close>

record trim_options =
  to_From :: time
  to_To :: time
  to_Keep :: "(string \<Rightarrow> bool) option"
  to_Drop :: "(string \<Rightarrow> bool) option"

definition trim_keeps :: "trim_options \<Rightarrow> mqtt_record \<Rightarrow> bool" where
  "trim_keeps opts r =
     (let t = mr_ReceivedAt r
      in if to_From opts \<noteq> 0 \<and> t < to_From opts \<or> to_To opts \<noteq> 0 \<and> \<not> t < to_To opts then False
         else if (case to_Keep opts of None \<Rightarrow> False | Some re \<Rightarrow> \<not> re (mr_Topic r)) then False
         else if (case to_Drop opts of None \<Rightarrow> False | Some re \<Rightarrow> re (mr_Topic r)) then False
         else True)"

text \<open>\<open>cmdTrim\<close>: None when the recording cannot be read; a torn or damaged one is cut from what is left.\<close>

definition cmd_trim :: "trim_options \<Rightarrow> mqtt_record list \<times> read_result \<Rightarrow> mqtt_record list option" where
  "cmd_trim opts = (\<lambda>(recs, res). if res = Read_failed then None else Some (filter (trim_keeps opts) recs))"

lemma sorted_split:
  "sorted (map f xs) \<Longrightarrow> filter (\<lambda>x. f x < (m :: time)) xs @ filter (\<lambda>x. \<not> f x < m) xs = xs"
proof (induction xs)
  case (Cons x xs)
  show ?case
  proof (cases "f x < m")
    case False
    then have "filter (\<lambda>x. f x < m) xs = []" using Cons.prems by (auto simp: filter_empty_conv)
    then have "filter (\<lambda>x. \<not> f x < m) xs = xs" by (auto simp: filter_empty_conv filter_id_conv)
    with False \<open>filter (\<lambda>x. f x < m) xs = []\<close> show ?thesis by simp
  qed (use Cons in simp)
qed simp

text \<open>
  Further. The cuts of a recording tile. For a recording in the order of its times, cutting it at an instant
  within the bounds, with the same expressions, gives two recordings that together are, record for
  record and in order, the uncut one: no record is in neither or in both.
\<close>
theorem trims_tile:
  assumes "sorted (map mr_ReceivedAt recs)" and "mid \<noteq> 0" and "to_From opts \<le> mid" and "to_To opts = 0 \<or> mid \<le> to_To opts"
    and "cmd_trim (opts\<lparr>to_To := mid\<rparr>) (recs, res) = Some before" and "cmd_trim (opts\<lparr>to_From := mid\<rparr>) (recs, res) = Some rest"
  shows "cmd_trim opts (recs, res) = Some (before @ rest)"
proof -
  have "filter (trim_keeps opts) recs =
      filter (\<lambda>r. mr_ReceivedAt r < mid) (filter (trim_keeps opts) recs) @ filter (\<lambda>r. \<not> mr_ReceivedAt r < mid) (filter (trim_keeps opts) recs)"
    using sorted_split [of mr_ReceivedAt "filter (trim_keeps opts) recs" mid] assms(1) by (simp add: sorted_filter)
  moreover have "trim_keeps (opts\<lparr>to_To := mid\<rparr>) = (\<lambda>r. trim_keeps opts r \<and> mr_ReceivedAt r < mid)"
    "trim_keeps (opts\<lparr>to_From := mid\<rparr>) = (\<lambda>r. trim_keeps opts r \<and> \<not> mr_ReceivedAt r < mid)"
    using assms(2-4) by (auto simp: trim_keeps_def Let_def fun_eq_iff)
  ultimately show ?thesis
    using assms(5,6) by (auto simp: cmd_trim_def split: if_splits)
qed

lemma trims_tile_witness:
  "cmd_trim \<lparr>to_From = 0, to_To = 0, to_Keep = None, to_Drop = None\<rparr> ([plain_record ''a'', plain_record ''b''], Read_truncated)
    = Some ([plain_record ''a'', plain_record ''b''] @ [])"
proof -
  have "plain_record b \<in> Collect (trim_keeps \<lparr>to_From = 0, to_To = noon + 1, to_Keep = None, to_Drop = None\<rparr>)"
    "plain_record b \<notin> Collect (trim_keeps \<lparr>to_From = noon + 1, to_To = 0, to_Keep = None, to_Drop = None\<rparr>)" for b
    by (simp_all add: trim_keeps_def plain_record_def)
  then show ?thesis
    using trims_tile [of "[plain_record ''a'', plain_record ''b'']" "noon + 1" "\<lparr>to_From = 0, to_To = 0, to_Keep = None, to_Drop = None\<rparr>"
        Read_truncated "[plain_record ''a'', plain_record ''b'']" "[]"]
    by (simp add: cmd_trim_def plain_record_def)
qed

section \<open>Summarizing a recording\<close>

record summary =
  su_Records :: nat
  su_Bytes :: nat
  su_First :: time
  su_Last :: time
  su_Topics :: "(string \<times> nat) list"

definition by_topic :: "mqtt_record list \<Rightarrow> (string, nat) gomap" where
  "by_topic recs =
     fold (\<lambda>r m. gm_set (mr_Topic r) ((case gm_get m (mr_Topic r) of None \<Rightarrow> 0 | Some n \<Rightarrow> n) + 1) m) recs []"

text \<open>
  \<open>cmdReplay\<close> after reading: None is ``no records''.  Sorting is not stable and starts from the order of
  the map: \<open>ord\<close> stands for the order in which equal counts come out.
\<close>

definition cmd_replay :: "string list \<Rightarrow> string \<Rightarrow> mqtt_record list \<Rightarrow> summary option" where
  "cmd_replay ord topic recs0 =
     (let recs = (if topic \<noteq> [] then filter (\<lambda>r. mr_Topic r = topic) recs0 else recs0)
      in if recs = [] then None
         else Some \<lparr>su_Records = length recs, su_Bytes = sum_list (map (length \<circ> mr_Payload) recs),
                    su_First = mr_ReceivedAt (hd recs), su_Last = mr_ReceivedAt (last recs),
                    su_Topics = sort_key (\<lambda>(t, n). - int n) (gm_pick ord (by_topic recs))\<rparr>)"

lemma by_topic_wf: "gm_wf (by_topic recs)"
proof -
  have "gm_wf m \<Longrightarrow> gm_wf (fold (\<lambda>r m. gm_set (mr_Topic r) ((case gm_get m (mr_Topic r) of None \<Rightarrow> 0 | Some n \<Rightarrow> n) + 1) m) recs m)"
    for m :: "(string, nat) gomap"
    by (induction recs arbitrary: m) (auto intro: gm_wf_set)
  then show ?thesis by (simp add: by_topic_def)
qed

lemma by_topic_counts:
  "gm_get (by_topic recs) t = (let n = length (filter (\<lambda>r. mr_Topic r = t) recs) in if n = 0 then None else Some n)"
proof -
  have "gm_get (fold (\<lambda>r m. gm_set (mr_Topic r) ((case gm_get m (mr_Topic r) of None \<Rightarrow> 0 | Some n \<Rightarrow> n) + 1) m) recs m) t
    = (let n = length (filter (\<lambda>r. mr_Topic r = t) recs) in if n = 0 then gm_get m t
       else Some ((case gm_get m t of None \<Rightarrow> 0 | Some k \<Rightarrow> k) + n))" for m :: "(string, nat) gomap"
    by (induction recs arbitrary: m) (auto simp: Let_def split: option.splits)
  from this [of "[]"] show ?thesis by (simp add: by_topic_def Let_def)
qed

lemma by_topic_sum: "sum_list (map snd (by_topic rs)) = length rs"
proof -
  have "sum_list (map snd (fold (\<lambda>r m. gm_set (mr_Topic r) ((case gm_get m (mr_Topic r) of None \<Rightarrow> 0 | Some n \<Rightarrow> n) + 1) m) rs m))
    = sum_list (map snd m) + length rs" for m :: "(string, nat) gomap"
  proof (induction rs arbitrary: m)
    case (Cons r rs)
    then show ?case
      using gm_set_sum [of "mr_Topic r" "(case gm_get m (mr_Topic r) of None \<Rightarrow> 0 | Some n \<Rightarrow> n) + 1" m] by simp
  qed simp
  from this [of "[]"] show ?thesis by (simp add: by_topic_def)
qed

text \<open>
  Further. The summary counts every record once. Whatever order the map is ranged over, the topics of a
  summary are distinct and in decreasing order of their counts, each count is the number of its
  records, every topic that has a record is there, and the counts add up to the number of records.
\<close>
theorem summary_counts:
  assumes "cmd_replay ord topic recs = Some su"
  shows "distinct (map fst (su_Topics su)) \<and> sorted_wrt (\<lambda>a b. snd b \<le> snd a) (su_Topics su)
    \<and> (\<forall>t n. (t, n) \<in> set (su_Topics su) \<longleftrightarrow>
        0 < n \<and> n = length (filter (\<lambda>r. mr_Topic r = t \<and> (topic \<noteq> [] \<longrightarrow> t = topic)) recs))
    \<and> sum_list (map snd (su_Topics su)) = su_Records su"
proof -
  define rs where "rs = (if topic \<noteq> [] then filter (\<lambda>r. mr_Topic r = topic) recs else recs)"
  let ?m = "gm_pick ord (by_topic rs)"
  have su: "su_Topics su = sort_key (\<lambda>(t, n). - int n) ?m" "su_Records su = length rs"
    using assms by (auto simp: cmd_replay_def rs_def Let_def split: if_splits)
  have "mset ?m = mset (by_topic rs)" by (rule gm_pick_mset [OF by_topic_wf])
  then have perm: "mset (su_Topics su) = mset (by_topic rs)" by (simp add: su)
  have "mset (map fst (su_Topics su)) = mset (map fst (by_topic rs))" using perm by simp
  then have dist: "distinct (map fst (su_Topics su))" using by_topic_wf [of rs] by (metis mset_eq_imp_distinct_iff)
  have "sorted (map (\<lambda>(t, n). - int n) (su_Topics su))" by (simp add: su)
  then have order: "sorted_wrt (\<lambda>a b. snd b \<le> snd a) (su_Topics su)" by (simp add: sorted_map case_prod_beta)
  have mem: "(t, n) \<in> set (su_Topics su) \<longleftrightarrow> 0 < n \<and> n = length (filter (\<lambda>r. mr_Topic r = t) rs)" for t n
    using perm gm_in_set [OF by_topic_wf, of t n rs] by_topic_counts [of rs t] by (auto simp: Let_def dest: mset_eq_setD split: if_splits)
  have "length (filter (\<lambda>r. mr_Topic r = t) rs) = length (filter (\<lambda>r. mr_Topic r = t \<and> (topic \<noteq> [] \<longrightarrow> t = topic)) recs)" for t
    by (auto simp: rs_def intro!: arg_cong [of _ _ length] filter_cong)
  moreover have "sum_list (map snd (su_Topics su)) = length rs"
  proof -
    have "sum_list (map snd (su_Topics su)) = sum_list (map snd (by_topic rs))"
      using arg_cong [OF perm, of "\<lambda>M. sum_mset (image_mset snd M)"] by (simp flip: mset_map sum_mset_sum_list)
    also have "\<dots> = length rs" by (rule by_topic_sum)
    finally show ?thesis .
  qed
  ultimately show ?thesis using dist order mem su(2) by auto
qed

lemma summary_counts_witness:
  "\<exists>su. cmd_replay [] [] [plain_record ''a'', plain_record ''b''] = Some su \<and> sum_list (map snd (su_Topics su)) = 2"
proof -
  obtain su where su: "cmd_replay [] [] [plain_record ''a'', plain_record ''b''] = Some su" "su_Records su = 2"
    by (simp add: cmd_replay_def Let_def)
  with summary_counts [OF su(1)] show ?thesis by auto
qed

section \<open>Serving a recording\<close>

text \<open>
  The wait before a record: the time since the one before, as a float, by the speed, and back, when
  that is positive.  A gap that an int64 cannot hold after the division is not modelled.
\<close>

definition replay_gap :: "f64 \<Rightarrow> time \<Rightarrow> time \<Rightarrow> duration option" where
  "replay_gap speed prev when =
     (if 0 < speed \<and> prev \<noteq> 0 then
        let x = fl64 (fl64 (of_int (time_sub when prev)) / speed); gap = (if 0 \<le> x then \<lfloor>x\<rfloor> else \<lceil>x\<rceil>)
        in if 0 < gap then Some gap else None
      else None)"

text \<open>
  The loop of \<open>runReplay\<close>: \<open>stop i\<close> says that the context has ended when record i would be fed.  The
  result is the waits begun, the number of records fed and the state; None is a panic of the engine.
\<close>

fun replay_loop :: "'e observer \<Rightarrow> f64 \<Rightarrow> (nat \<Rightarrow> bool) \<Rightarrow> time \<Rightarrow> mqtt_record list \<Rightarrow> nat \<Rightarrow> store \<times> 'e
    \<Rightarrow> (duration list \<times> nat \<times> store \<times> 'e) option" where
  "replay_loop observe speed stop prev [] i p = Some ([], i, p)"
| "replay_loop observe speed stop prev (r # rs) i p =
     (let when = mr_ReceivedAt r; waits = (case replay_gap speed prev when of None \<Rightarrow> [] | Some gap \<Rightarrow> [gap])
      in if stop i then Some (waits, i, p)
         else case feed observe r p of
           None \<Rightarrow> None
         | Some p1 \<Rightarrow> map_option (\<lambda>(ws, x). (waits @ ws, x)) (replay_loop observe speed stop when rs (i + 1) p1))"

text \<open>\<open>runReplay\<close> on what \<open>ReadAll\<close> gave: Inl is the error of a recording that cannot be read.\<close>

definition run_replay :: "'e observer \<Rightarrow> f64 \<Rightarrow> (nat \<Rightarrow> bool) \<Rightarrow> mqtt_record list \<times> read_result \<Rightarrow> store \<times> 'e
    \<Rightarrow> read_result + (duration list \<times> nat \<times> store \<times> 'e) option" where
  "run_replay observe speed stop = (\<lambda>(recs, res) p.
     if res = Read_failed then Inl res else Inr (replay_loop observe speed stop 0 recs 0 p))"

lemma replay_loop_feeds:
  "replay_loop observe speed stop prev recs i p = Some (ws, n, q) \<Longrightarrow>
     i \<le> n \<and> n \<le> i + length recs \<and> feed_all observe (take (n - i) recs) p = Some q
     \<and> (\<forall>j. i \<le> j \<and> j < n \<longrightarrow> \<not> stop j) \<and> (n < i + length recs \<longrightarrow> stop n) \<and> (speed = 0 \<longrightarrow> ws = [])"
proof (induction recs arbitrary: i p ws prev)
  case (Cons r rs)
  show ?case
  proof (cases "stop i")
    case True
    with Cons.prems show ?thesis by (auto simp: Let_def replay_gap_def)
  next
    case False
    with Cons.prems obtain st e ws1 where step: "feed observe r p = Some (st, e)"
      "replay_loop observe speed stop (mr_ReceivedAt r) rs (i + 1) (st, e) = Some (ws1, n, q)"
      "ws = (case replay_gap speed prev (mr_ReceivedAt r) of None \<Rightarrow> [] | Some gap \<Rightarrow> [gap]) @ ws1"
      by (auto simp: Let_def split: option.splits)
    from Cons.IH [OF step(2)] have ih: "i + 1 \<le> n" "n \<le> i + 1 + length rs"
      "feed_all observe (take (n - (i + 1)) rs) (st, e) = Some q"
      "\<forall>j. i + 1 \<le> j \<and> j < n \<longrightarrow> \<not> stop j" "n < i + 1 + length rs \<longrightarrow> stop n" "speed = 0 \<longrightarrow> ws1 = []" by auto
    have "n - i = Suc (n - (i + 1))" using ih(1) by simp
    then have "feed_all observe (take (n - i) (r # rs)) p = Some q" using step(1) ih(3) by simp
    moreover have "\<forall>j. i \<le> j \<and> j < n \<longrightarrow> \<not> stop j" using ih(4) False by (metis Suc_eq_plus1 le_antisym not_less_eq_eq)
    ultimately show ?thesis using ih step(3) by (auto simp: replay_gap_def)
  qed
qed auto

text \<open>Whole numbers below 2 to the 53 are floats.\<close>

lemma bit_length_le: "n < 2 ^ m \<Longrightarrow> bit_length n \<le> int m"
proof (induction m arbitrary: n)
  case (Suc m)
  then have "n div 2 < 2 ^ m" by simp
  from Suc.IH [OF this] show ?case by (subst bit_length.simps) auto
qed (simp add: bit_length.simps)

lemma round_whole: "round_half_even (of_int z) = z"
  by (simp add: round_half_even_def Let_def)

lemma fl64_whole:
  assumes "0 < n" and "n < 2 ^ 53"
  shows "fl64 (of_int n) = of_int n"
proof -
  have "bit_length 1 = 1" by (simp add: bit_length.simps)
  moreover have "quotient_of (of_int n) = (n, 1)" by simp
  ultimately have "rat_exponent (of_int n) \<le> bit_length n - 1" by (simp add: rat_exponent_def Let_def)
  then have "rat_exponent (of_int n) - 52 \<le> 0" using bit_length_le [OF assms(2)] by simp
  then obtain k where k: "max (rat_exponent (of_int n) - 52) (- 1074) = - int k"
    by (metis nonpos_int_cases max.bounded_iff neg_le_0_iff_le of_nat_0_le_iff order_trans max_def neg_numeral_le_zero)
  have "pow2 (- int k) = 1 / 2 ^ k" by (cases "k = 0") (simp_all add: pow2_def)
  moreover have "of_int n / (1 / 2 ^ k) = (of_int (n * 2 ^ k) :: rat)" by simp
  moreover have "\<bar>of_int n :: rat\<bar> = of_int n" "sgn (of_int n :: rat) = 1" "(of_int n :: rat) \<noteq> 0" using assms(1) by simp_all
  ultimately show ?thesis
    unfolding fl64_def round_float_def by (simp add: k Let_def round_whole del: of_int_mult, simp)
qed

lemma replay_gap_whole:
  assumes "prev \<noteq> 0" and "prev \<le> t" and "t - prev < 2 ^ 53"
  shows "replay_gap 1 prev t = (if prev < t then Some (t - prev) else None)"
proof -
  have "time_sub t prev = t - prev" using assms by (simp add: time_sub_def)
  moreover have "fl64 (of_int (t - prev)) = of_int (t - prev)"
    using fl64_whole [of "t - prev"] assms(2,3) by (cases "t = prev") auto
  ultimately show ?thesis using assms(1,2) unfolding replay_gap_def by (simp add: Let_def del: of_int_diff)
qed

lemma replay_waits:
  assumes "replay_loop observe 1 stop prev recs i p = Some (ws, i + length recs, q)" and "prev \<noteq> 0"
    and "sorted (prev # map mr_ReceivedAt recs)" and "0 < prev"
    and "\<forall>(a, b) \<in> set (zip (prev # map mr_ReceivedAt recs) (map mr_ReceivedAt recs)). b - a < 2 ^ 53"
  shows "sum_list ws = last (prev # map mr_ReceivedAt recs) - prev"
  using assms
proof (induction recs arbitrary: prev i p ws)
  case (Cons r rs)
  let ?t = "mr_ReceivedAt r"
  have "\<not> stop i" using replay_loop_feeds [OF Cons.prems(1)] by auto
  with Cons.prems(1) obtain p1 ws1 where step: "feed observe r p = Some p1"
    "replay_loop observe 1 stop ?t rs (i + 1) p1 = Some (ws1, (i + 1) + length rs, q)"
    "ws = (case replay_gap 1 prev ?t of None \<Rightarrow> [] | Some gap \<Rightarrow> [gap]) @ ws1"
    by (auto simp: Let_def split: option.splits)
  have "sum_list ws1 = last (?t # map mr_ReceivedAt rs) - ?t"
    using Cons.prems(3-5) by (intro Cons.IH [OF step(2)]) auto
  moreover have "sum_list (case replay_gap 1 prev ?t of None \<Rightarrow> [] | Some gap \<Rightarrow> [gap]) = ?t - prev"
    using Cons.prems(2,3,5) replay_gap_whole [of prev ?t] by auto
  ultimately show ?case by (simp add: step(3))
qed simp

text \<open>
  Further. A replay serves the recording. When it is not interrupted, the store and the engine are what
  feeding the records in their order gives; when it is, what feeding those before the interruption
  gives.  Without pacing it waits for nothing; at real time, for a recording in order with less than
  104 days between records, it waits as long as the recording lasted, to the nanosecond.
\<close>
theorem replay_serves:
  assumes "run_replay observe speed stop (recs, res) p = Inr (Some (ws, n, q))"
  shows "feed_all observe (take n recs) p = Some q \<and> (\<forall>j<n. \<not> stop j) \<and> (n < length recs \<longrightarrow> stop n) \<and> n \<le> length recs
    \<and> (speed = 0 \<longrightarrow> ws = [])
    \<and> (speed = 1 \<and> n = length recs \<and> recs \<noteq> [] \<and> sorted (map mr_ReceivedAt recs) \<and> 0 < mr_ReceivedAt (hd recs)
        \<and> (\<forall>(a, b) \<in> set (zip (map mr_ReceivedAt recs) (tl (map mr_ReceivedAt recs))). b - a < 2 ^ 53)
      \<longrightarrow> sum_list ws = mr_ReceivedAt (last recs) - mr_ReceivedAt (hd recs))"
proof -
  have loop: "replay_loop observe speed stop 0 recs 0 p = Some (ws, n, q)"
    using assms by (auto simp: run_replay_def split: if_splits)
  have "sum_list ws = mr_ReceivedAt (last recs) - mr_ReceivedAt (hd recs)"
    if h: "speed = 1" "n = length recs" "recs \<noteq> []" "sorted (map mr_ReceivedAt recs)" "0 < mr_ReceivedAt (hd recs)"
      "\<forall>(a, b) \<in> set (zip (map mr_ReceivedAt recs) (tl (map mr_ReceivedAt recs))). b - a < 2 ^ 53"
  proof -
    obtain r rs where recs: "recs = r # rs" using h(3) by (cases recs) auto
    have "\<not> stop 0" using replay_loop_feeds [OF loop] h(2) recs by auto
    with loop h(1,2) recs obtain p1 where p1: "replay_loop observe 1 stop (mr_ReceivedAt r) rs 1 p1 = Some (ws, 1 + length rs, q)"
      by (auto simp: Let_def replay_gap_def split: option.splits)
    have "sum_list ws = last (mr_ReceivedAt r # map mr_ReceivedAt rs) - mr_ReceivedAt r"
      using h recs by (intro replay_waits [OF p1]) auto
    then show ?thesis by (simp add: recs last_map)
  qed
  with replay_loop_feeds [OF loop] show ?thesis by auto
qed

lemma replay_serves_witness:
  "\<exists>q. run_replay passthrough_observer 1 (\<lambda>_. False) ([plain_record ''a'', (plain_record ''b'')\<lparr>mr_ReceivedAt := noon + Second\<rparr>], Read_ok)
      (new_store (336 * Hour), new_passthrough) = Inr (Some ([Second], 2, q))"
proof -
  let ?recs = "[plain_record ''a'', (plain_record ''b'')\<lparr>mr_ReceivedAt := noon + Second\<rparr>]"
  let ?p = "(new_store (336 * Hour), new_passthrough)"
  obtain p1 where p1: "feed passthrough_observer (plain_record ''a'') ?p = Some p1" using passthrough_total by blast
  obtain q where q: "feed passthrough_observer ((plain_record ''b'')\<lparr>mr_ReceivedAt := noon + Second\<rparr>) p1 = Some q"
    using passthrough_total by blast
  have "replay_gap 1 noon (noon + Second) = Some Second" using replay_gap_whole [of noon "noon + Second"] by simp
  then have run: "run_replay passthrough_observer 1 (\<lambda>_. False) (?recs, Read_ok) ?p = Inr (Some ([Second], 2, q))"
    using p1 q by (simp add: run_replay_def Let_def plain_record_def replay_gap_def [of _ 0])
  from replay_serves [OF run] show ?thesis using run by blast
qed

section \<open>Asking for a rotation\<close>

text \<open>
  The writer as \<open>POST /admin/rotate\<close> finds it: recording is off, \<open>record.Write\<close> has returned, or it
  receives.  The answer is the status and the body; a writer that has returned, or that returns an
  error instead of answering, is the deadline of the request.
\<close>

datatype writer = No_recording | Write_returned | Receiving recorder

text \<open>\<open>Rotator.Rotate\<close>: the path that was closed, or None when the context ends first.\<close>

definition ask_rotate :: "Recorder.world \<Rightarrow> write_options \<Rightarrow> writer \<Rightarrow> writer \<times> string option" where
  "ask_rotate w opts wr =
     (case wr of
        Receiving s \<Rightarrow>
          (case write_step w opts Rotate_asked s of
             (s1, Answered path) \<Rightarrow> (Receiving s1, Some path)
           | (s1, _) \<Rightarrow> (Write_returned, None))
      | _ \<Rightarrow> (wr, None))"

definition admin_rotate :: "Recorder.world \<Rightarrow> write_options \<Rightarrow> writer \<Rightarrow> writer \<times> int \<times> string" where
  "admin_rotate w opts wr =
     (if wr = No_recording then (wr, 409, ''recording is not enabled'')
      else case ask_rotate w opts wr of
        (wr1, None) \<Rightarrow> (wr1, 503, ''rotate: context deadline exceeded'')
      | (wr1, Some path) \<Rightarrow>
          (wr1, 200, if path = [] then ''no file open; the next message starts a new one'' else ''closed '' @ path))"

text \<open>
  Further. A rotation leaves everything readable. On a disk without faults, asking a receiving recorder to
  rotate succeeds: no file stays open, every file it made is complete and well-formed, they hold the
  same messages as before, and the answer names the file that was open when there was one.
\<close>
theorem rotation_completes:
  assumes "faultless w" and "recording d0 s new" and "wo_Prefix opts \<noteq> []"
  shows "\<exists>s1 new1. admin_rotate w opts (Receiving s) = (Receiving s1, 200,
        case rr_file s of None \<Rightarrow> ''no file open; the next message starts a new one'' | Some f \<Rightarrow> ''closed '' @ wo_Prefix opts @ of_name f)
    \<and> rr_file s1 = None \<and> rr_disk s1 = d0 @ new1 \<and> disk_messages new1 = disk_messages new
    \<and> (\<forall>(n, f) \<in> set new1. well_framed f \<and> df_Complete f)"
proof -
  obtain s1 new1 where close: "close_current w s = (s1, True)" "recording d0 s1 new1" "disk_messages new1 = disk_messages new"
    "rr_file s1 = None" using close_current_recording [OF assms(1,2)] by blast
  have "rr_disk s1 = d0 @ new1" "\<forall>(n, f) \<in> set new1. well_framed f \<and> df_Complete f"
    using close(2,4) by (auto simp: recording_def)
  then show ?thesis
    using close assms(3) by (intro exI [of _ s1] exI [of _ new1]) (auto simp: admin_rotate_def ask_rotate_def Let_def split: option.splits)
qed

lemma rotation_completes_witness:
  "\<exists>s res answers s1 body. write_run plain_world hourly [Received (plain_record ''a'') noon] (new_recorder []) = (s, res, answers)
    \<and> admin_rotate plain_world hourly (Receiving s) = (Receiving s1, 200, body) \<and> map snd (disk_messages (rr_disk s1)) = [''a'']"
proof -
  obtain s res answers where run: "write_run plain_world hourly [Received (plain_record ''a'') noon] (new_recorder []) = (s, res, answers)"
    "res \<noteq> Failed"
    using steady_run [OF faultless_plain, of hourly 0 "[Received (plain_record ''a'') noon]"] by auto
  have "recording [] (new_recorder []) []" by (simp add: recording_def)
  from recording_run [OF this run faultless_plain] obtain new where new: "recording [] s new"
    "disk_messages new = map (as_message plain_world) [plain_record ''a'']" by (auto simp: disk_messages_def)
  have "map snd (disk_messages new) = [''a'']"
    unfolding new(2) by (simp add: as_message_def plain_world_def sealed_def plain_record_def)
  with rotation_completes [OF faultless_plain new(1), of hourly] run(1) show ?thesis by fastforce
qed

end
