(* ===== verification/Spec2Isabelle.thy ===== *)
theory Spec2Isabelle
  imports Go_Crypto Go_Json Frigate Policy States Occupancy Incidents Store Captoken Mediacache Cbor Webauthn Devices Auth Edl Server Media Warm Admin Go_Net Describe House Config Go_Time Recorder Rebuild Ingest Command
begin

text \<open>
  Curtilage watches a house through Frigate.  Frigate publishes what its cameras and classifiers
  see over MQTT; three policy engines decide which of it is an event worth telling anybody about;
  a store keeps the events of the last days, and serves them in pages and as streams to the app
  over gRPC and to a web page in the house; a media path cuts clips and stills out of Frigate's
  recordings, on disk and behind signed links; passkeys open the room where devices are enrolled
  and revoked.  The program is one process, written in Go.

  HOW A MESSAGE TRAVELS.  The MQTT client (\<open>internal/mqtt\<close>) makes a record of every message and puts
  it on a bounded channel; a goroutine of \<open>cmd/curtilage/main.go\<close> feeds it to the engines and hands
  it on to the recorder (\<open>internal/record\<close>), from whose files a restart rebuilds the store
  (\<open>internal/store/rebuild.go\<close>).  The engines are those of \<open>internal/policy\<close>: Incidents folds people
  and dogs moving about into activities, Occupancy keeps a ledger of what is parked in a zone,
  States debounces classifier verdicts.  What an engine emits, a Change (Started, Updated or Ended with the whole event), is applied to the
  store (\<open>internal/store\<close>), which pushes it to the watchers: the app's streams and the warmer
  (\<open>internal/server/warm.go\<close>), which fetches the event's cuts into the media cache
  (\<open>internal/mediacache\<close>) before anybody asks.  A request for media comes over gRPC or by a signed
  link (\<open>internal/captoken\<close>) and is answered from the cache or straight from Frigate.

  THEORIES AND SOURCES.

  The language and its standard library:
  \<^item> Prelude: instants, durations, Go maps, slices used as sets, sort.Search.
  \<^item> Go_Strings: strings, strconv, base64, base32, the escapes of net/url and filepath.
  \<^item> Go_Crypto: SHA-256 and HMAC, as executable functions.
  \<^item> Go_Json: the scanner, the decoder's values, and binary64 numbers rounded from rationals.
  \<^item> Go_Net: addresses and networks of packages net and netip; Go_Time: the proleptic calendar and
    the time stamps of package time.

  From the broker to the store:
  \<^item> Frigate (\<open>internal/frigate\<close>): topics, payloads, requests to Frigate's HTTP API and its answers.
  \<^item> Policy (\<open>internal/policy/policy.go\<close>, \<open>passthrough\<close>): events, kinds, verdicts, changes, the
    passthrough engine, Multi; \<open>run_engine\<close> folds an engine over a stream of messages, None being
    a panic.  The locale of an engine (its observer keeps an invariant, never panics and emits
    well-formed changes) is interpreted by every engine.
  \<^item> Incidents, Occupancy, States (the files of those names under \<open>internal/policy\<close>).
  \<^item> Store (\<open>internal/store/store.go\<close>): the map by id, the ordered index, paging by cursor,
    watchers with a buffer of 256, history of 64 revisions, pruning; \<open>log_step\<close> is what it stands
    for, the revisions of every id since it was last forgotten, and \<open>Store.store_is_its_log\<close> the refinement.
  \<^item> Recorder (\<open>internal/record/record.go\<close>): Write with its rotation, the names of the files, WriteFile
    and Read with its checksums; Rebuild (\<open>internal/store/rebuild.go\<close>): Feed, Rebuild and PruneFiles.
  \<^item> Ingest (\<open>internal/mqtt/client.go\<close> and the goroutines of \<open>cmdRun\<close>): the broker session, and the two
    channels as an inductive step relation whose runs interleave broker, engine and recorder.
  \<^item> Config (\<open>internal/config\<close>): validation, defaults, networks, credentials; Command
    (\<open>cmd/curtilage/main.go\<close>): the engines and media of a configuration, the replay, trim and summary
    commands, the rotation endpoint.

  The service:
  \<^item> Server (\<open>internal/server/server.go\<close>): the calls over the store and the events' wire form.
  \<^item> Auth (\<open>internal/server/auth.go\<close>): who may call, Enroll and Forget.
  \<^item> Media (\<open>internal/server/media.go\<close>): which cut of an event is served, links, the handler, the
    cached and the direct path; Mediacache (\<open>internal/mediacache\<close>): the cache, its flights and slots;
    Captoken (\<open>internal/captoken\<close>): the tokens in links; Edl (\<open>internal/edl\<close>): the scored cut of the
    follow view; Warm (\<open>internal/server/warm.go\<close>, \<open>stitch.go\<close>): the warmer and the stitcher.

  Who may change what:
  \<^item> Cbor and Webauthn (\<open>internal/webauthn\<close>): the reader of authenticator data and the checks of
    the two ceremonies.
  \<^item> Devices (\<open>internal/devices\<close>): the registry of devices, enrollment secrets and passkeys.
  \<^item> Admin (\<open>internal/house/admin.go\<close>): the passkey-gated area, its sessions, challenges and stages.

  The page in the house:
  \<^item> House (\<open>internal/house/house.go\<close>): who may see it, the rows, the summary by hour and the history;
    Describe (\<open>internal/policy/describe.go\<close>): the one sentence about an event.

  HOW THE CODE IS RENDERED.  A struct is a record with one field for each field of the struct, an
  enumeration a datatype, a method a function that takes the receiver's state and returns it
  updated.  Code under a mutex is one step; what other goroutines may do between two steps is a
  history, a list of operations or of messages, and the theorems quantify over it.  A panic is
  None, an error a value of a sum type.  Machine integers carry their wrap-around where it can be
  reached: durations saturate (\<open>time_sub\<close>), unix seconds are read as 64 bits, binary64 arithmetic
  is rounded after every operation (\<open>fl64\<close>).  Strings are lists of bytes.

  A Go map is an association list with distinct keys.  Wherever the result could depend on the
  order of a range over a map, the order is an argument (\<open>pick\<close>, \<open>ord\<close>) and a theorem either
  holds for all orders, says what does not depend on it (\<open>Mediacache.shed_least_recent\<close>; in
  \<open>Occupancy.presence_from_counts\<close> all but what an event says of its witnesses), or shows that it does (\<open>Edl.ties_are_random\<close>).

  WHAT IS A PARAMETER.  The clock (the times in a history), the source of randomness (the bytes a
  secret is made of), the file system's refusals, what Frigate answers, the signature check of
  the elliptic curve and of RSA, ffmpeg, the MCAP reader, protobuf's text and wire forms, url.Parse:
  arguments of the definitions that use them, or fields of
  the \<open>world\<close> of Media.  Nothing is assumed of them but where a theorem says so in its premises.

  FUEL AND TERMINATION.  Fuel stands where a loop has no structural recursion and the code gives a
  bound: \<open>shed_loop\<close> and \<open>evict_pending\<close> get the number of entries, and every round drops one; the
  reader of all pages (\<open>all_pages\<close>) needs more than the number of entries; the readers of JSON get the
  length of the text, those of CBOR the depth that the code itself allows.
  \<open>House.tally_pages\<close>, which asks the store for pages until there is no cursor, is a partial function,
  and \<open>House.page_counts_all\<close> proves that it returns; the loops of Edl, the search for a free name of a
  recording (\<open>try_names\<close>) and the decimal printer have termination proofs.  The channels hold 1024
  records, as in the code, and \<open>Ingest.pipeline_drains\<close> bounds the steps of a shutdown by the backlog.

  WHAT THE LEMMAS SHOW.  Each component has an invariant of its state that every operation keeps
  (\<open>incidents_inv\<close>, \<open>occ_inv\<close>, \<open>states_inv\<close>, \<open>store_inv\<close>, \<open>cache_inv\<close>, \<open>pending_ok\<close>, \<open>passkeys_ok\<close>,
  \<open>warmer_ok\<close>), so that it holds after any history; the engines' theorems then say what an event
  means (a belief endures, a departure needs an absence, an activity counts the largest group
  seen together), those of the store what a reader sees (the log, in complete pages;
  watchers miss nothing but when they are cut off), those of the media path what a link opens and that no truncated cut is ever frozen,
  those of the registry and of the admin area who gets in and who is locked out, and those of the
  recorder, the rebuilding and the pipeline that what was accepted is fed, recorded and found again
  after a restart, byte for byte and in order.  A theorem with premises is
  followed by a witness that applies it to concrete values.

  NOT MODELLED.
  \<^item> The exposition of metrics (\<open>internal/metrics\<close>): it prints the counters of the other parts.
  \<^item> The MCAP, protobuf and MQTT libraries: the recorder sees a file as the list of the operations
    written to it and gets reading back as the named hypotheses \<open>reader_ok\<close> and \<open>codec_ok\<close>, the broker
    is the order in which it calls the handlers.
  \<^item> Generated protobuf code (\<open>gen\<close>), the test helpers (\<open>internal/fixture\<close>, \<open>webauthntest\<close>), and the
    HTML templates with their scripts, which are text.
  \<^item> Flags, signals, listening, the hourly ticker around Prune and PruneFiles and the order of start-up
    in \<open>main.go\<close>; a Read that its caller cancels.
  \<^item> Inside a component, what its own theory says: the range requests of http.ServeContent, the
    writing of responses, log lines.
\<close>

section \<open>The policy of the household\<close>

text \<open>
  \<open>main\<close> runs the incidents, occupancy and states engines side by side
  (\<open>policy.Multi\<close> in \<open>cmd/curtilage/main.go\<close>).
\<close>

interpretation states_nil: engine_pair "states_observer pick" states_inv multi_nil "\<lambda>_. True" for pick
  by unfold_locales

interpretation occ_states: engine_pair "occ_observer pick_occ" occ_inv
  "multi_cons (states_observer pick_states) multi_nil" "\<lambda>s. states_inv (fst s) \<and> True" for pick_occ pick_states
  by unfold_locales

interpretation household: engine_pair incidents_observe incidents_inv
  "multi_cons (occ_observer pick_occ) (multi_cons (states_observer pick_states) multi_nil)"
  "\<lambda>s. occ_inv (fst s) \<and> states_inv (fst (snd s)) \<and> True" for pick_occ pick_states
  by unfold_locales

text \<open>
  C2. The household's policy never fails: fed any stream of messages, well-formed or not, in any
  order and with every map ranged over in any order, the three engines together never panic, and
  everything they say is fit for a reader: a 20-character id, a start time, a kind, a clip state and
  an operation.
\<close>

theorem household_never_panics:
  assumes "list_all message_ok ms"
  shows "\<exists>s cs. run_engine (household_observe pick_occ pick_states)
      (new_incidents ic, new_occupancy ws, new_states sc, ()) ms = Some (s, cs)
    \<and> list_all change_ok cs"
proof -
  have "incidents_inv (new_incidents ic)" "occ_inv (new_occupancy ws)" "states_inv (new_states sc)"
    by (rule incidents_inv_new occ_inv_new states_inv_new)+
  then show ?thesis
    using household.pair.run_ok [OF _ assms, of "(new_incidents ic, new_occupancy ws, new_states sc, ())"
        pick_occ pick_states]
    by (auto simp: household_observe_def)
qed

lemma household_never_panics_witness:
  "\<exists>s cs. run_engine (household_observe (\<lambda>_. \<lparr>ord_ledgers = [], ord_counts = \<lambda>_. [], ord_event = \<lambda>_. []\<rparr>) (\<lambda>_. []))
      (new_incidents default_incident_config, new_occupancy [], new_states [], ())
      [(10, ''frigate/events'', demo_payload)] = Some (s, cs)"
  using household_never_panics [of "[(10, ''frigate/events'', demo_payload)]"
      "\<lambda>_. \<lparr>ord_ledgers = [], ord_counts = \<lambda>_. [], ord_event = \<lambda>_. []\<rparr>" "\<lambda>_. []" default_incident_config "[]" "[]"]
  by (auto simp: message_ok_def)


text \<open>
  C3. The service outlives its messages. Started with an empty store and the engines of any
  configuration, whatever messages come with whatever payloads, in every interleaving of the broker,
  the feeding goroutine and the recorder, and with every map ranged over in any order: the engines
  never panic on the record that is next, the store keeps its invariant, and as long as the
  recorder receives, the goroutines alone drain the pipeline in at most as many steps as its backlog,
  with everything accepted fed and recorded.
\<close>

theorem pipeline_survives:
  assumes "ingest_run (household_observe pick_occ pick_states) (new_ingest (new_store retention, household_of cfg)) hs g"
    and "\<forall>now m. Message now m \<in> set hs \<longrightarrow> 0 < now"
  shows "can_feed (household_observe pick_occ pick_states) g \<and> store_inv (fst (ig_engine g))
    \<and> (ig_recording g \<longrightarrow> (\<exists>n g'. n \<le> backlog g
        \<and> ingest_run (household_observe pick_occ pick_states) g (replicate n Silent) g'
        \<and> drained g' \<and> ig_recorded g' = fed g @ ig_records g \<and> store_inv (fst (ig_engine g'))))"
proof -
  let ?inv = "\<lambda>s. incidents_inv (fst s) \<and> occ_inv (fst (snd s)) \<and> states_inv (fst (snd (snd s))) \<and> True"
  let ?obs = "household_observe pick_occ pick_states"
  have "safe_ingest ?inv (new_ingest (new_store retention, household_of cfg))"
    by (simp add: safe_ingest_def household_of_def store_inv_new incidents_inv_new occ_inv_new states_inv_new)
  then have safe: "safe_ingest ?inv g"
    using household.pair.safe_run [of pick_occ pick_states _ hs g] assms unfolding household_observe_def by blast
  have feeds: "can_feed ?obs g" using household.pair.safe_feeds [OF safe] by (simp add: household_observe_def)
  have "\<exists>n g'. n \<le> backlog g \<and> ingest_run ?obs g (replicate n Silent) g' \<and> drained g'
      \<and> ig_recorded g' = fed g @ ig_records g \<and> store_inv (fst (ig_engine g'))" if recording: "ig_recording g"
  proof -
    obtain n g' where run: "n \<le> backlog g" "ingest_run ?obs g (replicate n Silent) g'" "drained g'"
      "ig_recorded g' = fed g @ ig_records g"
      using household.pair.safe_drains [OF safe recording, of pick_occ pick_states] unfolding household_observe_def by blast
    then have "safe_ingest ?inv g'"
      using household.pair.safe_run [of pick_occ pick_states g "replicate n Silent" g'] safe
      unfolding household_observe_def by auto
    with run show ?thesis by (auto simp: safe_ingest_def)
  qed
  with feeds safe show ?thesis by (auto simp: safe_ingest_def)
qed

lemma pipeline_survives_witness:
  "\<exists>g n g'. ingest_run (household_observe (\<lambda>_. \<lparr>ord_ledgers = [], ord_counts = \<lambda>_. [], ord_event = \<lambda>_. []\<rparr>) (\<lambda>_. []))
      (new_ingest (new_store (336 * Hour), household_of sample_config)) two_messages g
    \<and> ingest_run (household_observe (\<lambda>_. \<lparr>ord_ledgers = [], ord_counts = \<lambda>_. [], ord_event = \<lambda>_. []\<rparr>) (\<lambda>_. [])) g (replicate n Silent) g'
    \<and> drained g' \<and> ig_recorded g' = two_records \<and> store_inv (fst (ig_engine g'))"
proof -
  obtain g where g: "ingest_run (household_observe (\<lambda>_. \<lparr>ord_ledgers = [], ord_counts = \<lambda>_. [], ord_event = \<lambda>_. []\<rparr>) (\<lambda>_. []))
      (new_ingest (new_store (336 * Hour), household_of sample_config)) two_messages g"
    "ig_recording g" "fed g @ ig_records g = two_records" using two_messages_arrive by blast
  from pipeline_survives [OF g(1)] g show ?thesis by fastforce
qed


end
